(* ===== verification/Prelude.thy ===== *)
theory Prelude
  imports Main "HOL-Library.Word" "HOL-Library.Multiset"
begin

text \<open>
  Shared vocabulary of the development: the machine integer types of the 32-bit
  monitor, the result type in which every \<open>ASSERT\<close>, \<open>PANIC\<close> and processor trap
  of the sources is a value, a fold over that result type for counted loops, and
  the generic facts on words and lists that the component theories use.
\<close>

unbundle bit_operations_syntax

subsection \<open>Types\<close>

type_synonym u8 = "8 word"
type_synonym u16 = "16 word"
type_synonym u32 = "32 word"
type_synonym u64 = "64 word"

text \<open>
  The ways a routine of the monitor stops without returning: a failed \<open>ASSERT\<close>,
  an explicit \<open>PANIC\<close>, \<open>NOT_IMPLEMENTED\<close>, \<open>NOT_REACHED\<close> or \<open>ABORT\<close>
  (\<^verbatim>\<open>lib/debug.h\<close>), the divide error trap, an access outside an array,
  a call that puts the calling thread to sleep, and a loop of unknown length that
  has used up the number of rounds it was given.
\<close>

datatype fault =
    ASSERT_FAIL | PANIC | NOT_IMPLEMENTED | NOT_REACHED | ABORT
  | DIVIDE_ERROR | OUT_OF_BOUNDS | WOULD_BLOCK | OUT_OF_FUEL

type_synonym 'a res = "fault + 'a"

fun rbind :: "'a res \<Rightarrow> ('a \<Rightarrow> 'b res) \<Rightarrow> 'b res" where
  "rbind (Inl e) f = Inl e"
| "rbind (Inr x) f = f x"

definition assert_then :: "bool \<Rightarrow> 'a res \<Rightarrow> 'a res" where
  "assert_then b r = (if b then r else Inl ASSERT_FAIL)"

text \<open>A counted loop whose body may stop: the body is run on the list of counter values.\<close>

fun rfold :: "('a \<Rightarrow> 's \<Rightarrow> 's res) \<Rightarrow> 'a list \<Rightarrow> 's \<Rightarrow> 's res" where
  "rfold f [] s = Inr s"
| "rfold f (x # xs) s = rbind (f x s) (rfold f xs)"

text \<open>Loops that leave early: at the first element with a property.\<close>

fun rexists :: "('a \<Rightarrow> bool res) \<Rightarrow> 'a list \<Rightarrow> bool res" where
  "rexists p [] = Inr False"
| "rexists p (x # xs) = rbind (p x) (\<lambda>b. if b then Inr True else rexists p xs)"

fun rfind :: "('a \<Rightarrow> bool res) \<Rightarrow> 'a list \<Rightarrow> 'a option res" where
  "rfind p [] = Inr None"
| "rfind p (x # xs) = rbind (p x) (\<lambda>b. if b then Inr (Some x) else rfind p xs)"

text \<open>\<open>size_t\<close> is 32 bits wide; its sums wrap.\<close>

definition usize :: "nat \<Rightarrow> nat" where
  "usize n = n mod 2 ^ 32"

definition SIZE_MAX :: nat where
  "SIZE_MAX = 2 ^ 32 - 1"

subsection \<open>Fact collections\<close>

named_theorems res_simps \<open>evaluation of the result type\<close>
named_theorems reg_defs \<open>named constants of registers and flags\<close>

lemma assert_then_simps [simp, res_simps]:
  "assert_then True r = r"
  "assert_then False r = Inl ASSERT_FAIL"
  by (simp_all add: assert_then_def)

lemma assert_then_Inr [res_simps]:
  "assert_then b r = Inr x \<longleftrightarrow> b \<and> r = Inr x"
  by (simp add: assert_then_def)

lemma rbind_Inr [res_simps]:
  "rbind r f = Inr y \<longleftrightarrow> (\<exists>x. r = Inr x \<and> f x = Inr y)"
  by (cases r) auto

lemma rbind_Inl:
  "rbind r f = Inl e \<longleftrightarrow> r = Inl e \<or> (\<exists>x. r = Inr x \<and> f x = Inl e)"
  by (cases r) auto

lemma rbind_assoc: "rbind (rbind r f) g = rbind r (\<lambda>x. rbind (f x) g)"
  by (cases r) auto

lemma rbind_Inr_right [simp]: "rbind r Inr = r"
  by (cases r) auto

lemma rbind_cong: "r = r' \<Longrightarrow> (\<And>x. r' = Inr x \<Longrightarrow> f x = g x) \<Longrightarrow> rbind r f = rbind r' g"
  by (cases r') auto

lemma rfold_append: "rfold f (xs @ ys) s = rbind (rfold f xs s) (rfold f ys)"
  by (induction xs arbitrary: s) (simp_all add: rbind_assoc fun_eq_iff cong: rbind_cong)

text \<open>Total correctness of a counted loop: the invariant speaks of the counter values done so far.\<close>

lemma rfold_upt_total:
  assumes "P a s" and "a \<le> b"
    and "\<And>i s. a \<le> i \<Longrightarrow> i < b \<Longrightarrow> P i s \<Longrightarrow> \<exists>s'. f i s = Inr s' \<and> P (Suc i) s'"
  shows "\<exists>s'. rfold f [a..<b] s = Inr s' \<and> P b s'"
  using assms
proof (induction "b - a" arbitrary: a s)
  case 0
  then show ?case by auto
next
  case (Suc n)
  then have "a < b" by simp
  then obtain s1 where s1: "f a s = Inr s1" "P (Suc a) s1"
    using Suc.prems by blast
  have "\<exists>s'. rfold f [Suc a..<b] s1 = Inr s' \<and> P b s'"
    using Suc.prems Suc.hyps(2) s1 by (intro Suc.hyps(1)) auto
  then show ?case using s1 \<open>a < b\<close> by (simp add: upt_conv_Cons)
qed

text \<open>The same for a loop that counts down from \<open>b\<close> to \<open>a + 1\<close>.\<close>

lemma rfold_down_total:
  assumes "P b s" and "a \<le> b"
    and "\<And>i s. a \<le> i \<Longrightarrow> i < b \<Longrightarrow> P (Suc i) s \<Longrightarrow> \<exists>s'. f i s = Inr s' \<and> P i s'"
  shows "\<exists>s'. rfold f (rev [a..<b]) s = Inr s' \<and> P a s'"
  using assms
proof (induction "b - a" arbitrary: b s)
  case 0
  then show ?case by auto
next
  case (Suc n)
  then obtain c where c: "b = Suc c" "a \<le> c" by (cases b) auto
  then obtain s1 where s1: "f c s = Inr s1" "P c s1" using Suc.prems by blast
  have "\<exists>s'. rfold f (rev [a..<c]) s1 = Inr s' \<and> P a s'"
    using Suc.prems(3) Suc.hyps(2) s1 c by (intro Suc.hyps(1)) auto
  then show ?case using s1 c by simp
qed

text \<open>An invariant kept by every run of the body is kept by the loop.\<close>

lemma rfold_invariant:
  assumes "rfold f xs s = Inr s'" and "P s"
    and "\<And>x s s'. x \<in> set xs \<Longrightarrow> P s \<Longrightarrow> f x s = Inr s' \<Longrightarrow> P s'"
  shows "P s'"
  using assms
proof (induction xs arbitrary: s)
  case Nil
  then show ?case by simp
next
  case (Cons x xs)
  from Cons.prems(1) obtain t where t: "f x s = Inr t" "rfold f xs t = Inr s'"
    by (auto simp: rbind_Inr)
  have "P t" using Cons.prems(2,3) t(1) by (meson list.set_intros(1))
  moreover have "\<And>y u u'. y \<in> set xs \<Longrightarrow> P u \<Longrightarrow> f y u = Inr u' \<Longrightarrow> P u'"
    using Cons.prems(3) by (meson list.set_intros(2))
  ultimately show ?case using Cons.IH t(2) by blast
qed

lemma rexists_pure:
  "(\<And>x. x \<in> set xs \<Longrightarrow> p x = Inr (q x)) \<Longrightarrow> rexists p xs = Inr (\<exists>x \<in> set xs. q x)"
  by (induction xs) auto

lemma rfind_pure:
  "(\<And>x. x \<in> set xs \<Longrightarrow> p x = Inr (q x)) \<Longrightarrow> rfind p xs = Inr (List.find q xs)"
  by (induction xs) auto

lemma usize_id [simp]: "n < 2 ^ 32 \<Longrightarrow> usize n = n"
  by (simp add: usize_def)

lemma find_upt_Some:
  assumes "List.find q [a..<b] = Some i"
  shows "a \<le> i" "i < b" "q i" "\<And>j. a \<le> j \<Longrightarrow> j < i \<Longrightarrow> \<not> q j"
proof -
  obtain k where k: "k < b - a" "q (a + k)" "i = a + k" "\<And>j. j < k \<Longrightarrow> \<not> q (a + j)"
    using assms unfolding find_Some_iff by fastforce
  show "a \<le> i" "i < b" "q i" using k by auto
  show "\<not> q j" if "a \<le> j" "j < i" for j
    using k(4) [of "j - a"] k(3) that by simp
qed

lemma ex_shift:
  "(\<exists>i \<in> set [0..<n]. P (a + i)) \<longleftrightarrow> (\<exists>i. a \<le> i \<and> i < a + n \<and> P i)"
proof
  assume "\<exists>i. a \<le> i \<and> i < a + n \<and> P i"
  then obtain i where "a \<le> i" "i < a + n" "P i" by blast
  then show "\<exists>i \<in> set [0..<n]. P (a + i)" by (intro bexI [of _ "i - a"]) auto
next
  assume "\<exists>i \<in> set [0..<n]. P (a + i)"
  then obtain i where "i < n" "P (a + i)" by auto
  then show "\<exists>i. a \<le> i \<and> i < a + n \<and> P i" by (intro exI [of _ "a + i"]) simp
qed

lemma find_append:
  "List.find q (xs @ ys) = (case List.find q xs of Some x \<Rightarrow> Some x | None \<Rightarrow> List.find q ys)"
  by (induction xs) auto

lemma find_upt_None: "List.find q [a..<b] = None \<longleftrightarrow> (\<forall>i. a \<le> i \<and> i < b \<longrightarrow> \<not> q i)"
  by (auto simp: find_None_iff)

subsection \<open>Words\<close>

lemma word_and_mask_unat: "unat (x AND mask n :: 'a::len word) = unat x mod 2 ^ n"
  by (simp add: unsigned_take_bit_eq flip: take_bit_eq_mask) (simp add: take_bit_eq_mod)

lemma and_not_mask_plus: "(x AND NOT (mask n)) + (x AND mask n) = (x :: 'a::len word)"
proof -
  have "(x AND NOT (mask n)) + (x AND mask n) = (x AND NOT (mask n)) OR (x AND mask n)"
    by (rule disjunctive_add) (auto simp: bit_simps)
  also have "\<dots> = x"
    by (rule bit_word_eqI) (auto simp: bit_simps)
  finally show ?thesis .
qed

lemma word_and_not_mask_unat:
  "unat (x AND NOT (mask n) :: 'a::len word) = unat x - unat x mod 2 ^ n"
proof -
  have eq: "x AND NOT (mask n) = x - (x AND mask n)"
    using and_not_mask_plus [of x n] by (simp add: algebra_simps)
  have le: "x AND mask n \<le> x"
    by (rule word_and_le2)
  show ?thesis
    unfolding eq using le by (simp add: unat_sub word_and_mask_unat)
qed

lemma word_small_bit:
  assumes "unat (w :: 'a::len word) < 2 ^ n" and "n \<le> m"
  shows "\<not> bit w m"
proof -
  have "take_bit n w = w"
    using assms(1) by (simp add: word_unat_eq_iff unsigned_take_bit_eq take_bit_nat_eq_self)
  then show ?thesis using assms(2) by (metis bit_take_bit_iff linorder_not_less)
qed

lemma unat_u32: "unat (x :: u32) < 0x100000000"
  using unsigned_less [of x] by simp

lemma unat_u64: "unat (x :: u64) < 0x10000000000000000"
  using unsigned_less [of x] by simp

lemma unat_Suc_less:
  assumes "(x :: 'a::len word) < y"
  shows "unat (x + 1) = Suc (unat x)"
proof -
  have "Suc (unat x) \<le> unat y" using assms by (simp add: word_less_nat_alt)
  also have "\<dots> < 2 ^ LENGTH('a)" by (rule unsigned_less)
  finally show ?thesis by (simp add: unat_word_ariths)
qed

lemma bit_push_one: "bit (push_bit n 1 :: 'a::len word) m \<longleftrightarrow> n = m \<and> m < LENGTH('a)"
  by (auto simp: bit_simps)

lemma and_push_one_zero:
  "x AND push_bit n (1 :: 'a::len word) = 0 \<longleftrightarrow> \<not> bit x n"
  by (metis and_exp_eq_0_iff_not_bit push_bit_of_1)

lemma word_nonzero_bit: "(w :: 'a::len word) \<noteq> 0 \<longleftrightarrow> (\<exists>n < LENGTH('a). bit w n)"
  by (metis bit_0_eq bit_word_eqI bot_apply bot_bool_def)

subsection \<open>Comparison\<close>

text \<open>
  What a comparison callback must satisfy: it is the strict part of a total preorder.
\<close>

definition weak_order :: "('a \<Rightarrow> 'a \<Rightarrow> bool) \<Rightarrow> bool" where
  "weak_order lt \<longleftrightarrow> (\<forall>a b. lt a b \<longrightarrow> \<not> lt b a) \<and> (\<forall>a b c. \<not> lt a b \<longrightarrow> \<not> lt b c \<longrightarrow> \<not> lt a c)"

lemma weak_orderD:
  assumes "weak_order lt"
  shows "lt a b \<Longrightarrow> \<not> lt b a" "\<not> lt a b \<Longrightarrow> \<not> lt b c \<Longrightarrow> \<not> lt a c"
  using assms unfolding weak_order_def by blast+

text \<open>The same of a comparison that is only lawful on the elements of a set.\<close>

definition weak_order_on :: "'a set \<Rightarrow> ('a \<Rightarrow> 'a \<Rightarrow> bool) \<Rightarrow> bool" where
  "weak_order_on A lt \<longleftrightarrow> (\<forall>a \<in> A. \<forall>b \<in> A. lt a b \<longrightarrow> \<not> lt b a)
     \<and> (\<forall>a \<in> A. \<forall>b \<in> A. \<forall>c \<in> A. \<not> lt a b \<longrightarrow> \<not> lt b c \<longrightarrow> \<not> lt a c)"

lemma weak_order_onD:
  assumes "weak_order_on A lt"
  shows "lt a b \<Longrightarrow> a \<in> A \<Longrightarrow> b \<in> A \<Longrightarrow> \<not> lt b a"
    "\<not> lt a b \<Longrightarrow> \<not> lt b c \<Longrightarrow> a \<in> A \<Longrightarrow> b \<in> A \<Longrightarrow> c \<in> A \<Longrightarrow> \<not> lt a c"
  using assms unfolding weak_order_on_def by blast+

lemma weak_order_on_any: "weak_order lt \<Longrightarrow> weak_order_on A lt"
  unfolding weak_order_def weak_order_on_def by blast

subsection \<open>First in, first out\<close>

text \<open>
  What a client of a queue relies on: an element put in is behind those already there, and
  the element got out is the first one.  \<open>room\<close> is the condition under which an element can
  be put in.
\<close>

locale fifo =
  fixes holds :: "'s \<Rightarrow> 'a list \<Rightarrow> bool"
    and room :: "'a \<Rightarrow> 'a list \<Rightarrow> bool"
    and put :: "'a \<Rightarrow> 's \<Rightarrow> 's res"
    and get :: "'s \<Rightarrow> ('a \<times> 's) res"
  assumes put: "holds s xs \<Longrightarrow> room x xs \<Longrightarrow> \<exists>s'. put x s = Inr s' \<and> holds s' (xs @ [x])"
    and get: "holds s (x # xs) \<Longrightarrow> \<exists>s'. get s = Inr (x, s') \<and> holds s' xs"
begin

fun gets :: "nat \<Rightarrow> 's \<Rightarrow> ('a list \<times> 's) res" where
  "gets 0 s = Inr ([], s)"
| "gets (Suc n) s = rbind (get s) (\<lambda>(x, s). rbind (gets n s) (\<lambda>(xs, s). Inr (x # xs, s)))"

lemma puts:
  assumes "holds s xs" "\<And>as x bs. ys = as @ x # bs \<Longrightarrow> room x (xs @ as)"
  shows "\<exists>s'. rfold put ys s = Inr s' \<and> holds s' (xs @ ys)"
  using assms
proof (induction ys arbitrary: s xs)
  case (Cons y ys)
  obtain s1 where s1: "put y s = Inr s1" "holds s1 (xs @ [y])"
    using put [OF Cons.prems(1), of y] Cons.prems(2) [of "[]" y ys] by auto
  have "room x ((xs @ [y]) @ as)" if "ys = as @ x # bs" for as x bs
    using Cons.prems(2) [of "y # as" x bs] that by simp
  then show ?case using Cons.IH [OF s1(2)] s1(1) by auto
qed simp

lemma gets: "holds s (xs @ ys) \<Longrightarrow> \<exists>s'. gets (length xs) s = Inr (xs, s') \<and> holds s' ys"
proof (induction xs arbitrary: s)
  case (Cons x xs)
  then obtain s1 where s1: "get s = Inr (x, s1)" "holds s1 (xs @ ys)" using get [of s x "xs @ ys"] by auto
  from Cons.IH [OF s1(2)] s1(1) show ?case by auto
qed simp

text \<open>What is put into an empty queue comes out in the same order.\<close>

lemma in_order:
  assumes "holds s []" "\<And>as x bs. ys = as @ x # bs \<Longrightarrow> room x as"
  shows "\<exists>s' s''. rfold put ys s = Inr s' \<and> gets (length ys) s' = Inr (ys, s'') \<and> holds s'' []"
proof -
  obtain s' where s': "rfold put ys s = Inr s'" "holds s' (ys @ [])"
    using puts [OF assms(1), of ys] assms(2) by auto
  from gets [OF s'(2)] s'(1) show ?thesis by blast
qed

end

end
