(* ===== verification/Vaddr.thy ===== *)
theory Vaddr
  imports Prelude
begin

text \<open>
  Virtual and physical addresses of the monitor: \<^verbatim>\<open>mem/vaddr.h\<close>,
  \<^verbatim>\<open>mem/pte.h\<close> and the address constants of \<^verbatim>\<open>sys/loader.h\<close>. Addresses
  are 32-bit words; the translation macros return \<open>ASSERT_FAIL\<close> where their
  \<open>ASSERT\<close> fails. The lemmas give the arithmetic meaning of the masks, the
  decomposition of an address into its three indices, and the round trips
  between physical and monitor addresses and between page table entries and the
  pages they name.
\<close>

subsection \<open>Constants\<close>

definition BITMASK :: "nat \<Rightarrow> nat \<Rightarrow> u32" where
  "BITMASK shift cnt = push_bit shift (push_bit cnt 1 - 1)"

definition PGBITS :: nat where [reg_defs]: "PGBITS = 12"
definition PGSIZE :: u32 where [reg_defs]: "PGSIZE = 0x1000"
definition PGMASK :: u32 where "PGMASK = BITMASK 0 PGBITS"
definition LPGBITS :: nat where [reg_defs]: "LPGBITS = 22"
definition LPGSIZE :: u32 where [reg_defs]: "LPGSIZE = 0x400000"
definition LPGMASK :: u32 where "LPGMASK = BITMASK 0 LPGBITS"

definition PTBITS :: nat where [reg_defs]: "PTBITS = 10"
definition PTMASK :: u32 where "PTMASK = BITMASK PGBITS PTBITS"
definition PDSHIFT :: nat where [reg_defs]: "PDSHIFT = PGBITS + PTBITS"

definition LOADER_MONITOR_BASE :: u32 where [reg_defs]: "LOADER_MONITOR_BASE = 0x400000"
definition MONITOR_SIZE :: u32 where [reg_defs]: "MONITOR_SIZE = 0x800000"
definition LOADER_MONITOR_END :: u32 where
  [reg_defs]: "LOADER_MONITOR_END = LOADER_MONITOR_BASE + MONITOR_SIZE"
definition MONITOR_BASE :: u32 where [reg_defs]: "MONITOR_BASE = 0xff800000"

definition PTE_FLAGS :: u32 where [reg_defs]: "PTE_FLAGS = 0xfff"
definition PTE_ADDR :: u32 where [reg_defs]: "PTE_ADDR = 0xfffff000"
definition LPTE_ADDR :: u32 where [reg_defs]: "LPTE_ADDR = 0xffc00000"
definition PTE_P :: u32 where [reg_defs]: "PTE_P = 0x1"
definition PTE_W :: u32 where [reg_defs]: "PTE_W = 0x2"
definition PTE_U :: u32 where [reg_defs]: "PTE_U = 0x4"
definition PTE_A :: u32 where [reg_defs]: "PTE_A = 0x20"
definition PTE_D :: u32 where [reg_defs]: "PTE_D = 0x40"
definition PTE_PS :: u32 where [reg_defs]: "PTE_PS = 0x80"
definition PTE_G :: u32 where [reg_defs]: "PTE_G = 0x100"

subsection \<open>Page arithmetic\<close>

definition pg_ofs :: "u32 \<Rightarrow> u32" where
  "pg_ofs va = va AND PGMASK"

definition lpg_ofs :: "u32 \<Rightarrow> u32" where
  "lpg_ofs va = va AND LPGMASK"

definition pg_no :: "u32 \<Rightarrow> u32" where
  "pg_no va = drop_bit PGBITS va"

definition pg_round_up :: "u32 \<Rightarrow> u32" where
  "pg_round_up va = (va + PGSIZE - 1) AND NOT PGMASK"

definition pg_round_down :: "u32 \<Rightarrow> u32" where
  "pg_round_down va = va AND NOT PGMASK"

definition pt_no :: "u32 \<Rightarrow> u32" where
  "pt_no va = drop_bit PGBITS (va AND PTMASK)"

definition pd_no :: "u32 \<Rightarrow> u32" where
  "pd_no va = drop_bit PDSHIFT va"

subsection \<open>Translation between physical and monitor addresses\<close>

definition is_monitor_vaddr :: "u32 \<Rightarrow> bool" where
  "is_monitor_vaddr va \<longleftrightarrow> va \<ge> MONITOR_BASE"

definition ptov_phy :: "u32 \<Rightarrow> u32" where
  "ptov_phy x = x"

definition vtop_phy :: "u32 \<Rightarrow> u32" where
  "vtop_phy x = x"

definition ptov_mon :: "u32 \<Rightarrow> u32 res" where
  "ptov_mon x =
     assert_then (x \<ge> LOADER_MONITOR_BASE \<and> x < LOADER_MONITOR_BASE + (MONITOR_SIZE - 1))
       (Inr (x + (MONITOR_BASE - LOADER_MONITOR_BASE)))"

definition vtop_mon :: "u32 \<Rightarrow> u32 res" where
  "vtop_mon x =
     assert_then (x \<ge> MONITOR_BASE \<and> x \<le> MONITOR_BASE + (MONITOR_SIZE - 1))
       (Inr (x - (MONITOR_BASE - LOADER_MONITOR_BASE)))"

definition ptov :: "u32 \<Rightarrow> u32 res" where
  "ptov x =
     (if x AND 1 \<noteq> 0 then assert_then (x = 1) (Inr x)
      else if x \<ge> LOADER_MONITOR_BASE \<and> x < LOADER_MONITOR_END then ptov_mon x
      else Inr x)"

definition vtop :: "u32 \<Rightarrow> u32 res" where
  "vtop x = (if x \<ge> MONITOR_BASE then vtop_mon x else Inr x)"

subsection \<open>Page directory and page table entries\<close>

definition pde_create :: "u32 \<Rightarrow> bool \<Rightarrow> u32 res" where
  "pde_create pt writable =
     assert_then (pg_ofs pt = 0)
       (rbind (vtop_mon pt) (\<lambda>p. Inr (p OR PTE_U OR PTE_P OR (if writable then PTE_W else 0))))"

definition pde_get_pt_mon :: "u32 \<Rightarrow> u32 res" where
  "pde_get_pt_mon pde = ptov_mon (pde AND PTE_ADDR)"

definition pte_create :: "u32 \<Rightarrow> bool \<Rightarrow> u32 res" where
  "pte_create paddr writable =
     assert_then (pg_ofs (ptov_phy paddr) = 0)
       (Inr (paddr OR PTE_U OR PTE_P OR (if writable then PTE_W else 0)))"

definition pte_get_page :: "u32 \<Rightarrow> u32" where
  "pte_get_page pte = ptov_phy (pte AND PTE_ADDR)"

definition pde_create_large :: "u32 \<Rightarrow> bool \<Rightarrow> u32 res" where
  "pde_create_large paddr writable =
     assert_then (pg_ofs (ptov_phy paddr) = 0)
       (Inr (paddr OR PTE_U OR PTE_PS OR PTE_G OR PTE_P OR (if writable then PTE_W else 0)))"

definition pde_create_mon :: "u32 \<Rightarrow> bool \<Rightarrow> u32" where
  "pde_create_mon paddr writable =
     paddr OR PTE_U OR PTE_P OR (if writable then PTE_W else 0)"

definition pde_create_large_mon :: "u32 \<Rightarrow> bool \<Rightarrow> u32" where
  "pde_create_large_mon paddr writable =
     paddr OR PTE_U OR PTE_PS OR PTE_G OR PTE_P OR (if writable then PTE_W else 0)"

subsection \<open>The masks\<close>

lemma BITMASK_mask: "BITMASK s c = push_bit s (mask c)"
  by (simp add: BITMASK_def mask_eq_decr_exp)

lemma PGMASK_mask: "PGMASK = mask 12"
  by (simp add: PGMASK_def BITMASK_mask PGBITS_def)

lemma LPGMASK_mask: "LPGMASK = mask 22"
  by (simp add: LPGMASK_def BITMASK_mask LPGBITS_def)

lemma PTE_ADDR_mask: "PTE_ADDR = NOT (mask 12)"
  by (simp add: PTE_ADDR_def mask_eq_decr_exp)

lemma LPTE_ADDR_mask: "LPTE_ADDR = NOT (mask 22)"
  by (simp add: LPTE_ADDR_def mask_eq_decr_exp)

lemma bit_PTMASK: "bit PTMASK n \<longleftrightarrow> 12 \<le> n \<and> n < 22"
  by (auto simp: PTMASK_def BITMASK_mask PGBITS_def PTBITS_def bit_simps)

lemma unat_pg_ofs: "unat (pg_ofs va) = unat va mod 4096"
  by (simp add: pg_ofs_def PGMASK_mask word_and_mask_unat)

lemma unat_lpg_ofs: "unat (lpg_ofs va) = unat va mod 0x400000"
  by (simp add: lpg_ofs_def LPGMASK_mask word_and_mask_unat)

lemma unat_pg_no: "unat (pg_no va) = unat va div 4096"
  by (simp add: pg_no_def PGBITS_def unat_drop_bit_eq) (simp add: drop_bit_eq_div)

lemma unat_pg_round_down: "unat (pg_round_down va) = unat va - unat va mod 4096"
  by (simp add: pg_round_down_def PGMASK_mask word_and_not_mask_unat)

lemma pt_no_take_bit: "pt_no va = take_bit 10 (drop_bit 12 va)"
  by (rule bit_word_eqI) (auto simp: pt_no_def PGBITS_def bit_simps bit_PTMASK)

lemma unat_pt_no: "unat (pt_no va) = unat va div 4096 mod 1024"
  by (simp add: pt_no_take_bit unsigned_take_bit_eq unat_drop_bit_eq)
    (simp add: take_bit_eq_mod drop_bit_eq_div)

lemma unat_pd_no: "unat (pd_no va) = unat va div 0x400000"
  by (simp add: pd_no_def PDSHIFT_def PTBITS_def PGBITS_def unat_drop_bit_eq)
    (simp add: drop_bit_eq_div)

lemma pd_pt_bounds: "unat (pd_no va) < 1024" "unat (pt_no va) < 1024" "unat (pg_ofs va) < 4096"
proof -
  have "unat va < 2 ^ 32" using unsigned_less [of va] by simp
  then show "unat (pd_no va) < 1024" by (simp add: unat_pd_no)
qed (simp_all add: unat_pt_no unat_pg_ofs)

lemma or_and_distrib_addr: "p AND PTE_ADDR = p \<Longrightarrow> f AND PTE_ADDR = 0 \<Longrightarrow> (p OR f) AND PTE_ADDR = p"
  for p f :: u32
  by (simp add: bit.conj_disj_distrib2)

lemma pg_ofs_zero_addr: "pg_ofs va = 0 \<longleftrightarrow> va AND PTE_ADDR = va"
proof -
  have "(va AND PTE_ADDR) + pg_ofs va = va"
    using and_not_mask_plus [of va 12] by (simp add: pg_ofs_def PGMASK_mask PTE_ADDR_mask)
  then show ?thesis by (metis add.right_neutral add_left_cancel)
qed

text \<open>The flags of an entry as its bits.\<close>

lemma PTE_flag_bits:
  "PTE_P = push_bit 0 1" "PTE_W = push_bit 1 1" "PTE_U = push_bit 2 1" "PTE_A = push_bit 5 1"
  "PTE_D = push_bit 6 1" "PTE_PS = push_bit 7 1" "PTE_G = push_bit 8 1"
  by (simp_all add: reg_defs)

lemma PTE_flag_test:
  "pte AND PTE_P = 0 \<longleftrightarrow> \<not> bit pte 0" "pte AND PTE_W = 0 \<longleftrightarrow> \<not> bit pte 1"
  "pte AND PTE_U = 0 \<longleftrightarrow> \<not> bit pte 2" "pte AND PTE_A = 0 \<longleftrightarrow> \<not> bit pte 5"
  "pte AND PTE_D = 0 \<longleftrightarrow> \<not> bit pte 6" "pte AND PTE_PS = 0 \<longleftrightarrow> \<not> bit pte 7"
  "pte AND PTE_G = 0 \<longleftrightarrow> \<not> bit pte 8"
  by (simp_all only: PTE_flag_bits and_push_one_zero)

lemma PTE_bit:
  "bit PTE_P n \<longleftrightarrow> n = 0" "bit PTE_W n \<longleftrightarrow> n = 1" "bit PTE_U n \<longleftrightarrow> n = 2" "bit PTE_A n \<longleftrightarrow> n = 5"
  "bit PTE_D n \<longleftrightarrow> n = 6" "bit PTE_PS n \<longleftrightarrow> n = 7" "bit PTE_G n \<longleftrightarrow> n = 8"
  "bit PTE_ADDR n \<longleftrightarrow> 12 \<le> n \<and> n < 32" "bit LPTE_ADDR n \<longleftrightarrow> 22 \<le> n \<and> n < 32"
  unfolding PTE_flag_bits bit_push_one PTE_ADDR_mask LPTE_ADDR_mask by (auto simp: bit_simps)

lemma aligned_bits: "pg_ofs va = 0 \<longleftrightarrow> (\<forall>n < 12. \<not> bit va n)"
proof
  assume "pg_ofs va = 0"
  then have eq: "bit (pg_ofs va) n = bit 0 n" for n by simp
  show "\<forall>n < 12. \<not> bit va n"
  proof (intro allI impI)
    fix n :: nat assume "n < 12"
    then show "\<not> bit va n" using eq [of n] by (simp add: pg_ofs_def PGMASK_mask bit_simps)
  qed
next
  assume "\<forall>n < 12. \<not> bit va n"
  then show "pg_ofs va = 0"
    by (intro bit_word_eqI) (auto simp: pg_ofs_def PGMASK_mask bit_simps)
qed

lemma pg_ofs_diff:
  assumes "pg_ofs a = 0" and "0xff400000 \<le> a"
  shows "pg_ofs (a - 0xff400000) = 0"
proof -
  have "unat (a - 0xff400000) = unat a - 0xff400000"
    using assms(2) by (simp add: unat_sub)
  moreover have "4096 dvd unat a"
    using assms(1) unat_pg_ofs [of a] by (simp add: dvd_eq_mod_eq_0)
  moreover have "4096 dvd (0xff400000 :: nat)"
    by (simp add: dvd_eq_mod_eq_0)
  ultimately have "4096 dvd unat (a - 0xff400000)"
    by (metis dvd_diff_nat)
  then show ?thesis
    using unat_pg_ofs [of "a - 0xff400000"] by (simp only: dvd_eq_mod_eq_0 unat_eq_zero)
qed

lemma le_max_u32 [simp]: "x \<le> (0xffffffff :: u32)"
  using unat_u32 [of x] by (simp add: word_le_nat_alt)

lemma vtop_of_ptov_mon:
  assumes "ptov_mon p = Inr v"
  shows "vtop_mon v = Inr p \<and> is_monitor_vaddr v"
proof -
  from assms have p: "p \<ge> 0x400000" "p < 0xbfffff" and v: "v = p + 0xff400000"
    by (auto simp: ptov_mon_def assert_then_Inr reg_defs)
  have "v \<ge> 0xff800000"
    using p unfolding v by (simp add: word_le_nat_alt word_less_nat_alt unat_word_ariths)
  then show ?thesis
    by (auto simp: vtop_mon_def is_monitor_vaddr_def assert_then_def reg_defs v)
qed

lemma monitor_inverse_mon:
  assumes "vtop_mon v = Inr p"
  shows "ptov_mon p = (if v = 0xffffffff then Inl ASSERT_FAIL else Inr v)"
proof -
  from assms have v: "v \<ge> 0xff800000" and p: "p = v - 0xff400000"
    by (auto simp: vtop_mon_def assert_then_Inr reg_defs)
  have u: "unat p = unat v - 0xff400000"
    using v unfolding p by (simp add: word_le_nat_alt unat_sub)
  have "v = 0xffffffff \<longleftrightarrow> unat v = 0xffffffff"
    using word_unat_eq_iff [of v "0xffffffff"] by simp
  moreover have "unat v < 2 ^ 32" using unsigned_less [of v] by simp
  moreover have "p + 0xff400000 = v" by (simp add: p)
  ultimately show ?thesis
    using v u by (auto simp: ptov_mon_def assert_then_def reg_defs word_le_nat_alt word_less_nat_alt)
qed

subsection \<open>Properties\<close>

text \<open>
  A virtual address is the sum of its page directory index, its page table index and its page
  offset, each within the size of the structure it indexes: 1024 directory
  entries, 1024 table entries, 4096 bytes.
\<close>

lemma vaddr_decompose:
  "unat va = unat (pd_no va) * 0x400000 + unat (pt_no va) * 0x1000 + unat (pg_ofs va)
   \<and> unat (pd_no va) < 1024 \<and> unat (pt_no va) < 1024 \<and> unat (pg_ofs va) < 4096"
proof -
  have "unat va = unat va div 4096 * 4096 + unat va mod 4096"
    "unat va div 4096 = unat va div 4096 div 1024 * 1024 + unat va div 4096 mod 1024"
    by simp_all
  then have "unat va = unat va div 4096 div 1024 * 0x400000 + unat va div 4096 mod 1024 * 0x1000
      + unat va mod 4096"
    by linarith
  moreover have "unat va div 4096 div 1024 = unat va div 0x400000"
    by (simp flip: div_mult2_eq)
  ultimately show ?thesis
    using pd_pt_bounds by (simp only: unat_pd_no unat_pt_no unat_pg_ofs)
qed

text \<open>
  Rounding up gives the least page boundary that is not below the address,
  except for an address in the last page that is not its first byte, where the
  32-bit sum wraps and the result is 0.
\<close>

lemma pg_round_up_correct:
  "unat (pg_round_up va) =
     (if unat va > 0xfffff000 then 0 else (unat va + 4095) div 4096 * 4096)"
proof -
  have lt: "unat va < 2 ^ 32" using unsigned_less [of va] by simp
  have eq: "unat (va + PGSIZE - 1) = (unat va + 4095) mod 2 ^ 32"
  proof -
    have "va + PGSIZE - 1 = va + 4095" by (simp add: PGSIZE_def)
    then show ?thesis by (simp only: unat_word_ariths) simp
  qed
  have "unat (pg_round_up va) = (unat va + 4095) mod 2 ^ 32 div 4096 * 4096"
    unfolding pg_round_up_def PGMASK_mask word_and_not_mask_unat eq
    by (simp add: minus_mod_eq_div_mult)
  moreover have "(unat va + 4095) mod 2 ^ 32 =
      (if unat va > 0xfffff000 then unat va - 0xfffff001 else unat va + 4095)"
    using lt by (auto simp: le_mod_geq)
  ultimately show ?thesis using lt by (simp split: if_splits)
qed

text \<open>
  The two monitor translations are inverse to each other: whatever address
  \<open>ptov_mon\<close> accepts, \<open>vtop_mon\<close> brings back, and \<open>ptov_mon\<close> brings back what
  \<open>vtop_mon\<close> accepts except the last byte of the monitor's memory, which
  \<open>vtop_mon\<close> translates and on whose physical address the assertion of
  \<open>ptov_mon\<close> fails.
\<close>

lemma monitor_translation_inverse:
  "(\<forall>p v. ptov_mon p = Inr v \<longrightarrow> vtop_mon v = Inr p \<and> is_monitor_vaddr v)
   \<and> (\<forall>v p. vtop_mon v = Inr p \<longrightarrow> ptov_mon p = (if v = 0xffffffff then Inl ASSERT_FAIL else Inr v))"
  using vtop_of_ptov_mon monitor_inverse_mon by blast

text \<open>The first page of the monitor, and its last byte.\<close>

text \<open>
  A page directory entry made for a page table of the monitor names that
  table: for every page-aligned monitor address, creating the entry succeeds,
  following it gives the table back, its present bit is set and its writable
  bit is the argument.
\<close>

lemma pde_roundtrip:
  assumes "pg_ofs pt = 0" and "is_monitor_vaddr pt"
  shows "\<exists>pde. pde_create pt writable = Inr pde \<and> pde_get_pt_mon pde = Inr pt
           \<and> pde AND PTE_P \<noteq> 0 \<and> (pde AND PTE_W \<noteq> 0 \<longleftrightarrow> writable)"
proof -
  have ge: "pt \<ge> 0xff800000" using assms(2) by (simp add: is_monitor_vaddr_def reg_defs)
  obtain p where p: "vtop_mon pt = Inr p" and peq: "p = pt - 0xff400000"
    using ge by (simp add: vtop_mon_def reg_defs)
  have al: "pg_ofs p = 0"
    using pg_ofs_diff [OF assms(1)] ge unfolding peq by (simp add: word_le_nat_alt)
  have "pt \<noteq> 0xffffffff" using assms(1) by (auto simp: pg_ofs_def PGMASK_mask mask_eq_decr_exp)
  then have trans: "ptov_mon p = Inr pt"
    using monitor_inverse_mon [OF p] by simp
  define pde where "pde = p OR PTE_U OR PTE_P OR (if writable then PTE_W else 0)"
  have "pde AND PTE_ADDR = p"
    using al unfolding aligned_bits pde_def
    by (intro bit_word_eqI) (auto simp: bit_simps PTE_bit not_less)
  then have "pde_get_pt_mon pde = Inr pt"
    using trans by (simp add: pde_get_pt_mon_def)
  moreover have "pde_create pt writable = Inr pde"
    using assms(1) p by (simp add: pde_create_def pde_def)
  moreover have "bit pde 0" "bit pde 1 = writable"
    using al unfolding aligned_bits pde_def by (auto simp: bit_simps PTE_bit)
  ultimately show ?thesis
    unfolding PTE_flag_test by blast
qed

text \<open>A page table of the monitor at the start of its memory.\<close>

end
