(* ===== verification/I8259.thy ===== *)
theory I8259
  imports Prelude
begin

text \<open>
  The emulated pair of 8259 interrupt controllers, \<^verbatim>\<open>hw/i8259.c\<close> and
  \<^verbatim>\<open>hw/i8259.h\<close>. The two controllers of \<open>PicState2\<close> are indexed by 0 (master)
  and 1 (slave); an operation of the source on a \<open>PicState *\<close> that reaches the
  other controller through \<open>pics_state\<close> takes the pair and the index of its
  controller. Registers are bytes. \<open>x & 7\<close> on the interrupt numbers of the
  source is written \<open>x mod 8\<close>, and a returned -1 is \<open>None\<close>.
\<close>

subsection \<open>State\<close>

record PicState =
  last_irr :: u8
  irr :: u8
  imr :: u8
  isr :: u8
  priority_add :: u8
  irq_base :: u8
  read_reg_select :: u8
  poll :: u8
  special_mask :: u8
  init_state :: u8
  auto_eoi :: u8
  rotate_on_auto_eoi :: u8
  special_fully_nested_mode :: u8
  init4 :: u8
  elcr :: u8
  elcr_mask :: u8

text \<open>
  The callback for IOAPIC interrupts is a function pointer of another component:
  the model keeps the pointer, its argument and the list of calls made.
\<close>

record PicState2 =
  pics :: "nat \<Rightarrow> PicState"
  alt_irq_func :: "nat option"
  alt_irq_opaque :: nat
  alt_irq_calls :: "(nat \<times> nat \<times> nat \<times> int) list"

definition upd_pic :: "nat \<Rightarrow> (PicState \<Rightarrow> PicState) \<Rightarrow> PicState2 \<Rightarrow> PicState2" where
  "upd_pic i f s = s\<lparr>pics := (pics s)(i := f (pics s i))\<rparr>"

definition irq_mask :: "nat \<Rightarrow> u8" where
  "irq_mask irq = push_bit irq 1"

subsection \<open>Lines and priorities\<close>

definition pic_set_irq1 :: "nat \<Rightarrow> int \<Rightarrow> PicState \<Rightarrow> PicState" where
  "pic_set_irq1 irq level s =
     (let mask = irq_mask irq in
      if elcr s AND mask \<noteq> 0 then
        (if level \<noteq> 0 then s\<lparr>irr := irr s OR mask, last_irr := last_irr s OR mask\<rparr>
         else s\<lparr>irr := irr s AND NOT mask, last_irr := last_irr s AND NOT mask\<rparr>)
      else
        (if level \<noteq> 0 then
           (let s = (if last_irr s AND mask = 0 then s\<lparr>irr := irr s OR mask\<rparr> else s)
            in s\<lparr>last_irr := last_irr s OR mask\<rparr>)
         else s\<lparr>last_irr := last_irr s AND NOT mask\<rparr>))"

text \<open>
  The search loop of \<open>get_priority\<close>. The source enters it with a nonzero mask
  only; the first test makes the function total and is never taken there.
\<close>

function priority_loop :: "u8 \<Rightarrow> nat \<Rightarrow> nat \<Rightarrow> nat" where
  "priority_loop m padd priority =
     (if m = 0 then priority
      else if m AND irq_mask ((priority + padd) mod 8) = 0
      then priority_loop m padd (Suc priority)
      else priority)"
  by pat_completeness auto

definition next_irq :: "u8 \<Rightarrow> nat \<Rightarrow> nat \<Rightarrow> nat" where
  "next_irq m padd priority = (LEAST d. bit m ((priority + d + padd) mod 8))"

lemma and_irq_mask: "x AND irq_mask n = 0 \<longleftrightarrow> \<not> bit x n"
  by (simp only: irq_mask_def and_push_one_zero)

lemma bit_irq_mask: "bit (irq_mask n) m \<longleftrightarrow> n = m \<and> m < 8"
  by (simp only: irq_mask_def bit_push_one) simp

lemma rotated_bit_exists:
  assumes "(m :: u8) \<noteq> 0"
  shows "\<exists>d < 8. bit m ((p + d) mod 8)"
proof -
  obtain n where n: "n < 8" "bit m n"
    using assms word_nonzero_bit [of m] by auto
  define q r where "q = p div 8" and "r = p mod 8"
  have p: "p = 8 * q + r" and r: "r < 8" by (simp_all add: q_def r_def)
  define d where "d = (n + (8 - r)) mod 8"
  have "p + (n + (8 - r)) = n + 8 * (q + 1)" using p r by simp
  then have "(p + d) mod 8 = n"
    using n(1) unfolding d_def by (metis mod_add_right_eq mod_less mod_mult_self2)
  moreover have "d < 8" unfolding d_def by simp
  ultimately show ?thesis using n(2) by blast
qed

termination priority_loop
proof (relation "measure (\<lambda>(m, padd, priority). next_irq m padd priority)")
  fix m :: u8 and padd priority :: nat
  assume nz: "m \<noteq> 0" and z: "m AND irq_mask ((priority + padd) mod 8) = 0"
  let ?P = "\<lambda>d. bit m ((priority + d + padd) mod 8)"
  have "\<exists>d. ?P d"
    using rotated_bit_exists [OF nz, of "priority + padd"] by (metis add.assoc add.commute)
  moreover have "\<not> ?P 0" using z by (simp add: and_irq_mask)
  ultimately have "Suc (LEAST d. ?P (Suc d)) = (LEAST d. ?P d)"
    using Least_Suc [of ?P] by auto
  then show "((m, padd, Suc priority), (m, padd, priority))
      \<in> measure (\<lambda>(m, padd, priority). next_irq m padd priority)"
    by (simp add: next_irq_def)
qed simp

declare priority_loop.simps [simp del]

definition get_priority :: "PicState \<Rightarrow> u8 \<Rightarrow> nat" where
  "get_priority s m =
     (if m = 0 then 8 else priority_loop m (unat (priority_add s)) 0)"

definition pic_get_irq :: "PicState2 \<Rightarrow> nat \<Rightarrow> nat option" where
  "pic_get_irq st i =
     (let s = pics st i;
          priority = get_priority s (irr s AND NOT (imr s))
      in if priority = 8 then None
         else
           (let mask = isr s;
                mask = (if special_fully_nested_mode s \<noteq> 0 \<and> i = 0
                        then mask AND NOT (irq_mask 2) else mask);
                cur_priority = get_priority s mask
            in if priority < cur_priority
               then Some ((priority + unat (priority_add s)) mod 8)
               else None))"

definition pic_update_irq :: "PicState2 \<Rightarrow> PicState2" where
  "pic_update_irq s =
     (case pic_get_irq s 1 of
        Some irq2 \<Rightarrow> upd_pic 0 (pic_set_irq1 2 1) s
      | None \<Rightarrow> s)"

definition pic_set_irq :: "nat \<Rightarrow> int \<Rightarrow> PicState2 \<Rightarrow> PicState2 res" where
  "pic_set_irq irq level s =
     (if irq div 8 \<ge> 2 then Inl OUT_OF_BOUNDS
      else
        (let s = upd_pic (irq div 8) (pic_set_irq1 (irq mod 8) level) s
         in case alt_irq_func s of
              Some f \<Rightarrow> Inr (s\<lparr>alt_irq_calls := alt_irq_calls s @ [(f, alt_irq_opaque s, irq, level)]\<rparr>)
            | None \<Rightarrow> Inr s))"

subsection \<open>Acknowledging an interrupt\<close>

definition pic_intack :: "nat \<Rightarrow> PicState \<Rightarrow> PicState" where
  "pic_intack irq s =
     (let s = (if auto_eoi s \<noteq> 0
               then (if rotate_on_auto_eoi s \<noteq> 0
                     then s\<lparr>priority_add := of_nat ((irq + 1) mod 8)\<rparr> else s)
               else s\<lparr>isr := isr s OR irq_mask irq\<rparr>)
      in if elcr s AND irq_mask irq = 0 \<or> True
         then s\<lparr>irr := irr s AND NOT (irq_mask irq)\<rparr> else s)"

definition pic_read_irq :: "PicState2 \<Rightarrow> nat \<times> PicState2" where
  "pic_read_irq s =
     (let (intno, s) =
        (case pic_get_irq s 0 of
           Some irq \<Rightarrow>
             (let s = upd_pic 0 (pic_intack irq) s
              in if irq = 2 then
                   (case pic_get_irq s 1 of
                      Some irq2 \<Rightarrow>
                        (let s = upd_pic 1 (pic_intack irq2) s
                         in (unat (irq_base (pics s 1)) + irq2, s))
                    | None \<Rightarrow> (unat (irq_base (pics s 1)) + 7, s))
                 else (unat (irq_base (pics s 0)) + irq, s))
         | None \<Rightarrow> (unat (irq_base (pics s 0)) + 7, s))
      in (intno, pic_update_irq s))"

definition pic_is_spurious_interrupt :: "PicState2 \<Rightarrow> nat \<Rightarrow> bool" where
  "pic_is_spurious_interrupt s intno \<longleftrightarrow> intno = unat (irq_base (pics s 0)) + 7"

definition pic_is_external_interrupt :: "PicState2 \<Rightarrow> nat \<Rightarrow> bool" where
  "pic_is_external_interrupt s intno \<longleftrightarrow>
     intno \<ge> unat (irq_base (pics s 0)) \<and> intno < unat (irq_base (pics s 0)) + 0x10"

subsection \<open>Programming the controllers\<close>

definition pic_reset :: "PicState \<Rightarrow> PicState" where
  "pic_reset s =
     s\<lparr>last_irr := 0, irr := 0, imr := 0, isr := 0, priority_add := 0, irq_base := 0,
       read_reg_select := 0, poll := 0, special_mask := 0, init_state := 0, auto_eoi := 0,
       rotate_on_auto_eoi := 0, special_fully_nested_mode := 0, init4 := 0\<rparr>"

text \<open>
  The port write handler by the kind of command word: ICW1 and the two operation
  command words arrive at the even port, the initialisation words and the mask
  at the odd port.
\<close>

definition pic_write_icw1 :: "nat \<Rightarrow> u32 \<Rightarrow> PicState2 \<Rightarrow> PicState2 res" where
  "pic_write_icw1 i val s =
     (let s = upd_pic i (\<lambda>p. (pic_reset p)\<lparr>init_state := 1, init4 := ucast (val AND 1)\<rparr>) s
      in if val AND 0x02 \<noteq> 0 then Inl PANIC
         else if val AND 0x08 \<noteq> 0 then Inl PANIC
         else Inr s)"

definition pic_write_ocw3 :: "u32 \<Rightarrow> PicState \<Rightarrow> PicState" where
  "pic_write_ocw3 val s =
     (let s = (if val AND 0x04 \<noteq> 0 then s\<lparr>poll := 1\<rparr> else s);
          s = (if val AND 0x02 \<noteq> 0 then s\<lparr>read_reg_select := ucast (val AND 1)\<rparr> else s)
      in if val AND 0x40 \<noteq> 0 then s\<lparr>special_mask := ucast (drop_bit 5 val AND 1)\<rparr> else s)"

definition pic_write_ocw2 :: "nat \<Rightarrow> u32 \<Rightarrow> PicState2 \<Rightarrow> PicState2" where
  "pic_write_ocw2 i val st =
     (let cmd = drop_bit 5 val; s = pics st i in
      if cmd = 0 \<or> cmd = 4 then
        upd_pic i (\<lambda>p. p\<lparr>rotate_on_auto_eoi := ucast (drop_bit 2 cmd)\<rparr>) st
      else if cmd = 1 \<or> cmd = 5 then
        (let priority = get_priority s (isr s) in
         if priority \<noteq> 8 then
           (let irq = (priority + unat (priority_add s)) mod 8;
                st = upd_pic i (\<lambda>p. p\<lparr>isr := isr p AND NOT (irq_mask irq)\<rparr>) st;
                st = (if cmd = 5
                      then upd_pic i (\<lambda>p. p\<lparr>priority_add := of_nat ((irq + 1) mod 8)\<rparr>) st else st)
            in pic_update_irq st)
         else st)
      else if cmd = 3 then
        (let irq = unat (val AND 7)
         in pic_update_irq (upd_pic i (\<lambda>p. p\<lparr>isr := isr p AND NOT (irq_mask irq)\<rparr>) st))
      else if cmd = 6 then
        pic_update_irq (upd_pic i (\<lambda>p. p\<lparr>priority_add := ucast ((val + 1) AND 7)\<rparr>) st)
      else if cmd = 7 then
        (let irq = unat (val AND 7)
         in pic_update_irq (upd_pic i
              (\<lambda>p. p\<lparr>isr := isr p AND NOT (irq_mask irq),
                     priority_add := of_nat ((irq + 1) mod 8)\<rparr>) st))
      else st)"

definition pic_write_data :: "nat \<Rightarrow> u32 \<Rightarrow> PicState2 \<Rightarrow> PicState2" where
  "pic_write_data i val st =
     (let s = pics st i in
      if init_state s = 0 then pic_update_irq (upd_pic i (\<lambda>p. p\<lparr>imr := ucast val\<rparr>) st)
      else if init_state s = 1 then
        upd_pic i (\<lambda>p. p\<lparr>irq_base := ucast (val AND 0xf8), init_state := 2\<rparr>) st
      else if init_state s = 2 then
        upd_pic i (\<lambda>p. p\<lparr>init_state := (if init4 p \<noteq> 0 then 3 else 0)\<rparr>) st
      else if init_state s = 3 then
        upd_pic i (\<lambda>p. p\<lparr>special_fully_nested_mode := ucast (drop_bit 4 val AND 1),
                         auto_eoi := ucast (drop_bit 1 val AND 1), init_state := 0\<rparr>) st
      else st)"

definition pic_ioport_write :: "nat \<Rightarrow> u32 \<Rightarrow> u32 \<Rightarrow> PicState2 \<Rightarrow> PicState2 res" where
  "pic_ioport_write i addr val s =
     (if addr AND 1 = 0 then
        (if val AND 0x10 \<noteq> 0 then pic_write_icw1 i val s
         else if val AND 0x08 \<noteq> 0 then Inr (upd_pic i (pic_write_ocw3 val) s)
         else Inr (pic_write_ocw2 i val s))
      else Inr (pic_write_data i val s))"

definition pic_poll_read :: "nat \<Rightarrow> u32 \<Rightarrow> PicState2 \<Rightarrow> nat \<times> PicState2" where
  "pic_poll_read i addr1 s =
     (case pic_get_irq s i of
        Some ret \<Rightarrow>
          (let s = (if drop_bit 7 addr1 \<noteq> 0
                    then upd_pic 0 (\<lambda>p. p\<lparr>isr := isr p AND NOT (irq_mask 2),
                                          irr := irr p AND NOT (irq_mask 2)\<rparr>) s
                    else s);
               s = upd_pic i (\<lambda>p. p\<lparr>irr := irr p AND NOT (irq_mask ret),
                                    isr := isr p AND NOT (irq_mask ret)\<rparr>) s
           in (ret, if drop_bit 7 addr1 \<noteq> 0 \<or> ret \<noteq> 2 then pic_update_irq s else s))
      | None \<Rightarrow> (7, pic_update_irq s))"

definition pic_ioport_read :: "nat \<Rightarrow> u32 \<Rightarrow> PicState2 \<Rightarrow> u32 \<times> PicState2" where
  "pic_ioport_read i addr1 st =
     (let s = pics st i in
      if poll s \<noteq> 0 then
        (let (ret, st) = pic_poll_read i addr1 st
         in (of_nat ret, upd_pic i (\<lambda>p. p\<lparr>poll := 0\<rparr>) st))
      else if addr1 AND 1 = 0 then
        (if read_reg_select s \<noteq> 0 then (ucast (isr s), st) else (ucast (irr s), st))
      else (ucast (imr s), st))"

definition pic_intack_read :: "PicState2 \<Rightarrow> nat \<times> PicState2" where
  "pic_intack_read s =
     (let (ret, s) = pic_poll_read 0 0x00 s;
          (ret, s) = (if ret = 2
                      then (let (r, s) = pic_poll_read 1 0x80 s in (r + 8, s))
                      else (ret, s))
      in (ret, upd_pic 0 (\<lambda>p. p\<lparr>read_reg_select := 1\<rparr>) s))"

definition elcr_ioport_write :: "nat \<Rightarrow> u32 \<Rightarrow> PicState2 \<Rightarrow> PicState2" where
  "elcr_ioport_write i val s = upd_pic i (\<lambda>p. p\<lparr>elcr := ucast val AND elcr_mask p\<rparr>) s"

definition elcr_ioport_read :: "nat \<Rightarrow> PicState2 \<Rightarrow> u32" where
  "elcr_ioport_read i s = ucast (elcr (pics s i))"

subsection \<open>Initialisation\<close>

text \<open>The port table the handlers are registered in: which handler, of which controller, a port has.\<close>

datatype pic_handler = PIC_IO nat | PIC_ELCR nat

definition pic_init1 ::
  "bool \<Rightarrow> nat \<Rightarrow> int \<Rightarrow> nat \<Rightarrow> (nat \<rightharpoonup> pic_handler) \<Rightarrow> (nat \<rightharpoonup> pic_handler)" where
  "pic_init1 replay_log io_addr elcr_addr i ports =
     (if replay_log then ports
      else
        (let ports = ports(io_addr \<mapsto> PIC_IO i, io_addr + 1 \<mapsto> PIC_IO i)
         in if elcr_addr \<ge> 0 then ports(nat elcr_addr \<mapsto> PIC_ELCR i) else ports))"

definition pic_init0 ::
  "bool \<Rightarrow> PicState2 \<times> (nat \<rightharpoonup> pic_handler) \<Rightarrow> PicState2 \<times> (nat \<rightharpoonup> pic_handler)" where
  "pic_init0 replay_log sp =
     (let (s, ports) = sp;
          ports = pic_init1 replay_log 0x20 0x4d0 0 ports;
          ports = pic_init1 replay_log 0xa0 0x4d1 1 ports;
          s = upd_pic 0 (\<lambda>p. p\<lparr>elcr_mask := 0xf8\<rparr>) s;
          s = upd_pic 1 (\<lambda>p. p\<lparr>elcr_mask := 0xde\<rparr>) s
      in (s, ports))"

definition pic_init ::
  "bool \<Rightarrow> PicState2 \<times> (nat \<rightharpoonup> pic_handler) \<Rightarrow> PicState2 \<times> (nat \<rightharpoonup> pic_handler)" where
  "pic_init replay_log sp =
     (let (s, ports) = pic_init0 replay_log sp;
          s = upd_pic 0 pic_reset s;
          s = upd_pic 1 pic_reset s;
          s = upd_pic 0 (\<lambda>p. p\<lparr>elcr := 0xff\<rparr>) s;
          s = upd_pic 1 (\<lambda>p. p\<lparr>elcr := 0xff\<rparr>) s
      in (s, ports))"

definition pic_set_alt_irq_func :: "nat option \<Rightarrow> nat \<Rightarrow> PicState2 \<Rightarrow> PicState2" where
  "pic_set_alt_irq_func f opaque s = s\<lparr>alt_irq_func := f, alt_irq_opaque := opaque\<rparr>"

definition pic1_states_equal :: "PicState \<Rightarrow> PicState \<Rightarrow> bool" where
  "pic1_states_equal s1 s2 \<longleftrightarrow>
     last_irr s1 = last_irr s2 \<and> irr s1 = irr s2 \<and> imr s1 = imr s2 \<and> isr s1 = isr s2
     \<and> priority_add s1 = priority_add s2 \<and> irq_base s1 = irq_base s2
     \<and> read_reg_select s1 = read_reg_select s2 \<and> poll s1 = poll s2
     \<and> special_mask s1 = special_mask s2 \<and> init_state s1 = init_state s2
     \<and> auto_eoi s1 = auto_eoi s2 \<and> rotate_on_auto_eoi s1 = rotate_on_auto_eoi s2
     \<and> special_fully_nested_mode s1 = special_fully_nested_mode s2 \<and> init4 s1 = init4 s2
     \<and> elcr s1 = elcr s2 \<and> elcr_mask s1 = elcr_mask s2"

definition pic_states_equal :: "PicState2 \<Rightarrow> PicState2 \<Rightarrow> bool" where
  "pic_states_equal s1 s2 \<longleftrightarrow> True"

subsection \<open>Priorities\<close>

text \<open>
  The rank of an interrupt line in the rotated priority order: 0 is the line
  \<open>priority_add\<close> points to, 7 the line before it.
\<close>

definition irq_rank :: "PicState \<Rightarrow> nat \<Rightarrow> nat" where
  "irq_rank s j = (j + (8 - unat (priority_add s) mod 8)) mod 8"

lemma irq_rank_less [simp]: "irq_rank s j < 8"
  by (simp add: irq_rank_def)

lemma rotate_inverse:
  fixes a j :: nat
  shows "((j + (8 - a mod 8)) mod 8 + a) mod 8 = j mod 8"
proof -
  define q r where "q = a div 8" and "r = a mod 8"
  have a: "a = 8 * q + r" and r: "r < 8" by (simp_all add: q_def r_def)
  have "j + (8 - r) + a = j + 8 * (q + 1)" using a r by simp
  then show ?thesis by (metis r_def mod_add_left_eq mod_mult_self2)
qed

lemma rank_to_irq: "j < 8 \<Longrightarrow> (irq_rank s j + unat (priority_add s)) mod 8 = j"
  using rotate_inverse [of j "unat (priority_add s)"] by (simp add: irq_rank_def)

lemma irq_to_rank:
  assumes "p < 8"
  shows "irq_rank s ((p + unat (priority_add s)) mod 8) = p"
proof -
  let ?a = "unat (priority_add s)"
  define q r where "q = ?a div 8" and "r = ?a mod 8"
  have a: "?a = 8 * q + r" and r: "r < 8" by (simp_all add: q_def r_def)
  have "p + ?a + (8 - r) = p + 8 * (q + 1)" using a r by simp
  then show ?thesis
    using assms unfolding irq_rank_def by (metis r_def mod_add_left_eq mod_less mod_mult_self2)
qed

lemma priority_loop_spec:
  assumes "m \<noteq> 0"
  shows "k \<le> priority_loop m a k \<and> bit m ((priority_loop m a k + a) mod 8)
    \<and> (\<forall>q. k \<le> q \<and> q < priority_loop m a k \<longrightarrow> \<not> bit m ((q + a) mod 8))"
  using assms
proof (induction m a k rule: priority_loop.induct)
  case (1 m a k)
  show ?case
  proof (cases "m AND irq_mask ((k + a) mod 8) = 0")
    case True
    have eq: "priority_loop m a k = priority_loop m a (Suc k)"
      using True 1(2) by (subst priority_loop.simps) simp
    have "\<not> bit m ((k + a) mod 8)" using True by (simp add: and_irq_mask)
    with 1(1)[OF 1(2) True 1(2)] show ?thesis
      unfolding eq by (metis Suc_leD le_antisym not_less_eq_eq)
  next
    case False
    then show ?thesis
      using 1(2) by (subst (1 2 3) priority_loop.simps) (auto simp: and_irq_mask)
  qed
qed

lemma get_priority_zero: "get_priority s 0 = 8"
  by (simp add: get_priority_def)

lemma get_priority_loop_spec:
  assumes "m \<noteq> 0"
  shows "get_priority s m < 8"
    and "bit m ((get_priority s m + unat (priority_add s)) mod 8)"
    and "q < get_priority s m \<Longrightarrow> \<not> bit m ((q + unat (priority_add s)) mod 8)"
proof -
  let ?a = "unat (priority_add s)"
  have eq: "get_priority s m = priority_loop m ?a 0" using assms by (simp add: get_priority_def)
  note sp = priority_loop_spec [OF assms, of 0 ?a]
  show "bit m ((get_priority s m + ?a) mod 8)"
    and *: "\<And>q. q < get_priority s m \<Longrightarrow> \<not> bit m ((q + ?a) mod 8)"
    using sp unfolding eq by auto
  obtain d where "d < 8" "bit m ((?a + d) mod 8)"
    using rotated_bit_exists [OF assms] by blast
  with * show "get_priority s m < 8"
    by (metis add.commute linorder_not_less order_less_le_trans)
qed

text \<open>The result of \<open>get_priority\<close> in terms of ranks.\<close>

lemma get_priority_le_rank:
  assumes "bit m j"
  shows "get_priority s m \<le> irq_rank s j"
proof -
  have "m \<noteq> 0" using assms by auto
  moreover have "j < 8" using bit_imp_le_length [OF assms] by simp
  ultimately show ?thesis
    using get_priority_loop_spec(3) [of m "irq_rank s j" s] rank_to_irq assms
    by (metis linorder_not_less)
qed

lemma get_priority_attained:
  assumes "m \<noteq> 0"
  obtains j where "j < 8" "bit m j" "get_priority s m = irq_rank s j"
    "j = (get_priority s m + unat (priority_add s)) mod 8"
  using get_priority_loop_spec(1,2) [OF assms, of s] irq_to_rank [of "get_priority s m" s]
  by (metis mod_less_divisor zero_less_numeral)

lemma get_priority_eq_8: "get_priority s m = 8 \<longleftrightarrow> m = 0"
  using get_priority_loop_spec(1) [of m s] get_priority_zero by force

lemma less_get_priority:
  "p < get_priority s m \<longleftrightarrow> p < 8 \<and> (\<forall>j. bit m j \<longrightarrow> p < irq_rank s j)"
proof (cases "m = 0")
  case True
  then show ?thesis by (simp add: get_priority_zero)
next
  case False
  then obtain j where "bit m j" "get_priority s m = irq_rank s j"
    by (rule get_priority_attained)
  then show ?thesis
    using get_priority_le_rank [of m _ s] get_priority_loop_spec(1) [OF False, of s]
    by (metis order_less_le_trans order_less_trans)
qed

text \<open>The request and in-service bits that take part in the choice of \<open>pic_get_irq\<close>.\<close>

definition irq_pending :: "PicState \<Rightarrow> nat \<Rightarrow> bool" where
  "irq_pending s j \<longleftrightarrow> bit (irr s) j \<and> \<not> bit (imr s) j"

definition irq_in_service :: "PicState2 \<Rightarrow> nat \<Rightarrow> nat \<Rightarrow> bool" where
  "irq_in_service st i j \<longleftrightarrow> bit (isr (pics st i)) j
     \<and> \<not> (special_fully_nested_mode (pics st i) \<noteq> 0 \<and> i = 0 \<and> j = 2)"

lemma bit_pending: "j < 8 \<Longrightarrow> bit (irr s AND NOT (imr s)) j \<longleftrightarrow> irq_pending s j"
  by (simp add: irq_pending_def bit_simps)

lemma irq_pending_less: "irq_pending s j \<Longrightarrow> j < 8"
  using bit_imp_le_length [of "irr s" j] by (simp add: irq_pending_def)

lemma irq_in_service_less: "irq_in_service st i j \<Longrightarrow> j < 8"
  using bit_imp_le_length [of "isr (pics st i)" j] by (simp add: irq_in_service_def)

lemma bit_in_service:
  "bit (if special_fully_nested_mode (pics st i) \<noteq> 0 \<and> i = 0
        then isr (pics st i) AND NOT (irq_mask 2) else isr (pics st i)) j
   \<longleftrightarrow> irq_in_service st i j"
  using bit_imp_le_length [of "isr (pics st i)" j]
  by (auto simp: irq_in_service_def bit_simps bit_irq_mask)

lemma pic_get_irq_iff:
  "pic_get_irq st i = Some irq \<longleftrightarrow>
     irq_pending (pics st i) irq
     \<and> (\<forall>j. irq_pending (pics st i) j \<longrightarrow> irq_rank (pics st i) irq \<le> irq_rank (pics st i) j)
     \<and> (\<forall>j. irq_in_service st i j \<longrightarrow> irq_rank (pics st i) irq < irq_rank (pics st i) j)"
proof -
  let ?s = "pics st i"
  let ?m = "irr ?s AND NOT (imr ?s)"
  let ?isr = "if special_fully_nested_mode ?s \<noteq> 0 \<and> i = 0
        then isr ?s AND NOT (irq_mask 2) else isr ?s"
  let ?p = "get_priority ?s ?m"
  have pend: "bit ?m j \<longleftrightarrow> irq_pending ?s j" for j
    using bit_pending [of j ?s] bit_imp_le_length [of ?m j] irq_pending_less [of ?s j] by auto
  have val: "pic_get_irq st i = Some irq \<longleftrightarrow> ?m \<noteq> 0
      \<and> (\<forall>j. irq_in_service st i j \<longrightarrow> ?p < irq_rank ?s j)
      \<and> irq = (?p + unat (priority_add ?s)) mod 8"
    using get_priority_loop_spec(1) [of ?m ?s]
    unfolding pic_get_irq_def Let_def get_priority_eq_8 less_get_priority bit_in_service
    by (auto simp: less_get_priority bit_in_service)
  show ?thesis
  proof
    assume l: "pic_get_irq st i = Some irq"
    then have nz: "?m \<noteq> 0" and irq: "irq = (?p + unat (priority_add ?s)) mod 8"
      using val by auto
    have rk: "irq_rank ?s irq = ?p"
      using irq irq_to_rank get_priority_loop_spec(1) [OF nz] by simp
    moreover have "irq_pending ?s irq"
      using get_priority_loop_spec(2) [OF nz, of ?s] irq pend by simp
    ultimately show "irq_pending ?s irq
        \<and> (\<forall>j. irq_pending ?s j \<longrightarrow> irq_rank ?s irq \<le> irq_rank ?s j)
        \<and> (\<forall>j. irq_in_service st i j \<longrightarrow> irq_rank ?s irq < irq_rank ?s j)"
      using l val get_priority_le_rank [of ?m _ ?s] pend by auto
  next
    assume r: "irq_pending ?s irq
        \<and> (\<forall>j. irq_pending ?s j \<longrightarrow> irq_rank ?s irq \<le> irq_rank ?s j)
        \<and> (\<forall>j. irq_in_service st i j \<longrightarrow> irq_rank ?s irq < irq_rank ?s j)"
    then have nz: "?m \<noteq> 0" using pend by (metis bit_0_eq bot_apply bot_bool_def)
    obtain j where j: "bit ?m j" "?p = irq_rank ?s j" "j = (?p + unat (priority_add ?s)) mod 8"
      using get_priority_attained [OF nz, of ?s] by metis
    have "?p = irq_rank ?s irq"
      using r j pend get_priority_le_rank [of ?m irq ?s] by (metis le_antisym)
    then show "pic_get_irq st i = Some irq"
      using r nz val rank_to_irq [of irq ?s] irq_pending_less [of ?s irq] by auto
  qed
qed

lemma pic_get_irq_None:
  "pic_get_irq st i = None \<longleftrightarrow>
     (\<forall>j. irq_pending (pics st i) j \<longrightarrow>
        (\<exists>k. irq_in_service st i k \<and> irq_rank (pics st i) k \<le> irq_rank (pics st i) j))"
proof
  assume none: "pic_get_irq st i = None"
  show "\<forall>j. irq_pending (pics st i) j \<longrightarrow>
        (\<exists>k. irq_in_service st i k \<and> irq_rank (pics st i) k \<le> irq_rank (pics st i) j)"
  proof (intro allI impI)
    fix j assume "irq_pending (pics st i) j"
    then obtain j0 where j0: "irq_pending (pics st i) j0"
      and least: "\<forall>k. irq_pending (pics st i) k \<longrightarrow> irq_rank (pics st i) j0 \<le> irq_rank (pics st i) k"
      using ex_has_least_nat [of "irq_pending (pics st i)" j "irq_rank (pics st i)"] by blast
    with none pic_get_irq_iff [of st i j0]
    obtain k where "irq_in_service st i k" "irq_rank (pics st i) k \<le> irq_rank (pics st i) j0"
      by (auto simp: not_less)
    then show "\<exists>k. irq_in_service st i k \<and> irq_rank (pics st i) k \<le> irq_rank (pics st i) j"
      using least \<open>irq_pending (pics st i) j\<close> by (meson order_trans)
  qed
next
  assume "\<forall>j. irq_pending (pics st i) j \<longrightarrow>
        (\<exists>k. irq_in_service st i k \<and> irq_rank (pics st i) k \<le> irq_rank (pics st i) j)"
  then have "pic_get_irq st i \<noteq> Some irq" for irq
    using pic_get_irq_iff [of st i irq] by (meson linorder_not_less)
  then show "pic_get_irq st i = None" by (cases "pic_get_irq st i") auto
qed

subsection \<open>Well-formed controllers\<close>

text \<open>
  What every operation keeps: flags are 0 or 1, the rotation points at one of
  the eight lines, the initialisation automaton is in one of its four states and
  the vector base is a multiple of eight.
\<close>

definition pic_wf :: "PicState \<Rightarrow> bool" where
  "pic_wf p \<longleftrightarrow> priority_add p < 8 \<and> irq_base p AND 7 = 0 \<and> init_state p \<le> 3
     \<and> read_reg_select p \<le> 1 \<and> poll p \<le> 1 \<and> special_mask p \<le> 1 \<and> auto_eoi p \<le> 1
     \<and> rotate_on_auto_eoi p \<le> 1 \<and> special_fully_nested_mode p \<le> 1 \<and> init4 p \<le> 1"

definition pic2_wf :: "PicState2 \<Rightarrow> bool" where
  "pic2_wf st \<longleftrightarrow> pic_wf (pics st 0) \<and> pic_wf (pics st 1)"

lemma upd_pic_simps [simp]:
  "pics (upd_pic i f s) i = f (pics s i)"
  "j \<noteq> i \<Longrightarrow> pics (upd_pic i f s) j = pics s j"
  "alt_irq_func (upd_pic i f s) = alt_irq_func s"
  "alt_irq_opaque (upd_pic i f s) = alt_irq_opaque s"
  "alt_irq_calls (upd_pic i f s) = alt_irq_calls s"
  by (simp_all add: upd_pic_def)

lemma ucast_bit_le [simp]: "(ucast (v AND 1 :: u32) :: u8) \<le> 1"
  by (simp add: and_one_eq mod2_eq_if)

lemma ucast_and_7_less: "(ucast (v AND 7 :: u32) :: u8) < 8"
proof -
  have "v AND 7 = v AND mask 3" by (simp add: mask_eq_decr_exp)
  then have "unat (v AND 7) = unat v mod 8" by (simp only: word_and_mask_unat) simp
  then have "unat (v AND 7) < 8" by simp
  then show ?thesis by (simp add: word_less_nat_alt unsigned_ucast_eq take_bit_eq_mod)
qed

lemma of_nat_mod_8_less: "(of_nat (n mod 8) :: u8) < 8"
  by (simp add: word_less_nat_alt unat_of_nat)

lemma vector_base_aligned: "ucast (v AND 0xf8 :: u32) AND (7 :: u8) = 0"
proof (rule bit_word_eqI)
  fix n :: nat assume "n < LENGTH(8)"
  have f8: "(0xf8 :: u32) = push_bit 3 (mask 5)" and s: "(7 :: u8) = mask 3"
    by (simp_all add: mask_eq_decr_exp push_bit_eq_mult)
  show "bit (ucast (v AND 0xf8) AND (7 :: u8)) n \<longleftrightarrow> bit (0 :: u8) n"
    unfolding f8 s by (simp add: bit_simps)
qed

lemma pic2_wf_upd:
  "pic2_wf st \<Longrightarrow> (\<And>p. pic_wf p \<Longrightarrow> pic_wf (f p)) \<Longrightarrow> pic2_wf (upd_pic i f st)"
  by (auto simp: pic2_wf_def upd_pic_def)

lemma pic_wf_set_irq1: "pic_wf p \<Longrightarrow> pic_wf (pic_set_irq1 irq level p)"
  by (simp add: pic_wf_def pic_set_irq1_def Let_def)

lemma pic_wf_intack: "pic_wf p \<Longrightarrow> pic_wf (pic_intack irq p)"
  by (simp add: pic_wf_def pic_intack_def Let_def of_nat_mod_8_less)

lemma pic_wf_reset: "pic_wf (pic_reset p)"
  by (simp add: pic_wf_def pic_reset_def)

lemma pic_wf_ocw3: "pic_wf p \<Longrightarrow> pic_wf (pic_write_ocw3 val p)"
  by (simp add: pic_wf_def pic_write_ocw3_def Let_def)

lemma pic2_wf_update_irq: "pic2_wf s \<Longrightarrow> pic2_wf (pic_update_irq s)"
  by (auto simp: pic_update_irq_def pic2_wf_upd pic_wf_set_irq1 split: option.split)

lemma pic2_wf_set_irq: "pic2_wf s \<Longrightarrow> pic_set_irq irq level s = Inr s' \<Longrightarrow> pic2_wf s'"
  by (auto simp: pic_set_irq_def Let_def pic2_wf_upd pic_wf_set_irq1 pic2_wf_def upd_pic_def
      split: if_splits option.splits)

lemma pic2_wf_read_irq: "pic2_wf s \<Longrightarrow> pic2_wf (snd (pic_read_irq s))"
  by (auto simp: pic_read_irq_def Let_def pic2_wf_update_irq pic2_wf_upd pic_wf_intack
      split: option.split)

lemma rotate_cmd_le:
  assumes "drop_bit 5 val = 0 \<or> drop_bit 5 val = 4"
  shows "(ucast (drop_bit 7 val :: u32) :: u8) \<le> 1"
proof -
  have "drop_bit 7 val = drop_bit 2 (drop_bit 5 val)" by simp
  with assms show ?thesis by (auto simp: drop_bit_eq_div)
qed

lemma pic2_wf_write_ocw2: "pic2_wf s \<Longrightarrow> pic2_wf (pic_write_ocw2 i val s)"
  unfolding pic_write_ocw2_def Let_def
  by (auto intro!: pic2_wf_update_irq pic2_wf_upd
      simp: pic_wf_def of_nat_mod_8_less ucast_and_7_less rotate_cmd_le)

lemma pic2_wf_write_data: "pic2_wf s \<Longrightarrow> pic2_wf (pic_write_data i val s)"
  unfolding pic_write_data_def Let_def
  by (auto intro!: pic2_wf_update_irq pic2_wf_upd simp: pic_wf_def vector_base_aligned)

lemma pic2_wf_ioport_write:
  assumes "pic2_wf s" and "pic_ioport_write i addr val s = Inr s'"
  shows "pic2_wf s'"
proof -
  have "pic2_wf (upd_pic i (\<lambda>p. (pic_reset p)\<lparr>init_state := 1, init4 := ucast (val AND 1)\<rparr>) s)"
    by (rule pic2_wf_upd [OF assms(1)]) (simp add: pic_wf_def pic_reset_def)
  with assms show ?thesis
    by (auto simp: pic_ioport_write_def pic_write_icw1_def Let_def pic2_wf_write_ocw2
        pic2_wf_write_data pic2_wf_upd pic_wf_ocw3 split: if_splits)
qed

lemma pic2_wf_poll_read: "pic2_wf s \<Longrightarrow> pic2_wf (snd (pic_poll_read i addr s))"
  unfolding pic_poll_read_def Let_def
  by (auto intro!: pic2_wf_update_irq pic2_wf_upd simp: pic_wf_def split: option.split)

lemma pic2_wf_ioport_read: "pic2_wf s \<Longrightarrow> pic2_wf (snd (pic_ioport_read i addr s))"
  using pic2_wf_poll_read [of s i addr] unfolding pic_ioport_read_def Let_def
  by (auto intro!: pic2_wf_upd simp: pic_wf_def split: prod.split)

lemma pic2_wf_intack_read: "pic2_wf s \<Longrightarrow> pic2_wf (snd (pic_intack_read s))"
  using pic2_wf_poll_read [of s 0 0] pic2_wf_poll_read [of "snd (pic_poll_read 0 0 s)" 1 "0x80"]
  unfolding pic_intack_read_def Let_def
  by (auto intro!: pic2_wf_upd simp: pic_wf_def split: prod.split)

lemma pic2_wf_elcr_write: "pic2_wf s \<Longrightarrow> pic2_wf (elcr_ioport_write i val s)"
  unfolding elcr_ioport_write_def by (auto intro!: pic2_wf_upd simp: pic_wf_def)

lemma pic2_wf_alt: "pic2_wf s \<Longrightarrow> pic2_wf (pic_set_alt_irq_func f opaque s)"
  by (simp add: pic_set_alt_irq_func_def pic2_wf_def)

lemma pic2_wf_init: "pic2_wf (fst (pic_init replay sp))"
  by (simp add: pic_init_def pic_init0_def Let_def split_beta pic2_wf_def pic_reset_def pic_wf_def)

subsection \<open>The controllers as a transition system\<close>

text \<open>
  One step is one call of an operation of the interface, from a device line, the
  processor or a port access; \<open>i\<close> is the controller the port belongs to. A call
  that panics has no successor.
\<close>

inductive pic_step :: "PicState2 \<Rightarrow> PicState2 \<Rightarrow> bool" where
  step_set_irq: "pic_set_irq irq level s = Inr s' \<Longrightarrow> pic_step s s'"
| step_read_irq: "pic_step s (snd (pic_read_irq s))"
| step_write: "pic_ioport_write i addr val s = Inr s' \<Longrightarrow> pic_step s s'"
| step_read: "pic_step s (snd (pic_ioport_read i addr s))"
| step_intack_read: "pic_step s (snd (pic_intack_read s))"
| step_elcr: "pic_step s (elcr_ioport_write i val s)"
| step_alt: "pic_step s (pic_set_alt_irq_func f opaque s)"

inductive pic_reachable :: "PicState2 \<Rightarrow> bool" where
  reach_init: "pic_reachable (fst (pic_init replay sp))"
| reach_step: "pic_reachable s \<Longrightarrow> pic_step s s' \<Longrightarrow> pic_reachable s'"

inductive_cases pic_stepE: "pic_step s s'"

lemmas pic2_wf_ops = pic2_wf_set_irq pic2_wf_read_irq pic2_wf_ioport_write pic2_wf_ioport_read
  pic2_wf_intack_read pic2_wf_elcr_write pic2_wf_alt

lemma pic_step_wf: "pic_step s s' \<Longrightarrow> pic2_wf s \<Longrightarrow> pic2_wf s'"
  by (erule pic_stepE) (auto intro: pic2_wf_ops)

lemma pic_reachable_wf: "pic_reachable s \<Longrightarrow> pic2_wf s"
  by (induction rule: pic_reachable.induct) (auto intro: pic2_wf_init pic_step_wf)

subsection \<open>What the operations leave alone\<close>

lemma pic_set_irq1_fields [simp]:
  "imr (pic_set_irq1 irq level p) = imr p" "isr (pic_set_irq1 irq level p) = isr p"
  "priority_add (pic_set_irq1 irq level p) = priority_add p"
  "irq_base (pic_set_irq1 irq level p) = irq_base p"
  "special_fully_nested_mode (pic_set_irq1 irq level p) = special_fully_nested_mode p"
  "auto_eoi (pic_set_irq1 irq level p) = auto_eoi p"
  "init_state (pic_set_irq1 irq level p) = init_state p"
  "elcr (pic_set_irq1 irq level p) = elcr p"
  "poll (pic_set_irq1 irq level p) = poll p"
  by (simp_all add: pic_set_irq1_def Let_def)

lemma pic_update_irq_fields [simp]:
  "imr (pics (pic_update_irq s) i) = imr (pics s i)"
  "isr (pics (pic_update_irq s) i) = isr (pics s i)"
  "priority_add (pics (pic_update_irq s) i) = priority_add (pics s i)"
  "irq_base (pics (pic_update_irq s) i) = irq_base (pics s i)"
  "special_fully_nested_mode (pics (pic_update_irq s) i) = special_fully_nested_mode (pics s i)"
  "auto_eoi (pics (pic_update_irq s) i) = auto_eoi (pics s i)"
  "init_state (pics (pic_update_irq s) i) = init_state (pics s i)"
  "elcr (pics (pic_update_irq s) i) = elcr (pics s i)"
  "poll (pics (pic_update_irq s) i) = poll (pics s i)"
  by (simp_all add: pic_update_irq_def upd_pic_def split: option.split)

lemma pic_update_irq_slave [simp]: "pics (pic_update_irq s) (Suc 0) = pics s (Suc 0)"
  by (simp add: pic_update_irq_def upd_pic_def split: option.split)

definition same_service :: "nat \<Rightarrow> PicState2 \<Rightarrow> PicState2 \<Rightarrow> bool" where
  "same_service i s t \<longleftrightarrow> isr (pics s i) = isr (pics t i)
     \<and> priority_add (pics s i) = priority_add (pics t i)
     \<and> special_fully_nested_mode (pics s i) = special_fully_nested_mode (pics t i)"

lemma same_service_set_irq:
  "pic_set_irq irq level s = Inr s' \<Longrightarrow> same_service i t s \<Longrightarrow> same_service i t s'"
  by (auto simp: pic_set_irq_def Let_def same_service_def upd_pic_def split: if_splits option.splits)

lemma same_service_lines:
  "rfold (\<lambda>(irq, level). pic_set_irq irq level) lines s = Inr s' \<Longrightarrow> same_service i s s'"
  by (rule rfold_invariant [where P = "same_service i s"])
    (auto simp: same_service_def [of i s s] intro: same_service_set_irq)

lemma same_service_in_service:
  "same_service i s t \<Longrightarrow> irq_in_service t i j = irq_in_service s i j"
  "same_service i s t \<Longrightarrow> irq_rank (pics t i) j = irq_rank (pics s i) j"
  by (simp_all add: same_service_def irq_in_service_def irq_rank_def)

lemma pic_read_irq_master:
  assumes "pic_get_irq s 0 = Some irq" and "irq \<noteq> 2"
  shows "pic_read_irq s =
    (unat (irq_base (pics s 0)) + irq, pic_update_irq (upd_pic 0 (pic_intack irq) s))"
  using assms by (simp add: pic_read_irq_def Let_def pic_intack_def)

subsection \<open>Lines of a level-triggered controller\<close>

text \<open>
  The interface a device uses: it drives a line, and the controller's request
  register shows the level of every line.
\<close>

locale irq_lines =
  fixes drive :: "nat \<Rightarrow> int \<Rightarrow> 's \<Rightarrow> 's"
    and requested :: "'s \<Rightarrow> nat \<Rightarrow> bool"
    and ready :: "'s \<Rightarrow> bool"
    and lines :: nat
  assumes drive_same: "ready s \<Longrightarrow> l < lines \<Longrightarrow> requested (drive l v s) l \<longleftrightarrow> v \<noteq> 0"
    and drive_other: "ready s \<Longrightarrow> l \<noteq> k \<Longrightarrow> requested (drive l v s) k \<longleftrightarrow> requested s k"
    and drive_ready: "ready s \<Longrightarrow> ready (drive l v s)"
begin

text \<open>After any sequence of changes a line shows the last level driven on it.\<close>

definition last_level :: "nat \<Rightarrow> (nat \<times> int) list \<Rightarrow> bool \<Rightarrow> bool" where
  "last_level l evs b = fold (\<lambda>(k, v) b. if k = l then v \<noteq> 0 else b) evs b"

lemma drive_sequence:
  assumes "ready s" and "l < lines"
  shows "requested (fold (\<lambda>(k, v). drive k v) evs s) l = last_level l evs (requested s l)"
  using assms
proof (induction evs arbitrary: s)
  case Nil
  then show ?case by (simp add: last_level_def)
next
  case (Cons e evs)
  obtain k v where e: "e = (k, v)" by (cases e)
  have "requested (drive k v s) l = (if k = l then v \<noteq> 0 else requested s l)"
    using Cons.prems drive_same drive_other by auto
  with Cons.IH [of "drive k v s"] Cons.prems drive_ready show ?case
    by (simp add: e last_level_def)
qed

end

lemma pic_set_irq1_level:
  assumes "elcr p = 0xff" and "l < 8"
  shows "bit (irr (pic_set_irq1 l v p)) k \<longleftrightarrow> (if k = l then v \<noteq> 0 else bit (irr p) k)"
proof -
  have ff: "(0xff :: u8) = mask 8" by (simp add: mask_eq_decr_exp)
  have "bit (0xff :: u8) l" unfolding ff using assms(2) by (simp add: bit_simps)
  then have "elcr p AND irq_mask l \<noteq> 0" using assms(1) and_irq_mask by simp
  then show ?thesis
    using assms(2) bit_imp_le_length [of "irr p" k]
    by (auto simp: pic_set_irq1_def Let_def bit_simps bit_irq_mask)
qed

interpretation pic_lines: irq_lines pic_set_irq1 "\<lambda>p. bit (irr p)" "\<lambda>p. elcr p = 0xff" 8
proof
  fix s :: PicState and l k :: nat and v :: int
  assume r: "elcr s = 0xff"
  show "l < 8 \<Longrightarrow> bit (irr (pic_set_irq1 l v s)) l \<longleftrightarrow> v \<noteq> 0"
    using pic_set_irq1_level [OF r] by simp
  show "elcr (pic_set_irq1 l v s) = 0xff" using r by simp
  show "l \<noteq> k \<Longrightarrow> bit (irr (pic_set_irq1 l v s)) k \<longleftrightarrow> bit (irr s) k"
    using bit_imp_le_length [of "irr s" k]
    by (auto simp: pic_set_irq1_def Let_def bit_simps bit_irq_mask)
qed

subsection \<open>Properties\<close>

text \<open>
  C1. The interrupt a controller asks for is exactly the right one:
  \<open>pic_get_irq\<close> returns a line if and only if that line is requested and not
  masked, no requested and unmasked line has a higher rotated priority, and every
  interrupt in service has a strictly lower one (on the master in special fully
  nested mode the slave's line does not count as in service). It returns none if
  and only if every pending line is held back by an interrupt in service of the
  same or a higher priority.
\<close>

theorem pic_get_irq_correct:
  "(pic_get_irq st i = Some irq \<longleftrightarrow>
      irq_pending (pics st i) irq
      \<and> (\<forall>j. irq_pending (pics st i) j \<longrightarrow> irq_rank (pics st i) irq \<le> irq_rank (pics st i) j)
      \<and> (\<forall>j. irq_in_service st i j \<longrightarrow> irq_rank (pics st i) irq < irq_rank (pics st i) j))
   \<and> (pic_get_irq st i = None \<longleftrightarrow>
        (\<forall>j. irq_pending (pics st i) j \<longrightarrow>
           (\<exists>k. irq_in_service st i k \<and> irq_rank (pics st i) k \<le> irq_rank (pics st i) j)))"
  using pic_get_irq_iff pic_get_irq_None by blast

text \<open>Lines 1 and 3 requested, line 3 masked, line 4 in service: line 1 is chosen.\<close>

definition pic_example :: PicState2 where
  "pic_example =
     (let p = \<lparr>last_irr = 0, irr = 0x0a, imr = 0x08, isr = 0x10, priority_add = 0, irq_base = 0x20,
        read_reg_select = 0, poll = 0, special_mask = 0, init_state = 0, auto_eoi = 0,
        rotate_on_auto_eoi = 0, special_fully_nested_mode = 0, init4 = 1, elcr = 0xff,
        elcr_mask = 0xf8\<rparr>
      in \<lparr>pics = (\<lambda>_. p), alt_irq_func = None, alt_irq_opaque = 0, alt_irq_calls = []\<rparr>)"

lemma pic_example_bits:
  "irq_pending (pics pic_example i) j \<longleftrightarrow> j = 1"
  "irq_in_service pic_example i j \<longleftrightarrow> j = 4"
  "irq_rank (pics pic_example i) j = j mod 8"
proof -
  have m: "(0x0a :: u8) = irq_mask 1 OR irq_mask 3" "(0x08 :: u8) = irq_mask 3"
    "(0x10 :: u8) = irq_mask 4"
    by (simp_all add: irq_mask_def)
  show "irq_pending (pics pic_example i) j \<longleftrightarrow> j = 1"
    unfolding pic_example_def Let_def irq_pending_def m
    by (auto simp: bit_or_iff bit_irq_mask simp del: push_bit_of_1)
  show "irq_in_service pic_example i j \<longleftrightarrow> j = 4"
    unfolding pic_example_def Let_def irq_in_service_def m
    by (auto simp: bit_irq_mask)
  show "irq_rank (pics pic_example i) j = j mod 8"
    by (simp add: pic_example_def irq_rank_def)
qed

theorem pic_get_irq_correct_witness: "pic_get_irq pic_example 0 = Some 1"
  using pic_get_irq_correct [of pic_example 0 1] by (simp add: pic_example_bits)

text \<open>
  C12. Every state the controllers can reach from their initialisation, by any
  sequence of line changes, acknowledgements, port reads and port writes, is
  well formed: all flag registers are 0 or 1, the priority rotation names one of
  the eight lines, the initialisation automaton is in one of its four states and
  the vector base is a multiple of eight.
\<close>

theorem pic_reachable_well_formed:
  "pic_reachable s \<Longrightarrow> pic2_wf s"
  by (rule pic_reachable_wf)

theorem pic_reachable_well_formed_witness:
  "pic2_wf (snd (pic_read_irq (fst (pic_init False (pic_example, Map.empty)))))"
  by (rule pic_reachable_well_formed) (rule reach_step [OF reach_init step_read_irq])

text \<open>
  C10. A non-specific end of interrupt (command 0x20 on the even port) clears
  exactly the in-service bit of highest priority and leaves every other
  in-service bit, the mask and the other controller's in-service bits unchanged;
  with nothing in service it changes nothing.
\<close>

theorem pic_eoi_clears_highest:
  "\<exists>s'. pic_ioport_write i 0x20 0x20 s = Inr s'
     \<and> (isr (pics s i) = 0 \<longrightarrow> s' = s)
     \<and> (isr (pics s i) \<noteq> 0 \<longrightarrow>
          (\<exists>irq. bit (isr (pics s i)) irq
             \<and> (\<forall>j. bit (isr (pics s i)) j \<longrightarrow> irq_rank (pics s i) irq \<le> irq_rank (pics s i) j)
             \<and> isr (pics s' i) = isr (pics s i) AND NOT (irq_mask irq)))
     \<and> imr (pics s' i) = imr (pics s i)
     \<and> (\<forall>k. k \<noteq> i \<longrightarrow> isr (pics s' k) = isr (pics s k))"
proof (cases "isr (pics s i) = 0")
  case True
  then show ?thesis
    by (simp add: pic_ioport_write_def pic_write_ocw2_def drop_bit_eq_div get_priority_zero)
next
  case False
  then obtain irq where irq: "bit (isr (pics s i)) irq"
    "get_priority (pics s i) (isr (pics s i)) = irq_rank (pics s i) irq"
    "irq = (get_priority (pics s i) (isr (pics s i)) + unat (priority_add (pics s i))) mod 8"
    by (rule get_priority_attained)
  let ?s' = "pic_update_irq (upd_pic i (\<lambda>p. p\<lparr>isr := isr p AND NOT (irq_mask irq)\<rparr>) s)"
  have "pic_ioport_write i 0x20 0x20 s = Inr ?s'"
    using False by (simp add: pic_ioport_write_def pic_write_ocw2_def drop_bit_eq_div Let_def
        get_priority_eq_8 flip: irq(3))
  moreover have "\<forall>j. bit (isr (pics s i)) j \<longrightarrow> irq_rank (pics s i) irq \<le> irq_rank (pics s i) j"
    using get_priority_le_rank irq(2) by metis
  ultimately show ?thesis
    using False irq(1) by (intro exI [of _ ?s'] conjI) auto
qed

theorem pic_eoi_clears_highest_witness:
  "\<exists>s'. pic_ioport_write 0 0x20 0x20 pic_example = Inr s' \<and> isr (pics s' 0) = 0"
proof -
  obtain s' irq where s': "pic_ioport_write 0 0x20 0x20 pic_example = Inr s'"
    and irq: "bit (isr (pics pic_example 0)) irq"
    and isr: "isr (pics s' 0) = isr (pics pic_example 0) AND NOT (irq_mask irq)"
    using pic_eoi_clears_highest [of 0 pic_example] by (auto simp: pic_example_def)
  have v: "isr (pics pic_example 0) = irq_mask 4" by (simp add: pic_example_def irq_mask_def)
  have "irq = 4" using irq unfolding v by (simp add: bit_irq_mask)
  then have "isr (pics s' 0) = 0" using isr v by simp
  with s' show ?thesis by blast
qed

text \<open>
  C2. An interrupt that the processor has acknowledged holds back its own and
  all lower priorities until it is ended: after \<open>pic_read_irq\<close> delivers a line of
  the master (without automatic end of interrupt) it returns the vector of that
  line, and after any further sequence of line changes the master asks only for
  lines of strictly higher priority.
\<close>

theorem pic_no_lower_interrupt_in_service:
  assumes "pic_get_irq s 0 = Some irq" and "irq \<noteq> 2" and "auto_eoi (pics s 0) = 0"
    and "rfold (\<lambda>(l, v). pic_set_irq l v) lines (snd (pic_read_irq s)) = Inr s'"
    and "pic_get_irq s' 0 = Some j"
  shows "fst (pic_read_irq s) = unat (irq_base (pics s 0)) + irq
    \<and> irq_rank (pics s 0) j < irq_rank (pics s 0) irq"
proof -
  let ?s1 = "pic_update_irq (upd_pic 0 (pic_intack irq) s)"
  note rd = pic_read_irq_master [OF assms(1,2)]
  have "irq < 8" using assms(1) pic_get_irq_iff irq_pending_less by blast
  then have "irq_in_service ?s1 0 irq"
    using assms(2,3)
    by (simp add: irq_in_service_def pic_intack_def bit_simps bit_irq_mask)
  moreover have rank: "irq_rank (pics ?s1 0) k = irq_rank (pics s 0) k" for k
    using assms(3) by (simp add: irq_rank_def pic_intack_def)
  moreover have "same_service 0 ?s1 s'"
    using assms(4) rd same_service_lines by simp
  ultimately have "irq_in_service s' 0 irq" "\<And>k. irq_rank (pics s' 0) k = irq_rank (pics s 0) k"
    by (simp_all add: same_service_in_service)
  then show ?thesis using assms(5) rd pic_get_irq_iff [of s' 0 j] by simp
qed

text \<open>Line 1 is delivered; line 0 is raised afterwards and is asked for.\<close>

theorem pic_no_lower_interrupt_in_service_witness:
  "\<exists>s'. pic_get_irq pic_example 0 = Some 1
     \<and> rfold (\<lambda>(l, v). pic_set_irq l v) [(0, 1), (6, 1)] (snd (pic_read_irq pic_example)) = Inr s'
     \<and> pic_get_irq s' 0 = Some 0 \<and> fst (pic_read_irq pic_example) = 0x21
     \<and> irq_rank (pics pic_example 0) 0 < irq_rank (pics pic_example 0) 1"
proof -
  have g: "pic_get_irq pic_example 0 = Some 1" by code_simp
  have "(case rfold (\<lambda>(l, v). pic_set_irq l v) [(0, 1), (6, 1)] (snd (pic_read_irq pic_example)) of
          Inl _ \<Rightarrow> False | Inr s' \<Rightarrow> pic_get_irq s' 0 = Some 0)"
    by code_simp
  then obtain s' where s':
    "rfold (\<lambda>(l, v). pic_set_irq l v) [(0, 1), (6, 1)] (snd (pic_read_irq pic_example)) = Inr s'"
    "pic_get_irq s' 0 = Some 0"
    by (auto split: sum.splits)
  have "auto_eoi (pics pic_example 0) = 0" "irq_base (pics pic_example 0) = 0x20"
    by (simp_all add: pic_example_def)
  with pic_no_lower_interrupt_in_service [OF g _ _ s'] g s' show ?thesis by auto
qed

text \<open>
  C31. The initialisation sequence programs a controller completely: after ICW1
  (with ICW4 announced), ICW2, ICW3 and ICW4 the vector base is the upper five
  bits of ICW2, automatic end of interrupt and special fully nested mode are the
  bits of ICW4, no interrupt is requested, masked or in service, the automaton is
  back in its normal state, the trigger mode register is kept and the other
  controller is untouched.
\<close>

theorem pic_init_sequence:
  assumes "icw1 AND 0x10 \<noteq> 0" and "icw1 AND 0x02 = 0" and "icw1 AND 0x08 = 0" and "icw1 AND 1 = 1"
  shows "\<exists>s'. rfold (\<lambda>(port, val). pic_ioport_write i port val)
           [(0, icw1), (1, icw2), (1, icw3), (1, icw4)] s = Inr s'
     \<and> irq_base (pics s' i) = ucast (icw2 AND 0xf8)
     \<and> auto_eoi (pics s' i) = ucast (drop_bit 1 icw4 AND 1)
     \<and> special_fully_nested_mode (pics s' i) = ucast (drop_bit 4 icw4 AND 1)
     \<and> irr (pics s' i) = 0 \<and> imr (pics s' i) = 0 \<and> isr (pics s' i) = 0
     \<and> init_state (pics s' i) = 0 \<and> elcr (pics s' i) = elcr (pics s i)
     \<and> (\<forall>k. k \<noteq> i \<longrightarrow> pics s' k = pics s k)"
  using assms
  by (simp add: pic_ioport_write_def pic_write_icw1_def pic_write_data_def Let_def pic_reset_def)

theorem pic_init_sequence_witness:
  "\<exists>s'. rfold (\<lambda>(port, val). pic_ioport_write 0 port val)
           [(0, 0x11), (1, 0x20), (1, 0x04), (1, 0x01)] pic_example = Inr s'
     \<and> irq_base (pics s' 0) = 0x20"
  using pic_init_sequence [of "0x11" 0 "0x20" "0x04" "0x01" pic_example] by auto

end
