(* ===== verification/Uart.thy ===== *)
theory Uart
  imports I8259
begin

text \<open>
  The emulated 16450 serial port, \<^verbatim>\<open>hw/uart.c\<close>, with the character driver it
  writes to, \<^verbatim>\<open>hw/chr_driver.c\<close>, and the interrupt request word of the virtual
  processor that \<open>cpu_interrupt\<close> sets (\<^verbatim>\<open>sys/vcpu.c\<close>). The state of an operation
  is the device together with the parts of the machine it touches: the interrupt
  controllers, the request word and the characters written to the console. The
  interrupt callback of the device is always \<open>set_irq\<close>, as \<open>uart_init\<close> installs it.
\<close>

subsection \<open>Constants and state\<close>

definition UART_LCR_DLAB :: u8 where [reg_defs]: "UART_LCR_DLAB = 0x80"
definition UART_IER_THRI :: u8 where [reg_defs]: "UART_IER_THRI = 0x02"
definition UART_IER_RDI :: u8 where [reg_defs]: "UART_IER_RDI = 0x01"
definition UART_IIR_NO_INT :: u8 where [reg_defs]: "UART_IIR_NO_INT = 0x01"
definition UART_IIR_THRI :: u8 where [reg_defs]: "UART_IIR_THRI = 0x02"
definition UART_IIR_RDI :: u8 where [reg_defs]: "UART_IIR_RDI = 0x04"
definition UART_MCR_LOOP :: u8 where [reg_defs]: "UART_MCR_LOOP = 0x10"
definition UART_MSR_DCD :: u8 where [reg_defs]: "UART_MSR_DCD = 0x80"
definition UART_MSR_DSR :: u8 where [reg_defs]: "UART_MSR_DSR = 0x20"
definition UART_MSR_CTS :: u8 where [reg_defs]: "UART_MSR_CTS = 0x10"
definition UART_LSR_TEMT :: u8 where [reg_defs]: "UART_LSR_TEMT = 0x40"
definition UART_LSR_THRE :: u8 where [reg_defs]: "UART_LSR_THRE = 0x20"
definition UART_LSR_BI :: u8 where [reg_defs]: "UART_LSR_BI = 0x10"
definition UART_LSR_DR :: u8 where [reg_defs]: "UART_LSR_DR = 0x01"

definition CPU_INTERRUPT_HARD :: u32 where [reg_defs]: "CPU_INTERRUPT_HARD = 0x02"
definition SERIAL_IRQ :: nat where [reg_defs]: "SERIAL_IRQ = 0x20 + 3"

record SerialState =
  divider :: u16
  rbr :: u8
  ier :: u8
  iir :: u8
  lcr :: u8
  mcr :: u8
  lsr :: u8
  msr :: u8
  scr :: u8
  thr_ipending :: int
  irq_opaque :: nat
  irq :: nat
  last_break_enable :: int

record SerialSetParams =
  speed :: nat
  parity :: char
  data_bits :: nat
  stop_bits :: nat

record machine =
  serial :: SerialState
  isa_pic :: PicState2
  interrupt_request :: u32
  replay_log :: bool
  console :: "u8 list"

abbreviation upd_serial :: "(SerialState \<Rightarrow> SerialState) \<Rightarrow> machine \<Rightarrow> machine" where
  "upd_serial f m \<equiv> m\<lparr>serial := f (serial m)\<rparr>"

subsection \<open>Character driver and interrupt delivery\<close>

text \<open>The driver prints what it is given and ignores control requests.\<close>

datatype chr_ioctl = CHR_IOCTL_SERIAL_SET_PARAMS SerialSetParams | CHR_IOCTL_SERIAL_SET_BREAK int

definition chr_driver_write :: "u8 list \<Rightarrow> machine \<Rightarrow> nat \<times> machine" where
  "chr_driver_write buf m = (length buf, fold (\<lambda>c m. m\<lparr>console := console m @ [c]\<rparr>) buf m)"

definition chr_driver_ioctl :: "chr_ioctl \<Rightarrow> machine \<Rightarrow> int \<times> machine" where
  "chr_driver_ioctl cmd m = (0, m)"

definition cpu_interrupt :: "u32 \<Rightarrow> machine \<Rightarrow> machine res" where
  "cpu_interrupt msk m =
     assert_then (\<not> replay_log m) (Inr (m\<lparr>interrupt_request := interrupt_request m OR msk\<rparr>))"

definition cpu_reset_interrupt :: "u32 \<Rightarrow> machine \<Rightarrow> machine res" where
  "cpu_reset_interrupt msk m =
     assert_then (\<not> replay_log m) (Inr (m\<lparr>interrupt_request := interrupt_request m AND NOT msk\<rparr>))"

definition set_irq :: "nat \<Rightarrow> nat \<Rightarrow> int \<Rightarrow> machine \<Rightarrow> machine res" where
  "set_irq opaque irq_num level m =
     assert_then (opaque = 0)
       (rbind (if level = 1 then cpu_interrupt CPU_INTERRUPT_HARD m else Inr m)
          (\<lambda>m. rbind (pic_set_irq irq_num level (isa_pic m)) (\<lambda>p. Inr (m\<lparr>isa_pic := p\<rparr>))))"

subsection \<open>Device\<close>

definition serial_iir :: "SerialState \<Rightarrow> u8" where
  "serial_iir s =
     (if lsr s AND UART_LSR_DR \<noteq> 0 \<and> ier s AND UART_IER_RDI \<noteq> 0 then UART_IIR_RDI
      else if thr_ipending s \<noteq> 0 \<and> ier s AND UART_IER_THRI \<noteq> 0 then UART_IIR_THRI
      else UART_IIR_NO_INT)"

definition serial_update_irq :: "machine \<Rightarrow> machine res" where
  "serial_update_irq m =
     (let m = upd_serial (\<lambda>s. s\<lparr>iir := serial_iir s\<rparr>) m; s = serial m
      in if iir s \<noteq> UART_IIR_NO_INT then set_irq (irq_opaque s) (irq s) 1 m
         else set_irq (irq_opaque s) (irq s) 0 m)"

definition serial_params :: "SerialState \<Rightarrow> SerialSetParams option" where
  "serial_params s =
     (let par = (if lcr s AND 0x08 \<noteq> 0
                 then (if lcr s AND 0x10 \<noteq> 0 then CHR ''E'' else CHR ''O'')
                 else CHR ''N'');
          stop = (if lcr s AND 0x04 \<noteq> 0 then 2 else 1);
          bits = unat (lcr s AND 0x03) + 5
      in if divider s = 0 then None
         else Some \<lparr>speed = 115200 div unat (divider s), parity = par, data_bits = bits,
                    stop_bits = stop\<rparr>)"

definition serial_update_parameters :: "machine \<Rightarrow> machine" where
  "serial_update_parameters m =
     (case serial_params (serial m) of
        None \<Rightarrow> m
      | Some ssp \<Rightarrow> snd (chr_driver_ioctl (CHR_IOCTL_SERIAL_SET_PARAMS ssp) m))"

definition serial_write_thr :: "u32 \<Rightarrow> machine \<Rightarrow> machine res" where
  "serial_write_thr val m =
     rbind (serial_update_irq
              (upd_serial (\<lambda>s. s\<lparr>thr_ipending := 0, lsr := lsr s AND NOT UART_LSR_THRE\<rparr>) m))
       (\<lambda>m. let m = snd (chr_driver_write [ucast val] m)
            in serial_update_irq
                 (upd_serial (\<lambda>s. s\<lparr>thr_ipending := 1,
                                    lsr := lsr s OR UART_LSR_THRE OR UART_LSR_TEMT\<rparr>) m))"

definition serial_write_ier :: "u32 \<Rightarrow> machine \<Rightarrow> machine res" where
  "serial_write_ier val m =
     (let m = upd_serial (\<lambda>s. s\<lparr>ier := ucast (val AND 0x0f)\<rparr>) m;
          m = (if lsr (serial m) AND UART_LSR_THRE \<noteq> 0
               then upd_serial (\<lambda>s. s\<lparr>thr_ipending := 1\<rparr>) m else m)
      in serial_update_irq m)"

definition serial_write_lcr :: "u32 \<Rightarrow> machine \<Rightarrow> machine" where
  "serial_write_lcr val m =
     (let m = serial_update_parameters (upd_serial (\<lambda>s. s\<lparr>lcr := ucast val\<rparr>) m);
          break_enable = uint (drop_bit 6 val AND 1)
      in if break_enable \<noteq> last_break_enable (serial m)
         then snd (chr_driver_ioctl (CHR_IOCTL_SERIAL_SET_BREAK break_enable)
                (upd_serial (\<lambda>s. s\<lparr>last_break_enable := break_enable\<rparr>) m))
         else m)"

definition serial_ioport_write :: "u32 \<Rightarrow> u32 \<Rightarrow> machine \<Rightarrow> machine res" where
  "serial_ioport_write addr val m =
     (let addr = addr AND 7; dlab = (lcr (serial m) AND UART_LCR_DLAB \<noteq> 0) in
      if addr = 0 then
        (if dlab
         then Inr (serial_update_parameters
                (upd_serial (\<lambda>s. s\<lparr>divider := (divider s AND 0xff00) OR ucast val\<rparr>) m))
         else serial_write_thr val m)
      else if addr = 1 then
        (if dlab
         then Inr (serial_update_parameters
                (upd_serial (\<lambda>s. s\<lparr>divider := (divider s AND 0x00ff) OR ucast (push_bit 8 val)\<rparr>) m))
         else serial_write_ier val m)
      else if addr = 2 then Inr m
      else if addr = 3 then Inr (serial_write_lcr val m)
      else if addr = 4 then Inr (upd_serial (\<lambda>s. s\<lparr>mcr := ucast (val AND 0x1f)\<rparr>) m)
      else if addr = 5 then Inr m
      else if addr = 6 then Inr m
      else Inr (upd_serial (\<lambda>s. s\<lparr>scr := ucast val\<rparr>) m))"

definition serial_msr :: "SerialState \<Rightarrow> u32" where
  "serial_msr s =
     (if mcr s AND UART_MCR_LOOP \<noteq> 0
      then push_bit 4 (ucast (mcr s) AND 0x0c) OR push_bit 3 (ucast (mcr s) AND 0x02)
           OR push_bit 5 (ucast (mcr s) AND 0x01)
      else ucast (msr s))"

definition serial_ioport_read :: "u32 \<Rightarrow> machine \<Rightarrow> (u32 \<times> machine) res" where
  "serial_ioport_read addr m =
     (let addr = addr AND 7; s = serial m; dlab = (lcr s AND UART_LCR_DLAB \<noteq> 0) in
      if addr = 0 then
        (if dlab then Inr (ucast (divider s AND 0xff), m)
         else rbind (serial_update_irq
                (upd_serial (\<lambda>s. s\<lparr>lsr := lsr s AND NOT (UART_LSR_DR OR UART_LSR_BI)\<rparr>) m))
              (\<lambda>m. Inr (ucast (rbr s), m)))
      else if addr = 1 then
        (if dlab then Inr (ucast (drop_bit 8 (divider s) AND 0xff), m) else Inr (ucast (ier s), m))
      else if addr = 2 then
        (let ret = iir s;
             m = (if ret AND 0x7 = UART_IIR_THRI then upd_serial (\<lambda>s. s\<lparr>thr_ipending := 0\<rparr>) m else m)
         in rbind (serial_update_irq m) (\<lambda>m. Inr (ucast ret, m)))
      else if addr = 3 then Inr (ucast (lcr s), m)
      else if addr = 4 then Inr (ucast (mcr s), m)
      else if addr = 5 then Inr (ucast (lsr s), m)
      else if addr = 6 then Inr (serial_msr s, m)
      else Inr (ucast (scr s), m))"

definition serial_can_receive :: "SerialState \<Rightarrow> bool" where
  "serial_can_receive s \<longleftrightarrow> lsr s AND UART_LSR_DR = 0"

definition serial_receive_byte :: "u8 \<Rightarrow> machine \<Rightarrow> machine res" where
  "serial_receive_byte ch m =
     serial_update_irq (upd_serial (\<lambda>s. s\<lparr>rbr := ch, lsr := lsr s OR UART_LSR_DR\<rparr>) m)"

definition serial_receive_break :: "machine \<Rightarrow> machine res" where
  "serial_receive_break m =
     serial_update_irq (upd_serial (\<lambda>s. s\<lparr>rbr := 0, lsr := lsr s OR (UART_LSR_BI OR UART_LSR_DR)\<rparr>) m)"

definition serial_receive1 :: "u8 list \<Rightarrow> machine \<Rightarrow> machine res" where
  "serial_receive1 buf m =
     (case buf of [] \<Rightarrow> Inl OUT_OF_BOUNDS | c # _ \<Rightarrow> serial_receive_byte c m)"

definition CHR_EVENT_BREAK :: int where "CHR_EVENT_BREAK = 0"

definition serial_event :: "int \<Rightarrow> machine \<Rightarrow> machine res" where
  "serial_event event m = (if event = CHR_EVENT_BREAK then serial_receive_break m else Inr m)"

text \<open>
  Initialisation: \<open>chr_alloc\<close> and \<open>alloc\<close> say whether the two allocations, of the
  character driver and of the device record, succeed. The source asserts the
  first and returns without a device on the second. The ports 0x2f8 to 0x2ff are
  registered with the two handlers above.
\<close>

definition uart_init_state :: SerialState where
  "uart_init_state = \<lparr>divider = 0, rbr = 0, ier = 0, iir = UART_IIR_NO_INT, lcr = 0, mcr = 0,
     lsr = UART_LSR_TEMT OR UART_LSR_THRE, msr = UART_MSR_DCD OR UART_MSR_DSR OR UART_MSR_CTS,
     scr = 0, thr_ipending = 0, irq_opaque = 0, irq = SERIAL_IRQ - 0x20, last_break_enable = 0\<rparr>"

definition uart_init :: "bool \<Rightarrow> bool \<Rightarrow> machine \<Rightarrow> machine res" where
  "uart_init chr_alloc alloc m =
     assert_then chr_alloc (Inr (if alloc then m\<lparr>serial := uart_init_state\<rparr> else m))"

subsection \<open>The interrupt line follows the identification register\<close>

text \<open>The calls the rest of the monitor makes on the device.\<close>

datatype uart_op = PortWrite u32 u32 | PortRead u32 | Receive u8 "u8 list" | Event int

fun uart_exec :: "uart_op \<Rightarrow> machine \<Rightarrow> machine res" where
  "uart_exec (PortWrite addr val) m = serial_ioport_write addr val m"
| "uart_exec (PortRead addr) m = rbind (serial_ioport_read addr m) (\<lambda>(_, m). Inr m)"
| "uart_exec (Receive c cs) m = serial_receive1 (c # cs) m"
| "uart_exec (Event ev) m = serial_event ev m"

definition uart_inv :: "machine \<Rightarrow> bool" where
  "uart_inv m \<longleftrightarrow> irq_opaque (serial m) = 0 \<and> irq (serial m) = 3 \<and> \<not> replay_log m
     \<and> elcr (pics (isa_pic m) 0) = 0xff"

definition uart_irq_ok :: "machine \<Rightarrow> bool" where
  "uart_irq_ok m \<longleftrightarrow> iir (serial m) = serial_iir (serial m)
     \<and> (bit (irr (pics (isa_pic m) 0)) 3 \<longleftrightarrow> iir (serial m) \<noteq> UART_IIR_NO_INT)
     \<and> (iir (serial m) \<noteq> UART_IIR_NO_INT \<longrightarrow> bit (interrupt_request m) 1)"

definition uart_ok :: "machine \<Rightarrow> bool" where
  "uart_ok m \<longleftrightarrow> uart_inv m \<and> uart_irq_ok m"

lemma serial_iir_upd [simp]:
  "serial_iir (s\<lparr>iir := v\<rparr>) = serial_iir s" "serial_iir (s\<lparr>lcr := a\<rparr>) = serial_iir s"
  "serial_iir (s\<lparr>mcr := a\<rparr>) = serial_iir s" "serial_iir (s\<lparr>scr := a\<rparr>) = serial_iir s"
  "serial_iir (s\<lparr>divider := d\<rparr>) = serial_iir s"
  "serial_iir (s\<lparr>last_break_enable := b\<rparr>) = serial_iir s"
  by (simp_all add: serial_iir_def)

lemma pic_set_irq_line:
  assumes "elcr (pics st 0) = 0xff"
  obtains st' where "pic_set_irq 3 v st = Inr st'"
    "elcr (pics st' 0) = 0xff" "bit (irr (pics st' 0)) 3 \<longleftrightarrow> v \<noteq> 0"
  using assms pic_lines.drive_same [of "pics st 0" 3 v] pic_lines.drive_ready [of "pics st 0" 3 v]
  by (cases "alt_irq_func st") (auto simp: pic_set_irq_def Let_def)

lemma set_irq_total:
  assumes "\<not> replay_log m" and "elcr (pics (isa_pic m) 0) = 0xff" and "v = 0 \<or> v = 1"
  shows "\<exists>p r. set_irq 0 3 v m = Inr (m\<lparr>isa_pic := p, interrupt_request := r\<rparr>)
    \<and> elcr (pics p 0) = 0xff \<and> (bit (irr (pics p 0)) 3 \<longleftrightarrow> v \<noteq> 0) \<and> (v \<noteq> 0 \<longrightarrow> bit r 1)"
proof -
  obtain p where p: "pic_set_irq 3 v (isa_pic m) = Inr p"
    "elcr (pics p 0) = 0xff" "bit (irr (pics p 0)) 3 \<longleftrightarrow> v \<noteq> 0"
    using pic_set_irq_line [OF assms(2)] by metis
  let ?r = "if v = 1 then interrupt_request m OR CPU_INTERRUPT_HARD else interrupt_request m"
  have "bit (CPU_INTERRUPT_HARD) 1" by (simp add: CPU_INTERRUPT_HARD_def)
  then have "v \<noteq> 0 \<longrightarrow> bit ?r 1" using assms(3) by (auto simp: bit_or_iff)
  moreover have "set_irq 0 3 v m = Inr (m\<lparr>isa_pic := p, interrupt_request := ?r\<rparr>)"
    using assms(1,3) p(1) by (auto simp: set_irq_def cpu_interrupt_def)
  ultimately show ?thesis using p(2,3) by blast
qed

lemma serial_update_irq_total:
  assumes "uart_inv m"
  shows "\<exists>p r. serial_update_irq m =
      Inr (m\<lparr>serial := (serial m)\<lparr>iir := serial_iir (serial m)\<rparr>, isa_pic := p, interrupt_request := r\<rparr>)
    \<and> uart_ok (m\<lparr>serial := (serial m)\<lparr>iir := serial_iir (serial m)\<rparr>, isa_pic := p, interrupt_request := r\<rparr>)"
proof -
  define m1 where "m1 = upd_serial (\<lambda>s. s\<lparr>iir := serial_iir s\<rparr>) m"
  define v :: int where "v = (if serial_iir (serial m) \<noteq> UART_IIR_NO_INT then 1 else 0)"
  have inv: "\<not> replay_log m1" "elcr (pics (isa_pic m1) 0) = 0xff"
    using assms by (simp_all add: m1_def uart_inv_def)
  have v01: "v = 0 \<or> v = 1" by (simp add: v_def)
  obtain p r where pr: "set_irq 0 3 v m1 = Inr (m1\<lparr>isa_pic := p, interrupt_request := r\<rparr>)"
    "elcr (pics p 0) = 0xff" "bit (irr (pics p 0)) 3 \<longleftrightarrow> v \<noteq> 0" "v \<noteq> 0 \<longrightarrow> bit r 1"
    using set_irq_total [OF inv v01] by blast
  have "serial_update_irq m = set_irq 0 3 v m1"
    using assms by (simp add: serial_update_irq_def uart_inv_def Let_def m1_def v_def)
  moreover have "uart_ok (m1\<lparr>isa_pic := p, interrupt_request := r\<rparr>)"
    using assms pr(2-4) by (simp add: uart_ok_def uart_inv_def uart_irq_ok_def m1_def v_def
        split: if_splits)
  ultimately show ?thesis using pr(1) unfolding m1_def by auto
qed

text \<open>
  The updates of the device that recompute the interrupt keep the invariant; the
  others leave the registers it speaks of alone.
\<close>

lemma update_irq_ok:
  assumes "uart_inv m"
  obtains m' where "serial_update_irq m = Inr m'" "uart_ok m'" "console m' = console m"
    "serial m' = (serial m)\<lparr>iir := serial_iir (serial m)\<rparr>"
  using serial_update_irq_total [OF assms] by fastforce

lemma update_irq_ok_ex: "uart_inv m \<Longrightarrow> \<exists>m'. serial_update_irq m = Inr m' \<and> uart_ok m'"
  by (meson update_irq_ok)

lemma uart_inv_upd_serial:
  "uart_inv m \<Longrightarrow> irq_opaque s = 0 \<Longrightarrow> irq s = 3 \<Longrightarrow> uart_inv (m\<lparr>serial := s\<rparr>)"
  by (simp add: uart_inv_def)

lemma uart_inv_fields: "uart_inv m \<Longrightarrow> irq_opaque (serial m) = 0 \<and> irq (serial m) = 3"
  by (simp add: uart_inv_def)

lemma serial_update_parameters_id [simp]: "serial_update_parameters m = m"
  by (simp add: serial_update_parameters_def chr_driver_ioctl_def split: option.split)

lemma chr_driver_write_one [simp]: "chr_driver_write [c] m = (1, m\<lparr>console := console m @ [c]\<rparr>)"
  by (simp add: chr_driver_write_def)

lemma serial_write_thr_ok:
  assumes "uart_inv m"
  obtains m' where "serial_write_thr val m = Inr m'" "uart_ok m'"
    "console m' = console m @ [ucast val]" "thr_ipending (serial m') = 1"
    "lsr (serial m') AND (UART_LSR_THRE OR UART_LSR_TEMT) = UART_LSR_THRE OR UART_LSR_TEMT"
    "ier (serial m') = ier (serial m)"
proof -
  let ?m1 = "upd_serial (\<lambda>s. s\<lparr>thr_ipending := 0, lsr := lsr s AND NOT UART_LSR_THRE\<rparr>) m"
  have "uart_inv ?m1" using assms by (simp add: uart_inv_def)
  then obtain m1 where m1: "serial_update_irq ?m1 = Inr m1" "uart_ok m1"
    "console m1 = console m" "ier (serial m1) = ier (serial m)"
    by (rule update_irq_ok) auto
  let ?m2 = "upd_serial (\<lambda>s. s\<lparr>thr_ipending := 1, lsr := lsr s OR UART_LSR_THRE OR UART_LSR_TEMT\<rparr>)
     (m1\<lparr>console := console m @ [ucast val]\<rparr>)"
  have "uart_inv ?m2" using m1(2) by (simp add: uart_ok_def uart_inv_def)
  then obtain m2 where m2: "serial_update_irq ?m2 = Inr m2" "uart_ok m2" "console m2 = console ?m2"
    "serial m2 = (serial ?m2)\<lparr>iir := serial_iir (serial ?m2)\<rparr>"
    by (rule update_irq_ok)
  have "serial_write_thr val m = Inr m2"
    using m1(1,3) m2(1) by (simp add: serial_write_thr_def Let_def)
  moreover have "(x OR UART_LSR_THRE OR UART_LSR_TEMT) AND (UART_LSR_THRE OR UART_LSR_TEMT)
      = UART_LSR_THRE OR UART_LSR_TEMT" for x
    by (rule bit_word_eqI) (auto simp: bit_simps)
  ultimately show thesis
    using m2 m1(4) by (intro that [of m2]) simp_all
qed

lemma uart_ok_silent:
  assumes "uart_ok m" and "irq_opaque s = irq_opaque (serial m)" and "irq s = irq (serial m)"
    and "iir s = iir (serial m)" and "serial_iir s = serial_iir (serial m)"
  shows "uart_ok (m\<lparr>serial := s\<rparr>)"
  using assms by (simp add: uart_ok_def uart_inv_def uart_irq_ok_def)

lemma serial_write_ok:
  assumes "uart_ok m"
  shows "\<exists>m'. serial_ioport_write addr val m = Inr m' \<and> uart_ok m'"
proof -
  have inv: "uart_inv m" using assms by (simp add: uart_ok_def)
  have thr: "\<exists>m'. serial_write_thr val m = Inr m' \<and> uart_ok m'"
    using serial_write_thr_ok [OF inv] by metis
  have ier: "\<exists>m'. serial_write_ier val m = Inr m' \<and> uart_ok m'"
    unfolding serial_write_ier_def Let_def
    by (rule update_irq_ok_ex) (use inv in \<open>auto simp: uart_inv_def\<close>)
  have lcr: "uart_ok (serial_write_lcr val m)"
    using assms by (auto simp: serial_write_lcr_def Let_def chr_driver_ioctl_def intro!: uart_ok_silent)
  show ?thesis
    using thr ier lcr assms
    by (auto simp: serial_ioport_write_def Let_def intro!: uart_ok_silent)
qed

lemma serial_read_ok:
  assumes "uart_ok m"
  shows "\<exists>v m'. serial_ioport_read addr m = Inr (v, m') \<and> uart_ok m'"
proof -
  have inv: "uart_inv m" using assms by (simp add: uart_ok_def)
  have upd: "\<exists>m'. serial_update_irq (m\<lparr>serial := s\<rparr>) = Inr m' \<and> uart_ok m'"
    if "irq_opaque s = irq_opaque (serial m)" "irq s = irq (serial m)" for s
    using update_irq_ok [of "m\<lparr>serial := s\<rparr>"] inv that by (metis uart_inv_fields uart_inv_upd_serial)
  obtain m0 where m0: "serial_update_irq m = Inr m0" "uart_ok m0"
    using update_irq_ok [OF inv] by metis
  obtain m1 where m1: "serial_update_irq
      (upd_serial (\<lambda>s. s\<lparr>lsr := lsr s AND NOT (UART_LSR_DR OR UART_LSR_BI)\<rparr>) m) = Inr m1" "uart_ok m1"
    using upd [of "(serial m)\<lparr>lsr := lsr (serial m) AND NOT (UART_LSR_DR OR UART_LSR_BI)\<rparr>"] by auto
  obtain m2 where m2: "serial_update_irq (upd_serial (\<lambda>s. s\<lparr>thr_ipending := 0\<rparr>) m) = Inr m2" "uart_ok m2"
    using upd [of "(serial m)\<lparr>thr_ipending := 0\<rparr>"] by auto
  show ?thesis
    using assms m0 m1 m2 by (auto simp: serial_ioport_read_def Let_def)
qed

lemma serial_receive_ok:
  assumes "uart_ok m"
  shows "\<exists>m'. serial_receive1 (c # cs) m = Inr m' \<and> uart_ok m'"
  unfolding serial_receive1_def serial_receive_byte_def list.case
  by (rule update_irq_ok_ex) (use assms in \<open>simp add: uart_ok_def uart_inv_def\<close>)

lemma serial_event_ok:
  assumes "uart_ok m"
  shows "\<exists>m'. serial_event ev m = Inr m' \<and> uart_ok m'"
proof -
  have "\<exists>m'. serial_receive_break m = Inr m' \<and> uart_ok m'"
    unfolding serial_receive_break_def
    by (rule update_irq_ok_ex) (use assms in \<open>simp add: uart_ok_def uart_inv_def\<close>)
  then show ?thesis using assms by (simp add: serial_event_def)
qed

lemma uart_exec_ok: "uart_ok m \<Longrightarrow> \<exists>m'. uart_exec op m = Inr m' \<and> uart_ok m'"
  using serial_write_ok serial_receive_ok serial_event_ok serial_read_ok [of m]
  by (cases op) (force simp: rbind_Inr)+

lemma uart_run_ok: "uart_ok m \<Longrightarrow> \<exists>m'. rfold uart_exec ops m = Inr m' \<and> uart_ok m'"
proof (induction ops arbitrary: m)
  case Nil
  then show ?case by simp
next
  case (Cons op ops)
  then show ?case using uart_exec_ok [of m op] by fastforce
qed

lemma uart_init_ok:
  assumes "uart_init True True m = Inr m0" and "\<not> replay_log m"
    and "elcr (pics (isa_pic m) 0) = 0xff" and "\<not> bit (irr (pics (isa_pic m) 0)) 3"
  shows "uart_ok m0"
  using assms
  by (auto simp: uart_init_def uart_init_state_def uart_ok_def uart_inv_def uart_irq_ok_def
      serial_iir_def reg_defs)

lemma UART_LSR_bits:
  "UART_LSR_DR = push_bit 0 1" "UART_LSR_BI = push_bit 4 1" "UART_IER_RDI = push_bit 0 1"
  "UART_IER_THRI = push_bit 1 1" "UART_LCR_DLAB = push_bit 7 1"
  by (simp_all add: reg_defs)

lemma low_byte_split:
  assumes "lo < 0x100" and "hi < 0x100"
  shows "((x AND 0xff00) OR ucast (lo :: u32)) AND 0xff = (ucast lo :: u16)"
    and "drop_bit 8 ((y AND 0x00ff) OR ucast (push_bit 8 (hi :: u32))) AND 0xff = (ucast hi :: u16)"
    and "((x AND 0x00ff) OR ucast (push_bit 8 hi)) AND 0xff = (x AND 0xff :: u16)"
proof -
  have m: "(0xff :: u16) = mask 8" "(0xff00 :: u16) = push_bit 8 (mask 8)"
    by (simp_all add: mask_eq_decr_exp push_bit_eq_mult)
  have small: "bit w n \<Longrightarrow> n < 8" if "w < 0x100" for w :: u32 and n
    using that word_small_bit [of w 8 n] by (cases "n < 8") (simp_all add: word_less_nat_alt)
  show "((x AND 0xff00) OR ucast lo) AND 0xff = (ucast lo :: u16)"
    unfolding m by (rule bit_word_eqI) (use small [OF assms(1)] in \<open>auto simp: bit_simps\<close>)
  show "drop_bit 8 ((y AND 0x00ff) OR ucast (push_bit 8 hi)) AND 0xff = (ucast hi :: u16)"
    unfolding m by (rule bit_word_eqI) (use small [OF assms(2)] in \<open>auto simp: bit_simps\<close>)
  show "((x AND 0x00ff) OR ucast (push_bit 8 hi)) AND 0xff = (x AND 0xff :: u16)"
    unfolding m by (rule bit_word_eqI) (auto simp: bit_simps)
qed

subsection \<open>Properties\<close>

text \<open>
  C13. From its initialisation on, whatever sequence of port accesses, received
  characters and break events the serial device sees, no assertion fails and
  afterwards the interrupt identification register is the one its line status,
  interrupt enable and transmitter state determine; the request bit of line 3 at
  the master controller is set exactly when that register reports an interrupt,
  and then the processor's interrupt request flag is set as well.
\<close>

theorem uart_irq_line_follows_iir:
  assumes "uart_init True True m = Inr m0" and "\<not> replay_log m"
    and "elcr (pics (isa_pic m) 0) = 0xff" and "\<not> bit (irr (pics (isa_pic m) 0)) 3"
  shows "\<exists>m'. rfold uart_exec ops m0 = Inr m'
    \<and> iir (serial m') = serial_iir (serial m')
    \<and> (bit (irr (pics (isa_pic m') 0)) 3 \<longleftrightarrow> iir (serial m') \<noteq> UART_IIR_NO_INT)
    \<and> (iir (serial m') \<noteq> UART_IIR_NO_INT \<longrightarrow> bit (interrupt_request m') 1)"
  using uart_run_ok [OF uart_init_ok [OF assms]] by (auto simp: uart_ok_def uart_irq_ok_def)

definition uart_example :: machine where
  "uart_example = \<lparr>serial = uart_init_state, isa_pic = fst (pic_init False (pic_example, Map.empty)),
     interrupt_request = 0, replay_log = False, console = []\<rparr>"

lemma uart_example_ok:
  "uart_init True True uart_example = Inr uart_example" "\<not> replay_log uart_example"
  "elcr (pics (isa_pic uart_example) 0) = 0xff" "\<not> bit (irr (pics (isa_pic uart_example) 0)) 3"
  "uart_ok uart_example" "lcr (serial uart_example) = 0" "lsr (serial uart_example) = 0x60"
proof -
  show e: "uart_init True True uart_example = Inr uart_example" "\<not> replay_log uart_example"
    "elcr (pics (isa_pic uart_example) 0) = 0xff" "\<not> bit (irr (pics (isa_pic uart_example) 0)) 3"
    by (simp_all add: uart_init_def uart_example_def pic_init_def pic_init0_def pic_reset_def Let_def)
  show "uart_ok uart_example" by (rule uart_init_ok [OF e])
  show "lcr (serial uart_example) = 0" "lsr (serial uart_example) = 0x60"
    by (simp_all add: uart_example_def uart_init_state_def reg_defs)
qed

theorem uart_irq_line_follows_iir_witness:
  "\<exists>m'. rfold uart_exec [PortWrite 1 3, Receive 65 [], PortRead 2] uart_example = Inr m'
    \<and> (bit (irr (pics (isa_pic m') 0)) 3 \<longleftrightarrow> iir (serial m') \<noteq> UART_IIR_NO_INT)"
  using uart_irq_line_follows_iir [OF uart_example_ok(1-4)] by blast

text \<open>
  The divisor latch keeps what is written: with the latch access bit set,
  writing two bytes to the first two ports makes the divisor their 16-bit
  combination, both ports read the bytes back, and nothing but the divisor has
  changed.
\<close>

lemma uart_divisor_latch_roundtrip:
  assumes "lcr (serial m) AND UART_LCR_DLAB \<noteq> 0" and "lo < 0x100" and "hi < 0x100"
  shows "\<exists>m'. rfold uart_exec [PortWrite 0 lo, PortWrite 1 hi] m = Inr m'
    \<and> serial_ioport_read 0 m' = Inr (lo, m') \<and> serial_ioport_read 1 m' = Inr (hi, m')
    \<and> m' = upd_serial (\<lambda>s. s\<lparr>divider := divider (serial m')\<rparr>) m"
proof -
  let ?d = "(((divider (serial m) AND 0xff00) OR ucast lo) AND 0xff) OR ucast (push_bit 8 hi)"
  let ?m' = "upd_serial (\<lambda>s. s\<lparr>divider := ?d\<rparr>) m"
  have "rfold uart_exec [PortWrite 0 lo, PortWrite 1 hi] m = Inr ?m'"
    using assms(1) by (simp add: serial_ioport_write_def Let_def)
  moreover have "ucast (ucast w :: u16) = w" if "w < 0x100" for w :: u32
    using that by (simp add: word_unat_eq_iff unsigned_ucast_eq unsigned_take_bit_eq word_less_nat_alt
        take_bit_nat_eq_self)
  moreover have "?d AND 0xff = ucast lo"
    by (rule trans [OF low_byte_split(3) [OF assms(2,3)] low_byte_split(1) [OF assms(2,3)]])
  moreover have "drop_bit 8 ?d AND 0xff = ucast hi"
    by (simp only: low_byte_split(2) [OF assms(2,3)])
  ultimately show ?thesis
    using assms by (intro exI [of _ ?m']) (simp add: serial_ioport_read_def Let_def)
qed

text \<open>
  C38. A received character reaches the guest: while the device can receive, a
  character makes it report data, raises the line if the receive interrupt is
  enabled, is what the guest then reads from the data port, and reading it makes
  the device ready for the next one.
\<close>

theorem uart_receive_then_read:
  assumes "uart_ok m" and "serial_can_receive (serial m)" and "lcr (serial m) AND UART_LCR_DLAB = 0"
  shows "\<exists>m1 m2. serial_receive1 (c # cs) m = Inr m1 \<and> \<not> serial_can_receive (serial m1)
    \<and> (ier (serial m) AND UART_IER_RDI \<noteq> 0 \<longrightarrow> bit (irr (pics (isa_pic m1) 0)) 3)
    \<and> serial_ioport_read 0 m1 = Inr (ucast c, m2) \<and> serial_can_receive (serial m2)"
proof -
  let ?m = "upd_serial (\<lambda>s. s\<lparr>rbr := c, lsr := lsr s OR UART_LSR_DR\<rparr>) m"
  have "uart_inv ?m" using assms(1) by (simp add: uart_ok_def uart_inv_def)
  then obtain m1 where m1: "serial_update_irq ?m = Inr m1" "uart_ok m1"
    "serial m1 = (serial ?m)\<lparr>iir := serial_iir (serial ?m)\<rparr>"
    by (rule update_irq_ok)
  let ?n = "upd_serial (\<lambda>s. s\<lparr>lsr := lsr s AND NOT (UART_LSR_DR OR UART_LSR_BI)\<rparr>) m1"
  have "uart_inv ?n" using m1(2) by (simp add: uart_ok_def uart_inv_def)
  then obtain m2 where m2: "serial_update_irq ?n = Inr m2"
    "serial m2 = (serial ?n)\<lparr>iir := serial_iir (serial ?n)\<rparr>"
    by (rule update_irq_ok)
  have dr: "(x OR UART_LSR_DR) AND UART_LSR_DR \<noteq> 0"
    "(x AND NOT (UART_LSR_DR OR UART_LSR_BI)) AND UART_LSR_DR = 0" for x
    unfolding UART_LSR_bits and_push_one_zero by (auto simp: bit_simps)
  have "ier (serial m) AND UART_IER_RDI \<noteq> 0 \<longrightarrow> bit (irr (pics (isa_pic m1) 0)) 3"
    using m1(2,3) dr(1) by (simp add: uart_ok_def uart_irq_ok_def serial_iir_def reg_defs)
  moreover have "serial_receive1 (c # cs) m = Inr m1"
    using m1(1) by (simp add: serial_receive1_def serial_receive_byte_def)
  moreover have "serial_ioport_read 0 m1 = Inr (ucast c, m2)"
    using assms(3) m1(3) m2(1) by (simp add: serial_ioport_read_def Let_def)
  ultimately show ?thesis
    using m1(3) m2(2) dr by (simp add: serial_can_receive_def)
qed

theorem uart_receive_then_read_witness:
  "\<exists>m1 m2. serial_receive1 [65] uart_example = Inr m1 \<and> serial_ioport_read 0 m1 = Inr (65, m2)"
  using uart_receive_then_read [of uart_example 65 "[]"] uart_example_ok
  by (auto simp: serial_can_receive_def reg_defs)

text \<open>
  Transmission is immediate: a character written to the data port is
  appended to the console, the transmitter is reported empty again when the write
  returns, and the line is raised if the transmitter interrupt is enabled.
\<close>

lemma uart_transmit:
  assumes "uart_ok m" and "lcr (serial m) AND UART_LCR_DLAB = 0"
  shows "\<exists>m'. serial_ioport_write 0 val m = Inr m' \<and> console m' = console m @ [ucast val]
    \<and> lsr (serial m') AND (UART_LSR_THRE OR UART_LSR_TEMT) = UART_LSR_THRE OR UART_LSR_TEMT
    \<and> (ier (serial m) AND UART_IER_THRI \<noteq> 0 \<longrightarrow> bit (irr (pics (isa_pic m') 0)) 3)"
proof -
  have "uart_inv m" using assms(1) by (simp add: uart_ok_def)
  then obtain m' where m': "serial_write_thr val m = Inr m'" "uart_ok m'"
    "console m' = console m @ [ucast val]" "thr_ipending (serial m') = 1"
    "lsr (serial m') AND (UART_LSR_THRE OR UART_LSR_TEMT) = UART_LSR_THRE OR UART_LSR_TEMT"
    "ier (serial m') = ier (serial m)"
    by (rule serial_write_thr_ok)
  have "ier (serial m) AND UART_IER_THRI \<noteq> 0 \<longrightarrow> bit (irr (pics (isa_pic m') 0)) 3"
    using m'(2,4,6) by (simp add: uart_ok_def uart_irq_ok_def serial_iir_def reg_defs)
  moreover have "serial_ioport_write 0 val m = serial_write_thr val m"
    using assms(2) by (simp add: serial_ioport_write_def Let_def)
  ultimately show ?thesis using m' by auto
qed

end
