(* ===== verification/Pending.thy ===== *)
theory Pending
  imports Uart
begin

text \<open>
  Delivery of external interrupts to the guest: \<open>handle_pending_interrupts\<close> of
  \<^verbatim>\<open>peep/callouts.c\<close>, which joins the request flag that devices set with the
  choice of the interrupt controllers. \<open>raise_interrupt\<close> does not return; here it
  is the outcome of the call. The instruction count that \<open>get_n_exec\<close> computes
  from the translated block for the log is a parameter.
\<close>

record vmachine = machine +
  IF_flag :: int
  record_log :: bool
  n_exec :: u64

datatype intr_outcome = RAISE_INTERRUPT nat | RETURN

definition handle_pending_interrupts :: "u64 \<Rightarrow> vmachine \<Rightarrow> intr_outcome \<times> vmachine" where
  "handle_pending_interrupts get_n_exec m =
     (if IF_flag m \<noteq> 1 then (RETURN, m)
      else if interrupt_request m AND CPU_INTERRUPT_HARD \<noteq> 0 then
        (let (intno, p) = pic_read_irq (isa_pic m);
             m = m\<lparr>isa_pic := p\<rparr>
         in if \<not> pic_is_spurious_interrupt (isa_pic m) intno then
              (let m = (if record_log m \<or> replay_log m then m\<lparr>n_exec := get_n_exec\<rparr> else m)
               in (RAISE_INTERRUPT intno, m))
            else
              (RETURN, m\<lparr>interrupt_request := interrupt_request m AND NOT CPU_INTERRUPT_HARD\<rparr>))
      else (RETURN, m))"

lemma hard_bit: "r AND CPU_INTERRUPT_HARD \<noteq> 0 \<longleftrightarrow> bit r 1"
proof -
  have eq: "CPU_INTERRUPT_HARD = push_bit 1 1" by (simp add: CPU_INTERRUPT_HARD_def)
  show ?thesis unfolding eq and_push_one_zero by simp
qed

lemma irq_base_update [simp]: "irq_base (pics (snd (pic_read_irq s)) i) = irq_base (pics s i)"
  by (simp add: pic_read_irq_def Let_def pic_intack_def upd_pic_def split: option.split)

lemma pic_read_irq_none:
  "pic_get_irq s 0 = None \<Longrightarrow> pic_read_irq s = (unat (irq_base (pics s 0)) + 7, pic_update_irq s)"
  by (simp add: pic_read_irq_def)

subsection \<open>Properties\<close>


text \<open>
  C24. Line 7 of the master is never delivered: \<open>pic_is_spurious_interrupt\<close> tells a
  spurious interrupt by its vector alone, so when the master genuinely asks for
  line 7 the interrupt is acknowledged and marked in service, the request flag is
  cleared and the guest sees nothing, exactly as when the master asks for nothing.
\<close>

theorem irq7_taken_for_spurious:
  assumes "IF_flag m = 1" and "bit (interrupt_request m) 1"
    and "pic_get_irq (isa_pic m) 0 = Some 7" and "auto_eoi (pics (isa_pic m) 0) = 0"
  shows "\<exists>m'. handle_pending_interrupts n m = (RETURN, m')
    \<and> bit (isr (pics (isa_pic m') 0)) 7 \<and> \<not> bit (interrupt_request m') 1"
proof -
  let ?s = "isa_pic m"
  let ?p = "pic_update_irq (upd_pic 0 (pic_intack 7) ?s)"
  have rd: "pic_read_irq ?s = (unat (irq_base (pics ?s 0)) + 7, ?p)"
    by (rule pic_read_irq_master [OF assms(3)]) simp
  have "bit (isr (pics ?p 0)) 7"
    using assms(4) by (simp add: pic_intack_def bit_simps bit_irq_mask)
  moreover have "pic_is_spurious_interrupt ?p (unat (irq_base (pics ?s 0)) + 7)"
    by (simp add: pic_is_spurious_interrupt_def pic_intack_def Let_def)
  moreover have "\<not> bit (interrupt_request m AND NOT CPU_INTERRUPT_HARD) 1"
    by (simp add: bit_simps CPU_INTERRUPT_HARD_def)
  ultimately show ?thesis
    using assms(1,2) rd by (simp add: handle_pending_interrupts_def hard_bit Let_def)
qed

definition pending_example :: "u8 \<Rightarrow> vmachine" where
  "pending_example req = machine.extend
     (uart_example\<lparr>interrupt_request := 2,
        isa_pic := upd_pic 0 (\<lambda>p. p\<lparr>irr := req, irq_base := 0x20\<rparr>) (isa_pic uart_example)\<rparr>)
     (vmachine.fields 1 False 0)"

lemma pending_example_fields:
  "IF_flag (pending_example r) = 1" "bit (interrupt_request (pending_example r)) 1"
  "auto_eoi (pics (isa_pic (pending_example r)) 0) = 0"
  "irq_base (pics (isa_pic (pending_example r)) 0) = 0x20"
  by (simp_all add: pending_example_def machine.defs vmachine.defs uart_example_def pic_init_def
      pic_init0_def pic_reset_def Let_def)


theorem irq7_taken_for_spurious_witness:
  "\<exists>m'. handle_pending_interrupts 0 (pending_example 0x80) = (RETURN, m')
     \<and> bit (isr (pics (isa_pic m') 0)) 7"
proof -
  have "pic_get_irq (isa_pic (pending_example 0x80)) 0 = Some 7" by code_simp
  then show ?thesis
    using irq7_taken_for_spurious [of "pending_example 0x80" 0] pending_example_fields
    by blast
qed

end
