(* ===== verification/Bitmap.thy ===== *)
theory Bitmap
  imports Prelude
begin

text \<open>
  The bit arrays of \<^verbatim>\<open>lib/bitmap.c\<close>: an array of 32-bit elements and a number
  of bits. Sizes are \<open>size_t\<close> values, natural numbers whose sums wrap at 32 bits
  (\<open>usize\<close>). A pointer to a bitmap is never null in the model. The
  abstraction \<open>bitmap_abs\<close> reads a bitmap as a list of booleans; the lemmas show
  that every operation implements the list operation it stands for.
\<close>

subsection \<open>Representation\<close>

record bitmap =
  bit_cnt :: nat
  bits :: "u32 list"

definition BITMAP_ERROR :: nat where
  "BITMAP_ERROR = SIZE_MAX"

definition elem_idx :: "nat \<Rightarrow> nat" where
  "elem_idx bit_idx = bit_idx div 32"

definition bit_mask :: "nat \<Rightarrow> u32" where
  "bit_mask bit_idx = push_bit (bit_idx mod 32) 1"

definition elem_cnt :: "nat \<Rightarrow> nat" where
  "elem_cnt n = usize (n + 32 - 1) div 32"

definition byte_cnt :: "nat \<Rightarrow> nat" where
  "byte_cnt n = usize (4 * elem_cnt n)"

definition last_mask :: "bitmap \<Rightarrow> u32" where
  "last_mask b = (let last_bits = bit_cnt b mod 32
                  in if last_bits \<noteq> 0 then push_bit last_bits 1 - 1 else - 1)"

definition bitmap_buf_size :: "nat \<Rightarrow> nat" where
  "bitmap_buf_size n = usize (8 + byte_cnt n)"

definition bitmap_size :: "bitmap \<Rightarrow> nat" where
  "bitmap_size b = bit_cnt b"

subsection \<open>Single bits\<close>

definition upd_elem :: "nat \<Rightarrow> (u32 \<Rightarrow> u32) \<Rightarrow> bitmap \<Rightarrow> bitmap res" where
  "upd_elem idx f b =
     (if idx < length (bits b) then Inr (b\<lparr>bits := (bits b)[idx := f (bits b ! idx)]\<rparr>)
      else Inl OUT_OF_BOUNDS)"

definition bitmap_mark :: "bitmap \<Rightarrow> nat \<Rightarrow> bitmap res" where
  "bitmap_mark b bit_idx = upd_elem (elem_idx bit_idx) (\<lambda>e. e OR bit_mask bit_idx) b"

definition bitmap_reset :: "bitmap \<Rightarrow> nat \<Rightarrow> bitmap res" where
  "bitmap_reset b bit_idx = upd_elem (elem_idx bit_idx) (\<lambda>e. e AND NOT (bit_mask bit_idx)) b"

definition bitmap_flip :: "bitmap \<Rightarrow> nat \<Rightarrow> bitmap res" where
  "bitmap_flip b bit_idx = upd_elem (elem_idx bit_idx) (\<lambda>e. e XOR bit_mask bit_idx) b"

definition bitmap_set :: "bitmap \<Rightarrow> nat \<Rightarrow> bool \<Rightarrow> bitmap res" where
  "bitmap_set b idx v =
     assert_then (idx < bit_cnt b) (if v then bitmap_mark b idx else bitmap_reset b idx)"

definition bitmap_test :: "bitmap \<Rightarrow> nat \<Rightarrow> bool res" where
  "bitmap_test b idx =
     assert_then (idx < bit_cnt b)
       (if elem_idx idx < length (bits b)
        then Inr (bits b ! elem_idx idx AND bit_mask idx \<noteq> 0) else Inl OUT_OF_BOUNDS)"

subsection \<open>Ranges of bits\<close>

definition bitmap_set_multiple :: "bitmap \<Rightarrow> nat \<Rightarrow> nat \<Rightarrow> bool \<Rightarrow> bitmap res" where
  "bitmap_set_multiple b start cnt v =
     assert_then (start \<le> bit_cnt b)
       (assert_then (usize (start + cnt) \<le> bit_cnt b)
          (rfold (\<lambda>i b. bitmap_set b (usize (start + i)) v) [0..<cnt] b))"

definition bitmap_set_all :: "bitmap \<Rightarrow> bool \<Rightarrow> bitmap res" where
  "bitmap_set_all b v = bitmap_set_multiple b 0 (bitmap_size b) v"

definition bitmap_count :: "bitmap \<Rightarrow> nat \<Rightarrow> nat \<Rightarrow> bool \<Rightarrow> nat res" where
  "bitmap_count b start cnt v =
     assert_then (start \<le> bit_cnt b)
       (assert_then (usize (start + cnt) \<le> bit_cnt b)
          (rfold (\<lambda>i value_cnt. rbind (bitmap_test b (usize (start + i)))
                    (\<lambda>t. Inr (if t = v then Suc value_cnt else value_cnt))) [0..<cnt] 0))"

definition bitmap_contains :: "bitmap \<Rightarrow> nat \<Rightarrow> nat \<Rightarrow> bool \<Rightarrow> bool res" where
  "bitmap_contains b start cnt v =
     assert_then (start \<le> bit_cnt b)
       (assert_then (usize (start + cnt) \<le> bit_cnt b)
          (rexists (\<lambda>i. rbind (bitmap_test b (usize (start + i))) (\<lambda>t. Inr (t = v))) [0..<cnt]))"

definition bitmap_any :: "bitmap \<Rightarrow> nat \<Rightarrow> nat \<Rightarrow> bool res" where
  "bitmap_any b start cnt = bitmap_contains b start cnt True"

definition bitmap_none :: "bitmap \<Rightarrow> nat \<Rightarrow> nat \<Rightarrow> bool res" where
  "bitmap_none b start cnt = rbind (bitmap_contains b start cnt True) (\<lambda>r. Inr (\<not> r))"

definition bitmap_all :: "bitmap \<Rightarrow> nat \<Rightarrow> nat \<Rightarrow> bool res" where
  "bitmap_all b start cnt = rbind (bitmap_contains b start cnt False) (\<lambda>r. Inr (\<not> r))"

definition bitmap_scan :: "bitmap \<Rightarrow> nat \<Rightarrow> nat \<Rightarrow> bool \<Rightarrow> nat res" where
  "bitmap_scan b start cnt v =
     assert_then (start \<le> bit_cnt b)
       (if cnt \<le> bit_cnt b then
          (let last_i = bit_cnt b - cnt
           in rbind (rfind (\<lambda>i. rbind (bitmap_contains b i cnt (\<not> v)) (\<lambda>c. Inr (\<not> c)))
                       [start..<Suc last_i])
                (\<lambda>r. case r of Some i \<Rightarrow> Inr i | None \<Rightarrow> Inr BITMAP_ERROR))
        else Inr BITMAP_ERROR)"

definition bitmap_scan_and_flip :: "bitmap \<Rightarrow> nat \<Rightarrow> nat \<Rightarrow> bool \<Rightarrow> (nat \<times> bitmap) res" where
  "bitmap_scan_and_flip b start cnt v =
     rbind (bitmap_scan b start cnt v)
       (\<lambda>idx. if idx \<noteq> BITMAP_ERROR
              then rbind (bitmap_set_multiple b idx cnt (\<not> v)) (\<lambda>b. Inr (idx, b))
              else Inr (idx, b))"

subsection \<open>Creation\<close>

text \<open>
  \<open>desc\<close> says whether the descriptor could be allocated and \<open>mem\<close> is the memory
  returned for the elements, with whatever it held, or \<open>None\<close> for a null pointer.
\<close>

definition bitmap_create :: "nat \<Rightarrow> bool \<Rightarrow> u32 list option \<Rightarrow> bitmap option res" where
  "bitmap_create n desc mem =
     (if desc then
        (case mem of
           Some es \<Rightarrow> rbind (bitmap_set_all \<lparr>bit_cnt = n, bits = es\<rparr> False) (\<lambda>b. Inr (Some b))
         | None \<Rightarrow>
             (if n = 0 then rbind (bitmap_set_all \<lparr>bit_cnt = n, bits = []\<rparr> False) (\<lambda>b. Inr (Some b))
              else Inr None))
      else Inr None)"

text \<open>\<open>mem\<close> is the part of the given block behind the descriptor.\<close>

definition bitmap_create_in_buf :: "nat \<Rightarrow> u32 list \<Rightarrow> nat \<Rightarrow> bitmap res" where
  "bitmap_create_in_buf n mem block_size =
     assert_then (block_size \<ge> bitmap_buf_size n) (bitmap_set_all \<lparr>bit_cnt = n, bits = mem\<rparr> False)"

subsection \<open>Bitmaps as lists of booleans\<close>

definition bitmap_wf :: "bitmap \<Rightarrow> bool" where
  "bitmap_wf b \<longleftrightarrow> bit_cnt b < SIZE_MAX \<and> bit_cnt b \<le> 32 * length (bits b)"

definition bitmap_abs :: "bitmap \<Rightarrow> bool list" where
  "bitmap_abs b = map (\<lambda>i. bit (bits b ! (i div 32)) (i mod 32)) [0..<bit_cnt b]"

lemma length_bitmap_abs [simp]: "length (bitmap_abs b) = bit_cnt b"
  by (simp add: bitmap_abs_def)

lemma nth_bitmap_abs: "i < bit_cnt b \<Longrightarrow> bitmap_abs b ! i = bit (bits b ! (i div 32)) (i mod 32)"
  by (simp add: bitmap_abs_def)

lemma bitmap_wf_idx: "bitmap_wf b \<Longrightarrow> i < bit_cnt b \<Longrightarrow> i div 32 < length (bits b)"
  by (simp add: bitmap_wf_def less_mult_imp_div_less)

lemma bitmap_test_abs:
  "bitmap_wf b \<Longrightarrow> bitmap_test b i =
     (if i < bit_cnt b then Inr (bitmap_abs b ! i) else Inl ASSERT_FAIL)"
  by (simp add: bitmap_test_def elem_idx_def bitmap_wf_idx nth_bitmap_abs bit_mask_def
      and_push_one_zero del: push_bit_of_1)

lemma same_bit_position: "i div 32 = j div 32 \<Longrightarrow> i mod 32 = j mod 32 \<Longrightarrow> i = (j :: nat)"
  by (metis div_mult_mod_eq)

text \<open>An element update that changes the one bit changes the one list element.\<close>

lemma upd_elem_abs:
  assumes "bitmap_wf b" and "i < bit_cnt b"
    and f: "\<And>e n. n < 32 \<Longrightarrow> bit (f e) n = (if n = i mod 32 then v e else bit e n)"
  shows "\<exists>b'. upd_elem (elem_idx i) f b = Inr b' \<and> bitmap_wf b' \<and> bit_cnt b' = bit_cnt b
    \<and> bitmap_abs b' = (bitmap_abs b)[i := v (bits b ! (i div 32))]"
proof -
  let ?b = "b\<lparr>bits := (bits b)[i div 32 := f (bits b ! (i div 32))]\<rparr>"
  have "upd_elem (elem_idx i) f b = Inr ?b"
    using bitmap_wf_idx [OF assms(1,2)] by (simp add: upd_elem_def elem_idx_def)
  moreover have "bitmap_wf ?b" using assms(1) by (simp add: bitmap_wf_def)
  moreover have "bitmap_abs ?b = (bitmap_abs b)[i := v (bits b ! (i div 32))]"
  proof (rule nth_equalityI)
    fix j assume "j < length (bitmap_abs ?b)"
    then have j: "j < bit_cnt b" by simp
    have lhs: "bitmap_abs ?b ! j = (if i div 32 = j div 32
        then bit (f (bits b ! (j div 32))) (j mod 32) else bit (bits b ! (j div 32)) (j mod 32))"
      using bitmap_wf_idx [OF assms(1) j] j by (simp add: nth_bitmap_abs nth_list_update)
    have fj: "bit (f e) (j mod 32) = (if j mod 32 = i mod 32 then v e else bit e (j mod 32))" for e
      by (rule f) simp
    show "bitmap_abs ?b ! j = (bitmap_abs b)[i := v (bits b ! (i div 32))] ! j"
    proof (cases "i = j")
      case True
      then show ?thesis unfolding lhs fj using j by simp
    next
      case False
      then have "i div 32 = j div 32 \<Longrightarrow> j mod 32 \<noteq> i mod 32" using same_bit_position by metis
      with False show ?thesis unfolding lhs fj using nth_bitmap_abs [OF j] by simp
    qed
  qed simp
  ultimately show ?thesis by auto
qed

lemma bitmap_set_abs:
  assumes "bitmap_wf b" and "i < bit_cnt b"
  shows "\<exists>b'. bitmap_set b i v = Inr b' \<and> bitmap_wf b' \<and> bit_cnt b' = bit_cnt b
    \<and> bitmap_abs b' = (bitmap_abs b)[i := v]"
proof (cases v)
  case True
  then show ?thesis
    using upd_elem_abs [OF assms, of "\<lambda>e. e OR bit_mask i" "\<lambda>_. True"] assms(2)
    by (auto simp: bitmap_set_def bitmap_mark_def bit_mask_def bit_simps)
next
  case False
  then show ?thesis
    using upd_elem_abs [OF assms, of "\<lambda>e. e AND NOT (bit_mask i)" "\<lambda>_. False"] assms(2)
    by (auto simp: bitmap_set_def bitmap_reset_def bit_mask_def bit_simps)
qed

lemma bitmap_flip_abs:
  assumes "bitmap_wf b" and "i < bit_cnt b"
  shows "\<exists>b'. bitmap_flip b i = Inr b' \<and> bitmap_wf b' \<and> bit_cnt b' = bit_cnt b
    \<and> bitmap_abs b' = (bitmap_abs b)[i := \<not> bitmap_abs b ! i]"
  using upd_elem_abs [OF assms, of "\<lambda>e. e XOR bit_mask i" "\<lambda>e. \<not> bit e (i mod 32)"] assms(2)
  by (auto simp: bitmap_flip_def bit_mask_def bit_simps nth_bitmap_abs)

text \<open>The list with a range of elements replaced.\<close>

definition fill :: "nat \<Rightarrow> nat \<Rightarrow> 'a \<Rightarrow> 'a list \<Rightarrow> 'a list" where
  "fill start cnt v xs = take start xs @ replicate cnt v @ drop (start + cnt) xs"

lemma length_fill [simp]: "start + cnt \<le> length xs \<Longrightarrow> length (fill start cnt v xs) = length xs"
  by (simp add: fill_def)

lemma nth_fill:
  "start + cnt \<le> length xs \<Longrightarrow> j < length xs \<Longrightarrow>
     fill start cnt v xs ! j = (if start \<le> j \<and> j < start + cnt then v else xs ! j)"
  by (auto simp: fill_def nth_append)

lemma fill_Suc:
  assumes "start + cnt < length xs"
  shows "(fill start cnt v xs)[start + cnt := v] = fill start (Suc cnt) v xs"
  using assms by (intro nth_equalityI) (auto simp: nth_list_update nth_fill)

lemma fill_0 [simp]: "fill start 0 v xs = xs"
  by (simp add: fill_def)

lemma bitmap_set_multiple_abs:
  assumes wf: "bitmap_wf b" and le: "start + cnt \<le> bit_cnt b"
  shows "\<exists>b'. bitmap_set_multiple b start cnt v = Inr b' \<and> bitmap_wf b' \<and> bit_cnt b' = bit_cnt b
    \<and> bitmap_abs b' = fill start cnt v (bitmap_abs b)"
proof -
  let ?P = "\<lambda>i b'. bitmap_wf b' \<and> bit_cnt b' = bit_cnt b \<and> bitmap_abs b' = fill start i v (bitmap_abs b)"
  have lt: "bit_cnt b < 2 ^ 32" using wf by (simp add: bitmap_wf_def SIZE_MAX_def)
  have "\<exists>b'. rfold (\<lambda>i b. bitmap_set b (usize (start + i)) v) [0..<cnt] b = Inr b' \<and> ?P cnt b'"
  proof (rule rfold_upt_total [of ?P])
    fix i s assume i: "i < cnt" and P: "?P i s"
    have "start + i < bit_cnt s" and u: "usize (start + i) = start + i"
      using i P le lt by simp_all
    then obtain s' where "bitmap_set s (start + i) v = Inr s'" "bitmap_wf s'"
      "bit_cnt s' = bit_cnt s" "bitmap_abs s' = (bitmap_abs s)[start + i := v]"
      using bitmap_set_abs P by blast
    then show "\<exists>s'. bitmap_set s (usize (start + i)) v = Inr s' \<and> ?P (Suc i) s'"
      using P u i le fill_Suc [of start i "bitmap_abs b" v] by auto
  qed (use wf in simp_all)
  then show ?thesis using le lt by (simp add: bitmap_set_multiple_def)
qed

lemma bitmap_set_all_abs:
  assumes "bitmap_wf b"
  shows "\<exists>b'. bitmap_set_all b v = Inr b' \<and> bitmap_wf b' \<and> bit_cnt b' = bit_cnt b
    \<and> bitmap_abs b' = replicate (bit_cnt b) v"
  using bitmap_set_multiple_abs [OF assms, of 0 "bit_cnt b" v]
  by (simp add: bitmap_set_all_def bitmap_size_def fill_def)

lemma bitmap_contains_abs:
  assumes "bitmap_wf b" and "start + cnt \<le> bit_cnt b"
  shows "bitmap_contains b start cnt v = Inr (\<exists>i. start \<le> i \<and> i < start + cnt \<and> bitmap_abs b ! i = v)"
proof -
  have lt: "bit_cnt b < 2 ^ 32" using assms(1) by (simp add: bitmap_wf_def SIZE_MAX_def)
  have "rexists (\<lambda>i. rbind (bitmap_test b (usize (start + i))) (\<lambda>t. Inr (t = v))) [0..<cnt]
      = Inr (\<exists>i \<in> set [0..<cnt]. bitmap_abs b ! (start + i) = v)"
    using assms lt by (intro rexists_pure) (simp add: bitmap_test_abs)
  moreover have "(\<exists>i \<in> set [0..<cnt]. bitmap_abs b ! (start + i) = v)
      \<longleftrightarrow> (\<exists>i. start \<le> i \<and> i < start + cnt \<and> bitmap_abs b ! i = v)"
    by (rule ex_shift)
  ultimately show ?thesis using assms lt by (simp add: bitmap_contains_def)
qed

lemma bitmap_all_abs:
  assumes "bitmap_wf b" and "start + cnt \<le> bit_cnt b"
  shows "bitmap_all b start cnt = Inr (\<forall>i. start \<le> i \<and> i < start + cnt \<longrightarrow> bitmap_abs b ! i)"
  using bitmap_contains_abs [OF assms, of False] by (auto simp: bitmap_all_def)

lemma bitmap_count_abs:
  assumes "bitmap_wf b" and "start + cnt \<le> bit_cnt b"
  shows "bitmap_count b start cnt v = Inr (length (filter (\<lambda>x. x = v) (take cnt (drop start (bitmap_abs b)))))"
proof -
  let ?P = "\<lambda>i (n :: nat). n = length (filter (\<lambda>x. x = v) (take i (drop start (bitmap_abs b))))"
  have lt: "bit_cnt b < 2 ^ 32" using assms(1) by (simp add: bitmap_wf_def SIZE_MAX_def)
  have "\<exists>n. rfold (\<lambda>i value_cnt. rbind (bitmap_test b (usize (start + i)))
      (\<lambda>t. Inr (if t = v then Suc value_cnt else value_cnt))) [0..<cnt] 0 = Inr n \<and> ?P cnt n"
    by (rule rfold_upt_total [of ?P])
      (use assms lt in \<open>simp_all add: bitmap_test_abs take_Suc_conv_app_nth\<close>)
  then show ?thesis using assms lt by (simp add: bitmap_count_def)
qed

subsection \<open>Searching\<close>

definition run_at :: "'a list \<Rightarrow> nat \<Rightarrow> nat \<Rightarrow> 'a \<Rightarrow> bool" where
  "run_at xs i cnt v \<longleftrightarrow> i + cnt \<le> length xs \<and> (\<forall>j. i \<le> j \<and> j < i + cnt \<longrightarrow> xs ! j = v)"

lemma bitmap_scan_abs:
  assumes wf: "bitmap_wf b" and start: "start \<le> bit_cnt b"
  shows "\<exists>i. bitmap_scan b start cnt v = Inr i
    \<and> (if i = BITMAP_ERROR then \<forall>j. start \<le> j \<longrightarrow> \<not> run_at (bitmap_abs b) j cnt v
       else start \<le> i \<and> run_at (bitmap_abs b) i cnt v
         \<and> (\<forall>j. start \<le> j \<and> j < i \<longrightarrow> \<not> run_at (bitmap_abs b) j cnt v))"
proof (cases "cnt \<le> bit_cnt b")
  case False
  then show ?thesis using start by (auto simp: bitmap_scan_def run_at_def)
next
  case True
  let ?q = "\<lambda>i. run_at (bitmap_abs b) i cnt v"
  let ?is = "[start..<Suc (bit_cnt b - cnt)]"
  have bound: "?q i \<Longrightarrow> i < Suc (bit_cnt b - cnt)" for i
    using True by (auto simp: run_at_def)
  have "rfind (\<lambda>i. rbind (bitmap_contains b i cnt (\<not> v)) (\<lambda>c. Inr (\<not> c))) ?is = Inr (List.find ?q ?is)"
    using True by (intro rfind_pure) (auto simp: bitmap_contains_abs wf run_at_def)
  then have eq: "bitmap_scan b start cnt v =
      (case List.find ?q ?is of Some i \<Rightarrow> Inr i | None \<Rightarrow> Inr BITMAP_ERROR)"
    using True start by (simp add: bitmap_scan_def Let_def del: upt_Suc)
  show ?thesis
  proof (cases "List.find ?q ?is")
    case None
    then have "\<forall>j. start \<le> j \<longrightarrow> \<not> ?q j" using bound unfolding find_upt_None by blast
    then show ?thesis using eq None by simp
  next
    case (Some i)
    note sp = find_upt_Some [OF Some]
    have "i \<noteq> BITMAP_ERROR"
      using sp(2) wf by (auto simp: BITMAP_ERROR_def bitmap_wf_def)
    then show ?thesis using eq Some sp by auto
  qed
qed

lemma bitmap_scan_and_flip_abs:
  assumes wf: "bitmap_wf b" and start: "start \<le> bit_cnt b"
  shows "\<exists>i b'. bitmap_scan_and_flip b start cnt v = Inr (i, b') \<and> bitmap_wf b' \<and> bit_cnt b' = bit_cnt b
    \<and> (if i = BITMAP_ERROR then b' = b \<and> (\<forall>j. start \<le> j \<longrightarrow> \<not> run_at (bitmap_abs b) j cnt v)
       else start \<le> i \<and> run_at (bitmap_abs b) i cnt v \<and> bitmap_abs b' = fill i cnt (\<not> v) (bitmap_abs b)
         \<and> (\<forall>j. start \<le> j \<and> j < i \<longrightarrow> \<not> run_at (bitmap_abs b) j cnt v))"
proof -
  obtain i where i: "bitmap_scan b start cnt v = Inr i" and
    sp: "if i = BITMAP_ERROR then \<forall>j. start \<le> j \<longrightarrow> \<not> run_at (bitmap_abs b) j cnt v
       else start \<le> i \<and> run_at (bitmap_abs b) i cnt v
         \<and> (\<forall>j. start \<le> j \<and> j < i \<longrightarrow> \<not> run_at (bitmap_abs b) j cnt v)"
    using bitmap_scan_abs [OF assms] by metis
  show ?thesis
  proof (cases "i = BITMAP_ERROR")
    case True
    then show ?thesis using i sp wf by (simp add: bitmap_scan_and_flip_def)
  next
    case False
    then have "i + cnt \<le> bit_cnt b" using sp by (simp add: run_at_def)
    then obtain b' where "bitmap_set_multiple b i cnt (\<not> v) = Inr b'" "bitmap_wf b'"
      "bit_cnt b' = bit_cnt b" "bitmap_abs b' = fill i cnt (\<not> v) (bitmap_abs b)"
      using bitmap_set_multiple_abs [OF wf] by blast
    then show ?thesis using i sp False by (simp add: bitmap_scan_and_flip_def)
  qed
qed

subsection \<open>The interface of an allocator of ranges\<close>

text \<open>
  What a page pool uses of a bitmap: taking the first free range of a given
  length and giving a range back. The free ranges are those whose bits are clear.
\<close>

locale range_allocator =
  fixes abs :: "'b \<Rightarrow> bool list"
    and wf :: "'b \<Rightarrow> bool"
    and take_range :: "'b \<Rightarrow> nat \<Rightarrow> (nat \<times> 'b) res"
    and give_range :: "'b \<Rightarrow> nat \<Rightarrow> nat \<Rightarrow> 'b res"
    and none :: nat
  assumes take_range: "wf b \<Longrightarrow> \<exists>i b'. take_range b n = Inr (i, b') \<and> wf b'
      \<and> (if i = none then b' = b \<and> (\<forall>j. \<not> run_at (abs b) j n False)
         else run_at (abs b) i n False \<and> abs b' = fill i n True (abs b))"
    and give_range: "wf b \<Longrightarrow> i + n \<le> length (abs b) \<Longrightarrow>
      \<exists>b'. give_range b i n = Inr b' \<and> wf b' \<and> abs b' = fill i n False (abs b)"
begin

lemma take_rangeE:
  assumes "wf b" and "take_range b n = Inr (i, b')" and "i \<noteq> none"
  shows "wf b'" "run_at (abs b) i n False" "abs b' = fill i n True (abs b)"
  using take_range [OF assms(1), of n] assms(2,3) by auto

text \<open>Ranges taken one after the other do not overlap.\<close>

lemma take_take_disjoint:
  assumes "wf b" and "take_range b n = Inr (i, b1)" and "i \<noteq> none"
    and "take_range b1 m = Inr (j, b2)" and "j \<noteq> none"
  shows "{i..<i + n} \<inter> {j..<j + m} = {}"
proof (rule ccontr)
  assume "{i..<i + n} \<inter> {j..<j + m} \<noteq> {}"
  then obtain k where "k \<in> {i..<i + n}" "k \<in> {j..<j + m}" by blast
  then have k: "i \<le> k" "k < i + n" "j \<le> k" "k < j + m" by simp_all
  note one = take_rangeE [OF assms(1-3)]
  note two = take_rangeE [OF one(1) assms(4,5)]
  have "k < length (abs b)" "i + n \<le> length (abs b)"
    using one(2) k(2) by (auto simp: run_at_def)
  then have "abs b1 ! k" using one(3) k by (simp add: nth_fill)
  then show False using two(2) k by (simp add: run_at_def)
qed

text \<open>Giving back what was just taken restores the free ranges.\<close>

lemma take_give:
  assumes "wf b" and "take_range b n = Inr (i, b1)" and "i \<noteq> none"
  shows "\<exists>b2. give_range b1 i n = Inr b2 \<and> wf b2 \<and> abs b2 = abs b"
proof -
  note one = take_rangeE [OF assms]
  have le: "i + n \<le> length (abs b)" and run: "\<And>k. i \<le> k \<Longrightarrow> k < i + n \<Longrightarrow> \<not> abs b ! k"
    using one(2) by (auto simp: run_at_def)
  have "fill i n False (fill i n True (abs b)) = abs b"
    using le run by (intro nth_equalityI) (auto simp: nth_fill)
  moreover have "i + n \<le> length (abs b1)" using one(3) le by simp
  ultimately show ?thesis using give_range [OF one(1)] one(3) by metis
qed

end

interpretation bitmap_ranges: range_allocator bitmap_abs bitmap_wf
  "\<lambda>b n. bitmap_scan_and_flip b 0 n False" "\<lambda>b i n. bitmap_set_multiple b i n False" BITMAP_ERROR
proof
  fix b n assume "bitmap_wf b"
  then show "\<exists>i b'. bitmap_scan_and_flip b 0 n False = Inr (i, b') \<and> bitmap_wf b'
      \<and> (if i = BITMAP_ERROR then b' = b \<and> (\<forall>j. \<not> run_at (bitmap_abs b) j n False)
         else run_at (bitmap_abs b) i n False \<and> bitmap_abs b' = fill i n True (bitmap_abs b))"
    using bitmap_scan_and_flip_abs [of b 0 n False] by (simp split: if_splits) metis
next
  fix b i n assume "bitmap_wf b" "i + n \<le> length (bitmap_abs b)"
  then show "\<exists>b'. bitmap_set_multiple b i n False = Inr b' \<and> bitmap_wf b'
      \<and> bitmap_abs b' = fill i n False (bitmap_abs b)"
    using bitmap_set_multiple_abs [of b i n False] by auto
qed

subsection \<open>Properties\<close>

lemma bitmap_set_multiple_outside:
  assumes wf: "bitmap_wf b" and gt: "\<not> start + cnt \<le> bit_cnt b"
  shows "bitmap_set_multiple b start cnt v = Inl ASSERT_FAIL"
proof (cases "start \<le> bit_cnt b \<and> usize (start + cnt) \<le> bit_cnt b")
  case False
  then show ?thesis by (auto simp: bitmap_set_multiple_def assert_then_def)
next
  case True
  let ?k = "bit_cnt b - start"
  let ?f = "\<lambda>i b. bitmap_set b (usize (start + i)) v"
  have lt: "bit_cnt b < 2 ^ 32" using wf by (simp add: bitmap_wf_def SIZE_MAX_def)
  have k: "?k < cnt" "start + ?k = bit_cnt b" using True gt by auto
  have "[0..<cnt] = [0..<?k] @ ?k # [Suc ?k..<cnt]"
    using upt_add_eq_append [of 0 ?k "cnt - ?k"] k(1) by (simp add: upt_conv_Cons)
  moreover obtain b' where b': "bitmap_set_multiple b start ?k v = Inr b'" "bit_cnt b' = bit_cnt b"
    using bitmap_set_multiple_abs [OF wf, of start ?k v] k(2) by auto
  then have "rfold ?f [0..<?k] b = Inr b'"
    using True k(2) lt by (simp add: bitmap_set_multiple_def)
  moreover have "?f ?k b' = Inl ASSERT_FAIL"
    using k(2) lt b'(2) by (simp add: bitmap_set_def)
  ultimately have "rfold ?f [0..<cnt] b = Inl ASSERT_FAIL"
    by (simp add: rfold_append)
  then show ?thesis using True by (simp add: bitmap_set_multiple_def)
qed

text \<open>
  C33. \<open>bitmap_set_multiple\<close> implements the list operation that replaces a range
  of elements. It succeeds exactly when the range lies within the bitmap, also
  when the 32-bit sum of start and count wraps around, in which case the check of
  the single bits stops it.
\<close>

theorem bitmap_set_multiple_correct:
  assumes "bitmap_wf b"
  shows "if start + cnt \<le> bit_cnt b
    then \<exists>b'. bitmap_set_multiple b start cnt v = Inr b' \<and> bitmap_wf b'
           \<and> bitmap_abs b' = fill start cnt v (bitmap_abs b)
    else bitmap_set_multiple b start cnt v = Inl ASSERT_FAIL"
  using bitmap_set_multiple_abs [OF assms, of start cnt v] bitmap_set_multiple_outside [OF assms]
  by auto

definition bitmap_example :: bitmap where
  "bitmap_example = \<lparr>bit_cnt = 40, bits = [0xffffff0f, 0]\<rparr>"

lemma bitmap_example_wf: "bitmap_wf bitmap_example"
  by (simp add: bitmap_wf_def bitmap_example_def SIZE_MAX_def)

theorem bitmap_set_multiple_correct_witness:
  "(\<exists>b'. bitmap_set_multiple bitmap_example 30 4 True = Inr b'
      \<and> bitmap_abs b' = fill 30 4 True (bitmap_abs bitmap_example))
   \<and> bitmap_set_multiple bitmap_example 39 0xffffffff True = Inl ASSERT_FAIL"
proof -
  have n: "bit_cnt bitmap_example = 40" by (simp add: bitmap_example_def)
  show ?thesis
    using bitmap_set_multiple_correct [OF bitmap_example_wf, of 30 4 True]
      bitmap_set_multiple_correct [OF bitmap_example_wf, of 39 "0xffffffff" True]
    unfolding n by auto
qed

text \<open>
  C32. \<open>bitmap_scan\<close> finds the first group: it returns the least index at or after
  the start at which the given number of consecutive bits all have the value, and
  the error value exactly when there is no such group.
\<close>

theorem bitmap_scan_correct:
  assumes "bitmap_wf b" and "start \<le> bit_cnt b"
  shows "\<exists>i. bitmap_scan b start cnt v = Inr i
    \<and> (if i = BITMAP_ERROR then \<forall>j. start \<le> j \<longrightarrow> \<not> run_at (bitmap_abs b) j cnt v
       else start \<le> i \<and> run_at (bitmap_abs b) i cnt v
         \<and> (\<forall>j. start \<le> j \<and> j < i \<longrightarrow> \<not> run_at (bitmap_abs b) j cnt v))"
  by (rule bitmap_scan_abs [OF assms])

theorem bitmap_scan_correct_witness:
  "\<exists>i. bitmap_scan bitmap_example 2 4 False = Inr i \<and> i = 4 \<and> run_at (bitmap_abs bitmap_example) i 4 False"
proof -
  have v: "bitmap_scan bitmap_example 2 4 False = Inr 4"
    by (simp add: bitmap_scan_def bitmap_contains_def bitmap_test_def bitmap_example_def elem_idx_def
        bit_mask_def upt_rec)
  have "2 \<le> bit_cnt bitmap_example" "(4 :: nat) \<noteq> BITMAP_ERROR"
    by (simp_all add: bitmap_example_def BITMAP_ERROR_def SIZE_MAX_def)
  then show ?thesis using bitmap_scan_correct [OF bitmap_example_wf, of 2 4 False] v by auto
qed

text \<open>
  \<open>bitmap_count\<close> returns the number of bits of the range that have the value.
\<close>

theorem bitmap_count_correct:
  assumes "bitmap_wf b" and "start + cnt \<le> bit_cnt b"
  shows "bitmap_count b start cnt v =
    Inr (length (filter (\<lambda>x. x = v) (take cnt (drop start (bitmap_abs b)))))"
  by (rule bitmap_count_abs [OF assms])

theorem bitmap_count_correct_witness:
  "bitmap_count bitmap_example 0 12 True =
     Inr (length (filter (\<lambda>x. x = True) (take 12 (drop 0 (bitmap_abs bitmap_example)))))"
  by (rule bitmap_count_correct [OF bitmap_example_wf]) (simp add: bitmap_example_def)

end
