(* ===== verification/Palloc.thy ===== *)
theory Palloc
  imports Vaddr Bitmap
begin

text \<open>
  The page allocator, \<^verbatim>\<open>mem/palloc.c\<close>. The pool keeps three bitmaps: the pages in
  use, those used by the translation cache and those used for swap. A page
  address is a 32-bit word, 0 the null pointer; memory is a function from addresses
  to bytes, written by the two \<open>memset\<close> calls. The lock around the search of the
  bitmap is left out: the operations are the atomic steps it makes of them. The
  build is the debugging build, in which freed pages are overwritten.
\<close>

subsection \<open>State\<close>

definition PAL_ASSERT :: u32 where [reg_defs]: "PAL_ASSERT = 0x1"
definition PAL_ZERO :: u32 where [reg_defs]: "PAL_ZERO = 0x2"
definition PAL_TC :: u32 where [reg_defs]: "PAL_TC = 0x4"
definition PAL_SWAP :: u32 where [reg_defs]: "PAL_SWAP = 0x8"

definition tc_page_limit :: nat where "tc_page_limit = 10000"
definition swap_page_limit :: nat where "swap_page_limit = 1000"

record pool =
  used_map :: bitmap
  tc_map :: bitmap
  swap_map :: bitmap
  base :: u32

record palloc =
  mem_pool :: pool
  tc_page_count :: int
  swap_page_count :: int
  kernel_page_count :: nat
  ram :: "u32 \<Rightarrow> u8"

definition memset_ram :: "u32 \<Rightarrow> u8 \<Rightarrow> nat \<Rightarrow> (u32 \<Rightarrow> u8) \<Rightarrow> (u32 \<Rightarrow> u8)" where
  "memset_ram dst c n m = (\<lambda>a. if unat (a - dst) < n then c else m a)"

subsection \<open>Initialisation\<close>

definition is_heap_addr :: "u32 \<Rightarrow> u32 \<Rightarrow> bool" where
  "is_heap_addr end_sym addr \<longleftrightarrow> addr \<ge> pg_round_up end_sym \<and> addr < 0xfffff000"

text \<open>
  The contents of the memory that the three bitmaps are created in is given by
  \<open>mem\<close>; each occupies \<open>bm_size\<close> bytes from the start of the pool.
\<close>

definition init_pool :: "u32 \<Rightarrow> nat \<Rightarrow> u32 list \<times> u32 list \<times> u32 list \<Rightarrow> pool res" where
  "init_pool start page_cnt mem =
     (let bm_size = bitmap_buf_size page_cnt;
          bm_pages = usize (usize (3 * bm_size) + unat PGSIZE - 1) div unat PGSIZE
      in if bm_pages > page_cnt then Inl PANIC
         else
           (let page_cnt = page_cnt - bm_pages; (m1, m2, m3) = mem
            in rbind (bitmap_create_in_buf page_cnt m1 bm_size) (\<lambda>u.
               rbind (bitmap_create_in_buf page_cnt m2 bm_size) (\<lambda>t.
               rbind (bitmap_create_in_buf page_cnt m3 bm_size) (\<lambda>s.
               Inr \<lparr>used_map = u, tc_map = t, swap_map = s,
                    base = start + of_nat bm_pages * PGSIZE\<rparr>)))))"

definition palloc_init ::
  "u32 \<Rightarrow> u32 \<Rightarrow> u32 list \<times> u32 list \<times> u32 list \<Rightarrow> palloc \<Rightarrow> palloc res" where
  "palloc_init end_sym end_addr mem p =
     (let free_start = pg_round_up end_sym;
          free_pages = unat (end_addr - free_start) div unat PGSIZE
      in rbind (init_pool free_start free_pages mem) (\<lambda>pl. Inr (p\<lparr>mem_pool := pl\<rparr>)))"

subsection \<open>Allocation\<close>

text \<open>The test of a page count against a limit: the sum is unsigned and wraps.\<close>

definition over_limit :: "int \<Rightarrow> nat \<Rightarrow> nat \<Rightarrow> bool" where
  "over_limit in_use page_cnt limit \<longleftrightarrow> usize (nat (in_use mod 2 ^ 32) + page_cnt) > limit"

definition mark_kind :: "u32 \<Rightarrow> nat \<Rightarrow> nat \<Rightarrow> palloc \<Rightarrow> palloc res" where
  "mark_kind flags page_idx page_cnt p =
     (let pl = mem_pool p in
      if flags AND PAL_TC \<noteq> 0 then
        rbind (bitmap_none (tc_map pl) page_idx page_cnt) (\<lambda>none. assert_then none
          (rbind (bitmap_set_multiple (tc_map pl) page_idx page_cnt True)
            (\<lambda>t. Inr (p\<lparr>mem_pool := pl\<lparr>tc_map := t\<rparr>, tc_page_count := tc_page_count p + int page_cnt\<rparr>))))
      else if flags AND PAL_SWAP \<noteq> 0 then
        rbind (bitmap_none (swap_map pl) page_idx page_cnt) (\<lambda>none. assert_then none
          (rbind (bitmap_set_multiple (swap_map pl) page_idx page_cnt True)
            (\<lambda>t. Inr (p\<lparr>mem_pool := pl\<lparr>swap_map := t\<rparr>, swap_page_count := swap_page_count p + int page_cnt\<rparr>))))
      else Inr (p\<lparr>kernel_page_count := usize (kernel_page_count p + page_cnt)\<rparr>))"

definition palloc_get_multiple :: "u32 \<Rightarrow> nat \<Rightarrow> palloc \<Rightarrow> (u32 \<times> palloc) res" where
  "palloc_get_multiple flags page_cnt p =
     (if flags AND PAL_TC \<noteq> 0 \<and> over_limit (tc_page_count p) page_cnt tc_page_limit then Inr (0, p)
      else if flags AND PAL_TC = 0 \<and> flags AND PAL_SWAP \<noteq> 0
              \<and> over_limit (swap_page_count p) page_cnt swap_page_limit then Inr (0, p)
      else if page_cnt = 0 then Inr (0, p)
      else
        rbind (bitmap_scan_and_flip (used_map (mem_pool p)) 0 page_cnt False) (\<lambda>(page_idx, u).
          let p = p\<lparr>mem_pool := (mem_pool p)\<lparr>used_map := u\<rparr>\<rparr>;
              pages = (if page_idx \<noteq> BITMAP_ERROR
                       then base (mem_pool p) + PGSIZE * of_nat page_idx else 0)
          in if pages \<noteq> 0 then
               (let p = (if flags AND PAL_ZERO \<noteq> 0
                         then p\<lparr>ram := memset_ram pages 0 (unat PGSIZE * page_cnt) (ram p)\<rparr> else p)
                in rbind (mark_kind flags page_idx page_cnt p) (\<lambda>p. Inr (pages, p)))
             else if flags AND PAL_ASSERT \<noteq> 0 then Inl PANIC
             else Inr (pages, p)))"

definition palloc_get_page :: "u32 \<Rightarrow> palloc \<Rightarrow> (u32 \<times> palloc) res" where
  "palloc_get_page flags p = palloc_get_multiple flags 1 p"

subsection \<open>Freeing\<close>

definition page_index :: "palloc \<Rightarrow> u32 \<Rightarrow> nat" where
  "page_index p page = unat (pg_no page - pg_no (base (mem_pool p)))"

definition page_from_pool :: "u32 \<Rightarrow> u32 \<Rightarrow> palloc \<Rightarrow> bool res" where
  "page_from_pool pool_id page p =
     (let pl = mem_pool p; page_idx = page_index p page in
      rbind (bitmap_test (used_map pl) page_idx) (\<lambda>u. assert_then u
        (if pool_id = PAL_TC then
           rbind (bitmap_test (tc_map pl) page_idx) (\<lambda>t.
             if t then rbind (bitmap_test (swap_map pl) page_idx) (\<lambda>s. assert_then (\<not> s) (Inr True))
             else Inr False)
         else if pool_id = PAL_SWAP then
           rbind (bitmap_test (swap_map pl) page_idx) (\<lambda>s.
             if s then rbind (bitmap_test (tc_map pl) page_idx) (\<lambda>t. assert_then (\<not> t) (Inr True))
             else Inr False)
         else Inl NOT_REACHED)))"

definition uncount_kind :: "u32 \<Rightarrow> nat \<Rightarrow> palloc \<Rightarrow> palloc res" where
  "uncount_kind pages page_cnt p =
     (let pl = mem_pool p; page_idx = page_index p pages in
      rbind (page_from_pool PAL_TC pages p) (\<lambda>is_tc.
        if is_tc then
          rbind (bitmap_all (tc_map pl) page_idx page_cnt) (\<lambda>a. assert_then a
          (rbind (bitmap_none (swap_map pl) page_idx page_cnt) (\<lambda>n. assert_then n
            (assert_then (tc_page_count p - int page_cnt \<ge> 0)
              (Inr (p\<lparr>tc_page_count := tc_page_count p - int page_cnt\<rparr>))))))
        else
          rbind (page_from_pool PAL_SWAP pages p) (\<lambda>is_swap.
            if is_swap then
              rbind (bitmap_all (swap_map pl) page_idx page_cnt) (\<lambda>a. assert_then a
              (rbind (bitmap_none (tc_map pl) page_idx page_cnt) (\<lambda>n. assert_then n
                (assert_then (swap_page_count p - int page_cnt \<ge> 0)
                  (Inr (p\<lparr>swap_page_count := swap_page_count p - int page_cnt\<rparr>))))))
            else
              Inr (p\<lparr>kernel_page_count := usize (kernel_page_count p + (2 ^ 32 - page_cnt))\<rparr>))))"

definition clear_maps :: "nat \<Rightarrow> nat \<Rightarrow> pool \<Rightarrow> pool res" where
  "clear_maps page_idx page_cnt pl =
     rbind (bitmap_set_multiple (used_map pl) page_idx page_cnt False) (\<lambda>u.
     rbind (bitmap_set_multiple (tc_map pl) page_idx page_cnt False) (\<lambda>t.
     rbind (bitmap_set_multiple (swap_map pl) page_idx page_cnt False) (\<lambda>s.
     Inr (pl\<lparr>used_map := u, tc_map := t, swap_map := s\<rparr>))))"

definition palloc_free_multiple :: "u32 \<Rightarrow> nat \<Rightarrow> palloc \<Rightarrow> palloc res" where
  "palloc_free_multiple pages page_cnt p =
     assert_then (pg_ofs pages = 0)
       (if pages = 0 \<or> page_cnt = 0 then Inr p
        else
          (let page_idx = page_index p pages in
           rbind (uncount_kind pages page_cnt p) (\<lambda>p.
             let p = p\<lparr>ram := memset_ram pages 0xcc (unat PGSIZE * page_cnt) (ram p)\<rparr>
             in rbind (bitmap_all (used_map (mem_pool p)) page_idx page_cnt) (\<lambda>a. assert_then a
                (rbind (clear_maps page_idx page_cnt (mem_pool p))
                  (\<lambda>pl. Inr (p\<lparr>mem_pool := pl\<rparr>)))))))"

definition palloc_free_page :: "u32 \<Rightarrow> palloc \<Rightarrow> palloc res" where
  "palloc_free_page page p = palloc_free_multiple page 1 p"

subsection \<open>Invariant\<close>

definition bcount :: "bool list \<Rightarrow> nat" where
  "bcount xs = length (filter id xs)"

abbreviation used_pages :: "palloc \<Rightarrow> bool list" where
  "used_pages p \<equiv> bitmap_abs (used_map (mem_pool p))"
abbreviation tc_pages :: "palloc \<Rightarrow> bool list" where
  "tc_pages p \<equiv> bitmap_abs (tc_map (mem_pool p))"
abbreviation swap_pages :: "palloc \<Rightarrow> bool list" where
  "swap_pages p \<equiv> bitmap_abs (swap_map (mem_pool p))"

text \<open>The number of pages of the pool, and the address of one of them.\<close>

definition pool_size :: "palloc \<Rightarrow> nat" where
  "pool_size p = bit_cnt (used_map (mem_pool p))"

definition page_addr :: "palloc \<Rightarrow> nat \<Rightarrow> u32" where
  "page_addr p i = base (mem_pool p) + PGSIZE * of_nat i"

definition maps_wf :: "palloc \<Rightarrow> bool" where
  "maps_wf p \<longleftrightarrow> bitmap_wf (used_map (mem_pool p)) \<and> bitmap_wf (tc_map (mem_pool p))
     \<and> bitmap_wf (swap_map (mem_pool p))
     \<and> bit_cnt (tc_map (mem_pool p)) = pool_size p \<and> bit_cnt (swap_map (mem_pool p)) = pool_size p"

definition base_wf :: "palloc \<Rightarrow> bool" where
  "base_wf p \<longleftrightarrow> pg_ofs (base (mem_pool p)) = 0 \<and> base (mem_pool p) \<noteq> 0
     \<and> unat (base (mem_pool p)) + 4096 * pool_size p \<le> 2 ^ 32"

definition kinds_wf :: "palloc \<Rightarrow> bool" where
  "kinds_wf p \<longleftrightarrow> (\<forall>i < pool_size p. (tc_pages p ! i \<longrightarrow> used_pages p ! i)
     \<and> (swap_pages p ! i \<longrightarrow> used_pages p ! i) \<and> \<not> (tc_pages p ! i \<and> swap_pages p ! i))"

definition counts_wf :: "palloc \<Rightarrow> bool" where
  "counts_wf p \<longleftrightarrow> tc_page_count p = int (bcount (tc_pages p))
     \<and> swap_page_count p = int (bcount (swap_pages p))
     \<and> bcount (used_pages p) = kernel_page_count p + bcount (tc_pages p) + bcount (swap_pages p)"

definition palloc_wf :: "palloc \<Rightarrow> bool" where
  "palloc_wf p \<longleftrightarrow> maps_wf p \<and> base_wf p \<and> kinds_wf p \<and> counts_wf p"

lemma unat_PGSIZE: "unat PGSIZE = 4096"
  by (simp add: PGSIZE_def)

lemma run_at_fill: "run_at xs i n v \<Longrightarrow> fill i n v xs = xs"
  by (rule nth_equalityI) (auto simp: run_at_def nth_fill)

lemma bcount_fill:
  "bcount (fill i n v xs) = bcount (take i xs) + (if v then n else 0) + bcount (drop (i + n) xs)"
  by (simp add: bcount_def fill_def)

lemma bcount_fill_run:
  assumes "run_at xs i n (\<not> v)"
  shows "bcount (fill i n v xs) + (if v then 0 else n) = bcount xs + (if v then n else 0)"
proof -
  have "bcount xs = bcount (fill i n (\<not> v) xs)" using run_at_fill [OF assms] by simp
  then show ?thesis by (simp add: bcount_fill)
qed

lemma bcount_le: "bcount xs \<le> length xs"
  by (simp add: bcount_def)

lemma pool_size_lt: "palloc_wf p \<Longrightarrow> pool_size p < 2 ^ 20"
proof -
  assume "palloc_wf p"
  then have b: "unat (base (mem_pool p)) + 4096 * pool_size p \<le> 2 ^ 32" "base (mem_pool p) \<noteq> 0"
    by (auto simp: palloc_wf_def base_wf_def)
  then have "unat (base (mem_pool p)) > 0" by (simp add: unat_gt_0)
  then show ?thesis using b(1) by simp
qed

lemma unat_page_addr:
  assumes "base_wf p" and "i < pool_size p"
  shows "unat (page_addr p i) = unat (base (mem_pool p)) + 4096 * i"
proof -
  have lt: "unat (base (mem_pool p)) + 4096 * i < 2 ^ 32"
    using assms by (auto simp: base_wf_def)
  then have "unat (of_nat i :: u32) = i" by (simp add: unat_of_nat)
  then have "unat (PGSIZE * of_nat i) = 4096 * i"
    using lt by (simp add: unat_word_ariths PGSIZE_def)
  then show ?thesis using lt by (simp add: page_addr_def unat_word_ariths)
qed

lemma page_addr_nonzero: "base_wf p \<Longrightarrow> i < pool_size p \<Longrightarrow> page_addr p i \<noteq> 0"
  using unat_page_addr [of p i] by (auto simp: base_wf_def unat_eq_zero dest!: arg_cong [of _ _ unat])

lemma page_addr_aligned: "base_wf p \<Longrightarrow> i < pool_size p \<Longrightarrow> pg_ofs (page_addr p i) = 0"
proof -
  assume "base_wf p" "i < pool_size p"
  moreover have "unat (base (mem_pool p)) mod 4096 = 0"
    using \<open>base_wf p\<close> unat_pg_ofs [of "base (mem_pool p)"] by (simp add: base_wf_def)
  ultimately have "unat (page_addr p i) mod 4096 = 0" by (simp add: unat_page_addr mod_add_eq)
  then show ?thesis using unat_pg_ofs [of "page_addr p i"] by (simp add: unat_eq_zero)
qed

lemma page_index_addr: "base_wf p \<Longrightarrow> i < pool_size p \<Longrightarrow> page_index p (page_addr p i) = i"
proof -
  assume a: "base_wf p" "i < pool_size p"
  have "unat (pg_no (page_addr p i)) = unat (pg_no (base (mem_pool p))) + i"
    using unat_page_addr [OF a] by (simp add: unat_pg_no)
  moreover from this have "pg_no (base (mem_pool p)) \<le> pg_no (page_addr p i)"
    by (simp add: word_le_nat_alt)
  ultimately show ?thesis by (simp add: page_index_def unat_sub)
qed

subsection \<open>Allocation keeps the invariant\<close>

definition pages_taken :: "u32 \<Rightarrow> nat \<Rightarrow> nat \<Rightarrow> palloc \<Rightarrow> palloc \<Rightarrow> bool" where
  "pages_taken flags i cnt p p' \<longleftrightarrow> run_at (used_pages p) i cnt False
     \<and> base (mem_pool p') = base (mem_pool p) \<and> pool_size p' = pool_size p
     \<and> used_pages p' = fill i cnt True (used_pages p)
     \<and> tc_pages p' = (if flags AND PAL_TC \<noteq> 0 then fill i cnt True (tc_pages p) else tc_pages p)
     \<and> swap_pages p' = (if flags AND PAL_TC = 0 \<and> flags AND PAL_SWAP \<noteq> 0
                        then fill i cnt True (swap_pages p) else swap_pages p)"

lemma kind_run:
  assumes "palloc_wf p" and "run_at (used_pages p) i cnt False"
  shows "run_at (tc_pages p) i cnt False" and "run_at (swap_pages p) i cnt False"
  using assms by (auto simp: palloc_wf_def maps_wf_def kinds_wf_def run_at_def pool_size_def)

lemma bitmap_none_run:
  assumes "bitmap_wf b" and "run_at (bitmap_abs b) i cnt False"
  shows "bitmap_none b i cnt = Inr True"
  using assms bitmap_contains_abs [of b i cnt True] by (auto simp: bitmap_none_def run_at_def)

lemma bitmap_all_run:
  assumes "bitmap_wf b" and "run_at (bitmap_abs b) i cnt True"
  shows "bitmap_all b i cnt = Inr True"
  using assms bitmap_all_abs [of b i cnt] by (auto simp: run_at_def)

lemma bitmap_fill:
  assumes "bitmap_wf b" and "run_at (bitmap_abs b) i cnt w"
  obtains b' where "bitmap_set_multiple b i cnt v = Inr b'" "bitmap_wf b'" "bit_cnt b' = bit_cnt b"
    "bitmap_abs b' = fill i cnt v (bitmap_abs b)"
  using bitmap_set_multiple_abs [OF assms(1), of i cnt v] assms(2) by (auto simp: run_at_def)

lemma kinds_wf_taken:
  assumes "palloc_wf p" and "pages_taken flags i cnt p p'"
  shows "kinds_wf p'"
proof -
  have run: "run_at (used_pages p) i cnt False" using assms(2) by (simp add: pages_taken_def)
  have k: "kinds_wf p" and l: "length (used_pages p) = pool_size p" "length (tc_pages p) = pool_size p"
    "length (swap_pages p) = pool_size p" and le: "i + cnt \<le> pool_size p"
    using assms(1) run by (auto simp: palloc_wf_def maps_wf_def pool_size_def run_at_def)
  show ?thesis
    unfolding kinds_wf_def
  proof (intro allI impI)
    fix j assume "j < pool_size p'"
    then have j: "j < pool_size p" using assms(2) by (simp add: pages_taken_def)
    have "j \<in> {i..<i + cnt} \<Longrightarrow> \<not> tc_pages p ! j \<and> \<not> swap_pages p ! j"
      using kind_run [OF assms(1) run] by (auto simp: run_at_def)
    then show "(tc_pages p' ! j \<longrightarrow> used_pages p' ! j) \<and> (swap_pages p' ! j \<longrightarrow> used_pages p' ! j)
        \<and> \<not> (tc_pages p' ! j \<and> swap_pages p' ! j)"
      using k j l le assms(2) by (auto simp: pages_taken_def nth_fill kinds_wf_def)
  qed
qed

lemma counts_taken:
  assumes "palloc_wf p" and "run_at (used_pages p) i cnt False"
  shows "bcount (fill i cnt True (used_pages p)) = bcount (used_pages p) + cnt"
    and "bcount (fill i cnt True (tc_pages p)) = bcount (tc_pages p) + cnt"
    and "bcount (fill i cnt True (swap_pages p)) = bcount (swap_pages p) + cnt"
  using bcount_fill_run [of _ i cnt True] assms(2) kind_run [OF assms] by simp_all

lemma kernel_count_bound:
  assumes "palloc_wf p" and "run_at (used_pages p) i cnt False"
  shows "kernel_page_count p + cnt < 2 ^ 32"
proof -
  have "bcount (fill i cnt True (used_pages p)) \<le> length (fill i cnt True (used_pages p))"
    by (rule bcount_le)
  also have "\<dots> = pool_size p"
    using assms(2) by (simp add: run_at_def pool_size_def)
  finally have "bcount (used_pages p) + cnt \<le> pool_size p"
    using counts_taken(1) [OF assms] by simp
  moreover have "kernel_page_count p \<le> bcount (used_pages p)"
    using assms(1) by (simp add: palloc_wf_def counts_wf_def)
  ultimately show ?thesis using pool_size_lt [OF assms(1)] by simp
qed

lemma mark_kind_ok:
  assumes wf: "palloc_wf p" and run: "run_at (used_pages p) i cnt False"
    and u: "bitmap_wf u" "bit_cnt u = pool_size p" "bitmap_abs u = fill i cnt True (used_pages p)"
  shows "\<exists>p'. mark_kind flags i cnt (p\<lparr>mem_pool := (mem_pool p)\<lparr>used_map := u\<rparr>, ram := r\<rparr>) = Inr p'
    \<and> ram p' = r \<and> palloc_wf p' \<and> pages_taken flags i cnt p p'"
proof -
  have maps: "bitmap_wf (tc_map (mem_pool p))" "bitmap_wf (swap_map (mem_pool p))"
    "bit_cnt (tc_map (mem_pool p)) = pool_size p" "bit_cnt (swap_map (mem_pool p)) = pool_size p"
    and base: "base_wf p" and cnts: "counts_wf p"
    using wf by (auto simp: palloc_wf_def maps_wf_def)
  note runs = kind_run [OF wf run]
  obtain t where t: "bitmap_set_multiple (tc_map (mem_pool p)) i cnt True = Inr t" "bitmap_wf t"
    "bit_cnt t = pool_size p" "bitmap_abs t = fill i cnt True (tc_pages p)"
    using bitmap_fill [OF maps(1) runs(1)] maps(3) by metis
  obtain s where s: "bitmap_set_multiple (swap_map (mem_pool p)) i cnt True = Inr s" "bitmap_wf s"
    "bit_cnt s = pool_size p" "bitmap_abs s = fill i cnt True (swap_pages p)"
    using bitmap_fill [OF maps(2) runs(2)] maps(4) by metis
  define p1 where "p1 = p\<lparr>mem_pool := (mem_pool p)\<lparr>used_map := u\<rparr>, ram := r\<rparr>"
  define p' where "p' =
    (if flags AND PAL_TC \<noteq> 0 then
       p1\<lparr>mem_pool := (mem_pool p1)\<lparr>tc_map := t\<rparr>, tc_page_count := tc_page_count p + int cnt\<rparr>
     else if flags AND PAL_SWAP \<noteq> 0 then
       p1\<lparr>mem_pool := (mem_pool p1)\<lparr>swap_map := s\<rparr>, swap_page_count := swap_page_count p + int cnt\<rparr>
     else p1\<lparr>kernel_page_count := kernel_page_count p + cnt\<rparr>)"
  have res: "mark_kind flags i cnt p1 = Inr p'"
    using t(1) s(1) bitmap_none_run [OF maps(1) runs(1)] bitmap_none_run [OF maps(2) runs(2)]
      kernel_count_bound [OF wf run]
    by (simp add: mark_kind_def p1_def p'_def Let_def)
  have taken: "pages_taken flags i cnt p p'"
    using u t s run by (simp add: pages_taken_def p'_def p1_def pool_size_def)
  have "maps_wf p'" using u t s maps by (simp add: maps_wf_def p'_def p1_def pool_size_def)
  moreover have "base_wf p'" using base u(2) by (simp add: base_wf_def p'_def p1_def pool_size_def)
  moreover have "counts_wf p'"
    using cnts u(3) t(4) s(4) counts_taken [OF wf run]
    by (simp add: counts_wf_def p'_def p1_def)
  moreover note kinds_wf_taken [OF wf taken]
  ultimately have "palloc_wf p'" by (simp add: palloc_wf_def)
  moreover have "ram p' = r" by (simp add: p'_def p1_def)
  ultimately show ?thesis using res taken unfolding p1_def by blast
qed

lemma palloc_get_cases:
  assumes wf: "palloc_wf p"
  shows "palloc_get_multiple flags cnt p = Inr (0, p)
    \<or> (palloc_get_multiple flags cnt p = Inl PANIC \<and> flags AND PAL_ASSERT \<noteq> 0
        \<and> (\<forall>j. \<not> run_at (used_pages p) j cnt False))
    \<or> (\<exists>i p'. 0 < cnt \<and> palloc_get_multiple flags cnt p = Inr (page_addr p i, p')
        \<and> palloc_wf p' \<and> pages_taken flags i cnt p p'
        \<and> ram p' = (if flags AND PAL_ZERO \<noteq> 0
                    then memset_ram (page_addr p i) 0 (4096 * cnt) (ram p) else ram p))"
proof (cases "(flags AND PAL_TC \<noteq> 0 \<and> over_limit (tc_page_count p) cnt tc_page_limit)
    \<or> (flags AND PAL_TC = 0 \<and> flags AND PAL_SWAP \<noteq> 0 \<and> over_limit (swap_page_count p) cnt swap_page_limit)
    \<or> cnt = 0")
  case True
  then show ?thesis by (auto simp: palloc_get_multiple_def)
next
  case False
  have uwf: "bitmap_wf (used_map (mem_pool p))" using wf by (simp add: palloc_wf_def maps_wf_def)
  obtain i u where iu: "bitmap_scan_and_flip (used_map (mem_pool p)) 0 cnt False = Inr (i, u)"
    "bitmap_wf u" and
    sp: "if i = BITMAP_ERROR then u = used_map (mem_pool p) \<and> (\<forall>j. \<not> run_at (used_pages p) j cnt False)
       else run_at (used_pages p) i cnt False \<and> bitmap_abs u = fill i cnt True (used_pages p)"
    using bitmap_ranges.take_range [OF uwf, of cnt] by blast
  show ?thesis
  proof (cases "i = BITMAP_ERROR")
    case True
    then show ?thesis using False iu sp by (auto simp: palloc_get_multiple_def)
  next
    case found: False
    then have run: "run_at (used_pages p) i cnt False" and abs: "bitmap_abs u = fill i cnt True (used_pages p)"
      using sp by auto
    have bc: "bit_cnt u = pool_size p"
      using run abs length_bitmap_abs [of u] by (simp add: run_at_def pool_size_def)
    have "i < pool_size p" using run False by (simp add: run_at_def pool_size_def)
    then have nz: "page_addr p i \<noteq> 0"
      using wf page_addr_nonzero by (simp add: palloc_wf_def)
    define r where "r = (if flags AND PAL_ZERO \<noteq> 0
        then memset_ram (page_addr p i) 0 (4096 * cnt) (ram p) else ram p)"
    obtain p' where p': "mark_kind flags i cnt (p\<lparr>mem_pool := (mem_pool p)\<lparr>used_map := u\<rparr>, ram := r\<rparr>) = Inr p'"
      "ram p' = r" "palloc_wf p'" "pages_taken flags i cnt p p'"
      using mark_kind_ok [OF wf run iu(2) bc abs] by blast
    have "palloc_get_multiple flags cnt p = Inr (page_addr p i, p')"
    proof (cases "flags AND PAL_ZERO = 0")
      case True
      have same: "p\<lparr>mem_pool := (mem_pool p)\<lparr>used_map := u\<rparr>, ram := ram p\<rparr>
          = p\<lparr>mem_pool := (mem_pool p)\<lparr>used_map := u\<rparr>\<rparr>"
        by simp
      show ?thesis
        using False found nz iu(1) p'(1) True
        by (simp add: palloc_get_multiple_def r_def Let_def page_addr_def [symmetric] same)
    next
      case zero: False
      then show ?thesis
        using False found nz iu(1) p'(1)
        by (simp add: palloc_get_multiple_def r_def Let_def page_addr_def [symmetric] unat_PGSIZE)
    qed
    then show ?thesis using p' False r_def by auto
  qed
qed

subsection \<open>Freeing keeps the invariant\<close>

text \<open>A range of pages in use that all belong to one kind, as one allocation leaves them.\<close>

definition one_kind :: "nat \<Rightarrow> nat \<Rightarrow> palloc \<Rightarrow> bool" where
  "one_kind i cnt p \<longleftrightarrow> run_at (used_pages p) i cnt True
     \<and> (\<exists>t s. run_at (tc_pages p) i cnt t \<and> run_at (swap_pages p) i cnt s)"

lemma run_at_first: "run_at xs i cnt v \<Longrightarrow> 0 < cnt \<Longrightarrow> i < length xs \<and> xs ! i = v"
  by (simp add: run_at_def)

lemma page_from_pool_run:
  assumes wf: "palloc_wf p" and used: "run_at (used_pages p) i cnt True" and pos: "0 < cnt"
    and t: "run_at (tc_pages p) i cnt t" and s: "run_at (swap_pages p) i cnt s"
  shows "page_from_pool PAL_TC (page_addr p i) p = Inr t"
    and "page_from_pool PAL_SWAP (page_addr p i) p = Inr s"
    and "\<not> (t \<and> s)"
proof -
  have i: "i < pool_size p" and u: "used_pages p ! i"
    using run_at_first [OF used pos] by (simp_all add: pool_size_def)
  have maps: "bitmap_wf (used_map (mem_pool p))" "bitmap_wf (tc_map (mem_pool p))"
    "bitmap_wf (swap_map (mem_pool p))" "bit_cnt (tc_map (mem_pool p)) = pool_size p"
    "bit_cnt (swap_map (mem_pool p)) = pool_size p" and kinds: "kinds_wf p" and base: "base_wf p"
    using wf by (auto simp: palloc_wf_def maps_wf_def)
  have ts: "tc_pages p ! i = t" "swap_pages p ! i = s"
    using run_at_first [OF t pos] run_at_first [OF s pos] by simp_all
  have tests: "bitmap_test (used_map (mem_pool p)) i = Inr True"
    "bitmap_test (tc_map (mem_pool p)) i = Inr t" "bitmap_test (swap_map (mem_pool p)) i = Inr s"
    using maps i u ts by (simp_all add: bitmap_test_abs pool_size_def)
  show excl: "\<not> (t \<and> s)" using kinds i ts by (auto simp: kinds_wf_def)
  show "page_from_pool PAL_TC (page_addr p i) p = Inr t"
    "page_from_pool PAL_SWAP (page_addr p i) p = Inr s"
    using tests excl page_index_addr [OF base i]
    by (auto simp: page_from_pool_def Let_def PAL_TC_def PAL_SWAP_def)
qed

lemma counts_freed:
  assumes "run_at (used_pages p) i cnt True" and "run_at (tc_pages p) i cnt t"
    and "run_at (swap_pages p) i cnt s"
  shows "bcount (used_pages p) = bcount (fill i cnt False (used_pages p)) + cnt"
    and "bcount (tc_pages p) = bcount (fill i cnt False (tc_pages p)) + (if t then cnt else 0)"
    and "bcount (swap_pages p) = bcount (fill i cnt False (swap_pages p)) + (if s then cnt else 0)"
proof -
  have "bcount xs = bcount (fill i cnt False xs) + (if v then cnt else 0)"
    if "run_at xs i cnt v" for xs v
    using run_at_fill [OF that] bcount_fill [of i cnt v xs] bcount_fill [of i cnt False xs] by simp
  from this [OF assms(1)] this [OF assms(2)] this [OF assms(3)]
  show "bcount (used_pages p) = bcount (fill i cnt False (used_pages p)) + cnt"
    "bcount (tc_pages p) = bcount (fill i cnt False (tc_pages p)) + (if t then cnt else 0)"
    "bcount (swap_pages p) = bcount (fill i cnt False (swap_pages p)) + (if s then cnt else 0)"
    by simp_all
qed

lemma bcount_disjoint:
  assumes "length t = length s" and "length s = length u"
    and "\<And>i. i < length u \<Longrightarrow> (t ! i \<longrightarrow> u ! i) \<and> (s ! i \<longrightarrow> u ! i) \<and> \<not> (t ! i \<and> s ! i)"
  shows "bcount t + bcount s \<le> bcount u"
  using assms
proof (induction t s u rule: list_induct3)
  case Nil
  then show ?case by (simp add: bcount_def)
next
  case (Cons x xs y ys z zs)
  have "bcount xs + bcount ys \<le> bcount zs"
    using Cons.prems [of "Suc _"] by (intro Cons.IH) fastforce
  moreover have "(x \<longrightarrow> z) \<and> (y \<longrightarrow> z) \<and> \<not> (x \<and> y)" using Cons.prems [of 0] by simp
  ultimately show ?case by (auto simp: bcount_def)
qed

lemma kernel_count_freed:
  assumes wf: "palloc_wf p" and used: "run_at (used_pages p) i cnt True"
    and t: "run_at (tc_pages p) i cnt False" and s: "run_at (swap_pages p) i cnt False"
  shows "cnt \<le> kernel_page_count p"
proof -
  have maps: "bit_cnt (tc_map (mem_pool p)) = pool_size p" "bit_cnt (swap_map (mem_pool p)) = pool_size p"
    and kinds: "kinds_wf p" and cnts: "counts_wf p"
    using wf by (auto simp: palloc_wf_def maps_wf_def)
  have le: "i + cnt \<le> pool_size p" using used by (simp add: run_at_def pool_size_def)
  have "bcount (fill i cnt False (tc_pages p)) + bcount (fill i cnt False (swap_pages p))
      \<le> bcount (fill i cnt False (used_pages p))"
    using kinds le maps
    by (intro bcount_disjoint) (auto simp: kinds_wf_def pool_size_def nth_fill)
  then show ?thesis
    using cnts counts_freed [OF used t s] by (simp add: counts_wf_def)
qed

lemma uncount_kind_ok:
  assumes wf: "palloc_wf p" and used: "run_at (used_pages p) i cnt True" and pos: "0 < cnt"
    and t: "run_at (tc_pages p) i cnt t" and s: "run_at (swap_pages p) i cnt s"
  shows "\<exists>p'. uncount_kind (page_addr p i) cnt p = Inr p' \<and> mem_pool p' = mem_pool p
    \<and> tc_page_count p' = tc_page_count p - (if t then int cnt else 0)
    \<and> swap_page_count p' = swap_page_count p - (if s then int cnt else 0)
    \<and> kernel_page_count p' = kernel_page_count p - (if t \<or> s then 0 else cnt)"
proof -
  have i: "i < pool_size p" using run_at_first [OF used pos] by (simp add: pool_size_def)
  have maps: "bitmap_wf (tc_map (mem_pool p))" "bitmap_wf (swap_map (mem_pool p))" and base: "base_wf p"
    and cnts: "counts_wf p"
    using wf by (auto simp: palloc_wf_def maps_wf_def)
  note idx = page_index_addr [OF base i]
  note pfp = page_from_pool_run [OF wf used pos t s]
  note cf = counts_freed [OF used t s]
  have tc: "t \<Longrightarrow> tc_page_count p \<ge> int cnt" and sw: "s \<Longrightarrow> swap_page_count p \<ge> int cnt"
    using cnts cf by (simp_all add: counts_wf_def)
  have "bcount (used_pages p) \<le> pool_size p"
    using bcount_le [of "used_pages p"] by (simp add: pool_size_def)
  then have kb: "kernel_page_count p < 2 ^ 32"
    using cnts pool_size_lt [OF wf] by (simp add: counts_wf_def)
  have "kernel_page_count p \<ge> cnt" if "\<not> t" "\<not> s"
    using kernel_count_freed [OF wf used] t s that by simp
  then have kern: "usize (kernel_page_count p + (2 ^ 32 - cnt)) = kernel_page_count p - cnt"
    if "\<not> t" "\<not> s"
    using that kb by (simp add: usize_def le_mod_geq)
  show ?thesis
  proof (cases t)
    case True
    then have "bitmap_all (tc_map (mem_pool p)) i cnt = Inr True"
      "bitmap_none (swap_map (mem_pool p)) i cnt = Inr True"
      using t s pfp(3) maps bitmap_all_run bitmap_none_run by auto
    then show ?thesis using True pfp idx tc by (simp add: uncount_kind_def Let_def)
  next
    case nt: False
    show ?thesis
    proof (cases s)
      case True
      then have "bitmap_all (swap_map (mem_pool p)) i cnt = Inr True"
        "bitmap_none (tc_map (mem_pool p)) i cnt = Inr True"
        using t s nt maps bitmap_all_run bitmap_none_run by auto
      then show ?thesis using True nt pfp idx sw by (simp add: uncount_kind_def Let_def)
    next
      case False
      then show ?thesis using nt pfp kern by (simp add: uncount_kind_def Let_def)
    qed
  qed
qed

lemma palloc_free_ok:
  assumes wf: "palloc_wf p" and pos: "0 < cnt" and used: "run_at (used_pages p) i cnt True"
    and t: "run_at (tc_pages p) i cnt t" and s: "run_at (swap_pages p) i cnt s"
  shows "\<exists>p'. palloc_free_multiple (page_addr p i) cnt p = Inr p' \<and> palloc_wf p'
    \<and> base (mem_pool p') = base (mem_pool p)
    \<and> used_pages p' = fill i cnt False (used_pages p) \<and> tc_pages p' = fill i cnt False (tc_pages p)
    \<and> swap_pages p' = fill i cnt False (swap_pages p)"
proof -
  have maps: "bitmap_wf (used_map (mem_pool p))" "bitmap_wf (tc_map (mem_pool p))"
    "bitmap_wf (swap_map (mem_pool p))" "bit_cnt (tc_map (mem_pool p)) = pool_size p"
    "bit_cnt (swap_map (mem_pool p)) = pool_size p"
    and base: "base_wf p" and cnts: "counts_wf p" and kinds: "kinds_wf p"
    using wf by (auto simp: palloc_wf_def maps_wf_def)
  have i: "i < pool_size p" using run_at_first [OF used pos] by (simp add: pool_size_def)
  obtain p1 where p1: "uncount_kind (page_addr p i) cnt p = Inr p1" "mem_pool p1 = mem_pool p"
    "tc_page_count p1 = tc_page_count p - (if t then int cnt else 0)"
    "swap_page_count p1 = swap_page_count p - (if s then int cnt else 0)"
    "kernel_page_count p1 = kernel_page_count p - (if t \<or> s then 0 else cnt)"
    using uncount_kind_ok [OF wf used pos t s] by blast
  obtain bu where bu: "bitmap_set_multiple (used_map (mem_pool p)) i cnt False = Inr bu" "bitmap_wf bu"
    "bit_cnt bu = pool_size p" "bitmap_abs bu = fill i cnt False (used_pages p)"
    using bitmap_fill [OF maps(1) used] by (metis pool_size_def)
  obtain bt where bt: "bitmap_set_multiple (tc_map (mem_pool p)) i cnt False = Inr bt" "bitmap_wf bt"
    "bit_cnt bt = pool_size p" "bitmap_abs bt = fill i cnt False (tc_pages p)"
    using bitmap_fill [OF maps(2) t] maps(4) by metis
  obtain bs where bs: "bitmap_set_multiple (swap_map (mem_pool p)) i cnt False = Inr bs" "bitmap_wf bs"
    "bit_cnt bs = pool_size p" "bitmap_abs bs = fill i cnt False (swap_pages p)"
    using bitmap_fill [OF maps(3) s] maps(5) by metis
  define p' where "p' = p1\<lparr>ram := memset_ram (page_addr p i) 0xcc (unat PGSIZE * cnt) (ram p1),
    mem_pool := (mem_pool p)\<lparr>used_map := bu, tc_map := bt, swap_map := bs\<rparr>\<rparr>"
  have res: "palloc_free_multiple (page_addr p i) cnt p = Inr p'"
    using pos p1(1,2) bu(1) bt(1) bs(1) page_addr_aligned [OF base i] page_addr_nonzero [OF base i]
      page_index_addr [OF base i] bitmap_all_run [OF maps(1) used]
    by (simp add: palloc_free_multiple_def clear_maps_def p'_def Let_def)
  have le: "i + cnt \<le> pool_size p" using used by (simp add: run_at_def pool_size_def)
  have mb: "maps_wf p'" "base_wf p'"
    using bu bt bs base by (simp_all add: maps_wf_def base_wf_def p'_def pool_size_def)
  have kd: "kinds_wf p'"
    using kinds le maps(4,5) bu(3)
    by (auto simp: kinds_wf_def p'_def bu(4) bt(4) bs(4) pool_size_def nth_fill)
  have "\<not> (t \<and> s)" by (rule page_from_pool_run(3) [OF wf used pos t s])
  moreover have "cnt \<le> kernel_page_count p" if "\<not> t" "\<not> s"
    using kernel_count_freed [OF wf used] t s that by simp
  ultimately have "counts_wf p'"
    using cnts counts_freed [OF used t s] p1(3-5)
    by (auto simp: counts_wf_def p'_def bu(4) bt(4) bs(4))
  then have "palloc_wf p'" using mb kd by (simp add: palloc_wf_def)
  then show ?thesis using res bu(4) bt(4) bs(4) by (auto simp: p'_def)
qed

subsection \<open>Initialisation establishes the invariant\<close>

lemma elem_cnt_small: "n < 2 ^ 20 \<Longrightarrow> elem_cnt n = (n + 31) div 32"
  by (simp add: elem_cnt_def)

lemma bitmap_buf_size_small: "n < 2 ^ 20 \<Longrightarrow> bitmap_buf_size n = 8 + 4 * ((n + 31) div 32)"
  by (simp add: bitmap_buf_size_def byte_cnt_def elem_cnt_small)

lemma bitmap_create_in_buf_ok:
  assumes "n \<le> N" and "N < 2 ^ 20" and "length mem = elem_cnt N"
  shows "\<exists>b. bitmap_create_in_buf n mem (bitmap_buf_size N) = Inr b \<and> bitmap_wf b \<and> bit_cnt b = n
    \<and> bitmap_abs b = replicate n False"
proof -
  have "(n + 31) div 32 \<le> (N + 31) div 32" using assms(1) by (intro div_le_mono) simp
  then have le: "bitmap_buf_size N \<ge> bitmap_buf_size n"
    using assms(1,2) by (simp add: bitmap_buf_size_small)
  have "bitmap_wf \<lparr>bit_cnt = n, bits = mem\<rparr>"
    using assms by (simp add: bitmap_wf_def SIZE_MAX_def elem_cnt_small)
  then show ?thesis
    using bitmap_set_all_abs [of "\<lparr>bit_cnt = n, bits = mem\<rparr>" False] le
    by (simp add: bitmap_create_in_buf_def)
qed

lemma init_pool_ok:
  assumes N: "N < 2 ^ 20" and len: "length m1 = elem_cnt N" "length m2 = elem_cnt N" "length m3 = elem_cnt N"
    and start: "pg_ofs start = 0" "start \<noteq> 0" "unat start + 4096 * N < 2 ^ 32"
    and ok: "init_pool start N (m1, m2, m3) \<noteq> Inl PANIC"
    and cnt0: "tc_page_count p = 0" "swap_page_count p = 0" "kernel_page_count p = 0"
  shows "\<exists>pl. init_pool start N (m1, m2, m3) = Inr pl \<and> palloc_wf (p\<lparr>mem_pool := pl\<rparr>)"
proof -
  define k where "k = usize (usize (3 * bitmap_buf_size N) + unat PGSIZE - 1) div unat PGSIZE"
  have k: "k \<le> N" using ok by (simp add: init_pool_def k_def Let_def split: if_splits)
  define n where "n = N - k"
  obtain u t s where m:
    "bitmap_create_in_buf n m1 (bitmap_buf_size N) = Inr u" "bitmap_wf u" "bit_cnt u = n"
    "bitmap_create_in_buf n m2 (bitmap_buf_size N) = Inr t" "bitmap_wf t" "bit_cnt t = n"
    "bitmap_create_in_buf n m3 (bitmap_buf_size N) = Inr s" "bitmap_wf s" "bit_cnt s = n"
    and abs: "bitmap_abs u = replicate n False" "bitmap_abs t = replicate n False"
    "bitmap_abs s = replicate n False"
    using bitmap_create_in_buf_ok [of n N] N len unfolding n_def by (metis diff_le_self)
  define pl where "pl = \<lparr>used_map = u, tc_map = t, swap_map = s, base = start + of_nat k * PGSIZE\<rparr>"
  have res: "init_pool start N (m1, m2, m3) = Inr pl"
    using k m(1,4,7) unfolding init_pool_def Let_def k_def [symmetric] n_def [symmetric] pl_def
    by simp
  have lt: "unat start + 4096 * k < 2 ^ 32" using start(3) k by simp
  have "unat (of_nat k :: u32) = k" using lt by (simp add: unat_of_nat)
  then have "unat (of_nat k * PGSIZE) = 4096 * k"
    using lt by (simp add: unat_word_ariths PGSIZE_def)
  then have ub: "unat (base pl) = unat start + 4096 * k"
    using lt by (simp add: pl_def unat_word_ariths)
  have "unat start mod 4096 = 0" using start(1) unat_pg_ofs [of start] by simp
  then have "pg_ofs (base pl) = 0"
    using ub unat_pg_ofs [of "base pl"] by (simp add: unat_eq_zero mod_add_eq)
  moreover have "base pl \<noteq> 0" using ub start(2) by (auto simp: unat_eq_zero)
  ultimately have "base_wf (p\<lparr>mem_pool := pl\<rparr>)"
    using ub start(3) k m(3) by (simp add: base_wf_def pool_size_def pl_def n_def)
  moreover have "maps_wf (p\<lparr>mem_pool := pl\<rparr>)" using m by (simp add: maps_wf_def pl_def pool_size_def)
  moreover have "kinds_wf (p\<lparr>mem_pool := pl\<rparr>)" "counts_wf (p\<lparr>mem_pool := pl\<rparr>)"
    using cnt0 m abs by (simp_all add: kinds_wf_def counts_wf_def pl_def pool_size_def bcount_def)
  ultimately show ?thesis using res by (auto simp: palloc_wf_def)
qed

subsection \<open>Properties\<close>

lemma taken_one_kind:
  assumes wf: "palloc_wf p" and tk: "pages_taken flags i cnt p p'"
  obtains t s where "run_at (used_pages p') i cnt True" "run_at (tc_pages p') i cnt t"
    "run_at (swap_pages p') i cnt s"
    "fill i cnt False (used_pages p') = used_pages p" "fill i cnt False (tc_pages p') = tc_pages p"
    "fill i cnt False (swap_pages p') = swap_pages p"
proof -
  have run: "run_at (used_pages p) i cnt False" using tk by (simp add: pages_taken_def)
  note runs = run kind_run [OF wf run]
  have filled: "run_at (fill i cnt v xs) i cnt v" "fill i cnt False (fill i cnt v xs) = xs"
    if "run_at xs i cnt False" for v and xs :: "bool list"
    using that by (auto simp: run_at_def nth_fill intro!: nth_equalityI split: if_splits)
  define t where "t \<longleftrightarrow> flags AND PAL_TC \<noteq> 0"
  define s where "s \<longleftrightarrow> flags AND PAL_TC = 0 \<and> flags AND PAL_SWAP \<noteq> 0"
  have "tc_pages p' = fill i cnt t (tc_pages p)" "swap_pages p' = fill i cnt s (swap_pages p)"
    "used_pages p' = fill i cnt True (used_pages p)"
    using tk run_at_fill [OF runs(2)] run_at_fill [OF runs(3)]
    by (auto simp: pages_taken_def t_def s_def)
  with filled [OF runs(1)] filled [OF runs(2)] filled [OF runs(3)] show thesis
    by (intro that [of t s]) simp_all
qed

text \<open>
  C14. \<open>palloc_get_multiple\<close> either leaves the allocator unchanged and returns a
  null pointer, or panics because the caller asked for that and there is no free
  group of pages, or returns the address of a group of pages none of which was in
  use, marks exactly these pages in use and of the requested kind, and keeps the
  invariant of the allocator: the kinds partition the pages in use and the three
  counters count them.
\<close>

theorem palloc_get_multiple_correct:
  assumes "palloc_wf p"
  shows "palloc_get_multiple flags cnt p = Inr (0, p)
    \<or> (palloc_get_multiple flags cnt p = Inl PANIC \<and> flags AND PAL_ASSERT \<noteq> 0
        \<and> (\<forall>j. \<not> run_at (used_pages p) j cnt False))
    \<or> (\<exists>i p'. palloc_get_multiple flags cnt p = Inr (page_addr p i, p')
        \<and> palloc_wf p' \<and> pages_taken flags i cnt p p')"
  using palloc_get_cases [OF assms] by blast

definition palloc_example :: palloc where
  "palloc_example =
     (let b = \<lparr>bit_cnt = 8, bits = [0]\<rparr>
      in \<lparr>mem_pool = \<lparr>used_map = b, tc_map = b, swap_map = b, base = 0xff900000\<rparr>,
          tc_page_count = 0, swap_page_count = 0, kernel_page_count = 0, ram = (\<lambda>_. 0)\<rparr>)"

lemma palloc_example_wf: "palloc_wf palloc_example"
proof -
  have abs: "bitmap_abs \<lparr>bit_cnt = 8, bits = [0]\<rparr> = replicate 8 False"
    by (rule nth_equalityI) (auto simp: nth_bitmap_abs)
  have "bitmap_wf \<lparr>bit_cnt = 8, bits = [0]\<rparr>" by (simp add: bitmap_wf_def SIZE_MAX_def)
  then have "maps_wf palloc_example" by (simp add: maps_wf_def palloc_example_def Let_def pool_size_def)
  moreover have "base_wf palloc_example"
    by (simp add: base_wf_def palloc_example_def Let_def pool_size_def pg_ofs_def PGMASK_mask mask_eq_decr_exp)
  moreover have "kinds_wf palloc_example" "counts_wf palloc_example"
    by (simp_all add: kinds_wf_def counts_wf_def palloc_example_def Let_def pool_size_def abs bcount_def)
  ultimately show ?thesis by (simp add: palloc_wf_def)
qed

lemmas bitmap_evals = bitmap_scan_and_flip_def bitmap_scan_def bitmap_contains_def bitmap_none_def
  bitmap_test_def bitmap_set_multiple_def bitmap_set_def bitmap_mark_def upd_elem_def elem_idx_def
  bit_mask_def upt_rec BITMAP_ERROR_def SIZE_MAX_def

lemma palloc_example_get:
  "\<exists>p1 p2. palloc_get_multiple PAL_TC 2 palloc_example = Inr (0xff900000, p1)
     \<and> palloc_get_multiple PAL_SWAP 1 p1 = Inr (0xff902000, p2)"
  by (simp add: palloc_get_multiple_def palloc_example_def Let_def over_limit_def mark_kind_def
      tc_page_limit_def swap_page_limit_def PGSIZE_def PAL_TC_def PAL_SWAP_def PAL_ZERO_def
      PAL_ASSERT_def bitmap_evals)

theorem palloc_get_multiple_correct_witness:
  "\<exists>i p'. palloc_get_multiple PAL_TC 2 palloc_example = Inr (page_addr palloc_example i, p')
     \<and> palloc_wf p' \<and> pages_taken PAL_TC i 2 palloc_example p'"
  using palloc_get_multiple_correct [OF palloc_example_wf, of PAL_TC 2] palloc_example_get by auto

text \<open>
  C26. Pages given out by two successive allocations never overlap, whatever their
  kinds: no address belongs to both groups.
\<close>

theorem palloc_get_disjoint:
  assumes "palloc_wf p" and "palloc_get_multiple f1 n p = Inr (a, p1)" and "a \<noteq> 0"
    and "palloc_get_multiple f2 m p1 = Inr (b, p2)" and "b \<noteq> 0"
  shows "{unat a..<unat a + 4096 * n} \<inter> {unat b..<unat b + 4096 * m} = {}"
proof -
  obtain i where i: "a = page_addr p i" "palloc_wf p1" "pages_taken f1 i n p p1" "0 < n"
    using palloc_get_cases [OF assms(1), of f1 n] assms(2,3) by auto
  obtain j where j: "b = page_addr p1 j" "pages_taken f2 j m p1 p2" "0 < m"
    using palloc_get_cases [OF i(2), of f2 m] assms(4,5) by auto
  have ri: "run_at (used_pages p) i n False" and rj: "run_at (used_pages p1) j m False"
    and u1: "used_pages p1 = fill i n True (used_pages p)" "pool_size p1 = pool_size p"
    "base (mem_pool p1) = base (mem_pool p)"
    using i(3) j(2) by (simp_all add: pages_taken_def)
  have apart: "k \<notin> {j..<j + m}" if "k \<in> {i..<i + n}" for k
    using that ri rj unfolding u1(1) by (auto simp: run_at_def nth_fill)
  have "i + n \<le> j \<or> j + m \<le> i"
  proof (rule ccontr)
    assume "\<not> ?thesis"
    then have "max i j \<in> {i..<i + n}" "max i j \<in> {j..<j + m}" using i(4) j(3) by auto
    then show False using apart by blast
  qed
  moreover have "unat a = unat (base (mem_pool p)) + 4096 * i"
    using assms(1) ri i(1,4) by (simp add: unat_page_addr palloc_wf_def run_at_def pool_size_def)
  moreover have "unat b = unat (base (mem_pool p)) + 4096 * j"
    using i(2) rj j(1,3) u1(3) unat_page_addr [of p1 j]
    by (simp add: palloc_wf_def run_at_def pool_size_def)
  ultimately show ?thesis by auto
qed

theorem palloc_get_disjoint_witness:
  "\<exists>p1 p2. palloc_get_multiple PAL_TC 2 palloc_example = Inr (0xff900000, p1)
     \<and> palloc_get_multiple PAL_SWAP 1 p1 = Inr (0xff902000, p2)
     \<and> {unat (0xff900000 :: u32)..<unat (0xff900000 :: u32) + 4096 * 2}
         \<inter> {unat (0xff902000 :: u32)..<unat (0xff902000 :: u32) + 4096 * 1} = {}"
proof -
  obtain p1 p2 where g: "palloc_get_multiple PAL_TC 2 palloc_example = Inr (0xff900000, p1)"
    "palloc_get_multiple PAL_SWAP 1 p1 = Inr (0xff902000, p2)"
    using palloc_example_get by blast
  have "{unat (0xff900000 :: u32)..<unat (0xff900000 :: u32) + 4096 * 2}
         \<inter> {unat (0xff902000 :: u32)..<unat (0xff902000 :: u32) + 4096 * 1} = {}"
    by (rule palloc_get_disjoint [OF palloc_example_wf g(1) _ g(2)]) simp_all
  with g show ?thesis by blast
qed

text \<open>
  C28. Freeing what was just allocated succeeds, passes every assertion of
  \<open>palloc_free_multiple\<close>, and restores the three maps of the pool.
\<close>

theorem palloc_get_free_roundtrip:
  assumes "palloc_wf p" and "palloc_get_multiple flags cnt p = Inr (pages, p1)" and "pages \<noteq> 0"
  shows "\<exists>p2. palloc_free_multiple pages cnt p1 = Inr p2 \<and> palloc_wf p2
    \<and> used_pages p2 = used_pages p \<and> tc_pages p2 = tc_pages p \<and> swap_pages p2 = swap_pages p"
proof -
  obtain i where i: "pages = page_addr p i" "palloc_wf p1" "pages_taken flags i cnt p p1" "0 < cnt"
    using palloc_get_cases [OF assms(1), of flags cnt] assms(2,3) by auto
  obtain t s where k: "run_at (used_pages p1) i cnt True" "run_at (tc_pages p1) i cnt t"
    "run_at (swap_pages p1) i cnt s"
    "fill i cnt False (used_pages p1) = used_pages p" "fill i cnt False (tc_pages p1) = tc_pages p"
    "fill i cnt False (swap_pages p1) = swap_pages p"
    by (rule taken_one_kind [OF assms(1) i(3)])
  have "pages = page_addr p1 i" using i(1,3) by (simp add: page_addr_def pages_taken_def)
  then show ?thesis using palloc_free_ok [OF i(2,4) k(1-3)] k(4-6) by auto
qed

theorem palloc_get_free_roundtrip_witness:
  "\<exists>p1 p2. palloc_get_multiple PAL_TC 2 palloc_example = Inr (0xff900000, p1)
     \<and> palloc_free_multiple 0xff900000 2 p1 = Inr p2 \<and> used_pages p2 = used_pages palloc_example"
proof -
  obtain p1 where p1: "palloc_get_multiple PAL_TC 2 palloc_example = Inr (0xff900000, p1)"
    using palloc_example_get by blast
  then show ?thesis using palloc_get_free_roundtrip [OF palloc_example_wf p1] by auto
qed

text \<open>
  \<open>PAL_ASSERT\<close> does not cover the limits of the two special kinds: when the
  translation cache has reached its limit, a request for more of its pages
  returns a null pointer and does not panic, whatever other flags are given.
\<close>

lemma palloc_tc_limit_returns_null:
  assumes "palloc_wf p" and "flags AND PAL_TC \<noteq> 0" and "cnt < 2 ^ 20"
    and "tc_page_count p + int cnt > int tc_page_limit"
  shows "palloc_get_multiple flags cnt p = Inr (0, p)"
proof -
  have "tc_page_count p = int (bcount (tc_pages p))" "bcount (tc_pages p) \<le> pool_size p"
    using assms(1) bcount_le [of "tc_pages p"] by (simp_all add: palloc_wf_def counts_wf_def maps_wf_def)
  moreover have "pool_size p < 2 ^ 20" by (rule pool_size_lt [OF assms(1)])
  ultimately have "over_limit (tc_page_count p) cnt tc_page_limit"
    using assms(3,4) by (simp add: over_limit_def usize_def)
  then show ?thesis using assms(2) by (simp add: palloc_get_multiple_def)
qed

text \<open>
  The allocator starts in its invariant: if the free memory, from the page
  after the monitor's image to the given end, is not wrapped around and does not
  reach the end of the address space, then \<open>palloc_init\<close> either panics because the
  bitmaps do not fit or yields a well-formed allocator with no page in use,
  whatever the memory of the bitmaps held before.
\<close>

lemma palloc_init_establishes_invariant:
  assumes "pg_round_up end_sym \<noteq> 0" and "pg_round_up end_sym \<le> end_addr" and "end_addr \<le> 0xfffff000"
    and "N = unat (end_addr - pg_round_up end_sym) div 4096"
    and "length m1 = elem_cnt N" and "length m2 = elem_cnt N" and "length m3 = elem_cnt N"
    and "tc_page_count p = 0" and "swap_page_count p = 0" and "kernel_page_count p = 0"
  shows "palloc_init end_sym end_addr (m1, m2, m3) p = Inl PANIC
    \<or> (\<exists>p'. palloc_init end_sym end_addr (m1, m2, m3) p = Inr p' \<and> palloc_wf p')"
proof -
  let ?s = "pg_round_up end_sym"
  have u: "unat (end_addr - ?s) = unat end_addr - unat ?s" "unat ?s \<le> unat end_addr"
    using assms(2) by (simp_all add: unat_sub word_le_nat_alt)
  have e: "unat end_addr \<le> 0xfffff000" using assms(3) by (simp add: word_le_nat_alt)
  have N: "4096 * N \<le> unat end_addr - unat ?s" using assms(4) u by simp
  have fit: "unat ?s + 4096 * N < 2 ^ 32" and small: "N < 2 ^ 20" using N u e by simp_all
  have al: "pg_ofs ?s = 0"
    by (rule bit_word_eqI) (auto simp: pg_ofs_def pg_round_up_def PGMASK_mask bit_simps)
  have eq: "palloc_init end_sym end_addr (m1, m2, m3) p =
      rbind (init_pool ?s N (m1, m2, m3)) (\<lambda>pl. Inr (p\<lparr>mem_pool := pl\<rparr>))"
    using assms(4) by (simp add: palloc_init_def Let_def unat_PGSIZE)
  show ?thesis
  proof (cases "init_pool ?s N (m1, m2, m3) = Inl PANIC")
    case True
    then show ?thesis using eq by simp
  next
    case False
    then show ?thesis
      using init_pool_ok [OF small assms(5-7) al assms(1) fit False assms(8-10)] eq by auto
  qed
qed

end
