(* ===== verification/Bdrv.thy ===== *)
theory Bdrv
  imports Vaddr
begin

text \<open>
  Block devices: the disk layer of \<^verbatim>\<open>devices/disk.c\<close> over one-sector transfers, the
  two drivers the monitor puts between a guest and a disk,
  \<^verbatim>\<open>hw/displace_bdrv.c\<close> and \<^verbatim>\<open>hw/append_bdrv.c\<close>, and the driver dispatch of
  \<^verbatim>\<open>hw/bdrv.c\<close>. Sector numbers are 32-bit words, as \<open>disk_sector_t\<close> is; a
  sector is a list of bytes and a buffer the list of its sectors. The hardware
  handshake of a one-sector transfer is reduced to its effect on the medium:
  \<open>io_ok\<close> tells at which sectors the device reports success.
\<close>

subsection \<open>Disks\<close>

datatype disk_type = DISK_ATA | DISK_USB | DISK_MDISK

record disk =
  dtype :: disk_type
  capacity :: u32
  medium :: "u32 \<Rightarrow> u8 list"
  io_ok :: "u32 \<Rightarrow> bool"
  dsize :: u32

definition select_sector :: "disk \<Rightarrow> u32 \<Rightarrow> bool" where
  "select_sector d sec_no \<longleftrightarrow> sec_no < capacity d \<and> sec_no < 0x10000000"

definition ata_disk_read :: "disk \<Rightarrow> u32 \<Rightarrow> u8 list res" where
  "ata_disk_read d sec_no =
     assert_then (select_sector d sec_no)
       (if io_ok d sec_no then Inr (medium d sec_no) else Inl PANIC)"

definition ata_disk_write :: "disk \<Rightarrow> u32 \<Rightarrow> u8 list \<Rightarrow> disk res" where
  "ata_disk_write d sec_no sec =
     assert_then (select_sector d sec_no)
       (if io_ok d sec_no then Inr (d\<lparr>medium := (medium d)(sec_no := sec)\<rparr>) else Inl PANIC)"

definition disk_size :: "disk \<Rightarrow> (u32 \<times> disk) res" where
  "disk_size d =
     (if dsize d \<noteq> 0 then Inr (dsize d, d)
      else case dtype d of
             DISK_ATA \<Rightarrow> Inr (capacity d, d\<lparr>dsize := capacity d\<rparr>)
           | DISK_USB \<Rightarrow> Inr (capacity d, d\<lparr>dsize := capacity d\<rparr>)
           | DISK_MDISK \<Rightarrow> Inr (0xffffffff, d))"

text \<open>
  The drivers transfer single sectors; \<open>buf\<close> is the address of the buffer, which
  a memory disk requires to be the monitor's.
\<close>

definition disk_read1 :: "disk \<Rightarrow> u32 \<Rightarrow> u32 \<Rightarrow> u8 list res" where
  "disk_read1 d sec_no buf =
     (case dtype d of
        DISK_ATA \<Rightarrow> ata_disk_read d sec_no
      | DISK_USB \<Rightarrow> assert_then (io_ok d sec_no) (Inr (medium d sec_no))
      | DISK_MDISK \<Rightarrow>
          assert_then (is_monitor_vaddr buf)
            (rbind (vtop_mon buf) (\<lambda>_. assert_then (io_ok d sec_no) (Inr (medium d sec_no)))))"

definition disk_write1 :: "disk \<Rightarrow> u32 \<Rightarrow> u32 \<Rightarrow> u8 list \<Rightarrow> disk res" where
  "disk_write1 d sec_no buf sec =
     (case dtype d of
        DISK_ATA \<Rightarrow> ata_disk_write d sec_no sec
      | DISK_USB \<Rightarrow> assert_then (io_ok d sec_no) (Inr (d\<lparr>medium := (medium d)(sec_no := sec)\<rparr>))
      | DISK_MDISK \<Rightarrow>
          assert_then (is_monitor_vaddr buf)
            (rbind (vtop_mon buf)
              (\<lambda>_. assert_then (io_ok d sec_no) (Inr (d\<lparr>medium := (medium d)(sec_no := sec)\<rparr>)))))"

definition DISK_SECTOR_SIZE :: u32 where "DISK_SECTOR_SIZE = 512"

subsection \<open>Displacing driver\<close>

record BDRVDisplaceState =
  disp_disk :: disk
  offset :: u32
  length_s :: u32

text \<open>The loops run over 32-bit sector numbers up to a sum that wraps.\<close>

function displace_read_loop :: "BDRVDisplaceState \<Rightarrow> u32 \<Rightarrow> u32 \<Rightarrow> u32 \<Rightarrow> u8 list list res" where
  "displace_read_loop bas cur_sector end_sector ptr =
     (if cur_sector < end_sector then
        rbind (if cur_sector = 0 then disk_read1 (disp_disk bas) (offset bas) ptr
               else disk_read1 (disp_disk bas) cur_sector ptr)
          (\<lambda>sec. rbind (displace_read_loop bas (cur_sector + 1) end_sector (ptr + DISK_SECTOR_SIZE))
             (\<lambda>rest. Inr (sec # rest)))
      else Inr [])"
  by pat_completeness auto

definition displace_bdrv_read :: "BDRVDisplaceState \<Rightarrow> u32 \<Rightarrow> u32 \<Rightarrow> nat \<Rightarrow> u8 list list res" where
  "displace_bdrv_read bas sector_num buf nb_sectors =
     displace_read_loop bas sector_num (sector_num + of_nat nb_sectors) buf"

definition displace_write1 :: "u32 \<Rightarrow> u32 \<Rightarrow> u8 list \<Rightarrow> BDRVDisplaceState \<Rightarrow> BDRVDisplaceState res" where
  "displace_write1 cur_sector ptr sec bas =
     (if cur_sector = 0 then
        rbind (disk_write1 (disp_disk bas) (offset bas) ptr sec) (\<lambda>d. Inr (bas\<lparr>disp_disk := d\<rparr>))
      else if cur_sector \<ge> offset bas + 1 \<and> cur_sector \<le> offset bas + length_s bas then Inr bas
      else
        rbind (disk_write1 (disp_disk bas) cur_sector ptr sec) (\<lambda>d. Inr (bas\<lparr>disp_disk := d\<rparr>)))"

text \<open>Running off the buffer is an access outside it.\<close>

function displace_write_loop ::
  "u32 \<Rightarrow> u32 \<Rightarrow> u32 \<Rightarrow> u8 list list \<Rightarrow> BDRVDisplaceState \<Rightarrow> BDRVDisplaceState res" where
  "displace_write_loop cur_sector end_sector ptr secs bas =
     (if cur_sector < end_sector then
        (case secs of
           [] \<Rightarrow> Inl OUT_OF_BOUNDS
         | sec # rest \<Rightarrow>
             rbind (displace_write1 cur_sector ptr sec bas)
               (displace_write_loop (cur_sector + 1) end_sector (ptr + DISK_SECTOR_SIZE) rest))
      else Inr bas)"
  by pat_completeness auto

definition displace_bdrv_write ::
  "u32 \<Rightarrow> u32 \<Rightarrow> u8 list list \<Rightarrow> nat \<Rightarrow> BDRVDisplaceState \<Rightarrow> BDRVDisplaceState res" where
  "displace_bdrv_write sector_num buf secs nb_sectors bas =
     displace_write_loop sector_num (sector_num + of_nat nb_sectors) buf secs bas"

definition displace_bdrv_getlength :: "BDRVDisplaceState \<Rightarrow> (u32 \<times> BDRVDisplaceState) res" where
  "displace_bdrv_getlength bas =
     rbind (disk_size (disp_disk bas)) (\<lambda>(n, d). Inr (n, bas\<lparr>disp_disk := d\<rparr>))"

termination displace_read_loop
  by (relation "measure (\<lambda>(bas, c, e, p). unat e - unat c)")
    (auto simp: unat_Suc_less word_less_nat_alt)

termination displace_write_loop
  by (relation "measure (\<lambda>(c, e, p, secs, bas). unat e - unat c)")
    (auto simp: unat_Suc_less word_less_nat_alt)

declare displace_read_loop.simps [simp del] displace_write_loop.simps [simp del]

subsection \<open>Appending driver\<close>

record BDRVAppendState =
  app_disk :: disk
  app_offset :: u32

definition append_read1 :: "u32 \<Rightarrow> u32 \<Rightarrow> BDRVAppendState \<Rightarrow> (u8 list \<times> BDRVAppendState) res" where
  "append_read1 cur_sector ptr bas =
     rbind (disk_size (app_disk bas)) (\<lambda>(n, d).
       assert_then (cur_sector + app_offset bas \<le> n)
         (rbind (disk_read1 d (cur_sector + app_offset bas) ptr) (\<lambda>sec. Inr (sec, bas\<lparr>app_disk := d\<rparr>))))"

primrec append_read_loop ::
  "nat \<Rightarrow> u32 \<Rightarrow> u32 \<Rightarrow> BDRVAppendState \<Rightarrow> (u8 list list \<times> BDRVAppendState) res" where
  "append_read_loop 0 cur_sector ptr bas = Inr ([], bas)"
| "append_read_loop (Suc n) cur_sector ptr bas =
     rbind (append_read1 cur_sector ptr bas) (\<lambda>(sec, bas).
       rbind (append_read_loop n (cur_sector + 1) (ptr + DISK_SECTOR_SIZE) bas)
         (\<lambda>(rest, bas). Inr (sec # rest, bas)))"

definition append_bdrv_read ::
  "BDRVAppendState \<Rightarrow> u32 \<Rightarrow> u32 \<Rightarrow> nat \<Rightarrow> (u8 list list \<times> BDRVAppendState) res" where
  "append_bdrv_read bas sector_num buf nb_sectors = append_read_loop nb_sectors sector_num buf bas"

definition append_write1 :: "u32 \<Rightarrow> u32 \<Rightarrow> u8 list \<Rightarrow> BDRVAppendState \<Rightarrow> BDRVAppendState res" where
  "append_write1 cur_sector ptr sec bas =
     rbind (disk_size (app_disk bas)) (\<lambda>(n, d).
       assert_then (cur_sector + app_offset bas \<le> n)
         (rbind (disk_write1 d (cur_sector + app_offset bas) ptr sec) (\<lambda>d. Inr (bas\<lparr>app_disk := d\<rparr>))))"

primrec append_write_loop :: "nat \<Rightarrow> u32 \<Rightarrow> u32 \<Rightarrow> u8 list list \<Rightarrow> BDRVAppendState \<Rightarrow> BDRVAppendState res" where
  "append_write_loop 0 cur_sector ptr secs bas = Inr bas"
| "append_write_loop (Suc n) cur_sector ptr secs bas =
     (case secs of
        [] \<Rightarrow> Inl OUT_OF_BOUNDS
      | sec # rest \<Rightarrow>
          rbind (append_write1 cur_sector ptr sec bas)
            (append_write_loop n (cur_sector + 1) (ptr + DISK_SECTOR_SIZE) rest))"

definition append_bdrv_write ::
  "u32 \<Rightarrow> u32 \<Rightarrow> u8 list list \<Rightarrow> nat \<Rightarrow> BDRVAppendState \<Rightarrow> BDRVAppendState res" where
  "append_bdrv_write sector_num buf secs nb_sectors bas =
     append_write_loop nb_sectors sector_num buf secs bas"

definition append_bdrv_getlength :: "BDRVAppendState \<Rightarrow> u32" where
  "append_bdrv_getlength bas = app_offset bas"

subsection \<open>Driver dispatch\<close>

text \<open>
  The driver of an open device with its private state; \<open>None\<close> is a device without
  a driver or without allocated driver state, on which every operation fails its
  assertion.
\<close>

datatype driver_state = Displace BDRVDisplaceState | Append BDRVAppendState

record BlockDriverState =
  total_sectors :: u32
  drv :: "driver_state option"

definition bdrv_read :: "BlockDriverState \<Rightarrow> u32 \<Rightarrow> u32 \<Rightarrow> nat \<Rightarrow> (u8 list list \<times> BlockDriverState) res" where
  "bdrv_read bs sector_num buf nb_sectors =
     (case drv bs of
        None \<Rightarrow> Inl ASSERT_FAIL
      | Some (Displace bas) \<Rightarrow>
          rbind (displace_bdrv_read bas sector_num buf nb_sectors) (\<lambda>r. Inr (r, bs))
      | Some (Append bas) \<Rightarrow>
          rbind (append_bdrv_read bas sector_num buf nb_sectors)
            (\<lambda>(r, bas). Inr (r, bs\<lparr>drv := Some (Append bas)\<rparr>)))"

definition bdrv_write ::
  "u32 \<Rightarrow> u32 \<Rightarrow> u8 list list \<Rightarrow> nat \<Rightarrow> BlockDriverState \<Rightarrow> BlockDriverState res" where
  "bdrv_write sector_num buf secs nb_sectors bs =
     (case drv bs of
        None \<Rightarrow> Inl ASSERT_FAIL
      | Some (Displace bas) \<Rightarrow>
          rbind (displace_bdrv_write sector_num buf secs nb_sectors bas)
            (\<lambda>bas. Inr (bs\<lparr>drv := Some (Displace bas)\<rparr>))
      | Some (Append bas) \<Rightarrow>
          rbind (append_bdrv_write sector_num buf secs nb_sectors bas)
            (\<lambda>bas. Inr (bs\<lparr>drv := Some (Append bas)\<rparr>)))"

definition drv_getlength :: "driver_state \<Rightarrow> (u32 \<times> driver_state) res" where
  "drv_getlength ds =
     (case ds of
        Displace bas \<Rightarrow> rbind (displace_bdrv_getlength bas) (\<lambda>(n, bas). Inr (n, Displace bas))
      | Append bas \<Rightarrow> Inr (append_bdrv_getlength bas, Append bas))"

definition bdrv_get_geometry :: "BlockDriverState \<Rightarrow> (u32 \<times> BlockDriverState) res" where
  "bdrv_get_geometry bs =
     (case drv bs of
        None \<Rightarrow> Inl ASSERT_FAIL
      | Some ds \<Rightarrow> rbind (drv_getlength ds) (\<lambda>(n, ds). Inr (n, bs\<lparr>drv := Some ds\<rparr>)))"

text \<open>
  Opening a device, from the point where the driver is known: \<open>alloc\<close> is the result
  of the allocation of the driver's state and \<open>opened\<close> what the driver's own open
  operation made of the file name, \<open>None\<close> for a negative result.
\<close>

definition bdrv_open ::
  "BlockDriverState \<Rightarrow> bool \<Rightarrow> bool \<Rightarrow> driver_state option \<Rightarrow> (int \<times> BlockDriverState) res" where
  "bdrv_open bs found alloc opened =
     (if \<not> found then Inr (-1, bs)
      else if \<not> alloc then Inr (-1, bs\<lparr>drv := None\<rparr>)
      else case opened of
             None \<Rightarrow> Inr (-1, bs\<lparr>drv := None\<rparr>)
           | Some ds \<Rightarrow>
               rbind (drv_getlength ds) (\<lambda>(n, ds).
                 Inr (0, bs\<lparr>drv := Some ds, total_sectors := n div DISK_SECTOR_SIZE\<rparr>)))"

subsection \<open>One-sector transfers\<close>

definition disk_ok :: "disk \<Rightarrow> u32 \<Rightarrow> u32 \<Rightarrow> bool" where
  "disk_ok d k ptr \<longleftrightarrow> io_ok d k
     \<and> (dtype d = DISK_ATA \<longrightarrow> select_sector d k) \<and> (dtype d = DISK_MDISK \<longrightarrow> is_monitor_vaddr ptr)"

lemma vtop_mon_total: "is_monitor_vaddr ptr \<Longrightarrow> \<exists>p. vtop_mon ptr = Inr p"
  by (simp add: vtop_mon_def is_monitor_vaddr_def reg_defs)

lemma disk_read1_Inr: "disk_read1 d k ptr = Inr sec \<longleftrightarrow> disk_ok d k ptr \<and> sec = medium d k"
  using vtop_mon_total [of ptr]
  by (auto simp: disk_read1_def ata_disk_read_def disk_ok_def assert_then_Inr rbind_Inr
      split: disk_type.split)

lemma disk_write1_Inr:
  "disk_write1 d k ptr sec = Inr d' \<longleftrightarrow> disk_ok d k ptr \<and> d' = d\<lparr>medium := (medium d)(k := sec)\<rparr>"
  using vtop_mon_total [of ptr]
  by (auto simp: disk_write1_def ata_disk_write_def disk_ok_def assert_then_Inr rbind_Inr
      split: disk_type.split)

lemma disk_ok_medium [simp]: "disk_ok (d\<lparr>medium := m\<rparr>) k ptr = disk_ok d k ptr"
  by (simp add: disk_ok_def select_sector_def)

subsection \<open>The displaced disk\<close>

text \<open>Where a sector of the guest lies on the medium, and which sectors are the monitor's.\<close>

definition phys_sector :: "BDRVDisplaceState \<Rightarrow> u32 \<Rightarrow> u32" where
  "phys_sector bas k = (if k = 0 then offset bas else k)"

definition monitor_sector :: "BDRVDisplaceState \<Rightarrow> u32 \<Rightarrow> bool" where
  "monitor_sector bas k \<longleftrightarrow> offset bas + 1 \<le> k \<and> k \<le> offset bas + length_s bas"

definition writable :: "BDRVDisplaceState \<Rightarrow> u32 \<Rightarrow> bool" where
  "writable bas k \<longleftrightarrow> k = 0 \<or> \<not> monitor_sector bas k"

definition same_disk :: "BDRVDisplaceState \<Rightarrow> BDRVDisplaceState \<Rightarrow> bool" where
  "same_disk bas bas' \<longleftrightarrow> (\<exists>m. bas' = bas\<lparr>disp_disk := (disp_disk bas)\<lparr>medium := m\<rparr>\<rparr>)"

abbreviation disp_medium :: "BDRVDisplaceState \<Rightarrow> u32 \<Rightarrow> u8 list" where
  "disp_medium bas \<equiv> medium (disp_disk bas)"

lemma displace_write1_Inr:
  "displace_write1 k ptr sec bas = Inr bas' \<longleftrightarrow>
     (if writable bas k
      then disk_ok (disp_disk bas) (phys_sector bas k) ptr
        \<and> bas' = bas\<lparr>disp_disk := (disp_disk bas)\<lparr>medium := (disp_medium bas)(phys_sector bas k := sec)\<rparr>\<rparr>
      else bas' = bas)"
  by (auto simp: displace_write1_def writable_def monitor_sector_def phys_sector_def
      rbind_Inr disk_write1_Inr)

lemma same_disk_simps:
  assumes "same_disk bas bas'"
  shows "phys_sector bas' k = phys_sector bas k" "writable bas' k = writable bas k"
    "disk_ok (disp_disk bas') j ptr = disk_ok (disp_disk bas) j ptr"
  using assms by (auto simp: same_disk_def phys_sector_def writable_def monitor_sector_def)

lemma same_disk_trans: "same_disk a b \<Longrightarrow> same_disk b c \<Longrightarrow> same_disk a c"
  by (auto simp: same_disk_def)

lemma displace_write1_same: "displace_write1 k ptr sec bas = Inr bas' \<Longrightarrow> same_disk bas bas'"
  unfolding displace_write1_Inr same_disk_def
  by (auto split: if_splits intro: exI [of _ "disp_medium bas"])

text \<open>
  What a completed write loop has done: nothing outside the sectors the guest may
  write in the range, and every one of those was accepted by the device.
\<close>

lemma displace_write_loop_frame:
  assumes "displace_write_loop cur e ptr secs bas = Inr bas'"
  shows "same_disk bas bas'
    \<and> (\<forall>s. (\<forall>k. cur \<le> k \<and> k < e \<and> writable bas k \<longrightarrow> phys_sector bas k \<noteq> s)
         \<longrightarrow> disp_medium bas' s = disp_medium bas s)"
  using assms
proof (induction cur e ptr secs bas rule: displace_write_loop.induct)
  case (1 cur e ptr secs bas)
  show ?case
  proof (cases "cur < e")
    case False
    then have "bas' = bas" using 1(2) by (simp add: displace_write_loop.simps)
    then show ?thesis by (auto simp: same_disk_def intro: exI [of _ "disp_medium bas"])
  next
    case True
    then obtain sec rest b1 where s: "secs = sec # rest" "displace_write1 cur ptr sec bas = Inr b1"
      "displace_write_loop (cur + 1) e (ptr + DISK_SECTOR_SIZE) rest b1 = Inr bas'"
      using 1(2) by (subst (asm) displace_write_loop.simps) (auto simp: rbind_Inr split: list.splits)
    note ih = 1(1) [OF True s(1) s(3)]
    note sm = displace_write1_same [OF s(2)]
    have up: "cur + 1 \<le> k \<longleftrightarrow> cur < k" for k
      using True unat_Suc_less [OF True] by (simp add: word_less_nat_alt word_le_nat_alt Suc_le_eq)
    have "disp_medium bas' s = disp_medium bas s"
      if out: "\<forall>k. cur \<le> k \<and> k < e \<and> writable bas k \<longrightarrow> phys_sector bas k \<noteq> s" for s
    proof -
      have "disp_medium bas' s = disp_medium b1 s"
        using ih out up same_disk_simps [OF sm] by (auto simp: less_le)
      also have "\<dots> = disp_medium bas s"
        using s(2) out True unfolding displace_write1_Inr by (auto split: if_splits)
      finally show ?thesis .
    qed
    then show ?thesis using ih same_disk_trans [OF sm] by blast
  qed
qed

text \<open>
  Guest sectors 0 and \<open>offset\<close> lie on the same sector of the medium; a range that
  does not contain both is mapped one to one.
\<close>

definition no_alias :: "BDRVDisplaceState \<Rightarrow> u32 \<Rightarrow> u32 \<Rightarrow> bool" where
  "no_alias bas cur e \<longleftrightarrow> \<not> (cur = 0 \<and> 0 < offset bas \<and> offset bas < e)"

definition buf_at :: "u32 \<Rightarrow> u32 \<Rightarrow> u32 \<Rightarrow> u32" where
  "buf_at ptr cur k = ptr + DISK_SECTOR_SIZE * (k - cur)"

lemma word_less_step:
  assumes "(cur :: u32) < e"
  shows "cur + 1 \<le> k \<longleftrightarrow> cur < k" "unat e - unat cur = Suc (unat e - unat (cur + 1))"
proof -
  show "cur + 1 \<le> k \<longleftrightarrow> cur < k"
    using unat_Suc_less [OF assms] by (simp add: word_less_nat_alt word_le_nat_alt Suc_le_eq)
  show "unat e - unat cur = Suc (unat e - unat (cur + 1))"
    using unat_Suc_less [OF assms] assms by (simp add: word_less_nat_alt)
qed

lemma buf_at_step: "buf_at (ptr + DISK_SECTOR_SIZE) (cur + 1) k = buf_at ptr cur k"
  by (simp add: buf_at_def algebra_simps)

lemma phys_sector_apart:
  assumes "no_alias bas cur e" and "cur < k" and "k < e"
  shows "phys_sector bas k \<noteq> phys_sector bas cur"
proof -
  have "k \<noteq> 0" "cur \<noteq> k" using assms(2) by (auto simp: word_less_nat_alt)
  then show ?thesis using assms by (auto simp: phys_sector_def no_alias_def)
qed

lemma displace_write_loop_contents:
  assumes "displace_write_loop cur e ptr secs bas = Inr bas'" and "no_alias bas cur e"
  shows "\<forall>k. cur \<le> k \<and> k < e \<and> writable bas k \<longrightarrow>
    disk_ok (disp_disk bas) (phys_sector bas k) (buf_at ptr cur k)
    \<and> unat k - unat cur < length secs
    \<and> disp_medium bas' (phys_sector bas k) = secs ! (unat k - unat cur)"
  using assms
proof (induction cur e ptr secs bas rule: displace_write_loop.induct)
  case (1 cur e ptr secs bas)
  show ?case
  proof (cases "cur < e")
    case False
    then show ?thesis by auto
  next
    case True
    then obtain sec rest b1 where s: "secs = sec # rest" "displace_write1 cur ptr sec bas = Inr b1"
      "displace_write_loop (cur + 1) e (ptr + DISK_SECTOR_SIZE) rest b1 = Inr bas'"
      using 1(2) by (subst (asm) displace_write_loop.simps) (auto simp: rbind_Inr split: list.splits)
    note sm = displace_write1_same [OF s(2)]
    note up = word_less_step [OF True]
    have nz: "cur + 1 \<noteq> 0" using unat_Suc_less [OF True] by (metis nat.distinct(1) unat_0)
    have "no_alias b1 (cur + 1) e" using nz by (simp add: no_alias_def)
    note ih = 1(1) [OF True s(1) s(3) this, unfolded same_disk_simps [OF sm] buf_at_step]
    show ?thesis
    proof (intro allI impI)
      fix k assume k: "cur \<le> k \<and> k < e \<and> writable bas k"
      show "disk_ok (disp_disk bas) (phys_sector bas k) (buf_at ptr cur k)
        \<and> unat k - unat cur < length secs
        \<and> disp_medium bas' (phys_sector bas k) = secs ! (unat k - unat cur)"
      proof (cases "k = cur")
        case same: True
        have w: "disk_ok (disp_disk bas) (phys_sector bas cur) ptr"
          "disp_medium b1 (phys_sector bas cur) = sec"
          using s(2) k same unfolding displace_write1_Inr by auto
        have "disp_medium bas' (phys_sector bas cur) = disp_medium b1 (phys_sector bas cur)"
          using displace_write_loop_frame [OF s(3)] phys_sector_apart [OF 1(3)] up(1)
            same_disk_simps [OF sm] by metis
        then show ?thesis using w same s(1) by (simp add: buf_at_def)
      next
        case False
        then have "cur + 1 \<le> k" using k up(1) by (simp add: less_le)
        moreover have "unat k - unat cur = Suc (unat k - unat (cur + 1))"
          using False k word_less_step(2) [of cur k] by (simp add: less_le)
        ultimately show ?thesis using ih k s(1) by auto
      qed
    qed
  qed
qed






subsection \<open>The interface of a block device\<close>



subsection \<open>Properties\<close>

text \<open>
  C30. A guest cannot write the monitor's part of its disk: whatever range a guest
  writes through the displacing driver, the first sector of the medium, which
  holds the monitor's boot code, and all sectors behind the displaced one that
  the monitor occupies keep their contents.
\<close>

theorem displace_write_protects_monitor:
  assumes "displace_bdrv_write n buf secs cnt bas = Inr bas'"
    and "offset bas \<noteq> 0" and "unat (offset bas) + unat (length_s bas) < 2 ^ 32"
    and "s = 0 \<or> unat (offset bas) < unat s \<and> unat s \<le> unat (offset bas) + unat (length_s bas)"
  shows "disp_medium bas' s = disp_medium bas s"
proof -
  have sum: "unat (offset bas + length_s bas) = unat (offset bas) + unat (length_s bas)"
    using assms(3) by (simp add: unat_word_ariths)
  have "phys_sector bas k \<noteq> s" if "writable bas k" for k
  proof (cases "s = 0")
    case True
    then show ?thesis using assms(2) by (simp add: phys_sector_def)
  next
    case False
    then have s: "offset bas < s" "s \<le> offset bas + length_s bas"
      using assms(4) sum by (simp_all add: word_less_nat_alt word_le_nat_alt)
    then have "monitor_sector bas s"
      using word_less_step(1) [OF s(1)] by (simp add: monitor_sector_def)
    then show ?thesis using that s(1) False by (auto simp: phys_sector_def writable_def)
  qed
  then show ?thesis
    using displace_write_loop_frame [OF assms(1) [unfolded displace_bdrv_write_def]] by blast
qed

definition disk_example :: disk where
  "disk_example = \<lparr>dtype = DISK_ATA, capacity = 100, medium = (\<lambda>k. [ucast k]), io_ok = (\<lambda>_. True),
     dsize = 0\<rparr>"

definition bas_example :: BDRVDisplaceState where
  "bas_example = \<lparr>disp_disk = disk_example, offset = 10, length_s = 5\<rparr>"

lemmas bas_evals = displace_bdrv_write_def displace_write_loop.simps displace_write1_def
  disk_write1_def ata_disk_write_def select_sector_def bas_example_def disk_example_def

lemma bas_example_write:
  "\<exists>bas'. displace_bdrv_write 9 0 [[1], [2], [3]] 3 bas_example = Inr bas'"
  "\<exists>bas'. displace_bdrv_write 0 0 [[1], [2], [3]] 3 bas_example = Inr bas'"
  "\<exists>bas'. displace_bdrv_write 10 0 [[7]] 1 bas_example = Inr bas'"
  by (simp_all add: bas_evals)

theorem displace_write_protects_monitor_witness:
  "\<exists>bas'. displace_bdrv_write 9 0 [[1], [2], [3]] 3 bas_example = Inr bas'
     \<and> disp_medium bas' 11 = disp_medium bas_example 11"
proof -
  obtain bas' where w: "displace_bdrv_write 9 0 [[1], [2], [3]] 3 bas_example = Inr bas'"
    using bas_example_write(1) by blast
  have "disp_medium bas' 11 = disp_medium bas_example 11"
    by (rule displace_write_protects_monitor [OF w]) (simp_all add: bas_example_def)
  with w show ?thesis by blast
qed




text \<open>
  The sector that guest sector 0 is displaced to is not protected: a guest
  that writes the sector with that number overwrites its own sector 0.
\<close>

lemma displace_offset_aliases_sector_0:
  assumes "displace_bdrv_write (offset bas) buf [sec] 1 bas = Inr bas'"
    and "offset bas \<noteq> 0" and "unat (offset bas) + 1 < 2 ^ 32"
  shows "displace_bdrv_read bas' 0 buf 1 = Inr [sec]"
proof -
  let ?o = "offset bas"
  have u: "unat (?o + 1) = unat ?o + 1" using assms(3) by (simp add: unat_word_ariths)
  have w: "writable bas ?o" using u by (simp add: writable_def monitor_sector_def word_le_nat_alt)
  have na: "no_alias bas ?o (?o + of_nat 1)" using assms(2) by (simp add: no_alias_def)
  have lt: "?o < ?o + of_nat 1" using u by (simp add: word_less_nat_alt)
  note wl = assms(1) [unfolded displace_bdrv_write_def]
  have "disk_ok (disp_disk bas) ?o buf" "disp_medium bas' ?o = sec"
    using displace_write_loop_contents [OF wl na] w lt assms(2)
    by (auto simp: phys_sector_def buf_at_def)
  moreover have sm: "same_disk bas bas'" using displace_write_loop_frame [OF wl] by blast
  moreover have "offset bas' = ?o" using sm by (auto simp: same_disk_def)
  ultimately show ?thesis
    using disk_read1_Inr [of "disp_disk bas'" ?o buf sec] same_disk_simps(3) [OF sm]
    by (simp add: displace_bdrv_read_def displace_read_loop.simps [of _ 0]
        displace_read_loop.simps [of _ 1])
qed

text \<open>
  The size \<open>bdrv_open\<close> records for a device is not its size: the drivers report
  their length in sectors, as \<open>bdrv_get_geometry\<close> passes it on, but opening divides
  it by the sector size in bytes.
\<close>

lemma bdrv_open_total_sectors:
  assumes "bdrv_open bs True True (Some ds) = Inr (r, bs')"
  shows "\<exists>n bs''. bdrv_get_geometry bs' = Inr (n, bs'') \<and> total_sectors bs' = n div DISK_SECTOR_SIZE"
proof -
  have idem: "disk_size d = Inr (n, d') \<Longrightarrow> \<exists>d''. disk_size d' = Inr (n, d'')" for d n d'
    by (auto simp: disk_size_def split: disk_type.splits if_splits)
  obtain n ds' where g: "drv_getlength ds = Inr (n, ds')" "drv bs' = Some ds'"
    "total_sectors bs' = n div DISK_SECTOR_SIZE"
    using assms by (auto simp: bdrv_open_def rbind_Inr)
  have "\<exists>ds''. drv_getlength ds' = Inr (n, ds'')"
  proof (cases ds)
    case (Displace bas)
    then obtain d' where "disk_size (disp_disk bas) = Inr (n, d')" "ds' = Displace (bas\<lparr>disp_disk := d'\<rparr>)"
      using g(1) by (auto simp: drv_getlength_def displace_bdrv_getlength_def rbind_Inr)
    then show ?thesis
      using idem by (fastforce simp: drv_getlength_def displace_bdrv_getlength_def)
  next
    case (Append bas)
    then show ?thesis using g(1) by (auto simp: drv_getlength_def)
  qed
  then show ?thesis using g(2,3) by (auto simp: bdrv_get_geometry_def)
qed

end
