(* ===== verification/Arith.thy ===== *)
theory Arith
  imports Prelude
begin

text \<open>
  64-bit division on a 32-bit processor, \<^verbatim>\<open>lib/arithmetic.c\<close>. The \<open>DIVL\<close>
  instruction divides a 64-bit by a 32-bit number and traps when the quotient
  does not fit; the model returns \<open>DIVIDE_ERROR\<close> there. Signed numbers are words
  read with \<open>sint\<close>. The lemmas prove that the estimate of the quotient for large
  divisors is at most one too big and that the routines never trap for a nonzero
  divisor.
\<close>

definition divl :: "u64 \<Rightarrow> u32 \<Rightarrow> u32 res" where
  "divl n d =
     (if d = 0 \<or> unat n div unat d \<ge> 2 ^ 32 then Inl DIVIDE_ERROR
      else Inr (of_nat (unat n div unat d)))"

definition nlz_step :: "u32 \<Rightarrow> nat \<Rightarrow> nat \<times> u32 \<Rightarrow> nat \<times> u32" where
  "nlz_step limit k nx = (let (n, x) = nx in if x \<le> limit then (n + k, push_bit k x) else (n, x))"

definition nlz :: "u32 \<Rightarrow> nat" where
  "nlz x =
     (let nx = (0, x);
          nx = nlz_step 0x0000FFFF 16 nx;
          nx = nlz_step 0x00FFFFFF 8 nx;
          nx = nlz_step 0x0FFFFFFF 4 nx;
          nx = nlz_step 0x3FFFFFFF 2 nx;
          (n, x) = nx
      in if x \<le> 0x7FFFFFFF then n + 1 else n)"

definition udiv64 :: "u64 \<Rightarrow> u64 \<Rightarrow> u64 res" where
  "udiv64 n d =
     (if drop_bit 32 d = 0 then
        (let b = push_bit 32 1 :: u64;
             n1 = ucast (drop_bit 32 n) :: u32;
             n0 = ucast n :: u32;
             d0 = ucast d :: u32
         in if d0 = 0 then Inl DIVIDE_ERROR
            else rbind (divl (b * ucast (n1 mod d0) + ucast n0) d0)
                   (\<lambda>q. Inr (ucast q + b * ucast (n1 div d0))))
      else if n < d then Inr 0
      else
        (let d1 = ucast (drop_bit 32 d) :: u32;
             s = nlz d1
         in rbind (divl (drop_bit 1 n) (ucast (drop_bit 32 (push_bit s d))))
              (\<lambda>q0. let q = ucast (drop_bit (31 - s) q0) :: u64
                    in Inr (if n - (q - 1) * d < d then q - 1 else q))))"

definition umod64 :: "u64 \<Rightarrow> u64 \<Rightarrow> u32 res" where
  "umod64 n d = rbind (udiv64 n d) (\<lambda>q. Inr (ucast (n - d * q)))"

definition sdiv64 :: "u64 \<Rightarrow> u64 \<Rightarrow> u64 res" where
  "sdiv64 n d =
     (let n_abs = (if sint n \<ge> 0 then n else - n);
          d_abs = (if sint d \<ge> 0 then d else - d)
      in rbind (udiv64 n_abs d_abs)
           (\<lambda>q_abs. Inr (if (sint n < 0) = (sint d < 0) then q_abs else - q_abs)))"

definition smod64 :: "u64 \<Rightarrow> u64 \<Rightarrow> u32 res" where
  "smod64 n d = rbind (sdiv64 n d) (\<lambda>q. Inr (ucast (n - d * q)))"

text \<open>
  The routines the compiler calls; a 32-bit result is widened, with its sign for
  the signed one.
\<close>

definition divdi3 :: "u64 \<Rightarrow> u64 \<Rightarrow> u64 res" where
  "divdi3 n d = sdiv64 n d"

definition moddi3 :: "u64 \<Rightarrow> u64 \<Rightarrow> u64 res" where
  "moddi3 n d = rbind (smod64 n d) (\<lambda>r. Inr (scast r))"

definition udivdi3 :: "u64 \<Rightarrow> u64 \<Rightarrow> u64 res" where
  "udivdi3 n d = udiv64 n d"

definition umoddi3 :: "u64 \<Rightarrow> u64 \<Rightarrow> u64 res" where
  "umoddi3 n d = rbind (umod64 n d) (\<lambda>r. Inr (ucast r))"

subsection \<open>Leading zeros\<close>

lemma unat_push_bit:
  "unat (x :: 'a::len word) * 2 ^ k < 2 ^ LENGTH('a) \<Longrightarrow> unat (push_bit k x) = unat x * 2 ^ k"
  by (simp add: unsigned_push_bit_eq push_bit_eq_mult [where 'a = nat] take_bit_nat_eq_self)

lemma nlz_step_spec:
  assumes "nlz_step limit k (n, x) = (n', x')" and "unat limit = 2 ^ (32 - k) - 1" and "k \<le> 32"
    and "unat x = X * 2 ^ n" and "2 ^ a \<le> unat x" and "32 - k \<le> a + k"
  shows "unat x' = X * 2 ^ n' \<and> 2 ^ (32 - k) \<le> unat x'"
proof (cases "x \<le> limit")
  case True
  then have "unat x < 2 ^ (32 - k)" using assms(2) by (simp add: word_le_nat_alt) (metis Suc_pred le_imp_less_Suc zero_less_numeral zero_less_power)
  then have "unat x * 2 ^ k < 2 ^ (32 - k) * 2 ^ k" by simp
  also have "\<dots> = 2 ^ 32" using assms(3) by (simp flip: power_add)
  finally have u: "unat (push_bit k x) = unat x * 2 ^ k" using unat_push_bit [of x k] by simp
  have "2 ^ (32 - k) \<le> (2 :: nat) ^ (a + k)" using assms(6) by (intro power_increasing) simp_all
  also have "\<dots> \<le> unat x * 2 ^ k" using assms(5) by (simp add: power_add)
  finally show ?thesis using True u assms(1,4) by (auto simp: nlz_step_def power_add)
next
  case False
  then have "2 ^ (32 - k) \<le> unat x" using assms(2) by (simp add: word_le_nat_alt)
  then show ?thesis using False assms(1,4) by (auto simp: nlz_step_def)
qed

lemma nlz_spec:
  assumes "x \<noteq> 0"
  shows "2 ^ 31 \<le> unat x * 2 ^ nlz x" and "unat x * 2 ^ nlz x < 2 ^ 32"
proof -
  obtain n1 x1 where 1: "nlz_step 0x0000FFFF 16 (0, x) = (n1, x1)" by (cases "nlz_step 0x0000FFFF 16 (0, x)")
  obtain n2 x2 where 2: "nlz_step 0x00FFFFFF 8 (n1, x1) = (n2, x2)" by (cases "nlz_step 0x00FFFFFF 8 (n1, x1)")
  obtain n3 x3 where 3: "nlz_step 0x0FFFFFFF 4 (n2, x2) = (n3, x3)" by (cases "nlz_step 0x0FFFFFFF 4 (n2, x2)")
  obtain n4 x4 where 4: "nlz_step 0x3FFFFFFF 2 (n3, x3) = (n4, x4)" by (cases "nlz_step 0x3FFFFFFF 2 (n3, x3)")
  obtain n5 x5 where 5: "nlz_step 0x7FFFFFFF 1 (n4, x4) = (n5, x5)" by (cases "nlz_step 0x7FFFFFFF 1 (n4, x4)")
  have "2 ^ 0 \<le> unat x" using assms by (simp add: Suc_leI unat_gt_0)
  then have s1: "unat x1 = unat x * 2 ^ n1 \<and> 2 ^ 16 \<le> unat x1"
    using nlz_step_spec [OF 1, of "unat x" 0] by simp
  then have s2: "unat x2 = unat x * 2 ^ n2 \<and> 2 ^ 24 \<le> unat x2"
    using nlz_step_spec [OF 2, of "unat x" 16] by simp
  then have s3: "unat x3 = unat x * 2 ^ n3 \<and> 2 ^ 28 \<le> unat x3"
    using nlz_step_spec [OF 3, of "unat x" 24] by simp
  then have s4: "unat x4 = unat x * 2 ^ n4 \<and> 2 ^ 30 \<le> unat x4"
    using nlz_step_spec [OF 4, of "unat x" 28] by simp
  then have s5: "unat x5 = unat x * 2 ^ n5 \<and> 2 ^ 31 \<le> unat x5"
    using nlz_step_spec [OF 5, of "unat x" 30] by simp
  have "nlz x = n5" using 1 2 3 4 5 by (auto simp: nlz_def nlz_step_def [of _ "Suc 0"] Let_def split: if_splits)
  then show "2 ^ 31 \<le> unat x * 2 ^ nlz x" "unat x * 2 ^ nlz x < 2 ^ 32"
    using s5 unat_u32 [of x5] by simp_all
qed

lemma nlz_le_31: "x \<noteq> 0 \<Longrightarrow> nlz x \<le> 31"
proof (rule ccontr)
  assume x: "x \<noteq> 0" and "\<not> nlz x \<le> 31"
  then have "(2 :: nat) ^ 32 \<le> 2 ^ nlz x" by (intro power_increasing) simp_all
  also have "\<dots> \<le> unat x * 2 ^ nlz x" using x by (simp add: Suc_leI unat_gt_0)
  finally show False using nlz_spec(2) [OF x] by simp
qed

subsection \<open>The quotient estimate\<close>

text \<open>
  For a divisor of more than 32 bits the routine divides by its leading 32 bits
  only. The divisor it uses in effect, \<open>E\<close>, is the divisor with its low bits
  cleared.
\<close>

lemma estimate_divisor:
  fixes D s :: nat
  assumes "s \<le> 31"
  defines "v \<equiv> D * 2 ^ s div 2 ^ 32"
  shows "N div 2 div v div 2 ^ (31 - s) = N div (D - D mod 2 ^ (32 - s))"
proof -
  have p: "(2 :: nat) ^ 32 = 2 ^ (32 - s) * 2 ^ s" using assms(1) by (simp flip: power_add)
  have v: "v = D div 2 ^ (32 - s)" unfolding v_def p by simp
  have "32 - s = Suc (31 - s)" using assms(1) by simp
  then have "2 * v * 2 ^ (31 - s) = v * 2 ^ (32 - s)" by simp
  also have "\<dots> = D - D mod 2 ^ (32 - s)" unfolding v by (simp add: minus_mod_eq_div_mult)
  finally show ?thesis by (simp add: div_mult2_eq [symmetric] mult.assoc)
qed

lemma estimate_bounds:
  fixes N D s :: nat
  assumes N: "N < 2 ^ 64" and D: "2 ^ 63 \<le> D * 2 ^ s" and s: "s \<le> 31"
  defines "E \<equiv> D - D mod 2 ^ (32 - s)"
  shows "N div D \<le> N div E" and "N div E \<le> N div D + 1"
proof -
  let ?l = "2 ^ (32 - s) :: nat"
  have "(2 :: nat) ^ (63 - s) * 2 ^ s = 2 ^ 63" using s by (simp flip: power_add)
  then have "2 ^ (63 - s) * 2 ^ s \<le> D * 2 ^ s" using D by (simp only:)
  then have D63: "2 ^ (63 - s) \<le> D" by (rule mult_right_le_imp_le) simp
  have dv: "?l dvd 2 ^ (63 - s)" using s by (intro le_imp_power_dvd) simp
  have Eeq: "E = D div ?l * ?l" by (simp add: E_def minus_mod_eq_div_mult)
  have "2 ^ (63 - s) = 2 ^ (63 - s) div ?l * ?l" using dv by simp
  also have "\<dots> \<le> E" unfolding Eeq using D63 by (intro mult_le_mono1 div_le_mono)
  finally have E63: "2 ^ (63 - s) \<le> E" .
  then have Epos: "0 < E" by (meson less_le_trans zero_less_numeral zero_less_power)
  have ED: "E \<le> D" by (simp add: E_def)
  then show "N div D \<le> N div E" using Epos by (rule div_le_mono2 [rotated])
  define q where "q = N div E"
  have qE: "q * E \<le> N" by (simp add: q_def)
  have "q * 2 ^ (63 - s) \<le> q * E" using E63 by simp
  also have "\<dots> < 2 ^ 64" using qE N by simp
  also have "(2 :: nat) ^ 64 = 2 ^ (s + 1) * 2 ^ (63 - s)" using s by (simp flip: power_add)
  finally have q: "q < 2 ^ (s + 1)" by simp
  have "D mod ?l < ?l" by simp
  then have DE: "D - E \<le> ?l - 1" unfolding E_def by linarith
  have qD: "q * (D - E) \<le> D"
  proof (cases "s = 31")
    case True
    then have "D - E \<le> 1" using DE by simp
    then have "q * (D - E) \<le> q" by (simp add: mult_le_cancel1 [of q _ 1, simplified])
    also have "\<dots> \<le> 2 ^ 32" using q True by simp
    also have "\<dots> \<le> D" using D63 True by simp
    finally show ?thesis .
  next
    case False
    have "q * (D - E) \<le> 2 ^ (s + 1) * ?l" using q DE by (intro mult_le_mono) simp_all
    also have "\<dots> = 2 ^ 33" using s by (simp flip: power_add)
    also have "\<dots> \<le> 2 ^ (63 - s)" using False s by (intro power_increasing) simp_all
    finally show ?thesis using D63 by simp
  qed
  have "q * D = q * E + q * (D - E)" using ED by (simp flip: distrib_left)
  then have "q * D \<le> N + D" using qE qD by simp
  then have "(q - 1) * D \<le> N" by (simp add: diff_mult_distrib)
  then have "q - 1 \<le> N div D"
    using Epos ED by (metis less_le_trans div_le_mono nonzero_mult_div_cancel_right not_less_zero)
  then show "N div E \<le> N div D + 1" by (simp add: q_def)
qed

subsection \<open>Unsigned division\<close>

lemma unat_ucast_up: "unat (ucast (x :: u32) :: u64) = unat x"
  by (simp add: unsigned_ucast_eq unsigned_take_bit_eq take_bit_nat_eq_self unat_u32 [THEN less_trans])

lemma unat_ucast_down: "unat (ucast (x :: u64) :: u32) = unat x mod 2 ^ 32"
  by (simp add: unsigned_ucast_eq unsigned_take_bit_eq take_bit_eq_mod [where 'a = nat])

lemma unat_drop_bit_div: "unat (drop_bit k (x :: 'a::len word)) = unat x div 2 ^ k"
  by (simp add: unat_drop_bit_eq drop_bit_eq_div [where 'a = nat])

lemma unat_high_half: "unat (drop_bit 32 (x :: u64)) < 2 ^ 32"
  using unat_u64 [of x] by (simp add: unat_drop_bit_div)

lemma divl_ok:
  assumes "unat d \<noteq> 0" and "unat n div unat d < 2 ^ 32"
  obtains q where "divl n d = Inr q" "unat q = unat n div unat d"
  using assms by (intro that [of "of_nat (unat n div unat d)"]) (auto simp: divl_def unat_of_nat)

lemma split_division:
  fixes n1 n0 D b :: nat
  assumes "0 < D" and "n0 < b"
  shows "(b * (n1 mod D) + n0) div D < b"
    and "(b * (n1 mod D) + n0) div D + b * (n1 div D) = (b * n1 + n0) div D"
proof -
  have "n1 mod D + 1 \<le> D" using assms(1) by (simp add: Suc_leI)
  then have "b * (n1 mod D) + b \<le> b * D" by (metis mult.right_neutral distrib_left mult_le_mono2)
  then have "b * (n1 mod D) + n0 < b * D" using assms(2) by simp
  then show "(b * (n1 mod D) + n0) div D < b" by (simp add: less_mult_imp_div_less)
  have eq: "b * n1 + n0 = (b * (n1 mod D) + n0) + b * (n1 div D) * D"
    by (metis (no_types, lifting) add.assoc add.commute distrib_left mod_mult_div_eq mult.assoc mult.commute)
  show "(b * (n1 mod D) + n0) div D + b * (n1 div D) = (b * n1 + n0) div D"
    unfolding eq using assms(1) by (subst div_mult_self1) simp_all
qed

lemma udiv64_small:
  assumes "drop_bit 32 d = 0" and "d \<noteq> 0"
  shows "udiv64 n d = Inr (n div d)"
proof -
  define n1 n0 d0 where "n1 = (ucast (drop_bit 32 n) :: u32)" and "n0 = (ucast n :: u32)"
    and "d0 = (ucast d :: u32)"
  have Dlt: "unat d < 2 ^ 32"
    using assms(1) unat_drop_bit_div [of 32 d] by (simp add: div_eq_0_iff)
  then have u: "unat d0 = unat d" "unat n1 = unat n div 2 ^ 32" "unat n0 = unat n mod 2 ^ 32"
    using unat_high_half [of n] by (simp_all add: d0_def n1_def n0_def unat_ucast_down unat_drop_bit_div)
  have Dpos: "0 < unat d" using assms(2) by (simp add: unat_gt_0)
  define b where "b = (push_bit 32 1 :: u64)"
  have b: "unat b = 2 ^ 32" by (simp add: b_def unsigned_push_bit_eq)
  have m: "unat (n1 mod d0) < unat d" using u(1) Dpos by (simp add: unat_mod)
  have mb: "2 ^ 32 * unat (n1 mod d0) + unat n0 < 2 ^ 64"
    using m Dlt unat_u32 [of n0] by simp
  then have um: "unat (b * ucast (n1 mod d0)) = 2 ^ 32 * unat (n1 mod d0)"
    by (simp add: unat_word_ariths b unat_ucast_up)
  have arg: "unat (b * ucast (n1 mod d0) + ucast n0) = 2 ^ 32 * unat (n1 mod d0) + unat n0"
    using mb by (simp only: unat_word_ariths(1) um unat_ucast_up) simp
  note sd = split_division [of "unat d" "unat n0" "2 ^ 32" "unat n1"]
  have mod: "unat (n1 mod d0) = unat n1 mod unat d" using u(1) by (simp add: unat_mod)
  obtain q where q: "divl (b * ucast (n1 mod d0) + ucast n0) d0 = Inr q"
    "unat q = (2 ^ 32 * (unat n1 mod unat d) + unat n0) div unat d"
  proof (rule divl_ok)
    show "unat d0 \<noteq> 0" using u(1) Dpos by simp
    show "unat (b * ucast (n1 mod d0) + ucast n0) div unat d0 < 2 ^ 32"
      unfolding arg mod u(1) using sd(1) Dpos unat_u32 [of n0] by simp
  qed (simp add: arg mod u(1))
  have nn: "2 ^ 32 * unat n1 + unat n0 = unat n" using u by simp
  have tot: "unat q + 2 ^ 32 * (unat n1 div unat d) = unat n div unat d"
    using sd(2) q(2) Dpos unat_u32 [of n0] nn by simp
  moreover have lt: "unat n div unat d < 2 ^ 64"
    by (rule le_less_trans [OF div_le_dividend]) (use unat_u64 [of n] in simp)
  moreover have "unat (n1 div d0) = unat n1 div unat d" using u(1) by (simp add: unat_div)
  ultimately have "unat (b * ucast (n1 div d0)) = 2 ^ 32 * (unat n1 div unat d)"
    by (simp add: unat_word_ariths b unat_ucast_up)
  then have "unat (ucast q + b * ucast (n1 div d0)) = unat n div unat d"
    using tot lt by (simp only: unat_word_ariths(1) unat_ucast_up) simp
  then have "ucast q + b * ucast (n1 div d0) = n div d"
    by (simp add: word_unat_eq_iff unat_div)
  moreover have "d0 \<noteq> 0" using u(1) Dpos by auto
  ultimately show ?thesis
    using assms(1) q(1)
    unfolding udiv64_def Let_def n1_def [symmetric] n0_def [symmetric] d0_def [symmetric] b_def [symmetric]
    by simp
qed

lemma estimate_no_trap:
  fixes N D s :: nat
  assumes "N < 2 ^ 64" and "2 ^ 63 \<le> D * 2 ^ s"
  shows "N div 2 div (D * 2 ^ s div 2 ^ 32) < 2 ^ 32"
proof -
  have "2 ^ 63 div 2 ^ 32 \<le> D * 2 ^ s div 2 ^ 32" by (rule div_le_mono [OF assms(2)])
  then have v: "2 ^ 31 \<le> D * 2 ^ s div 2 ^ 32" by simp
  have "N div 2 div (D * 2 ^ s div 2 ^ 32) \<le> N div 2 div 2 ^ 31"
    by (rule div_le_mono2 [OF _ v]) simp
  also have "\<dots> < 2 ^ 32" using assms(1) by (simp add: div_less_iff_less_mult)
  finally show ?thesis .
qed

lemma correction_step:
  fixes n d q :: u64
  assumes "unat n div unat d \<le> unat q" and "unat q \<le> unat n div unat d + 1" and "unat d \<le> unat n"
    and "0 < unat d"
  shows "(if n - (q - 1) * d < d then q - 1 else q) = n div d"
proof -
  have one: "1 \<le> unat n div unat d" using assms(3,4) by (simp add: Suc_leI div_greater_zero_iff)
  then have q1: "unat (q - 1) = unat q - 1"
    using assms(1) by (simp add: unat_sub word_le_nat_alt)
  have le: "(unat q - 1) * unat d \<le> unat n"
    using assms(2) by (metis diff_le_mono diff_add_inverse2 div_times_less_eq_dividend le_trans mult_le_mono1)
  then have "unat ((q - 1) * d) = (unat q - 1) * unat d"
    using unat_u64 [of n] by (simp add: unat_word_ariths q1)
  then have diff: "unat (n - (q - 1) * d) = unat n - (unat q - 1) * unat d"
    using le by (simp add: unat_sub word_le_nat_alt)
  define Q where "Q = unat n div unat d"
  have QN: "Q * unat d \<le> unat n" "unat n < (Q + 1) * unat d"
    using assms(4) by (simp_all add: Q_def div_times_less_eq_dividend dividend_less_div_times)
  have "unat q = Q \<or> unat q = Q + 1" using assms(1,2) by (auto simp: Q_def)
  then have "(unat n - (unat q - 1) * unat d < unat d) = (unat q = Q + 1)"
  proof
    assume "unat q = Q"
    moreover have "(Q - 1) * unat d + unat d = Q * unat d"
      using one by (simp add: Q_def diff_mult_distrib)
    ultimately show ?thesis using QN(1) by simp
  next
    assume "unat q = Q + 1"
    then show ?thesis using QN by simp
  qed
  then have "unat (if n - (q - 1) * d < d then q - 1 else q) = Q"
    using diff q1 \<open>unat q = Q \<or> unat q = Q + 1\<close> by (auto simp: word_less_nat_alt)
  then show ?thesis by (simp add: word_unat_eq_iff unat_div Q_def)
qed

lemma udiv64_large:
  assumes "drop_bit 32 d \<noteq> 0" and "\<not> n < d"
  shows "udiv64 n d = Inr (n div d)"
proof -
  define d1 where "d1 = (ucast (drop_bit 32 d) :: u32)"
  define s where "s = nlz d1"
  have ud1: "unat d1 = unat d div 2 ^ 32"
    using unat_high_half [of d] by (simp add: d1_def unat_ucast_down unat_drop_bit_div)
  have nz: "d1 \<noteq> 0" using assms(1) ud1 by (auto simp: word_unat_eq_iff unat_drop_bit_div)
  have s31: "s \<le> 31" using nlz_le_31 [OF nz] by (simp add: s_def)
  have lo: "2 ^ 31 \<le> unat d1 * 2 ^ s" and hi: "unat d1 * 2 ^ s < 2 ^ 32"
    using nlz_spec [OF nz] by (simp_all add: s_def)
  have dsplit: "unat d = unat d1 * 2 ^ 32 + unat d mod 2 ^ 32" by (simp add: ud1)
  have "2 ^ 31 * 2 ^ 32 \<le> unat d1 * 2 ^ s * 2 ^ 32" using lo by simp
  also have "\<dots> \<le> unat d * 2 ^ s" using dsplit by (simp add: ud1 mult.assoc mult.commute [of "2 ^ s"])
  finally have D63: "2 ^ 63 \<le> unat d * 2 ^ s" by simp
  have "unat d < (unat d1 + 1) * 2 ^ 32" using dsplit by simp
  then have "unat d * 2 ^ s < (unat d1 + 1) * 2 ^ 32 * 2 ^ s" by simp
  also have "\<dots> = (unat d1 * 2 ^ s + 2 ^ s) * 2 ^ 32" by (simp add: algebra_simps)
  also have "\<dots> \<le> 2 ^ 32 * 2 ^ 32"
  proof -
    have "2 ^ (32 - s) * 2 ^ s = (2 :: nat) ^ 32" using s31 by (simp flip: power_add)
    then have "unat d1 < 2 ^ (32 - s)" using hi by (metis mult_less_cancel2)
    then have "(unat d1 + 1) * 2 ^ s \<le> 2 ^ (32 - s) * 2 ^ s" by (intro mult_le_mono1) simp
    then show ?thesis using s31 by (simp add: algebra_simps flip: power_add)
  qed
  finally have D64: "unat d * 2 ^ s < 2 ^ 64" by simp
  define v where "v = (ucast (drop_bit 32 (push_bit s d)) :: u32)"
  have uv: "unat v = unat d * 2 ^ s div 2 ^ 32"
    using unat_push_bit [of d s] D64 unat_high_half [of "push_bit s d"]
    by (simp add: v_def unat_ucast_down unat_drop_bit_div)
  have N: "unat n < 2 ^ 64" using unat_u64 [of n] by simp
  have trap: "unat n div 2 div unat v < 2 ^ 32" unfolding uv by (rule estimate_no_trap [OF N D63])
  have "unat v \<noteq> 0" using D63 unfolding uv by (simp add: div_eq_0_iff)
  then obtain q0 where q0: "divl (drop_bit 1 n) v = Inr q0" "unat q0 = unat n div 2 div unat v"
    using divl_ok [of v "drop_bit 1 n"] trap by (auto simp: unat_drop_bit_div)
  define q where "q = (ucast (drop_bit (31 - s) q0) :: u64)"
  have "unat q = unat n div 2 div unat v div 2 ^ (31 - s)"
    by (simp add: q_def unat_ucast_up unat_drop_bit_div q0(2))
  then have uq: "unat q = unat n div (unat d - unat d mod 2 ^ (32 - s))"
    unfolding uv estimate_divisor [OF s31] .
  have le: "unat d \<le> unat n" using assms(2) by (simp add: word_less_nat_alt)
  have pos: "0 < unat d" using nz ud1 by (metis div_0 gr0I unat_eq_zero)
  have "(if n - (q - 1) * d < d then q - 1 else q) = n div d"
    by (rule correction_step) (use estimate_bounds [OF N D63 s31] uq le pos in simp_all)
  moreover have "udiv64 n d = Inr (if n - (q - 1) * d < d then q - 1 else q)"
    using assms q0(1)
    unfolding udiv64_def Let_def d1_def [symmetric] s_def [symmetric] v_def [symmetric] q_def
    by simp
  ultimately show ?thesis by simp
qed

lemma udiv64_value: "d \<noteq> 0 \<Longrightarrow> udiv64 n d = Inr (n div d)"
proof -
  assume d: "d \<noteq> 0"
  show ?thesis
  proof (cases "drop_bit 32 d \<noteq> 0 \<and> n < d")
    case True
    then have "n div d = 0" by (simp add: word_unat_eq_iff unat_div word_less_nat_alt)
    then show ?thesis using True by (simp add: udiv64_def)
  next
    case False
    then show ?thesis using udiv64_small udiv64_large d by blast
  qed
qed

subsection \<open>Signed division\<close>

lemma uint_abs: "uint (if sint n \<ge> 0 then n else - n) = \<bar>sint (n :: u64)\<bar>"
proof -
  have lo: "- (2 ^ 63) \<le> sint n" and hi: "sint n < 2 ^ 63"
    using sint_ge [of n] sint_lt [of n] by simp_all
  have "uint (word_of_int k :: u64) = k" if "0 \<le> k" "k < 2 ^ 64" for k
    using that by (simp add: uint_word_of_int)
  from this [of "\<bar>sint n\<bar>"] have "uint (word_of_int \<bar>sint n\<bar> :: u64) = \<bar>sint n\<bar>"
    using lo hi by simp
  moreover have "(if sint n \<ge> 0 then n else - n) = word_of_int \<bar>sint n\<bar>"
    by (simp add: abs_if wi_hom_neg [symmetric])
  ultimately show ?thesis by simp
qed

lemma sdiv64_value:
  assumes "d \<noteq> 0"
  shows "sdiv64 n d = Inr (word_of_int (sgn (sint n) * sgn (sint d) * (\<bar>sint n\<bar> div \<bar>sint d\<bar>)))"
proof -
  define na da where "na = (if sint n \<ge> 0 then n else - n)" and "da = (if sint d \<ge> 0 then d else - d)"
  have una: "uint na = \<bar>sint n\<bar>" and uda: "uint da = \<bar>sint d\<bar>"
    unfolding na_def da_def by (rule uint_abs)+
  have sd: "sint d \<noteq> 0" using assms by (metis of_int_0 of_int_sint scast_id)
  have "da \<noteq> 0" using uda sd by auto
  then have q: "udiv64 na da = Inr (na div da)" by (rule udiv64_value)
  have "uint (na div da) = \<bar>sint n\<bar> div \<bar>sint d\<bar>"
    unfolding uint_div una uda ..
  then have qa: "na div da = word_of_int (\<bar>sint n\<bar> div \<bar>sint d\<bar>)"
    by (metis word_of_int_uint)
  have "(if (sint n < 0) = (sint d < 0) then x else - x) = word_of_int (sgn (sint n) * sgn (sint d) * k)"
    if "x = word_of_int k" "sint n = 0 \<Longrightarrow> k = 0" for x :: u64 and k
    using that sd by (cases "sint n" "0 :: int" rule: linorder_cases; cases "sint d" "0 :: int" rule: linorder_cases)
      (simp_all add: wi_hom_neg [symmetric])
  from this [OF qa] show ?thesis
    using q unfolding sdiv64_def Let_def na_def [symmetric] da_def [symmetric] by simp
qed

subsection \<open>Properties\<close>

text \<open>
  C36. Unsigned 64-bit division is exact and never traps for a nonzero divisor,
  both when the divisor fits in 32 bits and when the quotient is estimated from
  its leading bits and corrected.
\<close>

theorem udiv64_correct:
  assumes "d \<noteq> 0"
  shows "udivdi3 n d = Inr (n div d)"
  using udiv64_value [OF assms] by (simp add: udivdi3_def)

theorem udiv64_correct_witness:
  "udivdi3 0xfedcba9876543210 0x123456789 = Inr (0xfedcba9876543210 div 0x123456789)"
  by (rule udiv64_correct) simp

text \<open>
  Signed 64-bit division truncates toward zero: the quotient is the quotient
  of the absolute values with the sign of the operands, wrapped to 64 bits.
\<close>

lemma sdiv64_correct:
  assumes "d \<noteq> 0"
  shows "divdi3 n d = Inr (word_of_int (sgn (sint n) * sgn (sint d) * (\<bar>sint n\<bar> div \<bar>sint d\<bar>)))"
  using sdiv64_value [OF assms] by (simp add: divdi3_def)

text \<open>
  The 64-bit remainder routine returns only the low 32 bits of the remainder,
  because the function it calls is declared to return a 32-bit number: it is
  right exactly when the remainder is below \<open>2 ^ 32\<close>.
\<close>

lemma umoddi3_truncates:
  assumes "d \<noteq> 0"
  shows "umoddi3 n d = Inr (of_nat (unat (n mod d) mod 2 ^ 32))
    \<and> (umoddi3 n d = Inr (n mod d) \<longleftrightarrow> unat (n mod d) < 2 ^ 32)"
proof -
  have "n - d * (n div d) = n mod d"
    by (simp add: minus_mult_div_eq_mod)
  then have eq: "umoddi3 n d = Inr (ucast (ucast (n mod d) :: u32))"
    using udiv64_value [OF assms] by (simp add: umoddi3_def umod64_def)
  have u: "unat (ucast (ucast (n mod d) :: u32) :: u64) = unat (n mod d) mod 2 ^ 32"
    by (simp only: unat_ucast_up unat_ucast_down)
  then have "ucast (ucast (n mod d) :: u32) = (of_nat (unat (n mod d) mod 2 ^ 32) :: u64)"
    by (simp only: word_unat_eq_iff) (simp add: unat_of_nat)
  moreover have "ucast (ucast (n mod d) :: u32) = n mod d \<longleftrightarrow> unat (n mod d) < 2 ^ 32"
    using u by (simp add: word_unat_eq_iff) (metis mod_less mod_less_divisor zero_less_numeral)
  ultimately show ?thesis using eq by simp
qed

end
