(* ===== verification/Cstring.thy ===== *)
theory Cstring
  imports Prelude
begin

text \<open>
  \<^verbatim>\<open>lib/string.c\<close>: the block and string routines.  Memory is a list of bytes, a
  pointer is an index into it, and index 0 is the null pointer; every load and
  store is checked, so a routine that runs off the memory stops with
  \<^const>\<open>OUT_OF_BOUNDS\<close>.  All arguments of one call live in the same memory, so
  overlapping blocks and shared strings are covered.  The specifications are stated
  over \<open>cstr m p\<close>, the bytes from \<open>p\<close> up to the first null byte.
\<close>

subsection \<open>Memory\<close>

type_synonym cmem = "u8 list"

definition ld8 :: "cmem \<Rightarrow> nat \<Rightarrow> u8 res" where
  "ld8 m p = (if 0 < p \<and> p < length m then Inr (m ! p) else Inl OUT_OF_BOUNDS)"

definition st8 :: "cmem \<Rightarrow> nat \<Rightarrow> u8 \<Rightarrow> cmem res" where
  "st8 m p v = (if 0 < p \<and> p < length m then Inr (m[p := v]) else Inl OUT_OF_BOUNDS)"

text \<open>A \<open>char\<close> passed as an \<open>int\<close> is sign-extended; the callee truncates it back.\<close>

definition char_to_int :: "u8 \<Rightarrow> int" where
  "char_to_int c = sint c"

definition int_to_char :: "int \<Rightarrow> u8" where
  "int_to_char i = word_of_int i"

subsection \<open>Blocks\<close>

primrec copy_up :: "nat \<Rightarrow> cmem \<Rightarrow> nat \<Rightarrow> nat \<Rightarrow> (cmem \<times> nat) res" where
  "copy_up 0 m dst src = Inr (m, dst)"
| "copy_up (Suc n) m dst src =
     rbind (ld8 m src) (\<lambda>c. rbind (st8 m dst c) (\<lambda>m. copy_up n m (Suc dst) (Suc src)))"

primrec copy_down :: "nat \<Rightarrow> cmem \<Rightarrow> nat \<Rightarrow> nat \<Rightarrow> (cmem \<times> nat) res" where
  "copy_down 0 m dst src = Inr (m, dst)"
| "copy_down (Suc n) m dst src =
     rbind (ld8 m (src - 1)) (\<lambda>c. rbind (st8 m (dst - 1) c) (\<lambda>m. copy_down n m (dst - 1) (src - 1)))"

definition memcpy :: "cmem \<Rightarrow> nat \<Rightarrow> nat \<Rightarrow> nat \<Rightarrow> (cmem \<times> nat) res" where
  "memcpy m dst src n = rbind (copy_up n m dst src) (\<lambda>(m, _). Inr (m, dst))"

definition memmove :: "cmem \<Rightarrow> nat \<Rightarrow> nat \<Rightarrow> nat \<Rightarrow> (cmem \<times> nat) res" where
  "memmove m dst src n =
     assert_then (dst \<noteq> 0 \<or> n = 0) (assert_then (src \<noteq> 0 \<or> n = 0)
       (if dst < src then copy_up n m dst src else copy_down n m (dst + n) (src + n)))"

primrec memcmp :: "cmem \<Rightarrow> nat \<Rightarrow> nat \<Rightarrow> nat \<Rightarrow> int res" where
  "memcmp m a b 0 = Inr 0"
| "memcmp m a b (Suc n) =
     rbind (ld8 m a) (\<lambda>x. rbind (ld8 m b) (\<lambda>y.
       if x \<noteq> y then Inr (if x > y then 1 else -1) else memcmp m (Suc a) (Suc b) n))"

primrec memchr_loop :: "cmem \<Rightarrow> nat \<Rightarrow> u8 \<Rightarrow> nat \<Rightarrow> nat res" where
  "memchr_loop m block ch 0 = Inr 0"
| "memchr_loop m block ch (Suc n) =
     rbind (ld8 m block) (\<lambda>x. if x = ch then Inr block else memchr_loop m (Suc block) ch n)"

definition memchr :: "cmem \<Rightarrow> nat \<Rightarrow> int \<Rightarrow> nat \<Rightarrow> nat res" where
  "memchr m block ch n =
     assert_then (block \<noteq> 0 \<or> n = 0) (memchr_loop m block (int_to_char ch) n)"

primrec memset_loop :: "nat \<Rightarrow> cmem \<Rightarrow> nat \<Rightarrow> u8 \<Rightarrow> cmem res" where
  "memset_loop 0 m dst v = Inr m"
| "memset_loop (Suc n) m dst v = rbind (st8 m dst v) (\<lambda>m. memset_loop n m (Suc dst) v)"

definition memset :: "cmem \<Rightarrow> nat \<Rightarrow> int \<Rightarrow> nat \<Rightarrow> (cmem \<times> nat) res" where
  "memset m dst v n =
     assert_then (dst \<noteq> 0 \<or> n = 0)
       (rbind (memset_loop n m dst (int_to_char v)) (\<lambda>m. Inr (m, dst)))"

subsection \<open>Strings\<close>

lemma ld8_Inr [res_simps]: "ld8 m p = Inr c \<longleftrightarrow> 0 < p \<and> p < length m \<and> c = m ! p"
  by (auto simp: ld8_def)

lemma st8_Inr [res_simps]: "st8 m p v = Inr m' \<longleftrightarrow> 0 < p \<and> p < length m \<and> m' = m[p := v]"
  by (auto simp: st8_def)

lemmas [fundef_cong] = rbind_cong

function strlen_loop :: "cmem \<Rightarrow> nat \<Rightarrow> nat res" where
  "strlen_loop m p = rbind (ld8 m p) (\<lambda>c. if c \<noteq> 0 then strlen_loop m (Suc p) else Inr p)"
  by pat_completeness auto
termination
  by (relation "measure (\<lambda>(m, p). length m - p)") (auto simp: res_simps)

definition strlen :: "cmem \<Rightarrow> nat \<Rightarrow> nat res" where
  "strlen m s = assert_then (s \<noteq> 0) (rbind (strlen_loop m s) (\<lambda>p. Inr (p - s)))"

function strnlen_loop :: "cmem \<Rightarrow> nat \<Rightarrow> nat \<Rightarrow> nat \<Rightarrow> nat res" where
  "strnlen_loop m s maxlen len =
     rbind (ld8 m (s + len)) (\<lambda>c.
       if c \<noteq> 0 \<and> len < maxlen then strnlen_loop m s maxlen (Suc len) else Inr len)"
  by pat_completeness auto
termination
  by (relation "measure (\<lambda>(m, s, maxlen, len). maxlen - len)") auto

definition strnlen :: "cmem \<Rightarrow> nat \<Rightarrow> nat \<Rightarrow> nat res" where
  "strnlen m s maxlen = strnlen_loop m s maxlen 0"

text \<open>Every round reads both bytes: the second by the condition or by the \<open>return\<close>.\<close>

function strcmp_loop :: "cmem \<Rightarrow> nat \<Rightarrow> nat \<Rightarrow> int res" where
  "strcmp_loop m a b =
     rbind (ld8 m a) (\<lambda>x. rbind (ld8 m b) (\<lambda>y.
       if x \<noteq> 0 \<and> x = y then strcmp_loop m (Suc a) (Suc b)
       else Inr (if x < y then -1 else if x > y then 1 else 0)))"
  by pat_completeness auto
termination
  by (relation "measure (\<lambda>(m, a, b). length m - a)") (auto simp: res_simps)

definition strcmp :: "cmem \<Rightarrow> nat \<Rightarrow> nat \<Rightarrow> int res" where
  "strcmp m a b = assert_then (a \<noteq> 0) (assert_then (b \<noteq> 0) (strcmp_loop m a b))"

function strncmp_loop :: "cmem \<Rightarrow> nat \<Rightarrow> nat \<Rightarrow> nat \<Rightarrow> nat \<Rightarrow> int res" where
  "strncmp_loop m a b n i =
     rbind (ld8 m a) (\<lambda>x. rbind (ld8 m b) (\<lambda>y.
       if x \<noteq> 0 \<and> x = y \<and> i < n - 1 then strncmp_loop m (Suc a) (Suc b) n (Suc i)
       else Inr (if x < y then -1 else if x > y then 1 else 0)))"
  by pat_completeness auto
termination
  by (relation "measure (\<lambda>(m, a, b, n, i). length m - a)") (auto simp: res_simps)

definition strncmp :: "cmem \<Rightarrow> nat \<Rightarrow> nat \<Rightarrow> nat \<Rightarrow> int res" where
  "strncmp m a b n =
     assert_then (a \<noteq> 0) (assert_then (b \<noteq> 0) (assert_then (n > 0) (strncmp_loop m a b n 0)))"

function strchr_loop :: "cmem \<Rightarrow> nat \<Rightarrow> u8 \<Rightarrow> nat res" where
  "strchr_loop m s c =
     rbind (ld8 m s) (\<lambda>x.
       if x = c then Inr s else if x = 0 then Inr 0 else strchr_loop m (Suc s) c)"
  by pat_completeness auto
termination
  by (relation "measure (\<lambda>(m, s, c). length m - s)") (auto simp: res_simps)

definition strchr :: "cmem \<Rightarrow> nat \<Rightarrow> int \<Rightarrow> nat res" where
  "strchr m s c = assert_then (s \<noteq> 0) (strchr_loop m s (int_to_char c))"

function strcspn_loop :: "cmem \<Rightarrow> nat \<Rightarrow> nat \<Rightarrow> nat \<Rightarrow> nat res" where
  "strcspn_loop m s stop len =
     rbind (ld8 m (s + len)) (\<lambda>c.
       if c = 0 then Inr len
       else rbind (strchr m stop (char_to_int c)) (\<lambda>q.
         if q \<noteq> 0 then Inr len else strcspn_loop m s stop (Suc len)))"
  by pat_completeness auto
termination
  by (relation "measure (\<lambda>(m, s, stop, len). length m - (s + len))") (auto simp: res_simps)

definition strcspn :: "cmem \<Rightarrow> nat \<Rightarrow> nat \<Rightarrow> nat res" where
  "strcspn m s stop = strcspn_loop m s stop 0"

function strspn_loop :: "cmem \<Rightarrow> nat \<Rightarrow> nat \<Rightarrow> nat \<Rightarrow> nat res" where
  "strspn_loop m s skip len =
     rbind (ld8 m (s + len)) (\<lambda>c.
       if c = 0 then Inr len
       else rbind (strchr m skip (char_to_int c)) (\<lambda>q.
         if q = 0 then Inr len else strspn_loop m s skip (Suc len)))"
  by pat_completeness auto
termination
  by (relation "measure (\<lambda>(m, s, skip, len). length m - (s + len))") (auto simp: res_simps)

definition strspn :: "cmem \<Rightarrow> nat \<Rightarrow> nat \<Rightarrow> nat res" where
  "strspn m s skip = strspn_loop m s skip 0"

function strpbrk :: "cmem \<Rightarrow> nat \<Rightarrow> nat \<Rightarrow> nat res" where
  "strpbrk m s stop =
     rbind (ld8 m s) (\<lambda>c.
       if c = 0 then Inr 0
       else rbind (strchr m stop (char_to_int c)) (\<lambda>q.
         if q \<noteq> 0 then Inr s else strpbrk m (Suc s) stop))"
  by pat_completeness auto
termination
  by (relation "measure (\<lambda>(m, s, stop). length m - s)") (auto simp: res_simps)

function strrchr_loop :: "cmem \<Rightarrow> nat \<Rightarrow> u8 \<Rightarrow> nat \<Rightarrow> nat res" where
  "strrchr_loop m s c p =
     rbind (ld8 m s) (\<lambda>x.
       if x = 0 then Inr p else strrchr_loop m (Suc s) c (if x = c then s else p))"
  by pat_completeness auto
termination
  by (relation "measure (\<lambda>(m, s, c, p). length m - s)") (auto simp: res_simps)

definition strrchr :: "cmem \<Rightarrow> nat \<Rightarrow> int \<Rightarrow> nat res" where
  "strrchr m s c = strrchr_loop m s (int_to_char c) 0"

definition strstr :: "cmem \<Rightarrow> nat \<Rightarrow> nat \<Rightarrow> nat res" where
  "strstr m haystack needle =
     rbind (strlen m haystack) (\<lambda>haystack_len.
     rbind (strlen m needle) (\<lambda>needle_len.
       if haystack_len \<ge> needle_len
       then rbind (rfind (\<lambda>i. rbind (memcmp m (haystack + i) needle needle_len) (\<lambda>r. Inr (r = 0)))
                    [0..<haystack_len - needle_len + 1])
              (\<lambda>r. Inr (case r of Some i \<Rightarrow> haystack + i | None \<Rightarrow> 0))
       else Inr 0))"

subsection \<open>Tokens\<close>

text \<open>
  \<open>strtok_r\<close> returns the memory, the value left in \<open>*save_ptr\<close> and the token.  The
  caller's \<open>save_ptr\<close> variable is passed by value, so its null check is not modelled.
\<close>

function strtok_skip :: "cmem \<Rightarrow> nat \<Rightarrow> nat \<Rightarrow> (bool \<times> nat) res" where
  "strtok_skip m s delimiters =
     rbind (ld8 m s) (\<lambda>c. rbind (strchr m delimiters (char_to_int c)) (\<lambda>q.
       if q \<noteq> 0 then (if c = 0 then Inr (True, s) else strtok_skip m (Suc s) delimiters)
       else Inr (False, s)))"
  by pat_completeness auto
termination
  by (relation "measure (\<lambda>(m, s, d). length m - s)") (auto simp: res_simps)

function strtok_scan :: "cmem \<Rightarrow> nat \<Rightarrow> nat \<Rightarrow> nat res" where
  "strtok_scan m s delimiters =
     rbind (ld8 m s) (\<lambda>c. rbind (strchr m delimiters (char_to_int c)) (\<lambda>q.
       if q = 0 then strtok_scan m (Suc s) delimiters else Inr s))"
  by pat_completeness auto
termination
  by (relation "measure (\<lambda>(m, s, d). length m - s)") (auto simp: res_simps)

definition strtok_r :: "cmem \<Rightarrow> nat \<Rightarrow> nat \<Rightarrow> nat \<Rightarrow> (cmem \<times> nat \<times> nat) res" where
  "strtok_r m s0 delimiters save_ptr =
     assert_then (delimiters \<noteq> 0)
       (let s = (if s0 = 0 then save_ptr else s0) in
        assert_then (s \<noteq> 0)
          (rbind (strtok_skip m s delimiters) (\<lambda>(at_end, s).
             if at_end then Inr (m, s, 0)
             else let token = s in
               rbind (strtok_scan m s delimiters) (\<lambda>s.
               rbind (ld8 m s) (\<lambda>c.
                 if c \<noteq> 0 then rbind (st8 m s 0) (\<lambda>m. Inr (m, s + 1, token))
                 else Inr (m, s, token))))))"

subsection \<open>Bounded copies\<close>

definition strlcpy :: "cmem \<Rightarrow> nat \<Rightarrow> nat \<Rightarrow> nat \<Rightarrow> (cmem \<times> nat) res" where
  "strlcpy m dst src n =
     assert_then (dst \<noteq> 0) (assert_then (src \<noteq> 0)
       (rbind (strlen m src) (\<lambda>src_len.
          if n > 0
          then let dst_len = (if src_len < n - 1 then src_len else n - 1) in
            rbind (memcpy m dst src dst_len) (\<lambda>(m, _).
            rbind (st8 m (dst + dst_len) 0) (\<lambda>m. Inr (m, src_len)))
          else Inr (m, src_len))))"


subsection \<open>Replacement of patterns\<close>

text \<open>
  The loop over the matches of one pattern writes to the memory it searches, so the
  number of its rounds is bounded by an explicit argument.
\<close>

primrec replace_matches ::
  "nat \<Rightarrow> cmem \<Rightarrow> nat \<Rightarrow> nat \<Rightarrow> nat \<Rightarrow> nat \<Rightarrow> nat \<Rightarrow> cmem res" where
  "replace_matches 0 m ptr pattern replacement pattern_len replacement_len = Inl OUT_OF_FUEL"
| "replace_matches (Suc fuel) m ptr pattern replacement pattern_len replacement_len =
     rbind (strstr m ptr pattern) (\<lambda>ptr.
       if ptr = 0 then Inr m
       else
         rbind (strlen m (ptr + pattern_len)) (\<lambda>rest.
         rbind (memmove m (ptr + replacement_len) (ptr + pattern_len) (rest + 1)) (\<lambda>(m, _).
         rbind (copy_up replacement_len m ptr replacement) (\<lambda>(m, ptr).
           replace_matches fuel m ptr pattern replacement pattern_len replacement_len))))"

definition replace_pattern ::
  "nat \<Rightarrow> nat \<Rightarrow> nat list \<Rightarrow> nat list \<Rightarrow> nat \<Rightarrow> cmem \<Rightarrow> cmem res" where
  "replace_pattern fuel out patterns replacements i m =
     (if i < length patterns \<and> i < length replacements
      then rbind (strlen m (patterns ! i)) (\<lambda>pattern_len.
           rbind (strlen m (replacements ! i)) (\<lambda>replacement_len.
             assert_then (pattern_len > 0) (assert_then (replacement_len \<ge> 0)
               (replace_matches fuel m out (patterns ! i) (replacements ! i)
                  pattern_len replacement_len))))
      else Inl OUT_OF_BOUNDS)"

definition make_string_replacements ::
  "nat \<Rightarrow> cmem \<Rightarrow> nat \<Rightarrow> nat \<Rightarrow> nat \<Rightarrow> nat list \<Rightarrow> nat list \<Rightarrow> nat \<Rightarrow> cmem res" where
  "make_string_replacements fuel m out out_size inp patterns replacements num_patterns =
     rbind (strlen m inp) (\<lambda>n. assert_then (n < out_size)
       (rbind (strlcpy m out inp out_size) (\<lambda>(m, _).
          rfold (replace_pattern fuel out patterns replacements) [0..<num_patterns] m)))"

subsection \<open>Prefixes\<close>

function is_whitespace :: "cmem \<Rightarrow> nat \<Rightarrow> bool res" where
  "is_whitespace m p =
     rbind (ld8 m p) (\<lambda>c.
       if c = 0 then Inr True
       else if c \<noteq> 32 \<and> c \<noteq> 9 \<and> c \<noteq> 1 then Inr False
       else is_whitespace m (Suc p))"
  by pat_completeness auto
termination
  by (relation "measure (\<lambda>(m, p). length m - p)") (auto simp: res_simps)

text \<open>The out parameter \<open>ptr\<close> is absent or holds the pointer variable's contents.\<close>

function strstart_loop :: "cmem \<Rightarrow> nat \<Rightarrow> nat \<Rightarrow> (bool \<times> nat) res" where
  "strstart_loop m p q =
     rbind (ld8 m q) (\<lambda>y.
       if y = 0 then Inr (True, p)
       else rbind (ld8 m p) (\<lambda>x.
         if x \<noteq> y then Inr (False, p) else strstart_loop m (Suc p) (Suc q)))"
  by pat_completeness auto
termination
  by (relation "measure (\<lambda>(m, p, q). length m - q)") (auto simp: res_simps)

definition strstart :: "cmem \<Rightarrow> nat \<Rightarrow> nat \<Rightarrow> nat option \<Rightarrow> (int \<times> nat option) res" where
  "strstart m str val ptr =
     rbind (strstart_loop m str val) (\<lambda>(ok, p).
       Inr (if ok then (1, map_option (\<lambda>_. p) ptr) else (0, ptr)))"

lemmas string_loops [simp del] =
  strlen_loop.simps strnlen_loop.simps strcmp_loop.simps strncmp_loop.simps strchr_loop.simps
  strcspn_loop.simps strspn_loop.simps strpbrk.simps strrchr_loop.simps strtok_skip.simps
  strtok_scan.simps is_whitespace.simps strstart_loop.simps

subsection \<open>Bytes and strings in memory\<close>

primrec bytes_at :: "cmem \<Rightarrow> nat \<Rightarrow> u8 list \<Rightarrow> bool" where
  "bytes_at m p [] = True"
| "bytes_at m p (x # xs) = (0 < p \<and> p < length m \<and> m ! p = x \<and> bytes_at m (Suc p) xs)"

definition str_at :: "cmem \<Rightarrow> nat \<Rightarrow> u8 list \<Rightarrow> bool" where
  "str_at m p s = (bytes_at m p (s @ [0]) \<and> 0 \<notin> set s)"

lemma str_at_simps [simp]:
  "str_at m p [] \<longleftrightarrow> 0 < p \<and> p < length m \<and> m ! p = 0"
  "str_at m p (c # s) \<longleftrightarrow> 0 < p \<and> p < length m \<and> m ! p = c \<and> c \<noteq> 0 \<and> str_at m (Suc p) s"
  by (auto simp: str_at_def)

lemma bytes_at_append:
  "bytes_at m p (xs @ ys) \<longleftrightarrow> bytes_at m p xs \<and> bytes_at m (p + length xs) ys"
  by (induction xs arbitrary: p) auto

lemma bytes_at_iff:
  "bytes_at m p xs \<longleftrightarrow>
     (xs \<noteq> [] \<longrightarrow> 0 < p \<and> p + length xs \<le> length m) \<and> (\<forall>i < length xs. m ! (p + i) = xs ! i)"
proof (induction xs arbitrary: p)
  case (Cons x xs)
  show ?case
    by (auto simp: Cons.IH less_Suc_eq_0_disj nth_Cons' split: if_splits)
qed simp

lemma str_at_pos: "str_at m p s \<Longrightarrow> 0 < p \<and> p + length s < length m"
  by (simp add: str_at_def bytes_at_iff)

lemma str_at_nonzero: "str_at m p s \<Longrightarrow> 0 \<notin> set s"
  by (simp add: str_at_def)

lemma str_at_append:
  "str_at m p (u @ v) \<longleftrightarrow> bytes_at m p u \<and> 0 \<notin> set u \<and> str_at m (p + length u) v"
  by (auto simp: str_at_def bytes_at_append)

lemma str_at_bytes: "str_at m p s \<Longrightarrow> bytes_at m p s"
  by (simp add: str_at_def bytes_at_append)

lemma bytes_at_cong:
  assumes "length m' = length m" "\<And>i. p \<le> i \<Longrightarrow> i < p + length xs \<Longrightarrow> m' ! i = m ! i"
  shows "bytes_at m' p xs = bytes_at m p xs"
  using assms by (simp add: bytes_at_iff)

lemma str_at_cong:
  assumes "length m' = length m" "\<And>i. p \<le> i \<Longrightarrow> i \<le> p + length s \<Longrightarrow> m' ! i = m ! i"
  shows "str_at m' p s = str_at m p s"
  using assms bytes_at_cong [of m' m p "s @ [0]"] by (simp add: str_at_def)

lemma ld8_nonnull: "0 < p \<Longrightarrow> p < length m \<Longrightarrow> ld8 m p = Inr (m ! p)"
  by (simp add: ld8_def)

lemma char_int_char [simp]: "int_to_char (char_to_int c) = c"
  by (simp add: int_to_char_def char_to_int_def)

subsection \<open>Block routines\<close>

text \<open>\<open>blit m dst src n\<close> is the memory after the \<open>n\<close> bytes at \<open>src\<close> replaced those at \<open>dst\<close>.\<close>

definition blit :: "cmem \<Rightarrow> nat \<Rightarrow> nat \<Rightarrow> nat \<Rightarrow> cmem" where
  "blit m dst src n =
     map (\<lambda>i. if dst \<le> i \<and> i < dst + n then m ! (src + (i - dst)) else m ! i) [0..<length m]"

lemma length_blit [simp]: "length (blit m dst src n) = length m"
  by (simp add: blit_def)

lemma nth_blit:
  "i < length m \<Longrightarrow>
   blit m dst src n ! i = (if dst \<le> i \<and> i < dst + n then m ! (src + (i - dst)) else m ! i)"
  by (simp add: blit_def)

lemma blit_0 [simp]: "blit m dst src 0 = m"
  by (rule nth_equalityI) (auto simp: nth_blit)

lemma blit_first:
  assumes "src < length m" "src + n < length m" "dst + n < length m" "dst \<le> src \<or> src + n < dst"
  shows "blit (m[dst := m ! src]) (Suc dst) (Suc src) n = blit m dst src (Suc n)"
  using assms by (intro nth_equalityI) (auto simp: nth_blit nth_list_update Suc_diff_Suc)

lemma blit_last:
  assumes "src + n < length m" "dst + n < length m" "src \<le> dst"
  shows "blit (m[dst + n := m ! (src + n)]) dst src n = blit m dst src (Suc n)"
  using assms by (intro nth_equalityI) (auto simp: nth_blit nth_list_update)

lemma copy_up_blit:
  assumes "0 < dst" "0 < src" "dst + n \<le> length m" "src + n \<le> length m" "dst \<le> src \<or> src + n \<le> dst"
  shows "copy_up n m dst src = Inr (blit m dst src n, dst + n)"
  using assms
proof (induction n arbitrary: m dst src)
  case (Suc n)
  then show ?case
    using blit_first [of src m n dst] by (auto simp: ld8_def st8_def)
qed simp

lemma copy_down_blit:
  assumes "0 < dst" "0 < src" "dst + n \<le> length m" "src + n \<le> length m" "src \<le> dst"
  shows "copy_down n m (dst + n) (src + n) = Inr (blit m dst src n, dst)"
  using assms
proof (induction n arbitrary: m)
  case (Suc n)
  then show ?case
    using blit_last [of src n m dst] by (auto simp: ld8_def st8_def)
qed simp

lemma memset_loop_bytes:
  assumes "0 < dst" "dst + n \<le> length m"
  shows "memset_loop n m dst v = Inr (take dst m @ replicate n v @ drop (dst + n) m)"
  using assms
proof (induction n arbitrary: m dst)
  case (Suc n)
  then show ?case
    by (auto simp: st8_def take_Suc_conv_app_nth drop_update_cancel)
qed simp

text \<open>The sign of the lexicographic comparison of two byte sequences, bytes unsigned.\<close>

fun lex_sign :: "u8 list \<Rightarrow> u8 list \<Rightarrow> int" where
  "lex_sign [] [] = 0"
| "lex_sign [] (y # ys) = -1"
| "lex_sign (x # xs) [] = 1"
| "lex_sign (x # xs) (y # ys) = (if x < y then -1 else if x > y then 1 else lex_sign xs ys)"

lemma lex_sign_0: "lex_sign xs ys = 0 \<longleftrightarrow> xs = ys"
  by (induction xs ys rule: lex_sign.induct) auto

lemma lex_sign_swap: "lex_sign ys xs = - lex_sign xs ys"
  by (induction xs ys rule: lex_sign.induct) auto

lemma lex_sign_Nil [simp]: "lex_sign [] zs \<le> 0"
  by (cases zs) auto

lemma lex_sign_trans:
  "lex_sign xs ys \<le> 0 \<Longrightarrow> lex_sign ys zs \<le> 0 \<Longrightarrow> lex_sign xs zs \<le> 0"
proof (induction xs ys arbitrary: zs rule: lex_sign.induct)
  case (4 x xs y ys)
  then show ?case by (cases zs) (auto split: if_splits)
qed auto

lemma lex_sign_lexord:
  "lex_sign xs ys = (if xs = ys then 0 else if (xs, ys) \<in> lexord {(a, b). a < b} then -1 else 1)"
  by (induction xs ys rule: lex_sign.induct) auto

lemma memcmp_at:
  assumes "bytes_at m a xs" "bytes_at m b ys" "length xs = n" "length ys = n"
  shows "memcmp m a b n = Inr (lex_sign xs ys)"
  using assms
proof (induction n arbitrary: a b xs ys)
  case (Suc n)
  then show ?case by (cases xs; cases ys) (auto simp: ld8_def)
qed simp

subsection \<open>String routines\<close>

lemma strlen_loop_at: "str_at m p s \<Longrightarrow> strlen_loop m p = Inr (p + length s)"
  by (induction s arbitrary: p) (subst strlen_loop.simps; simp add: ld8_def)+

lemma strlen_at: "str_at m p s \<Longrightarrow> strlen m p = Inr (length s)"
  using str_at_pos [of m p s] by (simp add: strlen_def strlen_loop_at)

lemma strcmp_loop_at: "str_at m a s \<Longrightarrow> str_at m b t \<Longrightarrow> strcmp_loop m a b = Inr (lex_sign s t)"
proof (induction s t arbitrary: a b rule: lex_sign.induct)
  case (4 x xs y ys)
  then show ?case by (subst strcmp_loop.simps) (auto simp: ld8_def)
qed (subst strcmp_loop.simps; auto simp: ld8_def word_neq_0_conv)+

lemma strcmp_at: "str_at m a s \<Longrightarrow> str_at m b t \<Longrightarrow> strcmp m a b = Inr (lex_sign s t)"
  using str_at_pos [of m a s] str_at_pos [of m b t] by (simp add: strcmp_def strcmp_loop_at)

lemma strncmp_loop_at:
  "str_at m a s \<Longrightarrow> str_at m b t \<Longrightarrow> i < n \<Longrightarrow>
   strncmp_loop m a b n i = Inr (lex_sign (take (n - i) s) (take (n - i) t))"
proof (induction s t arbitrary: a b i rule: lex_sign.induct)
  case (4 x xs y ys)
  then show ?case
    by (subst strncmp_loop.simps) (auto simp: ld8_def take_Cons' not_less le_Suc_eq)
qed (subst strncmp_loop.simps; auto simp: ld8_def word_neq_0_conv take_Cons')+

lemma strncmp_at:
  "str_at m a s \<Longrightarrow> str_at m b t \<Longrightarrow> 0 < n \<Longrightarrow> strncmp m a b n = Inr (lex_sign (take n s) (take n t))"
  using str_at_pos [of m a s] str_at_pos [of m b t] by (simp add: strncmp_def strncmp_loop_at)

lemma strchr_loop_at:
  "str_at m p s \<Longrightarrow>
   strchr_loop m p c =
     Inr (if c = 0 \<or> c \<in> set s then p + length (takeWhile (\<lambda>x. x \<noteq> c) s) else 0)"
  by (induction s arbitrary: p) (subst strchr_loop.simps; auto simp: ld8_def)+

lemma strchr_at:
  "str_at m p s \<Longrightarrow>
   strchr m p (char_to_int c) =
     Inr (if c = 0 \<or> c \<in> set s then p + length (takeWhile (\<lambda>x. x \<noteq> c) s) else 0)"
  using str_at_pos [of m p s] by (simp add: strchr_def strchr_loop_at)

lemma strchr_null:
  assumes "str_at m p s" "strchr m p (char_to_int c) = Inr q"
  shows "q = 0 \<longleftrightarrow> c \<noteq> 0 \<and> c \<notin> set s"
  using assms str_at_pos [of m p s] by (auto simp: strchr_at split: if_splits)

lemma strcspn_loop_at:
  "str_at m (p + n) s \<Longrightarrow> str_at m stop d \<Longrightarrow>
   strcspn_loop m p stop n = Inr (n + length (takeWhile (\<lambda>x. x \<notin> set d) s))"
proof (induction s arbitrary: n)
  case (Cons c s)
  then show ?case
    using str_at_pos [of m stop d]
    by (subst strcspn_loop.simps) (simp add: ld8_def strchr_at)
qed (subst strcspn_loop.simps; simp add: ld8_def)

lemma strcspn_at:
  "str_at m p s \<Longrightarrow> str_at m stop d \<Longrightarrow>
   strcspn m p stop = Inr (length (takeWhile (\<lambda>x. x \<notin> set d) s))"
  by (simp add: strcspn_def strcspn_loop_at)

lemma strspn_loop_at:
  "str_at m (p + n) s \<Longrightarrow> str_at m skip d \<Longrightarrow>
   strspn_loop m p skip n = Inr (n + length (takeWhile (\<lambda>x. x \<in> set d) s))"
proof (induction s arbitrary: n)
  case (Cons c s)
  then show ?case
    using str_at_pos [of m skip d]
    by (subst strspn_loop.simps) (simp add: ld8_def strchr_at)
qed (subst strspn_loop.simps; simp add: ld8_def)

lemma strspn_at:
  "str_at m p s \<Longrightarrow> str_at m skip d \<Longrightarrow>
   strspn m p skip = Inr (length (takeWhile (\<lambda>x. x \<in> set d) s))"
  by (simp add: strspn_def strspn_loop_at)

lemma strpbrk_at:
  "str_at m p s \<Longrightarrow> str_at m stop d \<Longrightarrow>
   strpbrk m p stop =
     Inr (if \<exists>x \<in> set s. x \<in> set d then p + length (takeWhile (\<lambda>x. x \<notin> set d) s) else 0)"
proof (induction s arbitrary: p)
  case (Cons c s)
  then show ?case
    using str_at_pos [of m stop d]
    by (subst strpbrk.simps) (simp add: ld8_def strchr_at)
qed (subst strpbrk.simps; simp add: ld8_def)

lemma strrchr_loop_at:
  "str_at m p s \<Longrightarrow>
   strrchr_loop m p c q =
     Inr (if c \<in> set s then p + (length s - 1 - length (takeWhile (\<lambda>x. x \<noteq> c) (rev s))) else q)"
proof (induction s arbitrary: p q)
  case (Cons x s)
  have "length (takeWhile (\<lambda>x. x \<noteq> c) (rev s)) < length s" if "c \<in> set s"
    using that takeWhile_eq_all_conv [of "\<lambda>x. x \<noteq> c" "rev s"]
      length_takeWhile_le [of "\<lambda>x. x \<noteq> c" "rev s"]
    by (metis le_neq_implies_less length_rev set_rev takeWhile_eq_take take_all_iff order.refl)
  with Cons show ?case
    by (subst strrchr_loop.simps) (auto simp: ld8_def takeWhile_append)
qed (subst strrchr_loop.simps; simp add: ld8_def)

lemma strnlen_loop_at:
  "str_at m (p + n) s \<Longrightarrow> n \<le> maxlen \<Longrightarrow>
   strnlen_loop m p maxlen n = Inr (min maxlen (n + length s))"
  by (induction s arbitrary: n) (subst strnlen_loop.simps; auto simp: ld8_def)+

lemma is_whitespace_at:
  "str_at m p s \<Longrightarrow> is_whitespace m p = Inr (\<forall>c \<in> set s. c = 32 \<or> c = 9 \<or> c = 1)"
  by (induction s arbitrary: p) (subst is_whitespace.simps; auto simp: ld8_def)+

lemma strstart_loop_at:
  "str_at m p s \<Longrightarrow> str_at m q t \<Longrightarrow>
   \<exists>r n. strstart_loop m p q = Inr (r, n) \<and> (r \<longleftrightarrow> take (length t) s = t)
     \<and> (r \<longrightarrow> n = p + length t)"
proof (induction t arbitrary: s p q)
  case (Cons y t)
  show ?case
  proof (cases "s \<noteq> [] \<and> hd s = y")
    case True
    then obtain s' where s: "s = y # s'" by (cases s) auto
    then have "\<exists>r n. strstart_loop m (Suc p) (Suc q) = Inr (r, n) \<and> (r \<longleftrightarrow> take (length t) s' = t)
        \<and> (r \<longrightarrow> n = Suc p + length t)"
      using Cons.prems by (intro Cons.IH) auto
    moreover have "strstart_loop m p q = strstart_loop m (Suc p) (Suc q)"
      using Cons.prems s by (subst strstart_loop.simps) (simp add: ld8_def)
    ultimately show ?thesis using s by simp
  next
    case False
    then have "m ! p \<noteq> y" using Cons.prems by (cases s) auto
    then have "strstart_loop m p q = Inr (False, p)"
      using Cons.prems str_at_pos [of m p s] by (subst strstart_loop.simps) (simp add: ld8_def)
    then show ?thesis using False by (cases s) auto
  qed
qed (subst strstart_loop.simps; auto simp: ld8_def)

lemma strstart_at:
  assumes "str_at m p s" "str_at m q t"
  shows "strstart m p q ptr =
    Inr (if take (length t) s = t then (1, map_option (\<lambda>_. p + length t) ptr) else (0, ptr))"
  using strstart_loop_at [OF assms] by (auto simp: strstart_def)

text \<open>\<open>strstr\<close> finds the first position at which the needle occurs.\<close>

definition first_occ :: "u8 list \<Rightarrow> u8 list \<Rightarrow> nat option" where
  "first_occ s t = List.find (\<lambda>i. take (length t) (drop i s) = t) [0..<Suc (length s)]"

lemma first_occ_short:
  assumes "length t \<le> length s"
  shows "List.find (\<lambda>i. take (length t) (drop i s) = t) [0..<Suc (length s - length t)] = first_occ s t"
proof -
  have *: "i \<le> length s - length t" if "take (length t) (drop i s) = t" "i \<le> length s" for i
    using arg_cong [OF that(1), of length] that(2) assms by (simp add: min_def split: if_splits)
  define k where "k = Suc (length s - length t)"
  have k: "k \<le> Suc (length s)" by (simp add: k_def)
  have app: "[0..<Suc (length s)] = [0..<k] @ [k..<Suc (length s)]"
    using k by (metis le_add_diff_inverse le0 upt_add_eq_append)
  have "List.find (\<lambda>i. take (length t) (drop i s) = t) [k..<Suc (length s)] = None"
    unfolding find_upt_None
  proof (intro allI impI notI)
    fix i assume "k \<le> i \<and> i < Suc (length s)" and "take (length t) (drop i s) = t"
    then show False using * [of i] by (simp add: k_def)
  qed
  then show ?thesis
    unfolding first_occ_def app k_def [symmetric]
    by (simp add: find_append del: upt_Suc split: option.splits)
qed

lemma bytes_at_substring:
  "bytes_at m p s \<Longrightarrow> bytes_at m (p + i) (take n (drop i s))"
  by (auto simp: bytes_at_iff add.assoc)

lemma strstr_at:
  assumes "str_at m h s" "str_at m n t"
  shows "strstr m h n = Inr (case first_occ s t of Some i \<Rightarrow> h + i | None \<Rightarrow> 0)"
proof (cases "length t \<le> length s")
  case True
  have "memcmp m (h + i) n (length t) = Inr (lex_sign (take (length t) (drop i s)) t)"
    if "i < Suc (length s - length t)" for i
    using that True assms by (intro memcmp_at bytes_at_substring str_at_bytes) auto
  then have "rfind (\<lambda>i. rbind (memcmp m (h + i) n (length t)) (\<lambda>r. Inr (r = 0)))
        [0..<Suc (length s - length t)] =
      Inr (List.find (\<lambda>i. take (length t) (drop i s) = t) [0..<Suc (length s - length t)])"
    by (intro rfind_pure) (auto simp: lex_sign_0 simp del: upt_Suc)
  then show ?thesis
    using True assms by (simp add: strstr_def strlen_at first_occ_short del: upt_Suc)
next
  case False
  then have "first_occ s t = None"
    by (auto simp: first_occ_def find_None_iff dest!: arg_cong [of _ _ length])
  then show ?thesis using False assms by (simp add: strstr_def strlen_at)
qed

subsection \<open>Tokens\<close>

lemma strtok_skip_at:
  "str_at m p s \<Longrightarrow> str_at m d ds \<Longrightarrow>
   strtok_skip m p d =
     Inr (dropWhile (\<lambda>x. x \<in> set ds) s = [], p + length (takeWhile (\<lambda>x. x \<in> set ds) s))"
proof (induction s arbitrary: p)
  case (Cons c s)
  then show ?case
    using str_at_pos [of m d ds]
    by (subst strtok_skip.simps) (simp add: ld8_def strchr_at)
next
  case Nil
  then show ?case
    using str_at_pos [of m d ds] by (subst strtok_skip.simps) (simp add: ld8_def strchr_at)
qed

lemma strtok_scan_at:
  "str_at m p s \<Longrightarrow> str_at m d ds \<Longrightarrow>
   strtok_scan m p d = Inr (p + length (takeWhile (\<lambda>x. x \<notin> set ds) s))"
proof (induction s arbitrary: p)
  case (Cons c s)
  then show ?case
    using str_at_pos [of m d ds]
    by (subst strtok_scan.simps) (simp add: ld8_def strchr_at)
next
  case Nil
  then show ?case
    using str_at_pos [of m d ds] by (subst strtok_scan.simps) (simp add: ld8_def strchr_at)
qed

text \<open>
  What one call does to a buffer holding \<open>s\<close>: with \<open>lead\<close> leading delimiters, \<open>tok\<close> the
  bytes up to the next delimiter and \<open>rest\<close> what follows that delimiter.
\<close>

lemma strtok_r_end:
  assumes "str_at m p s" "str_at m d ds" "set s \<subseteq> set ds"
  shows "strtok_r m p d save = Inr (m, p + length s, 0)"
proof -
  have "length (takeWhile (\<lambda>x. x \<in> set ds) s) = length s"
    using assms(3) by (metis subsetD takeWhile_eq_all_conv)
  moreover have "dropWhile (\<lambda>x. x \<in> set ds) s = []"
    using assms(3) by (auto simp: dropWhile_eq_Nil_conv)
  ultimately show ?thesis
    using assms str_at_pos [of m p s] str_at_pos [of m d ds]
    by (simp add: strtok_r_def strtok_skip_at)
qed

lemma strtok_r_last:
  assumes "str_at m p (lead @ tok)" "str_at m d ds"
    "set lead \<subseteq> set ds" "set tok \<inter> set ds = {}" "tok \<noteq> []"
  shows "strtok_r m p d save = Inr (m, p + length lead + length tok, p + length lead)"
proof -
  have hd: "hd tok \<notin> set ds" using assms(4,5) by (cases tok) auto
  have tw: "takeWhile (\<lambda>x. x \<in> set ds) (lead @ tok) = lead"
    using assms(3) hd assms(5) by (subst takeWhile_append2) (cases tok; auto)+
  have dw: "dropWhile (\<lambda>x. x \<in> set ds) (lead @ tok) \<noteq> []"
    using hd assms(5) by (cases tok) (auto simp: dropWhile_eq_Nil_conv)
  have at: "str_at m (p + length lead) tok"
    using assms(1) by (simp add: str_at_append)
  have tk: "length (takeWhile (\<lambda>x. x \<notin> set ds) tok) = length tok"
    using assms(4) by (metis disjoint_iff takeWhile_eq_all_conv)
  have "str_at m (p + length lead + length tok) []"
    using at str_at_append [of m _ tok "[]"] by simp
  then show ?thesis
    using assms(1,2) str_at_pos [OF assms(1)] str_at_pos [OF assms(2)] tw dw tk at
    by (simp add: strtok_r_def strtok_skip_at strtok_scan_at ld8_def)
qed

lemma strtok_r_next:
  assumes "str_at m p (lead @ tok @ c # rest)" "str_at m d ds"
    "set lead \<subseteq> set ds" "set tok \<inter> set ds = {}" "tok \<noteq> []" "c \<in> set ds"
  shows "strtok_r m p d save =
    Inr (m[p + length lead + length tok := 0], p + length lead + length tok + 1, p + length lead)"
proof -
  have hd: "hd tok \<notin> set ds" using assms(4,5) by (cases tok) auto
  have tw: "takeWhile (\<lambda>x. x \<in> set ds) (lead @ tok @ c # rest) = lead"
    using assms(3) hd assms(5) by (subst takeWhile_append2) (cases tok; auto)+
  have dw: "dropWhile (\<lambda>x. x \<in> set ds) (lead @ tok @ c # rest) \<noteq> []"
    using hd assms(5) by (cases tok) (auto simp: dropWhile_eq_Nil_conv)
  have at: "str_at m (p + length lead) (tok @ c # rest)"
    using assms(1) by (simp add: str_at_append)
  have tk: "takeWhile (\<lambda>x. x \<notin> set ds) (tok @ c # rest) = tok"
    using assms(4,6) by (subst takeWhile_append2) auto
  have "str_at m (p + length lead + length tok) (c # rest)"
    using at by (simp add: str_at_append)
  then show ?thesis
    using assms(1,2) str_at_pos [OF assms(1)] str_at_pos [OF assms(2)] tw dw tk at
    by (simp add: strtok_r_def strtok_skip_at strtok_scan_at ld8_def st8_def)
qed

lemma bytes_at_update:
  "q < p \<or> p + length xs \<le> q \<Longrightarrow> bytes_at (m[q := v]) p xs = bytes_at m p xs"
  by (rule bytes_at_cong) auto

lemma str_at_update:
  "q < p \<or> p + length s < q \<Longrightarrow> str_at (m[q := v]) p s = str_at m p s"
  by (rule str_at_cong) auto

lemma str_at_cut:
  assumes "str_at m p (tok @ c # rest)"
  shows "str_at (m[p + length tok := 0]) p tok"
    and "str_at (m[p + length tok := 0]) (p + length tok + 1) rest"
  using assms
  by (simp_all add: str_at_append [of _ _ tok "[]", simplified] str_at_append
      bytes_at_update str_at_update)

text \<open>
  The caller's loop: a first call on the string, then calls with a null pointer until
  no token is left.  The tokens are pointers into the memory the loop ends with.
\<close>

primrec strtok_all :: "nat \<Rightarrow> cmem \<Rightarrow> nat \<Rightarrow> nat \<Rightarrow> nat \<Rightarrow> (cmem \<times> nat list) res" where
  "strtok_all 0 m s d save = Inl OUT_OF_FUEL"
| "strtok_all (Suc fuel) m s d save =
     rbind (strtok_r m s d save) (\<lambda>(m, save, token).
       if token = 0 then Inr (m, [])
       else rbind (strtok_all fuel m 0 d save) (\<lambda>(m, toks). Inr (m, token # toks)))"

text \<open>The tokens of a string: its maximal nonempty runs of bytes outside the delimiters.\<close>

function tokens :: "u8 set \<Rightarrow> u8 list \<Rightarrow> u8 list list" where
  "tokens D s =
     (let s' = dropWhile (\<lambda>x. x \<in> D) s in
      if s' = [] then []
      else takeWhile (\<lambda>x. x \<notin> D) s' # tokens D (dropWhile (\<lambda>x. x \<notin> D) s'))"
  by pat_completeness auto
termination
proof (relation "measure (\<lambda>(D, s). length s)", simp, clarsimp)
  fix D and s :: "u8 list" and x
  assume "x \<in> set s" "x \<notin> D"
  then have "dropWhile (\<lambda>x. x \<in> D) s \<noteq> []" by (auto simp: dropWhile_eq_Nil_conv)
  then obtain y ys where y: "dropWhile (\<lambda>x. x \<in> D) s = y # ys" by (cases "dropWhile (\<lambda>x. x \<in> D) s") auto
  then have "y \<notin> D" using hd_dropWhile [of "\<lambda>x. x \<in> D" s] by simp
  then show "length (dropWhile (\<lambda>x. x \<notin> D) (dropWhile (\<lambda>x. x \<in> D) s)) < length s"
    using y length_dropWhile_le [of "\<lambda>x. x \<in> D" s] length_dropWhile_le [of "\<lambda>x. x \<notin> D" ys] by simp
qed

lemmas tokens_rec [simp del] = tokens.simps

lemma tokens_none: "set s \<subseteq> D \<Longrightarrow> tokens D s = []"
  by (subst tokens.simps) (auto simp: Let_def dropWhile_eq_Nil_conv)

lemma tokens_skip:
  "set lead \<subseteq> D \<Longrightarrow> tokens D (lead @ s) = tokens D s"
  by (subst (1 2) tokens.simps) (simp add: subset_iff dropWhile_append3 del: dropWhile_eq_Nil_conv)

lemma tokens_cons:
  assumes "set lead \<subseteq> D" "set tok \<inter> D = {}" "tok \<noteq> []" "rest \<noteq> [] \<Longrightarrow> hd rest \<in> D"
  shows "tokens D (lead @ tok @ rest) = tok # tokens D rest"
proof -
  have "dropWhile (\<lambda>x. x \<in> D) (tok @ rest) = tok @ rest"
    using assms(2,3) by (cases tok) auto
  moreover have "takeWhile (\<lambda>x. x \<notin> D) (tok @ rest) = tok"
    using assms(2,4) by (subst takeWhile_append2) (auto simp: takeWhile_eq_Nil_iff)
  moreover have "dropWhile (\<lambda>x. x \<notin> D) (tok @ rest) = rest"
    using assms(2,4) by (subst dropWhile_append2) (auto simp: dropWhile_eq_self_iff)
  ultimately show ?thesis
    using assms(1,3) by (simp add: tokens_skip tokens.simps [of D "tok @ rest"])
qed

text \<open>Every string is its leading delimiters, a first token and the rest.\<close>

lemma token_cases:
  obtains (none) "set s \<subseteq> D"
  | (last) lead tok where "s = lead @ tok" "set lead \<subseteq> D" "set tok \<inter> D = {}" "tok \<noteq> []"
  | (cut) lead tok c rest where "s = lead @ tok @ c # rest" "set lead \<subseteq> D" "set tok \<inter> D = {}"
      "tok \<noteq> []" "c \<in> D"
proof -
  let ?lead = "takeWhile (\<lambda>x. x \<in> D) s" and ?s = "dropWhile (\<lambda>x. x \<in> D) s"
  let ?tok = "takeWhile (\<lambda>x. x \<notin> D) ?s" and ?rest = "dropWhile (\<lambda>x. x \<notin> D) ?s"
  have s: "s = ?lead @ ?tok @ ?rest" by simp
  have lead: "set ?lead \<subseteq> D" and tok: "set ?tok \<inter> D = {}"
    by (auto dest: set_takeWhileD)
  show thesis
  proof (cases "?s = []")
    case True
    then show thesis by (intro none) (auto simp: dropWhile_eq_Nil_conv)
  next
    case ne: False
    then have "hd ?s \<notin> D" using hd_dropWhile [of "\<lambda>x. x \<in> D" s] by blast
    then have "?tok \<noteq> []" using ne by (cases ?s) auto
    show thesis
    proof (cases ?rest)
      case Nil
      then show thesis using last [of ?lead ?tok] s lead tok \<open>?tok \<noteq> []\<close> by (metis append_Nil2)
    next
      case (Cons c rest)
      then have "c \<in> D" using hd_dropWhile [of "\<lambda>x. x \<notin> D" ?s] by auto
      then show thesis using cut [of ?lead ?tok c rest] s lead tok \<open>?tok \<noteq> []\<close> Cons by metis
    qed
  qed
qed

text \<open>Memories that agree outside the addresses from \<open>a\<close> up to, not including, \<open>b\<close>.\<close>

definition same_outside :: "nat \<Rightarrow> nat \<Rightarrow> cmem \<Rightarrow> cmem \<Rightarrow> bool" where
  "same_outside a b m m' =
     (length m' = length m \<and> (\<forall>i < length m. i < a \<or> b \<le> i \<longrightarrow> m' ! i = m ! i))"

lemma same_outside_refl [simp]: "same_outside a b m m"
  by (simp add: same_outside_def)

lemma same_outside_length: "same_outside a b m m' \<Longrightarrow> length m' = length m"
  by (simp add: same_outside_def)

lemma same_outside_trans:
  "same_outside a b m m' \<Longrightarrow> same_outside a' b' m' m'' \<Longrightarrow> a \<le> a' \<Longrightarrow> b' \<le> b \<Longrightarrow> same_outside a b m m''"
  by (auto simp: same_outside_def)

lemma same_outside_update: "a \<le> q \<Longrightarrow> q < b \<Longrightarrow> same_outside a b m (m[q := v])"
  by (auto simp: same_outside_def)

lemma same_outside_blit: "a \<le> dst \<Longrightarrow> dst + n \<le> b \<Longrightarrow> same_outside a b m (blit m dst src n)"
  by (auto simp: same_outside_def nth_blit)

lemma same_outside_bytes:
  "same_outside a b m m' \<Longrightarrow> bytes_at m p s \<Longrightarrow> p + length s \<le> a \<or> b \<le> p \<Longrightarrow> bytes_at m' p s"
  by (auto simp: same_outside_def bytes_at_iff)

lemma same_outside_str:
  "same_outside a b m m' \<Longrightarrow> str_at m p s \<Longrightarrow> p + length s < a \<or> b \<le> p \<Longrightarrow> str_at m' p s"
  using same_outside_bytes [of a b m m' p "s @ [0]"] by (auto simp: str_at_def)

lemma strtok_r_saved: "p \<noteq> 0 \<Longrightarrow> strtok_r m 0 d p = strtok_r m p d save"
  by (simp add: strtok_r_def)

lemma strtok_all_saved: "p \<noteq> 0 \<Longrightarrow> strtok_all fuel m 0 d p = strtok_all fuel m p d save"
  by (cases fuel) (simp_all add: strtok_r_saved [of p m d save])

lemma strtok_all_at:
  assumes "str_at m p s" "str_at m d ds" "length s < fuel"
    "d + length ds < p \<or> p + length s < d"
  shows "\<exists>m' ps. strtok_all fuel m p d save = Inr (m', ps)
    \<and> list_all2 (str_at m') ps (tokens (set ds) s) \<and> same_outside p (p + length s) m m'"
  using assms
proof (induction fuel arbitrary: m p s save)
  case (Suc fuel)
  show ?case
  proof (cases rule: token_cases [of s "set ds"])
    case none
    then show ?thesis
      using strtok_r_end [OF Suc.prems(1,2)] by (simp add: tokens_none)
  next
    case (last lead tok)
    define q where "q = p + length lead"
    have t: "str_at m q tok" "q \<noteq> 0" and e: "str_at m (q + length tok) []"
      using Suc.prems(1) last str_at_append [of m _ tok "[]"] str_at_pos [OF Suc.prems(1)]
      by (auto simp: str_at_append q_def)
    obtain n where n: "fuel = Suc n" using Suc.prems(3) last by (cases fuel) auto
    have "strtok_all fuel m 0 d (q + length tok) = Inr (m, [])"
      using strtok_r_end [OF e Suc.prems(2)] t(2) n
      by (simp add: strtok_r_saved [of _ m d save])
    moreover have "strtok_r m p d save = Inr (m, q + length tok, q)"
      using strtok_r_last [of m p lead tok d ds save] Suc.prems(1,2) last by (simp add: q_def)
    moreover have "tokens (set ds) s = [tok]"
      using tokens_cons [of lead "set ds" tok "[]"] last by (simp add: tokens_none)
    ultimately show ?thesis using t by simp
  next
    case (cut lead tok c rest)
    define q where "q = p + length lead"
    define m1 where "m1 = m[q + length tok := 0]"
    define r where "r = q + length tok + 1"
    have at: "str_at m q (tok @ c # rest)" and q: "q \<noteq> 0"
      using Suc.prems(1) cut str_at_pos [OF Suc.prems(1)] by (auto simp: str_at_append q_def)
    have t: "str_at m1 q tok" and rs: "str_at m1 r rest"
      using str_at_cut [OF at] by (simp_all add: m1_def r_def)
    have out: "same_outside p (p + length s) m m1"
      unfolding m1_def by (rule same_outside_update) (auto simp: q_def cut)
    have "\<exists>m' ps. strtok_all fuel m1 r d save = Inr (m', ps)
        \<and> list_all2 (str_at m') ps (tokens (set ds) rest) \<and> same_outside r (r + length rest) m1 m'"
      using Suc.prems cut rs same_outside_str [OF out Suc.prems(2)]
      by (intro Suc.IH) (auto simp: r_def q_def)
    then obtain m' ps where rec: "strtok_all fuel m1 r d save = Inr (m', ps)"
      "list_all2 (str_at m') ps (tokens (set ds) rest)" "same_outside r (r + length rest) m1 m'"
      by blast
    have "strtok_r m p d save = Inr (m1, r, q)"
      using strtok_r_next [of m p lead tok c rest d ds save] Suc.prems(1,2) cut
      by (simp add: q_def m1_def r_def)
    then have "strtok_all (Suc fuel) m p d save = Inr (m', q # ps)"
      using rec(1) q strtok_all_saved [of r fuel m1 d save] by (simp add: r_def)
    moreover have "str_at m' q tok"
      using same_outside_str [OF rec(3) t] by (simp add: r_def)
    moreover have "tokens (set ds) s = tok # tokens (set ds) rest"
      using tokens_cons [of lead "set ds" tok "c # rest"] tokens_skip [of "[c]" "set ds" rest] cut
      by simp
    moreover have "same_outside p (p + length s) m m'"
      using out rec(3) by (rule same_outside_trans) (auto simp: r_def q_def cut)
    ultimately show ?thesis using rec(2) by simp
  qed
qed simp

subsection \<open>Bounded copies\<close>

lemma bytes_at_blit:
  assumes "bytes_at m src xs" "length xs = n" "0 < dst" "dst + n \<le> length m"
  shows "bytes_at (blit m dst src n) dst xs"
  using assms by (auto simp: bytes_at_iff nth_blit)

lemma str_at_terminate:
  assumes "bytes_at m p xs" "0 \<notin> set xs" "0 < p" "p + length xs < length m"
  shows "str_at (m[p + length xs := 0]) p xs"
  using assms by (simp add: str_at_append [of _ _ xs "[]", simplified] bytes_at_update)

lemma copy_terminated:
  assumes "str_at m src s" "0 < dst" "k \<le> length s" "dst + k < length m"
    "dst \<le> src \<or> src + k \<le> dst"
  shows "\<exists>m'. rbind (memcpy m dst src k) (\<lambda>(m, _). rbind (st8 m (dst + k) 0) (\<lambda>m. Inr (m, x)))
      = Inr (m', x) \<and> str_at m' dst (take k s) \<and> same_outside dst (dst + k + 1) m m'"
proof -
  define m1 where "m1 = blit m dst src k"
  have "copy_up k m dst src = Inr (m1, dst + k)"
    unfolding m1_def using assms str_at_pos [OF assms(1)] by (intro copy_up_blit) auto
  then have eq: "rbind (memcpy m dst src k) (\<lambda>(m, _). rbind (st8 m (dst + k) 0) (\<lambda>m. Inr (m, x)))
      = Inr (m1[dst + k := 0], x)"
    using assms by (simp add: memcpy_def st8_def m1_def)
  have "bytes_at m1 dst (take k s)"
    unfolding m1_def using assms bytes_at_substring [OF str_at_bytes [OF assms(1)], of 0 k]
    by (intro bytes_at_blit) auto
  then have "str_at (m1[dst + k := 0]) dst (take k s)"
    using str_at_terminate [of m1 dst "take k s"] assms str_at_nonzero [OF assms(1)]
    by (auto simp: m1_def min_absorb2 dest: in_set_takeD)
  moreover have "same_outside dst (dst + k + 1) m (m1[dst + k := 0])"
    unfolding m1_def
    by (rule same_outside_trans [OF same_outside_blit [of dst dst k "dst + k + 1"]
        same_outside_update [of dst _ "dst + k + 1"]]) auto
  ultimately show ?thesis using eq by blast
qed

lemma same_outside_mono: "same_outside a b m m' \<Longrightarrow> a' \<le> a \<Longrightarrow> b \<le> b' \<Longrightarrow> same_outside a' b' m m'"
  by (auto simp: same_outside_def)

lemma strlcpy_at:
  assumes "str_at m src s" "0 < dst" "0 < n" "dst + n \<le> length m"
    "src + length s < dst \<or> dst + n \<le> src"
  shows "\<exists>m'. strlcpy m dst src n = Inr (m', length s)
    \<and> str_at m' dst (take (n - 1) s) \<and> same_outside dst (dst + n) m m'"
proof -
  define k where "k = (if length s < n - 1 then length s else n - 1)"
  have k: "k \<le> length s" "dst + k < length m" "dst \<le> src \<or> src + k \<le> dst" "dst + k + 1 \<le> dst + n"
    "take k s = take (n - 1) s"
    using assms by (auto simp: k_def)
  have "strlcpy m dst src n =
      rbind (memcpy m dst src k) (\<lambda>(m, _). rbind (st8 m (dst + k) 0) (\<lambda>m. Inr (m, length s)))"
    using assms str_at_pos [OF assms(1)] by (simp add: strlcpy_def strlen_at k_def Let_def)
  then show ?thesis
    using copy_terminated [OF assms(1,2) k(1-3), of "length s"] k(4,5)
      same_outside_mono [of dst "dst + k + 1" m _ dst "dst + n"]
    by fastforce
qed


subsection \<open>Replacement\<close>

lemma first_occ_Some:
  assumes "first_occ s t = Some i"
  shows "s = take i s @ t @ drop (i + length t) s" and "i \<le> length s"
proof -
  have "take (length t) (drop i s) = t" "i < Suc (length s)"
    using find_upt_Some [OF assms [unfolded first_occ_def]] by auto
  then show "i \<le> length s" "s = take i s @ t @ drop (i + length t) s"
    by (auto, metis add.commute append_take_drop_id drop_drop)
qed

text \<open>Replacement of the occurrences of \<open>pat\<close> from left to right; the inserted text is not searched.\<close>

function replace_all :: "u8 list \<Rightarrow> u8 list \<Rightarrow> u8 list \<Rightarrow> u8 list" where
  "replace_all pat rep s =
     (if pat = [] then s
      else case first_occ s pat of
        None \<Rightarrow> s
      | Some i \<Rightarrow> take i s @ rep @ replace_all pat rep (drop (i + length pat) s))"
  by pat_completeness auto
termination
proof (relation "measure (\<lambda>(pat, rep, s). length s)", simp, clarsimp)
  fix pat s :: "u8 list" and i
  assume "pat \<noteq> []" "first_occ s pat = Some i"
  then show "length s - (i + length pat) < length s"
    using arg_cong [OF first_occ_Some(1) [of s pat i], of length] by (cases pat) auto
qed

lemmas replace_all_rec [simp del] = replace_all.simps

lemma replace_all_longer:
  "length pat \<le> length rep \<Longrightarrow> length s \<le> length (replace_all pat rep s)"
proof (induction pat rep s rule: replace_all.induct)
  case (1 pat rep s)
  show ?case
  proof (cases "pat = [] \<or> first_occ s pat = None")
    case True
    then show ?thesis by (subst replace_all.simps) auto
  next
    case False
    then obtain i where i: "first_occ s pat = Some i" "pat \<noteq> []" by auto
    have "length s = i + length pat + length (drop (i + length pat) s)"
      using arg_cong [OF first_occ_Some(1) [OF i(1)], of length] first_occ_Some(2) [OF i(1)] by simp
    then show ?thesis
      using "1.IH" [OF i(2,1) "1.prems"] "1.prems" i first_occ_Some(2) [OF i(1)]
      by (subst replace_all.simps) simp
  qed
qed

text \<open>One round: the tail moves by the difference of the lengths, then the replacement is written.\<close>

lemma replace_round:
  assumes s: "str_at m q (pat @ v)" and r: "str_at m r rep"
    and fit: "q + length rep + length v < lim" "lim \<le> length m" "q + length pat + length v < lim"
    and out: "r + length rep < q \<or> lim \<le> r"
  shows "\<exists>m'. rbind (strlen m (q + length pat)) (\<lambda>rest.
      rbind (memmove m (q + length rep) (q + length pat) (rest + 1)) (\<lambda>(m, _).
        copy_up (length rep) m q r)) = Inr (m', q + length rep)
    \<and> str_at m' q (rep @ v) \<and> same_outside q lim m m'"
proof -
  define m1 where "m1 = blit m (q + length rep) (q + length pat) (length v + 1)"
  define m2 where "m2 = blit m1 q r (length rep)"
  have v: "str_at m (q + length pat) v" using s by (simp add: str_at_append)
  have q: "0 < q" using str_at_pos [OF s] by simp
  have mv: "memmove m (q + length rep) (q + length pat) (length v + 1) =
      Inr (m1, if length rep < length pat then q + length rep + (length v + 1) else q + length rep)"
    using q fit copy_up_blit [of "q + length rep" "q + length pat" "length v + 1" m]
      copy_down_blit [of "q + length rep" "q + length pat" "length v + 1" m]
    by (auto simp: memmove_def m1_def)
  have o1: "same_outside q lim m m1"
    unfolding m1_def using fit by (intro same_outside_blit) auto
  have r1: "bytes_at m1 r rep"
    using same_outside_str [OF o1 r] out by (auto intro: str_at_bytes)
  have cp: "copy_up (length rep) m1 q r = Inr (m2, q + length rep)"
    unfolding m2_def using q fit str_at_pos [OF r] out
    by (intro copy_up_blit) (auto simp: m1_def)
  have "bytes_at m1 (q + length rep) (v @ [0])"
    unfolding m1_def using v q fit by (intro bytes_at_blit) (auto simp: str_at_def)
  moreover have "same_outside q (q + length rep) m1 m2"
    unfolding m2_def by (rule same_outside_blit) auto
  ultimately have "bytes_at m2 (q + length rep) (v @ [0])"
    by (auto intro: same_outside_bytes)
  moreover have "bytes_at m2 q rep"
    unfolding m2_def using r1 q fit by (intro bytes_at_blit) (auto simp: m1_def)
  ultimately have "str_at m2 q (rep @ v)"
    using str_at_nonzero [OF r] str_at_nonzero [OF v] by (simp add: str_at_append) (simp add: str_at_def)
  moreover have "same_outside q lim m m2"
    using o1 \<open>same_outside q (q + length rep) m1 m2\<close> fit by (auto intro: same_outside_trans)
  ultimately show ?thesis using strlen_at [OF v] mv cp by auto
qed

lemma replace_matches_at:
  assumes "str_at m q s" "str_at m p pat" "str_at m r rep" "pat \<noteq> []" "length s < fuel"
    "q + length s < lim" "q + length (replace_all pat rep s) < lim" "lim \<le> length m"
    "p + length pat < q \<or> lim \<le> p" "r + length rep < q \<or> lim \<le> r"
  shows "\<exists>m'. replace_matches fuel m q p r (length pat) (length rep) = Inr m'
    \<and> str_at m' q (replace_all pat rep s) \<and> same_outside q lim m m'"
  using assms
proof (induction fuel arbitrary: m q s)
  case (Suc fuel)
  show ?case
  proof (cases "first_occ s pat")
    case None
    then show ?thesis
      using Suc.prems by (simp add: strstr_at replace_all.simps [of pat rep s])
  next
    case (Some i)
    define u v where "u = take i s" and "v = drop (i + length pat) s"
    have s: "s = u @ pat @ v" "length u = i"
      using first_occ_Some [OF Some] by (simp_all add: u_def v_def)
    have ra: "replace_all pat rep s = u @ rep @ replace_all pat rep v"
      using Some Suc.prems(4) by (simp add: replace_all.simps [of pat rep s] u_def v_def)
    have vlen: "length v \<le> length (replace_all pat rep v)" if "length pat \<le> length rep"
      using replace_all_longer [OF that] .
    have vf: "length v < fuel" using Suc.prems(4,5) s by (cases pat) auto
    have fit: "q + i + length rep + length v < lim"
      using Suc.prems(6,7) vlen unfolding ra using s by (cases "length pat \<le> length rep") auto
    have st: "str_at m (q + i) (pat @ v)"
      using Suc.prems(1) s by (simp add: str_at_append)
    obtain m1 where m1: "rbind (strlen m (q + i + length pat)) (\<lambda>rest.
          rbind (memmove m (q + i + length rep) (q + i + length pat) (rest + 1)) (\<lambda>(m, _).
            copy_up (length rep) m (q + i) r)) = Inr (m1, q + i + length rep)"
        "str_at m1 (q + i) (rep @ v)" "same_outside (q + i) lim m m1"
      using replace_round [OF st Suc.prems(3) fit Suc.prems(8)] Suc.prems s by auto
    have str: "str_at m1 (q + i + length rep) v" using m1(2) by (simp add: str_at_append)
    have "\<exists>m'. replace_matches fuel m1 (q + i + length rep) p r (length pat) (length rep) = Inr m'
        \<and> str_at m' (q + i + length rep) (replace_all pat rep v)
        \<and> same_outside (q + i + length rep) lim m1 m'"
      using Suc.prems s ra fit str vf same_outside_str [OF m1(3)] same_outside_length [OF m1(3)]
      by (intro Suc.IH) auto
    then obtain m' where m': "replace_matches fuel m1 (q + i + length rep) p r (length pat) (length rep) = Inr m'"
        "str_at m' (q + i + length rep) (replace_all pat rep v)"
        "same_outside (q + i + length rep) lim m1 m'" by blast
    have "replace_matches (Suc fuel) m q p r (length pat) (length rep) = Inr m'"
      using Suc.prems(1,2) Some str_at_pos [OF Suc.prems(1)] m1(1) m'(1)
      by (simp add: strstr_at case_prod_beta rbind_Inr)
         (auto simp: rbind_Inr)
    moreover have "str_at m' q (u @ rep @ replace_all pat rep v)"
    proof -
      have "bytes_at m1 q (u @ rep)" "0 \<notin> set (u @ rep)"
        using same_outside_bytes [OF m1(3), of q u] Suc.prems(1) m1(2) s
        by (auto simp: str_at_append bytes_at_append)
      then have "bytes_at m' q (u @ rep)"
        using same_outside_bytes [OF m'(3)] s by auto
      then show ?thesis
        using m'(2) s \<open>0 \<notin> set (u @ rep)\<close>
        by (simp add: str_at_append bytes_at_append add.assoc)
    qed
    moreover have "same_outside q lim m m'"
      using m1(3) m'(3) by (auto simp: same_outside_def)
    ultimately show ?thesis using ra by auto
  qed
qed simp

text \<open>The strings the pattern and replacement tables point to.\<close>

definition replace_seq :: "(u8 list \<times> u8 list) list \<Rightarrow> u8 list \<Rightarrow> u8 list" where
  "replace_seq prs s = fold (\<lambda>(pat, rep) s. replace_all pat rep s) prs s"

definition table_at :: "cmem \<Rightarrow> nat list \<Rightarrow> u8 list list \<Rightarrow> nat \<Rightarrow> nat \<Rightarrow> bool" where
  "table_at m ps ss a b = (list_all2 (str_at m) ps ss
     \<and> list_all2 (\<lambda>p s. p + length s < a \<or> b \<le> p) ps ss)"

lemma table_at_nth:
  "table_at m ps ss a b \<Longrightarrow> i < length ss \<Longrightarrow>
   i < length ps \<and> str_at m (ps ! i) (ss ! i) \<and> (ps ! i + length (ss ! i) < a \<or> b \<le> ps ! i)"
  by (auto simp: table_at_def list_all2_conv_all_nth)

lemma table_at_same:
  "table_at m ps ss a b \<Longrightarrow> same_outside a b m m' \<Longrightarrow> table_at m' ps ss a b"
  using same_outside_str [of a b m m'] by (auto simp: table_at_def list_all2_conv_all_nth)

lemma replace_pattern_at:
  assumes "str_at m out s" "table_at m ps pats out lim" "table_at m rs reps out lim"
    "i < length pats" "i < length reps" "pats ! i \<noteq> []" "length s < fuel" "lim \<le> length m"
    "out + length s < lim" "out + length (replace_all (pats ! i) (reps ! i) s) < lim"
  shows "\<exists>m'. replace_pattern fuel out ps rs i m = Inr m'
    \<and> str_at m' out (replace_all (pats ! i) (reps ! i) s) \<and> same_outside out lim m m'"
  using table_at_nth [OF assms(2,4)] table_at_nth [OF assms(3,5)] assms
    replace_matches_at [of m out s "ps ! i" "pats ! i" "rs ! i" "reps ! i" fuel lim]
  by (simp add: replace_pattern_def strlen_at [of m "ps ! i" "pats ! i"]
      strlen_at [of m "rs ! i" "reps ! i"])

lemma replace_patterns_at:
  assumes "str_at m out s" "table_at m ps pats out lim" "table_at m rs reps out lim"
    "length pats = n" "length reps = n" "lim \<le> length m"
    "\<forall>k \<le> n. length (replace_seq (take k (zip pats reps)) s) < fuel
       \<and> out + length (replace_seq (take k (zip pats reps)) s) < lim"
    "\<forall>pat \<in> set pats. pat \<noteq> []"
  shows "\<exists>m'. rfold (replace_pattern fuel out ps rs) [0..<n] m = Inr m'
    \<and> (str_at m' out (replace_seq (take n (zip pats reps)) s) \<and> same_outside out lim m m')"
proof (rule rfold_upt_total)
  show "str_at m out (replace_seq (take 0 (zip pats reps)) s) \<and> same_outside out lim m m"
    using assms(1) by (simp add: replace_seq_def)
next
  fix i m1
  assume i: "0 \<le> i" "i < n"
    and m1: "str_at m1 out (replace_seq (take i (zip pats reps)) s) \<and> same_outside out lim m m1"
  have step: "replace_seq (take (Suc i) (zip pats reps)) s =
      replace_all (pats ! i) (reps ! i) (replace_seq (take i (zip pats reps)) s)"
    using i assms(4,5) by (simp add: replace_seq_def take_Suc_conv_app_nth)
  have fit: "length (replace_seq (take i (zip pats reps)) s) < fuel"
    "out + length (replace_seq (take i (zip pats reps)) s) < lim"
    "out + length (replace_all (pats ! i) (reps ! i) (replace_seq (take i (zip pats reps)) s)) < lim"
    using assms(7) i step [symmetric] by auto
  have "\<exists>m'. replace_pattern fuel out ps rs i m1 = Inr m'
      \<and> str_at m' out (replace_all (pats ! i) (reps ! i) (replace_seq (take i (zip pats reps)) s))
      \<and> same_outside out lim m1 m'"
    using m1 fit i assms same_outside_length [of out lim m m1]
    by (intro replace_pattern_at) (auto intro: table_at_same)
  then show "\<exists>m'. replace_pattern fuel out ps rs i m1 = Inr m'
      \<and> (str_at m' out (replace_seq (take (Suc i) (zip pats reps)) s) \<and> same_outside out lim m m')"
    unfolding step using m1 by (auto intro: same_outside_trans)
qed simp

lemma make_string_replacements_at:
  assumes "str_at m inp s" "length s < out_size" "0 < out" "out + out_size \<le> lim" "lim \<le> length m"
    "inp + length s < out \<or> lim \<le> inp"
    "table_at m ps pats out lim" "table_at m rs reps out lim" "length pats = n" "length reps = n"
    "\<forall>pat \<in> set pats. pat \<noteq> []"
    "\<forall>k \<le> n. length (replace_seq (take k (zip pats reps)) s) < fuel
       \<and> out + length (replace_seq (take k (zip pats reps)) s) < lim"
  shows "\<exists>m'. make_string_replacements fuel m out out_size inp ps rs n = Inr m'
    \<and> str_at m' out (replace_seq (zip pats reps) s) \<and> same_outside out lim m m'"
proof -
  obtain m1 where m1: "strlcpy m out inp out_size = Inr (m1, length s)"
    "str_at m1 out s" "same_outside out (out + out_size) m m1"
    using strlcpy_at [of m inp s out out_size] assms by auto
  have o1: "same_outside out lim m m1"
    using m1(3) assms(4) by (auto intro: same_outside_mono)
  obtain m' where m': "rfold (replace_pattern fuel out ps rs) [0..<n] m1 = Inr m'"
    "str_at m' out (replace_seq (take n (zip pats reps)) s)" "same_outside out lim m1 m'"
    using replace_patterns_at [OF m1(2) table_at_same [OF assms(7) o1] table_at_same [OF assms(8) o1]
        assms(9,10) _ assms(12,11)] assms(5) same_outside_length [OF o1] by auto
  show ?thesis
    using m1 m' assms o1 by (auto simp: make_string_replacements_def strlen_at intro: same_outside_trans)
qed

subsection \<open>Properties\<close>

text \<open>
  C27.  Calling \<open>strtok_r\<close> on a string and then with a null pointer until it returns one
  yields pointers to exactly the maximal runs of non-delimiters of the string, in order,
  and touches nothing outside the string.  The loop ends after at most one call more than
  the string has bytes.
\<close>

theorem strtok_r_tokens:
  assumes "str_at m p s" "str_at m d ds" "length s < fuel"
    "d + length ds < p \<or> p + length s < d"
  shows "\<exists>m' ps. strtok_all fuel m p d save = Inr (m', ps)
    \<and> list_all2 (str_at m') ps (tokens (set ds) s) \<and> same_outside p (p + length s) m m'"
  using assms by (rule strtok_all_at)

text \<open>The memory holds the string \<open>" ab  c"\<close> at 1 and the delimiter \<open>" "\<close> at 8.\<close>

definition strtok_example :: cmem where
  "strtok_example = [0, 32, 97, 98, 32, 32, 99, 0, 32, 0]"

theorem strtok_r_tokens_witness:
  "\<exists>m' ps. strtok_all 7 strtok_example 1 8 0 = Inr (m', ps)
    \<and> list_all2 (str_at m') ps (tokens (set [32]) [32, 97, 98, 32, 32, 99])
    \<and> same_outside 1 (1 + length [32, 97, 98, 32, 32, 99 :: u8]) strtok_example m'"
  by (rule strtok_r_tokens) (simp_all add: strtok_example_def)



text \<open>
  C37.  \<open>memmove\<close> puts the old contents of the source block into the destination block
  and changes nothing else, however the blocks overlap.  The pointer it returns is the
  destination only when the destination is not below the source; otherwise it is the
  first byte after the destination block.
\<close>

theorem memmove_correct:
  assumes "0 < dst" "0 < src" "dst + n \<le> length m" "src + n \<le> length m"
  shows "memmove m dst src n = Inr (blit m dst src n, if dst < src then dst + n else dst)"
  using assms by (simp add: memmove_def copy_up_blit copy_down_blit)

theorem memmove_correct_witness:
  "memmove [0, 1, 2, 3, 4, 5] 1 2 3 = Inr ([0, 2, 3, 4, 4, 5], 4)
   \<and> memmove [0, 1, 2, 3, 4, 5] 2 1 3 = Inr ([0, 1, 1, 2, 3, 5], 2)"
  using memmove_correct [of 1 2 3 "[0, 1, 2, 3, 4, 5]"] memmove_correct [of 2 1 3 "[0, 1, 2, 3, 4, 5]"]
  by (simp add: blit_def upt_rec)

text \<open>
  C40.  \<open>make_string_replacements\<close> leaves in the output buffer the input with every
  pattern of the table replaced in turn, provided the result of each pattern fits the
  memory up to \<open>lim\<close> and the input and the table lie outside it.
\<close>

theorem make_string_replacements_correct:
  assumes "str_at m inp s" "length s < out_size" "0 < out" "out + out_size \<le> lim" "lim \<le> length m"
    "inp + length s < out \<or> lim \<le> inp"
    "table_at m ps pats out lim" "table_at m rs reps out lim" "length pats = n" "length reps = n"
    "\<forall>pat \<in> set pats. pat \<noteq> []"
    "\<forall>k \<le> n. length (replace_seq (take k (zip pats reps)) s) < fuel
       \<and> out + length (replace_seq (take k (zip pats reps)) s) < lim"
  shows "\<exists>m'. make_string_replacements fuel m out out_size inp ps rs n = Inr m'
    \<and> str_at m' out (replace_seq (zip pats reps) s) \<and> same_outside out lim m m'"
  using assms by (rule make_string_replacements_at)

text \<open>Input \<open>"ab"\<close> at 1, pattern \<open>"a"\<close> at 4, replacement \<open>"cc"\<close> at 6, output from 9.\<close>

definition replace_example :: cmem where
  "replace_example = [0, 97, 98, 0, 97, 0, 99, 99, 0, 0, 0, 0, 0, 0]"

lemma replace_example_value: "replace_all [97] [99, 99] [97, 98] = [99, 99, 98]"
  by (simp add: replace_all.simps first_occ_def upt_rec)

theorem make_string_replacements_correct_witness:
  "\<exists>m'. make_string_replacements 5 replace_example 9 4 1 [4] [6] 1 = Inr m'
    \<and> str_at m' 9 (replace_seq (zip [[97]] [[99, 99]]) [97, 98]) \<and> same_outside 9 14 replace_example m'"
  by (rule make_string_replacements_correct)
     (simp_all add: replace_example_def table_at_def replace_seq_def replace_example_value le_Suc_eq)

text \<open>
  The routine has no bound on the length after replacement: with a two byte output
  buffer, the input \<open>"a"\<close> and the replacement \<open>"bbb"\<close> it succeeds and writes beyond the
  buffer, although its only check, that the input fits, holds.
\<close>

definition overflow_example :: cmem where
  "overflow_example = [0, 97, 0, 98, 98, 98, 0, 0, 0, 55, 55, 55]"

lemma make_string_replacements_overflow:
  "\<exists>m'. make_string_replacements 5 overflow_example 7 2 1 [1] [3] 1 = Inr m'
    \<and> overflow_example ! (7 + 2) = 55 \<and> m' ! (7 + 2) = 98"
proof -
  have v: "replace_all [97] [98, 98, 98] [97] = [98, 98, 98]"
    by (simp add: replace_all.simps first_occ_def upt_rec)
  have "\<exists>m'. make_string_replacements 5 overflow_example 7 2 1 [1] [3] 1 = Inr m'
      \<and> str_at m' 7 (replace_seq (zip [[97]] [[98, 98, 98]]) [97]) \<and> same_outside 7 12 overflow_example m'"
    by (rule make_string_replacements_at)
       (simp_all add: overflow_example_def table_at_def replace_seq_def v le_Suc_eq)
  then show ?thesis
    by (auto simp: replace_seq_def v overflow_example_def)
qed

end
