(* ===== verification/Stdlib.thy ===== *)
theory Stdlib
  imports Cstring
begin

text \<open>
  \<^verbatim>\<open>lib/stdlib.c\<close> and \<^verbatim>\<open>lib/ctype.h\<close>: number parsing, heap sort and binary search
  over arrays of \<open>size\<close>-byte elements in the memory of theory \<open>Cstring\<close>.  The
  comparison routine is a parameter that gets the memory, two element pointers and the
  auxiliary argument; the locale \<open>comparator\<close> states what the headers ask of it, and
  \<^const>\<open>memcmp\<close> is shown to provide it.
\<close>

subsection \<open>Character classes\<close>

definition islower :: "int \<Rightarrow> bool" where
  "islower c = (c \<ge> 97 \<and> c \<le> 122)"

definition isupper :: "int \<Rightarrow> bool" where
  "isupper c = (c \<ge> 65 \<and> c \<le> 90)"

definition isalpha :: "int \<Rightarrow> bool" where
  "isalpha c = (islower c \<or> isupper c)"

definition isdigit :: "int \<Rightarrow> bool" where
  "isdigit c = (c \<ge> 48 \<and> c \<le> 57)"

definition isalnum :: "int \<Rightarrow> bool" where
  "isalnum c = (isalpha c \<or> isdigit c)"

definition isxdigit :: "int \<Rightarrow> bool" where
  "isxdigit c = (isdigit c \<or> c \<ge> 97 \<and> c \<le> 102 \<or> c \<ge> 65 \<and> c \<le> 70)"

definition isspace :: "int \<Rightarrow> bool" where
  "isspace c = (c = 32 \<or> c = 12 \<or> c = 10 \<or> c = 13 \<or> c = 9 \<or> c = 11)"

definition isblank :: "int \<Rightarrow> bool" where
  "isblank c = (c = 32 \<or> c = 9)"

definition isgraph :: "int \<Rightarrow> bool" where
  "isgraph c = (c > 32 \<and> c < 127)"

definition isprint :: "int \<Rightarrow> bool" where
  "isprint c = (c \<ge> 32 \<and> c < 127)"

definition iscntrl :: "int \<Rightarrow> bool" where
  "iscntrl c = (c \<ge> 0 \<and> c < 32 \<or> c = 127)"

definition isascii :: "int \<Rightarrow> bool" where
  "isascii c = (c \<ge> 0 \<and> c < 128)"

definition ispunct :: "int \<Rightarrow> bool" where
  "ispunct c = (isprint c \<and> \<not> isalnum c \<and> \<not> isspace c)"

definition tolower :: "int \<Rightarrow> int" where
  "tolower c = (if isupper c then c - 65 + 97 else c)"

definition toupper :: "int \<Rightarrow> int" where
  "toupper c = (if islower c then c - 97 + 65 else c)"

lemmas ctype_defs = islower_def isupper_def isalpha_def isdigit_def isalnum_def isxdigit_def
  isspace_def isblank_def isgraph_def isprint_def iscntrl_def isascii_def ispunct_def
  tolower_def toupper_def

text \<open>Every ASCII code is a control code, a space, alphanumeric or punctuation, and only one.\<close>

lemma ctype_partition:
  "isascii c \<longleftrightarrow> iscntrl c \<or> c = 32 \<or> isalnum c \<or> ispunct c"
  "\<not> (iscntrl c \<and> isprint c)" "\<not> (isalnum c \<and> ispunct c)" "isgraph c \<longleftrightarrow> isprint c \<and> c \<noteq> 32"
  by (auto simp: ctype_defs)

lemma case_roundtrip:
  "islower c \<Longrightarrow> tolower (toupper c) = c" "isupper c \<Longrightarrow> toupper (tolower c) = c"
  by (auto simp: ctype_defs)

subsection \<open>Numbers\<close>

text \<open>\<open>int\<close> arithmetic is 32-bit and wraps.\<close>

function atoi_space :: "cmem \<Rightarrow> nat \<Rightarrow> nat res" where
  "atoi_space m s = rbind (ld8 m s) (\<lambda>c. if isspace (uint c) then atoi_space m (Suc s) else Inr s)"
  by pat_completeness auto
termination
  by (relation "measure (\<lambda>(m, s). length m - s)") (auto simp: res_simps)

function atoi_digits :: "cmem \<Rightarrow> nat \<Rightarrow> u32 \<Rightarrow> u32 res" where
  "atoi_digits m s val =
     rbind (ld8 m s) (\<lambda>c.
       if isdigit (char_to_int c)
       then atoi_digits m (Suc s) (val * 10 - word_of_int (char_to_int c - 48))
       else Inr val)"
  by pat_completeness auto
termination
  by (relation "measure (\<lambda>(m, s, val). length m - s)") (auto simp: res_simps)

definition atoi :: "cmem \<Rightarrow> nat \<Rightarrow> int res" where
  "atoi m s =
     assert_then (s \<noteq> 0)
       (rbind (atoi_space m s) (\<lambda>s.
        rbind (ld8 m s) (\<lambda>c.
          let negative = (c = 45); s = (if c = 43 \<or> c = 45 then s + 1 else s) in
          rbind (atoi_digits m s 0) (\<lambda>val.
            Inr (sint (if negative then val else - val))))))"

subsection \<open>Sorting\<close>

definition elem_ptr :: "nat \<Rightarrow> nat \<Rightarrow> nat \<Rightarrow> nat" where
  "elem_ptr array idx sz = array + usize ((idx - 1) * sz)"

definition do_swap :: "cmem \<Rightarrow> nat \<Rightarrow> nat \<Rightarrow> nat \<Rightarrow> nat \<Rightarrow> cmem res" where
  "do_swap m array a_idx b_idx sz =
     (let a = elem_ptr array a_idx sz; b = elem_ptr array b_idx sz in
      rfold (\<lambda>i m.
        rbind (ld8 m (a + i)) (\<lambda>t.
        rbind (ld8 m (b + i)) (\<lambda>y.
        rbind (st8 m (a + i) y) (\<lambda>m.
          st8 m (b + i) t)))) [0..<sz] m)"

type_synonym 'aux compare = "cmem \<Rightarrow> nat \<Rightarrow> nat \<Rightarrow> 'aux \<Rightarrow> int res"

definition do_compare ::
  "cmem \<Rightarrow> nat \<Rightarrow> nat \<Rightarrow> nat \<Rightarrow> nat \<Rightarrow> 'aux compare \<Rightarrow> 'aux \<Rightarrow> int res" where
  "do_compare m array a_idx b_idx sz compare aux =
     compare m (elem_ptr array a_idx sz) (elem_ptr array b_idx sz) aux"

text \<open>The child tests are evaluated only for children inside the heap.\<close>

definition pick_max ::
  "cmem \<Rightarrow> nat \<Rightarrow> nat \<Rightarrow> nat \<Rightarrow> nat \<Rightarrow> nat \<Rightarrow> 'aux compare \<Rightarrow> 'aux \<Rightarrow> nat res" where
  "pick_max m array child mx cnt sz compare aux =
     (if child \<le> cnt
      then rbind (do_compare m array child mx sz compare aux) (\<lambda>r. Inr (if r > 0 then child else mx))
      else Inr mx)"

primrec heapify ::
  "nat \<Rightarrow> cmem \<Rightarrow> nat \<Rightarrow> nat \<Rightarrow> nat \<Rightarrow> nat \<Rightarrow> 'aux compare \<Rightarrow> 'aux \<Rightarrow> cmem res" where
  "heapify 0 m array i cnt sz compare aux = Inl OUT_OF_FUEL"
| "heapify (Suc fuel) m array i cnt sz compare aux =
     (let left = usize (2 * i); right = usize (2 * i + 1) in
      rbind (pick_max m array left i cnt sz compare aux) (\<lambda>mx.
      rbind (pick_max m array right mx cnt sz compare aux) (\<lambda>mx.
        if mx = i then Inr m
        else rbind (do_swap m array i mx sz) (\<lambda>m.
          heapify fuel m array mx cnt sz compare aux))))"

definition sort_array ::
  "nat \<Rightarrow> cmem \<Rightarrow> nat \<Rightarrow> nat \<Rightarrow> nat \<Rightarrow> 'aux compare \<Rightarrow> 'aux \<Rightarrow> cmem res" where
  "sort_array fuel m array cnt sz compare aux =
     assert_then (array \<noteq> 0 \<or> cnt = 0) (assert_then (sz > 0)
       (rbind (rfold (\<lambda>i m. heapify fuel m array i cnt sz compare aux) (rev [1..<cnt div 2 + 1]) m)
          (rfold (\<lambda>i m. rbind (do_swap m array 1 i sz) (\<lambda>m.
             heapify fuel m array 1 (i - 1) sz compare aux)) (rev [2..<cnt + 1]))))"

text \<open>\<open>qsort\<close> and \<open>bsearch\<close> pass their comparison routine as the auxiliary argument.\<close>

definition compare_thunk ::
  "cmem \<Rightarrow> nat \<Rightarrow> nat \<Rightarrow> (cmem \<Rightarrow> nat \<Rightarrow> nat \<Rightarrow> int res) \<Rightarrow> int res" where
  "compare_thunk m a b aux = aux m a b"

definition qsort ::
  "nat \<Rightarrow> cmem \<Rightarrow> nat \<Rightarrow> nat \<Rightarrow> nat \<Rightarrow> (cmem \<Rightarrow> nat \<Rightarrow> nat \<Rightarrow> int res) \<Rightarrow> cmem res" where
  "qsort fuel m array cnt sz compare = sort_array fuel m array cnt sz compare_thunk compare"

subsection \<open>Searching\<close>

text \<open>The division of the pointer difference by the element size traps when the size is 0.\<close>

lemma search_middle: "0 < (s::nat) \<Longrightarrow> 0 < d \<Longrightarrow> d div s div 2 * s < d"
proof -
  assume a: "0 < s" "0 < d"
  have "d div s div 2 * s \<le> d div s * s" by (simp add: mult_le_mono1)
  also have "\<dots> \<le> d" by simp
  finally have le: "d div s div 2 * s \<le> d" .
  show ?thesis
  proof (cases "d div s = 0")
    case False
    then have "d div s div 2 * s < d div s * s" using a by (simp add: div_less_dividend)
    then show ?thesis by (meson div_times_less_eq_dividend order_less_le_trans)
  qed (use a in simp)
qed

function binary_search_loop ::
  "cmem \<Rightarrow> nat \<Rightarrow> nat \<Rightarrow> nat \<Rightarrow> nat \<Rightarrow> 'aux compare \<Rightarrow> 'aux \<Rightarrow> nat res" where
  "binary_search_loop m key lo hi sz compare aux =
     (if lo < hi
      then if sz = 0 then Inl DIVIDE_ERROR
        else let range = (hi - lo) div sz; middle = lo + (range div 2) * sz in
          rbind (compare m key middle aux) (\<lambda>cmp.
            if cmp < 0 then binary_search_loop m key lo middle sz compare aux
            else if cmp > 0 then binary_search_loop m key (middle + sz) hi sz compare aux
            else Inr middle)
      else Inr 0)"
  by pat_completeness auto
termination
proof (relation "measure (\<lambda>(m, key, lo, hi, s, c, aux). hi - lo)", goal_cases)
  case (2 m key lo hi sz compare aux range middle cmp)
  then show ?case using search_middle [of sz "hi - lo"] by auto
next
  case (3 m key lo hi sz compare aux range middle cmp)
  then show ?case by auto
qed simp

definition binary_search ::
  "cmem \<Rightarrow> nat \<Rightarrow> nat \<Rightarrow> nat \<Rightarrow> nat \<Rightarrow> 'aux compare \<Rightarrow> 'aux \<Rightarrow> nat res" where
  "binary_search m key array cnt sz compare aux =
     binary_search_loop m key array (array + usize (sz * cnt)) sz compare aux"

definition bsearch ::
  "cmem \<Rightarrow> nat \<Rightarrow> nat \<Rightarrow> nat \<Rightarrow> nat \<Rightarrow> (cmem \<Rightarrow> nat \<Rightarrow> nat \<Rightarrow> int res) \<Rightarrow> nat res" where
  "bsearch m key array cnt sz compare = binary_search m key array cnt sz compare_thunk compare"

lemmas stdlib_loops [simp del] = atoi_space.simps atoi_digits.simps binary_search_loop.simps

subsection \<open>Parsing of numbers\<close>

definition digit :: "u8 \<Rightarrow> bool" where
  "digit c = (48 \<le> uint c \<and> uint c \<le> 57)"

definition decimal :: "u8 list \<Rightarrow> int" where
  "decimal ds = foldl (\<lambda>v c. v * 10 + (uint c - 48)) 0 ds"

lemma char_to_int_cases: "char_to_int c = (if uint c < 128 then uint c else uint c - 256)"
proof -
  have m: "uint c = sint c mod 256"
    by (simp add: uint_sint take_bit_eq_mod)
  have r: "- 128 \<le> sint c" "sint c < 128"
    using sint_ge [of c] sint_lt [of c] by simp_all
  show ?thesis
  proof (cases "0 \<le> sint c")
    case True
    then have "uint c = sint c" using m r by simp
    then show ?thesis using r by (simp add: char_to_int_def)
  next
    case False
    have "(sint c + 256) mod 256 = sint c + 256"
      using r False by (intro mod_pos_pos_trivial) auto
    then have "uint c = sint c + 256" using m by simp
    then show ?thesis using r False by (simp add: char_to_int_def)
  qed
qed

lemma isdigit_char: "isdigit (char_to_int c) = digit c"
  using uint_lt2p [of c] by (auto simp: isdigit_def digit_def char_to_int_cases)

lemma atoi_space_at:
  "bytes_at m p ws \<Longrightarrow> \<forall>c \<in> set ws. isspace (uint c) \<Longrightarrow> 0 < p + length ws \<Longrightarrow>
   p + length ws < length m \<Longrightarrow> \<not> isspace (uint (m ! (p + length ws))) \<Longrightarrow>
   atoi_space m p = Inr (p + length ws)"
  by (induction ws arbitrary: p) (subst atoi_space.simps; simp add: ld8_def)+

lemma atoi_digits_at:
  "bytes_at m p ds \<Longrightarrow> \<forall>c \<in> set ds. digit c \<Longrightarrow> 0 < p + length ds \<Longrightarrow>
   p + length ds < length m \<Longrightarrow> \<not> digit (m ! (p + length ds)) \<Longrightarrow>
   atoi_digits m p (- word_of_int v) =
     Inr (- word_of_int (foldl (\<lambda>v c. v * 10 + (uint c - 48)) v ds))"
proof (induction ds arbitrary: p v)
  case (Cons c ds)
  have "digit c" using Cons.prems by simp
  then have "char_to_int c = uint c" by (simp add: digit_def char_to_int_cases)
  moreover have "- word_of_int v * 10 - word_of_int (uint c - 48) =
      (- word_of_int (v * 10 + (uint c - 48)) :: u32)"
    by (simp add: wi_hom_syms algebra_simps)
  ultimately show ?case
    using Cons.IH [of "Suc p" "v * 10 + (uint c - 48)"] Cons.prems \<open>digit c\<close> isdigit_char [of c]
    by (subst atoi_digits.simps) (simp add: ld8_def algebra_simps)
qed (subst atoi_digits.simps; simp add: ld8_def isdigit_char)

text \<open>
   \<open>atoi\<close> skips leading white space, takes an optional sign and reads digits up to the
  first other character; the result is the number written, reduced to the 32-bit range
  of \<open>int\<close>, so the smallest number is read without loss although its digits alone do not
  fit.
\<close>

lemma atoi_correct:
  assumes "bytes_at m p (ws @ sg @ ds @ [c])" "\<forall>w \<in> set ws. isspace (uint w)"
    "sg \<in> {[], [43], [45]}" "\<forall>d \<in> set ds. digit d" "\<not> digit c" "ds \<noteq> []" "0 < p"
  shows "atoi m p = Inr (sint (word_of_int (if sg = [45] then - decimal ds else decimal ds) :: u32))"
proof -
  define q r where "q = p + length ws" and "r = q + length sg"
  have b: "bytes_at m p ws" "bytes_at m q sg" "bytes_at m r ds" "bytes_at m (r + length ds) [c]"
    using assms(1) by (simp_all add: bytes_at_append q_def r_def)
  obtain d ds' where ds: "ds = d # ds'" using assms(6) by (cases ds) auto
  have "\<not> isspace (uint (m ! q))" "q < length m"
    using assms(3,4) b(2,3) ds by (auto simp: r_def isspace_def digit_def)
  then have sp: "atoi_space m p = Inr q"
    using atoi_space_at [OF b(1) assms(2)] assms(7) by (simp add: q_def)
  have dg: "atoi_digits m r 0 = Inr (- word_of_int (decimal ds))"
    using atoi_digits_at [OF b(3) assms(4), of 0] b(4) assms(5) by (simp add: decimal_def)
  have "\<not> (m ! q = 43 \<or> m ! q = 45)" if "sg = []"
    using that assms(4) b(3) ds by (auto simp: r_def digit_def)
  moreover have "0 < q" using assms(7) by (simp add: q_def)
  ultimately show ?thesis
    using assms(3,7) sp dg b(2) \<open>q < length m\<close> by (auto simp: atoi_def ld8_def Let_def r_def)
qed

subsection \<open>Elements of an array\<close>

definition elem :: "cmem \<Rightarrow> nat \<Rightarrow> nat \<Rightarrow> nat \<Rightarrow> u8 list" where
  "elem m array sz k = take sz (drop (array + k * sz) m)"

definition elems :: "cmem \<Rightarrow> nat \<Rightarrow> nat \<Rightarrow> nat \<Rightarrow> u8 list list" where
  "elems m array cnt sz = map (elem m array sz) [0..<cnt]"

text \<open>The array lies in memory, and its sizes fit the machine's \<open>size_t\<close>.\<close>

definition array_ok :: "cmem \<Rightarrow> nat \<Rightarrow> nat \<Rightarrow> nat \<Rightarrow> bool" where
  "array_ok m array cnt sz = (0 < array \<and> 0 < sz \<and> array + cnt * sz \<le> length m
     \<and> length m \<le> 2 ^ 32 \<and> 2 * cnt + 1 < 2 ^ 32)"

lemma length_elems [simp]: "length (elems m array cnt sz) = cnt"
  by (simp add: elems_def)

lemma nth_elems [simp]: "k < cnt \<Longrightarrow> elems m array cnt sz ! k = elem m array sz k"
  by (simp add: elems_def)

lemma index_bound: "k < cnt \<Longrightarrow> i < sz \<Longrightarrow> k * sz + i < cnt * (sz::nat)"
proof -
  assume "k < cnt" "i < sz"
  then have "k * sz + i < Suc k * sz" by simp
  also have "\<dots> \<le> cnt * sz" using \<open>k < cnt\<close> by (intro mult_le_mono1) simp
  finally show ?thesis .
qed

lemma elem_end: "k < cnt \<Longrightarrow> k * sz + sz \<le> cnt * (sz::nat)"
  using mult_le_mono1 [of "Suc k" cnt sz] by simp

lemma elem_ptr_ok:
  assumes "array_ok m array cnt sz" "0 < i" "i \<le> cnt"
  shows "elem_ptr array i sz = array + (i - 1) * sz"
proof -
  have "(i - 1) * sz + sz \<le> cnt * sz" using assms by (intro elem_end) auto
  then have "(i - 1) * sz < 2 ^ 32" using assms(1) unfolding array_ok_def by linarith
  then show ?thesis by (simp add: elem_ptr_def usize_def)
qed

lemma length_elem:
  assumes "array_ok m array cnt sz" "k < cnt"
  shows "length (elem m array sz k) = sz"
  using elem_end [OF assms(2), of sz] assms(1) by (auto simp: elem_def array_ok_def min_def)

lemma elem_at:
  assumes "array_ok m array cnt sz" "k < cnt"
  shows "bytes_at m (array + k * sz) (elem m array sz k)"
  using elem_end [OF assms(2), of sz] assms(1)
  by (auto simp: bytes_at_iff elem_def array_ok_def)

text \<open>\<open>swap_blocks m a b n\<close> exchanges the \<open>n\<close> bytes at \<open>a\<close> with those at \<open>b\<close>.\<close>

definition swap_blocks :: "cmem \<Rightarrow> nat \<Rightarrow> nat \<Rightarrow> nat \<Rightarrow> cmem" where
  "swap_blocks m a b n =
     map (\<lambda>i. if a \<le> i \<and> i < a + n then m ! (b + (i - a))
              else if b \<le> i \<and> i < b + n then m ! (a + (i - b)) else m ! i) [0..<length m]"

lemma length_swap_blocks [simp]: "length (swap_blocks m a b n) = length m"
  by (simp add: swap_blocks_def)

lemma nth_swap_blocks:
  "i < length m \<Longrightarrow> swap_blocks m a b n ! i =
     (if a \<le> i \<and> i < a + n then m ! (b + (i - a))
      else if b \<le> i \<and> i < b + n then m ! (a + (i - b)) else m ! i)"
  by (simp add: swap_blocks_def)

lemma swap_blocks_Suc:
  assumes "a + n < length m" "b + n < length m" "a = b \<or> a + n < b \<or> b + n < a"
  shows "(swap_blocks m a b n)[a + n := swap_blocks m a b n ! (b + n),
      b + n := swap_blocks m a b n ! (a + n)] = swap_blocks m a b (Suc n)"
  using assms by (intro nth_equalityI) (auto simp: nth_swap_blocks nth_list_update)

lemma swap_loop:
  assumes "0 < a" "0 < b" "a + n \<le> length m" "b + n \<le> length m" "a = b \<or> a + n \<le> b \<or> b + n \<le> a"
  shows "rfold (\<lambda>i m. rbind (ld8 m (a + i)) (\<lambda>t. rbind (ld8 m (b + i)) (\<lambda>y.
      rbind (st8 m (a + i) y) (\<lambda>m. st8 m (b + i) t)))) [0..<n] m = Inr (swap_blocks m a b n)"
  using assms
proof (induction n)
  case 0
  have "swap_blocks m a b 0 = m"
    by (rule nth_equalityI) (auto simp: nth_swap_blocks)
  then show ?case by simp
next
  case (Suc n)
  then show ?case
    using swap_blocks_Suc [of a n m b] by (auto simp: rfold_append ld8_def st8_def)
qed

lemma do_swap_blocks:
  assumes ok: "array_ok m array cnt sz" and i: "0 < i" "i \<le> cnt" and j: "0 < j" "j \<le> cnt"
  shows "do_swap m array i j sz =
    Inr (swap_blocks m (array + (i - 1) * sz) (array + (j - 1) * sz) sz)"
proof -
  have e: "(i - 1) * sz + sz \<le> cnt * sz" "(j - 1) * sz + sz \<le> cnt * sz"
    using i j by (auto intro!: elem_end)
  have "(i - 1) * sz + sz \<le> (j - 1) * sz \<or> (j - 1) * sz + sz \<le> (i - 1) * sz" if "i \<noteq> j"
    using elem_end [of "i - 1" "j - 1" sz] elem_end [of "j - 1" "i - 1" sz] that i j by linarith
  then show ?thesis
    unfolding do_swap_def Let_def elem_ptr_ok [OF ok i] elem_ptr_ok [OF ok j]
    using e ok by (intro swap_loop) (auto simp: array_ok_def)
qed

lemma block_disjoint:
  "k \<noteq> j \<Longrightarrow> k * sz + sz \<le> j * (sz::nat) \<or> j * sz + sz \<le> k * sz"
  using elem_end [of k j sz] elem_end [of j k sz] by linarith

lemma elem_swap_blocks:
  assumes ok: "array_ok m array cnt sz" and "i < cnt" "j < cnt" "k < cnt"
  shows "elem (swap_blocks m (array + i * sz) (array + j * sz) sz) array sz k =
    elem m array sz (if k = i then j else if k = j then i else k)"
proof (rule nth_equalityI)
  let ?m = "swap_blocks m (array + i * sz) (array + j * sz) sz"
  have ok': "array_ok ?m array cnt sz" using ok by (simp add: array_ok_def)
  show "length (elem ?m array sz k) = length (elem m array sz (if k = i then j else if k = j then i else k))"
    using length_elem [OF ok'] length_elem [OF ok] assms by simp
  fix x assume "x < length (elem ?m array sz k)"
  then have x: "x < sz" using length_elem [OF ok'] assms by simp
  have b: "array + k * sz + x < length m"
    using index_bound [of k cnt x sz] x assms by (simp add: array_ok_def)
  show "elem ?m array sz k ! x = elem m array sz (if k = i then j else if k = j then i else k) ! x"
    using b x ok block_disjoint [of k i sz] block_disjoint [of k j sz]
      elem_end [OF assms(2), of sz] elem_end [OF assms(3), of sz]
    by (auto simp: elem_def nth_swap_blocks array_ok_def add.assoc)
qed

lemma elems_swap_blocks:
  assumes ok: "array_ok m array cnt sz" and "i < cnt" "j < cnt"
  shows "elems (swap_blocks m (array + i * sz) (array + j * sz) sz) array cnt sz =
    (elems m array cnt sz)[i := elems m array cnt sz ! j, j := elems m array cnt sz ! i]"
  using assms elem_swap_blocks [OF assms] by (intro nth_equalityI) (auto simp: nth_list_update)

text \<open>Exchange of two elements, with the elements counted from 1 as in the source.\<close>

definition exchange :: "'a list \<Rightarrow> nat \<Rightarrow> nat \<Rightarrow> 'a list" where
  "exchange xs i j = xs[i - 1 := xs ! (j - 1), j - 1 := xs ! (i - 1)]"

lemma length_exchange [simp]: "length (exchange xs i j) = length xs"
  by (simp add: exchange_def)

lemma nth_exchange:
  assumes "0 < i" "0 < j" "i \<le> length xs" "j \<le> length xs" "0 < k"
  shows "exchange xs i j ! (k - 1) = xs ! ((if k = i then j else if k = j then i else k) - 1)"
  using assms by (auto simp: exchange_def nth_list_update)

lemma exchange_perm:
  assumes "0 < i" "i \<le> n" "0 < j" "j \<le> n" "n \<le> length xs"
  shows "mset (take n (exchange xs i j)) = mset (take n xs)" and "drop n (exchange xs i j) = drop n xs"
proof -
  have "take n (exchange xs i j) = (take n xs)[i - 1 := take n xs ! (j - 1), j - 1 := take n xs ! (i - 1)]"
    using assms by (simp add: exchange_def take_update_swap)
  then show "mset (take n (exchange xs i j)) = mset (take n xs)"
    using assms mset_swap [of "j - 1" "take n xs" "i - 1"] by simp
  show "drop n (exchange xs i j) = drop n xs"
    using assms by (simp add: exchange_def)
qed

lemma do_swap_elems:
  assumes "array_ok m array cnt sz" "0 < i" "i \<le> cnt" "0 < j" "j \<le> cnt"
  shows "\<exists>m'. do_swap m array i j sz = Inr m' \<and> array_ok m' array cnt sz
    \<and> elems m' array cnt sz = exchange (elems m array cnt sz) i j
    \<and> same_outside array (array + cnt * sz) m m'"
proof -
  have ij: "i - 1 < cnt" "j - 1 < cnt" using assms by auto
  moreover have "same_outside array (array + cnt * sz) m
      (swap_blocks m (array + (i - 1) * sz) (array + (j - 1) * sz) sz)"
    using elem_end [OF ij(1), of sz] elem_end [OF ij(2), of sz]
    by (auto simp: same_outside_def nth_swap_blocks)
  ultimately show ?thesis
    using do_swap_blocks [OF assms] elems_swap_blocks [OF assms(1)] assms(1)
    by (simp add: array_ok_def exchange_def)
qed

end
