(* ===== verification/Heapsort.thy ===== *)
theory Heapsort
  imports Stdlib
begin

text \<open>
  Correctness of the heap sort and the binary search of \<^verbatim>\<open>lib/stdlib.c\<close> (theory
  \<open>Stdlib\<close>) for every comparison routine that meets the contract \<open>comparator\<close>, and the
  proof that \<^const>\<open>memcmp\<close> meets it.
\<close>

subsection \<open>The contract of a comparison routine\<close>

locale comparator =
  fixes compare :: "'aux compare"
    and aux :: 'aux
    and sz :: nat
    and ord :: "u8 list \<Rightarrow> u8 list \<Rightarrow> int"
  assumes compare_reads: "length x = sz \<Longrightarrow> length y = sz \<Longrightarrow> bytes_at m a x \<Longrightarrow> bytes_at m b y \<Longrightarrow>
      compare m a b aux = Inr (ord x y)"
    and ord_swap: "0 < ord x y \<longleftrightarrow> ord y x < 0"
    and ord_trans: "ord x y \<le> 0 \<Longrightarrow> ord y z \<le> 0 \<Longrightarrow> ord x z \<le> 0"
begin

lemma ord_refl: "ord x x \<le> 0"
  using ord_swap [of x x] by linarith

lemma ord_linear: "0 < ord x y \<Longrightarrow> ord y x \<le> 0"
  using ord_swap [of x y] by simp

lemma ord_eq_sym: "ord x y = 0 \<longleftrightarrow> ord y x = 0"
  using ord_swap [of x y] ord_swap [of y x] by linarith

lemma do_compare_elems:
  assumes "array_ok m array cnt sz" "0 < i" "i \<le> cnt" "0 < j" "j \<le> cnt"
  shows "do_compare m array i j sz compare aux =
    Inr (ord (elems m array cnt sz ! (i - 1)) (elems m array cnt sz ! (j - 1)))"
proof -
  have ij: "i - 1 < cnt" "j - 1 < cnt" using assms by auto
  show ?thesis
    unfolding do_compare_def elem_ptr_ok [OF assms(1,2,3)] elem_ptr_ok [OF assms(1,4,5)]
    using ij assms(1) compare_reads [OF length_elem length_elem elem_at elem_at] by simp
qed

text \<open>
  \<open>heap lo n xs\<close>: every element of the first \<open>n\<close>, counted from 1, is at most its parent,
  for the parents from \<open>lo\<close> on.  \<open>heap_but i\<close> leaves out the children of \<open>i\<close>, which are
  at most the parent of \<open>i\<close> instead.
\<close>

definition below :: "u8 list list \<Rightarrow> nat \<Rightarrow> nat \<Rightarrow> bool" where
  "below xs k p \<longleftrightarrow> ord (xs ! (k - 1)) (xs ! (p - 1)) \<le> 0"

definition heap :: "nat \<Rightarrow> nat \<Rightarrow> u8 list list \<Rightarrow> bool" where
  "heap lo n xs \<longleftrightarrow> (\<forall>k \<le> n. lo \<le> k div 2 \<longrightarrow> below xs k (k div 2))"

definition heap_but :: "nat \<Rightarrow> nat \<Rightarrow> nat \<Rightarrow> u8 list list \<Rightarrow> bool" where
  "heap_but i lo n xs \<longleftrightarrow>
     (\<forall>k \<le> n. lo \<le> k div 2 \<and> k div 2 \<noteq> i \<longrightarrow> below xs k (k div 2))
   \<and> (\<forall>k \<le> n. k div 2 = i \<and> lo \<le> i div 2 \<longrightarrow> below xs k (i div 2))"

lemma heap_but_start: "0 < lo \<Longrightarrow> heap (Suc lo) n xs \<Longrightarrow> heap_but lo lo n xs"
  by (auto simp: heap_def heap_but_def)

lemma heap_but_done:
  assumes "heap_but i lo n xs" "\<And>k. k \<le> n \<Longrightarrow> k div 2 = i \<Longrightarrow> below xs k i"
  shows "heap lo n xs"
  using assms by (auto simp: heap_def heap_but_def)

text \<open>Exchanging the hole with its larger child moves the hole to the child.\<close>

lemma heap_but_down:
  assumes h: "heap_but i lo n xs" and lo: "0 < lo" "lo \<le> i" and n: "n \<le> length xs"
    and c: "c \<le> n" "c div 2 = i" "below xs i c"
    and mx: "\<And>k. k \<le> n \<Longrightarrow> k div 2 = i \<Longrightarrow> below xs k c"
  shows "heap_but c lo n (exchange xs i c)"
proof -
  have ic: "0 < i" "0 < c" "i < c" "i \<le> length xs" "c \<le> length xs" using lo c n by auto
  have bel: "below (exchange xs i c) k p \<longleftrightarrow>
      below xs (if k = i then c else if k = c then i else k) (if p = i then c else if p = c then i else p)"
    if "0 < k" "0 < p" for k p
    unfolding below_def nth_exchange [OF ic(1,2,4,5) that(1)] nth_exchange [OF ic(1,2,4,5) that(2)] ..
  show ?thesis
    unfolding heap_but_def
  proof (intro conjI allI impI)
    fix k assume k: "k \<le> n" and "lo \<le> k div 2 \<and> k div 2 \<noteq> c"
    then have p: "0 < k" "0 < k div 2" "k div 2 < k" "lo \<le> k div 2" "k div 2 \<noteq> c" using lo by auto
    consider "k = c" | "k \<noteq> c" "k div 2 = i" | "k = i" | "k \<noteq> i" "k \<noteq> c" "k div 2 \<noteq> i" by blast
    then show "below (exchange xs i c) k (k div 2)"
    proof cases
      case 1
      then show ?thesis using p c ic by (simp add: bel)
    next
      case 2
      then show ?thesis using p ic mx [OF k] by (simp add: bel)
    next
      case 3
      then show ?thesis using p ic h c by (auto simp: bel heap_but_def)
    next
      case 4
      then show ?thesis using p h k by (simp add: bel heap_but_def)
    qed
  next
    fix k assume "k \<le> n" and k: "k div 2 = c \<and> lo \<le> c div 2"
    then have "below xs k c" using h lo c ic by (auto simp: heap_but_def)
    moreover have "0 < k" "k \<noteq> i" "k \<noteq> c" using k ic by auto
    ultimately show "below (exchange xs i c) k (c div 2)"
      using ic c by (simp add: bel)
  qed
qed

lemma pick_max_elems:
  assumes "array_ok m array cnt sz" "0 < c" "0 < mx" "mx \<le> cnt" "n \<le> cnt"
  shows "pick_max m array c mx n sz compare aux =
    Inr (if c \<le> n \<and> \<not> below (elems m array cnt sz) c mx then c else mx)"
  using assms do_compare_elems [OF assms(1,2) _ assms(3,4)]
  by (auto simp: pick_max_def below_def not_le)

lemma pick_max_child:
  assumes i: "0 < i" "i \<le> n"
    and mx: "mx1 = (if 2 * i \<le> n \<and> \<not> below xs (2 * i) i then 2 * i else i)"
      "mx = (if 2 * i + 1 \<le> n \<and> \<not> below xs (2 * i + 1) mx1 then 2 * i + 1 else mx1)"
  shows "k \<le> n \<Longrightarrow> k div 2 = i \<Longrightarrow> below xs k mx" and "below xs i mx"
    and "mx = i \<or> mx \<le> n \<and> mx div 2 = i"
proof -
  have tr: "below xs a c" if "below xs a b" "below xs b c" for a b c
    using that ord_trans unfolding below_def by blast
  have ln: "below xs b a" if "\<not> below xs a b" for a b
    using that ord_linear unfolding below_def by (meson not_le)
  have rf: "below xs a a" for a by (simp add: below_def ord_refl)
  show "mx = i \<or> mx \<le> n \<and> mx div 2 = i" using mx by auto
  have m1: "below xs i mx1" "2 * i \<le> n \<Longrightarrow> below xs (2 * i) mx1"
    using mx(1) ln rf by (cases "2 * i \<le> n \<and> \<not> below xs (2 * i) i"; simp)+
  have m2: "below xs mx1 mx" "2 * i + 1 \<le> n \<Longrightarrow> below xs (2 * i + 1) mx"
    using mx(2) ln rf by (cases "2 * i + 1 \<le> n \<and> \<not> below xs (2 * i + 1) mx1"; simp)+
  show "below xs i mx" using tr [OF m1(1) m2(1)] .
  assume k: "k \<le> n" "k div 2 = i"
  then have "k = 2 * i \<or> k = 2 * i + 1" by auto
  then show "below xs k mx" using tr [OF m1(2) m2(1)] m2(2) k(1) by blast
qed

lemma heapify_elems:
  assumes "array_ok m array cnt sz" "0 < lo" "lo \<le> i" "i \<le> n" "n \<le> cnt" "n - i < fuel"
    "heap_but i lo n (elems m array cnt sz)"
  shows "\<exists>m'. heapify fuel m array i n sz compare aux = Inr m' \<and> array_ok m' array cnt sz
    \<and> heap lo n (elems m' array cnt sz)
    \<and> mset (take n (elems m' array cnt sz)) = mset (take n (elems m array cnt sz))
    \<and> drop n (elems m' array cnt sz) = drop n (elems m array cnt sz)
    \<and> same_outside array (array + cnt * sz) m m'"
  using assms
proof (induction fuel arbitrary: m i)
  case (Suc fuel)
  define xs where "xs = elems m array cnt sz"
  define mx1 where "mx1 = (if 2 * i \<le> n \<and> \<not> below xs (2 * i) i then 2 * i else i)"
  define mx where "mx = (if 2 * i + 1 \<le> n \<and> \<not> below xs (2 * i + 1) mx1 then 2 * i + 1 else mx1)"
  have i: "0 < i" "i \<le> cnt" "2 * i + 1 < 2 ^ 32" "0 < mx1" "mx1 \<le> cnt"
    using Suc.prems by (auto simp: array_ok_def mx1_def)
  note child = pick_max_child [OF i(1) Suc.prems(4) mx1_def mx_def]
  have step: "heapify (Suc fuel) m array i n sz compare aux =
      (if mx = i then Inr m
       else rbind (do_swap m array i mx sz) (\<lambda>m. heapify fuel m array mx n sz compare aux))"
    using i pick_max_elems [OF Suc.prems(1) _ i(1,2) Suc.prems(5), of "2 * i"]
      pick_max_elems [OF Suc.prems(1) _ i(4,5) Suc.prems(5), of "2 * i + 1"]
    by (simp add: mx1_def mx_def xs_def usize_def)
  show ?case
  proof (cases "mx = i")
    case True
    then have "heap lo n xs"
      using Suc.prems(7) child(1) heap_but_done [of i lo n xs] by (auto simp: xs_def)
    then show ?thesis using step True Suc.prems(1) by (simp add: xs_def)
  next
    case False
    then have c: "mx \<le> n" "mx div 2 = i" "i < mx" using child(3) i by auto
    obtain m1 where m1: "do_swap m array i mx sz = Inr m1" "array_ok m1 array cnt sz"
      "elems m1 array cnt sz = exchange xs i mx" "same_outside array (array + cnt * sz) m m1"
      using do_swap_elems [OF Suc.prems(1) i(1,2), of mx] c Suc.prems(5) by (auto simp: xs_def)
    have nf: "n - mx < fuel" using c Suc.prems(6) by linarith
    have "heap_but mx lo n (exchange xs i mx)"
      using Suc.prems c child heap_but_down [of i lo n xs mx] by (auto simp: xs_def)
    then obtain m' where m': "heapify fuel m1 array mx n sz compare aux = Inr m'" "array_ok m' array cnt sz"
      "heap lo n (elems m' array cnt sz)"
      "mset (take n (elems m' array cnt sz)) = mset (take n (elems m1 array cnt sz))"
      "drop n (elems m' array cnt sz) = drop n (elems m1 array cnt sz)"
      "same_outside array (array + cnt * sz) m1 m'"
      using Suc.IH [of m1 mx] m1 Suc.prems c nf by auto
    have "mset (take n (exchange xs i mx)) = mset (take n xs)" "drop n (exchange xs i mx) = drop n xs"
      using exchange_perm [of i n mx xs] Suc.prems i c by (simp_all add: xs_def)
    then show ?thesis
      using step False m1 m' by (auto simp: xs_def intro: same_outside_trans)
  qed
qed simp

lemma heap_root: "heap 1 n xs \<Longrightarrow> 0 < k \<Longrightarrow> k \<le> n \<Longrightarrow> below xs k 1"
proof (induction k rule: less_induct)
  case (less k)
  show ?case
  proof (cases "k = 1")
    case True
    then show ?thesis by (simp add: below_def ord_refl)
  next
    case False
    then have "below xs k (k div 2)" "0 < k div 2" "k div 2 < k"
      using less.prems by (auto simp: heap_def)
    moreover from this have "below xs (k div 2) 1" using less by simp
    ultimately show ?thesis using ord_trans unfolding below_def by blast
  qed
qed

text \<open>The elements from position \<open>n\<close> on are in place: each is at least all before it.\<close>

definition placed :: "nat \<Rightarrow> u8 list list \<Rightarrow> bool" where
  "placed n xs \<longleftrightarrow> (\<forall>b < length xs. \<forall>a < b. n \<le> b \<longrightarrow> ord (xs ! a) (xs ! b) \<le> 0)"

lemma placed_sorted: "placed 1 xs \<Longrightarrow> sorted_wrt (\<lambda>x y. ord x y \<le> 0) xs"
  by (simp add: placed_def sorted_wrt_iff_nth_less)

lemma heap_but_root:
  assumes "heap 1 n xs" "2 \<le> n" "n \<le> length xs"
  shows "heap_but 1 1 (n - 1) (exchange xs 1 n)"
proof -
  have "below (exchange xs 1 n) k (k div 2)" if "k \<le> n - 1" "1 \<le> k div 2" "k div 2 \<noteq> 1" for k
    using that assms nth_exchange [of 1 n xs k] nth_exchange [of 1 n xs "k div 2"]
    by (auto simp: below_def heap_def)
  then show ?thesis by (simp add: heap_but_def)
qed

lemma placed_step:
  assumes h: "heap 1 n xs" and pl: "placed n xs" and n: "2 \<le> n" "n \<le> length xs"
    and zs: "mset (take (n - 1) zs) = mset (take (n - 1) (exchange xs 1 n))"
      "drop (n - 1) zs = drop (n - 1) (exchange xs 1 n)" "length zs = length xs"
  shows "placed (n - 1) zs"
proof -
  have top: "zs ! b = (if b = n - 1 then xs ! 0 else xs ! b)" if "n - 1 \<le> b" "b < length xs" for b
  proof -
    have "zs ! b = drop (n - 1) zs ! (b - (n - 1))" using that n zs(3) by simp
    also have "\<dots> = exchange xs 1 n ! (Suc b - 1)" unfolding zs(2) using that n by simp
    also have "\<dots> = xs ! ((if Suc b = 1 then n else if Suc b = n then 1 else Suc b) - 1)"
      using that n by (intro nth_exchange) auto
    finally show ?thesis using that n by auto
  qed
  have low: "\<exists>a' < n. zs ! a = xs ! a'" if "a < n - 1" for a
  proof -
    have "zs ! a \<in> set (take (n - 1) zs)" using that zs(3) n by (auto simp: in_set_conv_nth)
    also have "set (take (n - 1) zs) = set (take (n - 1) (exchange xs 1 n))"
      using zs(1) by (metis set_mset_mset)
    also have "\<dots> \<subseteq> set (take n (exchange xs 1 n))" by (rule set_take_subset_set_take) simp
    also have "\<dots> = set (take n xs)"
      using exchange_perm(1) [of 1 n n xs] n by (intro mset_eq_setD) auto
    finally show ?thesis using n by (auto simp: in_set_conv_nth)
  qed
  show ?thesis
    unfolding placed_def
  proof (intro allI impI)
    fix b a assume b: "b < length zs" "a < b" "n - 1 \<le> b"
    have "\<exists>a'. zs ! a = xs ! a' \<and> (n \<le> b \<longrightarrow> a' < b) \<and> (b = n - 1 \<longrightarrow> a' < n)"
    proof (cases "a < n - 1")
      case True
      then obtain a' where "a' < n" "zs ! a = xs ! a'" using low by blast
      then show ?thesis by (intro exI [of _ a']) auto
    next
      case False
      then show ?thesis
        using top [of a] b zs(3) n by (intro exI [of _ "if a = n - 1 then 0 else a"]) auto
    qed
    then obtain a' where a': "zs ! a = xs ! a'" "n \<le> b \<Longrightarrow> a' < b" "b = n - 1 \<Longrightarrow> a' < n" by blast
    show "ord (zs ! a) (zs ! b) \<le> 0"
    proof (cases "b = n - 1")
      case True
      then show ?thesis
        using a' heap_root [OF h, of "Suc a'"] top [of b] b zs(3) by (simp add: below_def)
    next
      case False
      then show ?thesis using a' b pl top [of b] zs(3) by (simp add: placed_def)
    qed
  qed
qed

lemma build_heap:
  assumes "array_ok m array cnt sz" "cnt \<le> fuel"
  shows "\<exists>m'. rfold (\<lambda>i m. heapify fuel m array i cnt sz compare aux) (rev [1..<cnt div 2 + 1]) m = Inr m'
    \<and> (array_ok m' array cnt sz \<and> heap 1 cnt (elems m' array cnt sz)
    \<and> mset (elems m' array cnt sz) = mset (elems m array cnt sz)
    \<and> same_outside array (array + cnt * sz) m m')"
proof (rule rfold_down_total [where P = "\<lambda>i m'. array_ok m' array cnt sz \<and> heap i cnt (elems m' array cnt sz)
    \<and> mset (elems m' array cnt sz) = mset (elems m array cnt sz)
    \<and> same_outside array (array + cnt * sz) m m'"])
  show "array_ok m array cnt sz \<and> heap (cnt div 2 + 1) cnt (elems m array cnt sz)
      \<and> mset (elems m array cnt sz) = mset (elems m array cnt sz) \<and> same_outside array (array + cnt * sz) m m"
    using assms(1) by (auto simp: heap_def dest: div_le_mono [of _ cnt 2])
next
  fix i m1
  assume i: "1 \<le> i" "i < cnt div 2 + 1"
    and m1: "array_ok m1 array cnt sz \<and> heap (Suc i) cnt (elems m1 array cnt sz)
      \<and> mset (elems m1 array cnt sz) = mset (elems m array cnt sz)
      \<and> same_outside array (array + cnt * sz) m m1"
  have "i \<le> cnt" "cnt - i < fuel" using i assms(2) by linarith+
  then obtain m' where m': "heapify fuel m1 array i cnt sz compare aux = Inr m'" "array_ok m' array cnt sz"
      "heap i cnt (elems m' array cnt sz)"
      "mset (take cnt (elems m' array cnt sz)) = mset (take cnt (elems m1 array cnt sz))"
      "same_outside array (array + cnt * sz) m1 m'"
    using heapify_elems [of m1 array cnt i i cnt fuel] heap_but_start [of i cnt "elems m1 array cnt sz"] i m1
    by auto
  show "\<exists>m'. heapify fuel m1 array i cnt sz compare aux = Inr m'
      \<and> (array_ok m' array cnt sz \<and> heap i cnt (elems m' array cnt sz)
      \<and> mset (elems m' array cnt sz) = mset (elems m array cnt sz)
      \<and> same_outside array (array + cnt * sz) m m')"
    using m' m1 by (auto intro: same_outside_trans)
qed simp

lemma sort_round:
  assumes "array_ok m array cnt sz" "heap 1 n (elems m array cnt sz)" "placed n (elems m array cnt sz)"
    "2 \<le> n" "n \<le> cnt" "cnt \<le> fuel"
  shows "\<exists>m'. rbind (do_swap m array 1 n sz) (\<lambda>m. heapify fuel m array 1 (n - 1) sz compare aux) = Inr m'
    \<and> array_ok m' array cnt sz \<and> heap 1 (n - 1) (elems m' array cnt sz)
    \<and> placed (n - 1) (elems m' array cnt sz)
    \<and> mset (elems m' array cnt sz) = mset (elems m array cnt sz)
    \<and> same_outside array (array + cnt * sz) m m'"
proof -
  define xs where "xs = elems m array cnt sz"
  obtain m1 where m1: "do_swap m array 1 n sz = Inr m1" "array_ok m1 array cnt sz"
    "elems m1 array cnt sz = exchange xs 1 n" "same_outside array (array + cnt * sz) m m1"
    using do_swap_elems [OF assms(1), of 1 n] assms by (auto simp: xs_def)
  have "heap_but 1 1 (n - 1) (elems m1 array cnt sz)"
    using heap_but_root [of n xs] assms m1(3) by (simp add: xs_def)
  moreover have "1 \<le> n - 1" "n - 1 \<le> cnt" "n - 1 - 1 < fuel" using assms by linarith+
  ultimately obtain m' where m': "heapify fuel m1 array 1 (n - 1) sz compare aux = Inr m'" "array_ok m' array cnt sz"
      "heap 1 (n - 1) (elems m' array cnt sz)"
      "mset (take (n - 1) (elems m' array cnt sz)) = mset (take (n - 1) (exchange xs 1 n))"
      "drop (n - 1) (elems m' array cnt sz) = drop (n - 1) (exchange xs 1 n)"
      "same_outside array (array + cnt * sz) m1 m'"
    using heapify_elems [OF m1(2), of 1 1 "n - 1" fuel] m1(3) by auto
  have "placed (n - 1) (elems m' array cnt sz)"
    using placed_step [of n xs "elems m' array cnt sz"] assms m' by (simp add: xs_def)
  moreover have "mset (elems m' array cnt sz) = mset (exchange xs 1 n)"
    using m'(4,5) by (metis append_take_drop_id mset_append)
  moreover have "mset (exchange xs 1 n) = mset xs"
    using exchange_perm(1) [of 1 cnt n xs] assms by (simp add: xs_def)
  ultimately show ?thesis
    using m1 m' by (auto simp: xs_def intro: same_outside_trans)
qed

lemma sort_array_elems:
  assumes ok: "array_ok m array cnt sz" and fuel: "cnt \<le> fuel"
  shows "\<exists>m'. sort_array fuel m array cnt sz compare aux = Inr m'
    \<and> mset (elems m' array cnt sz) = mset (elems m array cnt sz)
    \<and> sorted_wrt (\<lambda>x y. ord x y \<le> 0) (elems m' array cnt sz)
    \<and> same_outside array (array + cnt * sz) m m'"
proof -
  obtain m1 where m1: "rfold (\<lambda>i m. heapify fuel m array i cnt sz compare aux) (rev [1..<cnt div 2 + 1]) m = Inr m1"
    "array_ok m1 array cnt sz" "heap 1 cnt (elems m1 array cnt sz)"
    "mset (elems m1 array cnt sz) = mset (elems m array cnt sz)" "same_outside array (array + cnt * sz) m m1"
    using build_heap [OF assms] by blast
  let ?f = "\<lambda>i m. rbind (do_swap m array 1 i sz) (\<lambda>m. heapify fuel m array 1 (i - 1) sz compare aux)"
  let ?P = "\<lambda>i m'. array_ok m' array cnt sz \<and> heap 1 (i - 1) (elems m' array cnt sz)
      \<and> placed (i - 1) (elems m' array cnt sz)
      \<and> mset (elems m' array cnt sz) = mset (elems m array cnt sz)
      \<and> same_outside array (array + cnt * sz) m m'"
  have "\<exists>m'. rfold ?f (rev [2..<cnt + 1]) m1 = Inr m'
      \<and> (placed 1 (elems m' array cnt sz) \<and> mset (elems m' array cnt sz) = mset (elems m array cnt sz)
        \<and> same_outside array (array + cnt * sz) m m')"
  proof (cases "cnt = 0")
    case True
    then show ?thesis using m1 by (simp add: placed_def)
  next
    case False
    have "\<exists>m'. rfold ?f (rev [2..<cnt + 1]) m1 = Inr m' \<and> ?P 2 m'"
    proof (rule rfold_down_total [where P = ?P])
      show "?P (cnt + 1) m1" using m1 by (simp add: placed_def)
    next
      fix i m2 assume "2 \<le> i" "i < cnt + 1" "?P (Suc i) m2"
      then show "\<exists>m'. ?f i m2 = Inr m' \<and> ?P i m'"
        using sort_round [of m2 array cnt i fuel] fuel by (auto intro: same_outside_trans)
    qed (use False in simp)
    then show ?thesis by auto
  qed
  then show ?thesis
    using m1 placed_sorted ok by (auto simp: sort_array_def array_ok_def)
qed

lemma binary_search_window:
  assumes "array_ok m array cnt sz" "bytes_at m key K" "length K = sz" "l \<le> h" "h \<le> cnt"
    "sorted_wrt (\<lambda>x y. ord x y \<le> 0) (elems m array cnt sz)"
    "\<And>k. k < l \<Longrightarrow> ord K (elem m array sz k) \<noteq> 0" "\<And>k. h \<le> k \<Longrightarrow> k < cnt \<Longrightarrow> ord K (elem m array sz k) \<noteq> 0"
  shows "\<exists>p. binary_search_loop m key (array + l * sz) (array + h * sz) sz compare aux = Inr p
    \<and> (if p = 0 then \<forall>k < cnt. ord K (elem m array sz k) \<noteq> 0
       else \<exists>k < cnt. p = array + k * sz \<and> ord K (elem m array sz k) = 0)"
  using assms
proof (induction "h - l" arbitrary: l h rule: less_induct)
  case less
  show ?case
  proof (cases "l = h")
    case True
    then have "\<forall>k < cnt. ord K (elem m array sz k) \<noteq> 0" using less.prems(7,8) by (meson not_le)
    then show ?thesis using True by (subst binary_search_loop.simps) simp
  next
    case False
    define k where "k = l + (h - l) div 2"
    have k: "l \<le> k" "k < h" "k < cnt" using False less.prems by (auto simp: k_def)
    have sz: "0 < sz" "0 < array" using less.prems(1) by (auto simp: array_ok_def)
    define r where "r = ord K (elem m array sz k)"
    have cmp: "compare m key (array + k * sz) aux = Inr r"
      using compare_reads [OF less.prems(3) length_elem less.prems(2) elem_at] less.prems(1) k(3)
      by (simp add: r_def)
    have rng: "(h * sz - l * sz) div sz = h - l" using sz by (metis diff_mult_distrib nonzero_mult_div_cancel_right less_numeral_extra(3))
    have "l * sz < h * sz" using k sz by simp
    then have step: "binary_search_loop m key (array + l * sz) (array + h * sz) sz compare aux =
        (if r < 0 then binary_search_loop m key (array + l * sz) (array + k * sz) sz compare aux
         else if 0 < r then binary_search_loop m key (array + Suc k * sz) (array + h * sz) sz compare aux
         else Inr (array + k * sz))"
      using sz cmp rng by (subst binary_search_loop.simps)
        (simp add: k_def Let_def algebra_simps)
    have mono: "ord (elem m array sz a) (elem m array sz b) \<le> 0" if "a \<le> b" "b < cnt" for a b
      using less.prems(6) that ord_refl by (cases "a = b") (auto simp: sorted_wrt_iff_nth_less)
    have flip: "ord (elem m array sz a) K \<le> 0" if "0 \<le> ord K (elem m array sz a)" for a
      using ord_swap [of "elem m array sz a" K] that by linarith
    consider "r < 0" | "0 < r" | "r = 0" by linarith
    then show ?thesis
    proof cases
      case 1
      have "ord K (elem m array sz j) \<noteq> 0" if j: "k \<le> j" "j < cnt" for j
      proof
        assume "ord K (elem m array sz j) = 0"
        then have "ord (elem m array sz k) K \<le> 0" using mono [OF j] flip ord_trans by force
        then show False using 1 ord_swap [of "elem m array sz k" K] by (simp add: r_def)
      qed
      then show ?thesis
        using less.hyps [of k l] less.prems k 1 unfolding step by simp
    next
      case 2
      have "ord K (elem m array sz j) \<noteq> 0" if j: "j < Suc k" for j
      proof
        assume "ord K (elem m array sz j) = 0"
        then have "ord K (elem m array sz k) \<le> 0" using mono [of j k] j k ord_trans [of K "elem m array sz j" "elem m array sz k"] by simp
        then show False using 2 by (simp add: r_def)
      qed
      then show ?thesis
        using less.hyps [of h "Suc k"] less.prems k 2 unfolding step by simp
    next
      case 3
      then show ?thesis using k sz unfolding step by (auto simp: r_def)
    qed
  qed
qed

end

interpretation memcmp_order: comparator "\<lambda>m a b n. memcmp m a b n" n n lex_sign for n
proof unfold_locales
  show "memcmp m a b n = Inr (lex_sign x y)"
    if "length x = n" "length y = n" "bytes_at m a x" "bytes_at m b y" for x y m a b
    using that by (intro memcmp_at)
  show "0 < lex_sign x y \<longleftrightarrow> lex_sign y x < 0" for x y
    by (simp add: lex_sign_swap [of x y])
  show "lex_sign x y \<le> 0 \<Longrightarrow> lex_sign y z \<le> 0 \<Longrightarrow> lex_sign x z \<le> 0" for x y z
    by (rule lex_sign_trans)
qed

subsection \<open>Properties\<close>

text \<open>
  C25.  \<open>sort\<close> with a comparison routine that meets its contract returns, with at most as
  many rounds per heap repair as there are elements; the array then holds the same
  elements in ascending order, and no byte outside the array has changed.
\<close>

theorem sort_array_correct:
  assumes "comparator compare aux sz ord" "array_ok m array cnt sz" "cnt \<le> fuel"
  shows "\<exists>m'. sort_array fuel m array cnt sz compare aux = Inr m'
    \<and> mset (elems m' array cnt sz) = mset (elems m array cnt sz)
    \<and> sorted_wrt (\<lambda>x y. ord x y \<le> 0) (elems m' array cnt sz)
    \<and> same_outside array (array + cnt * sz) m m'"
  using assms by (rule comparator.sort_array_elems)

text \<open>Three elements of two bytes at address 1, compared with \<^const>\<open>memcmp\<close>.\<close>

definition sort_example :: cmem where
  "sort_example = [0, 9, 1, 3, 7, 3, 5, 0]"

theorem sort_array_correct_witness:
  "\<exists>m'. sort_array 3 sort_example 1 3 2 (\<lambda>m a b n. memcmp m a b n) 2 = Inr m'
    \<and> mset (elems m' 1 3 2) = mset (elems sort_example 1 3 2)
    \<and> sorted_wrt (\<lambda>x y. lex_sign x y \<le> 0) (elems m' 1 3 2)
    \<and> same_outside 1 (1 + 3 * 2) sort_example m'"
  by (rule sort_array_correct [OF memcmp_order.comparator_axioms])
     (simp_all add: array_ok_def sort_example_def)

text \<open>
  C29.  \<open>binary_search\<close> on an array sorted by its comparison routine returns.  A nonnull
  result points to an element of the array that compares equal to the key, and a null
  result means that no element does.
\<close>

theorem binary_search_correct:
  assumes "comparator compare aux sz ord" "array_ok m array cnt sz" "bytes_at m key K" "length K = sz"
    "sorted_wrt (\<lambda>x y. ord x y \<le> 0) (elems m array cnt sz)"
  shows "\<exists>p. binary_search m key array cnt sz compare aux = Inr p
    \<and> (if p = 0 then 0 \<notin> ord K ` set (elems m array cnt sz)
       else \<exists>k. k < cnt \<and> p = array + k * sz \<and> ord K (elem m array sz k) = 0)"
proof -
  have "usize (sz * cnt) = cnt * sz"
    using assms(2) by (simp add: usize_def array_ok_def mult.commute)
  then obtain p where p: "binary_search m key array cnt sz compare aux = Inr p"
    "if p = 0 then \<forall>k < cnt. ord K (elem m array sz k) \<noteq> 0
     else \<exists>k < cnt. p = array + k * sz \<and> ord K (elem m array sz k) = 0"
    using comparator.binary_search_window [OF assms(1-4), of 0 cnt] assms(5)
    by (auto simp: binary_search_def)
  then show ?thesis by (intro exI [of _ p]) (auto simp: elems_def split: if_splits)
qed

text \<open>The key \<open>[3, 7]\<close> stands behind a sorted array of three two-byte elements.\<close>

definition search_example :: cmem where
  "search_example = [0, 3, 5, 3, 7, 9, 1, 3, 7]"

theorem binary_search_correct_witness:
  "\<exists>p. binary_search search_example 7 1 3 2 (\<lambda>m a b n. memcmp m a b n) 2 = Inr p
    \<and> (if p = 0 then 0 \<notin> lex_sign [3, 7] ` set (elems search_example 1 3 2)
       else \<exists>k. k < 3 \<and> p = 1 + k * 2 \<and> lex_sign [3, 7] (elem search_example 1 2 k) = 0)"
  by (rule binary_search_correct [OF memcmp_order.comparator_axioms])
     (simp_all add: array_ok_def search_example_def elems_def elem_def upt_rec)

end
