(* ===== verification/Threads.thy ===== *)
theory Threads
  imports Prelude
begin

text \<open>
  \<^verbatim>\<open>threads/thread.c\<close> and the interrupt level of \<^verbatim>\<open>sys/interrupt.c\<close>: the state of the
  monitor's kernel threads and the scheduler.  A thread is named by the address of its
  page, with 0 for the null pointer.  The part of a kernel stack that matters here, what
  the thread has left to do of the kernel routines it is in, is the list
  \<open>todo\<close> of \<open>frame\<close>s: a routine that may sleep ends by leaving frames there, and
  switching threads is changing \<open>cur\<close>.  What is not modelled of a thread switch is the
  saving of processor registers (\<^verbatim>\<open>switch.S\<close>) and the task state segment.
\<close>

subsection \<open>State\<close>

datatype thread_status = THREAD_RUNNING | THREAD_READY | THREAD_BLOCKED | THREAD_DYING

text \<open>
  Semaphores are global or static variables, or are part of a lock, or are the
  semaphore of the \<open>semaphore_elem\<close> a thread has on its stack while it waits for a
  condition.
\<close>

datatype sema_id = SEMA nat | LOCK nat | WAITER nat

text \<open>The function a new thread runs: the idle loop or a function of the rest of the monitor.\<close>

datatype body = IDLE sema_id | CLIENT

datatype frame =
    SEMA_DOWN sema_id | SEMA_WAIT sema_id bool | SEMA_TRY_DOWN sema_id | SEMA_UP sema_id
  | LOCK_ACQUIRE nat | SET_HOLDER nat | LOCK_TRY_ACQUIRE nat | LOCK_RELEASE nat
  | COND_WAIT nat nat | COND_TIMED_WAIT nat nat int | TIMED_WAIT_DONE nat bool
  | COND_SIGNAL nat nat | SIGNAL_TIMED nat | COND_BROADCAST nat nat
  | COND_WAIT_INTR nat | COND_TIMED_WAIT_INTR nat int | TIMED_WAIT_INTR_DONE nat
  | COND_SIGNAL_INTR nat
  | INTR_SET_LEVEL bool | IRET
  | THREAD_START nat | THREAD_CREATE string int body nat | ALLOC_TID nat | CREATE_DONE nat body
  | THREAD_YIELD | THREAD_EXIT
  | IDLE_START sema_id | IDLE_LOOP | IDLE_HLT | BODY

record thread =
  t_tid :: u32
  t_status :: thread_status
  t_name :: string
  t_stack :: int
  t_priority :: int
  t_magic :: u32

record semaphore =
  sema_value :: u32
  sema_waiters :: "nat list"

record kernel =
  cur :: nat
  thr :: "nat \<Rightarrow> thread"
  todo :: "nat \<Rightarrow> frame list"
  ready_list :: "nat list"
  all_list :: "nat list"
  idle_thread :: nat
  initial_thread :: nat
  next_tid :: u32
  level :: bool
  in_external_intr :: bool
  yield_on_return :: bool
  thread_ticks :: u32
  monitor_ticks :: u64
  guest_ticks :: u64
  freed_pages :: "nat list"
  sema :: "sema_id \<Rightarrow> semaphore"
  lock_holder :: "nat \<Rightarrow> nat"
  cond_waiters :: "nat \<Rightarrow> nat list"
  remaining :: "nat \<Rightarrow> int"
  timed_semaphores :: "nat list"
  retval :: "nat \<Rightarrow> bool"

definition THREAD_MAGIC :: u32 where
  "THREAD_MAGIC = 0xcd6abf4b"

definition TIME_SLICE :: u32 where
  "TIME_SLICE = 4"

definition PRI_MIN :: int where
  "PRI_MIN = 0"

definition PRI_MAX :: int where
  "PRI_MAX = 63"

definition PRI_DEFAULT :: int where
  "PRI_DEFAULT = 31"

text \<open>The lock of \<open>allocate_tid\<close>.\<close>

definition tid_lock :: nat where
  "tid_lock = 0"

abbreviation status :: "kernel \<Rightarrow> nat \<Rightarrow> thread_status" where
  "status k t \<equiv> t_status (thr k t)"

definition set_status :: "nat \<Rightarrow> thread_status \<Rightarrow> kernel \<Rightarrow> kernel" where
  "set_status t s k = k\<lparr>thr := (thr k)(t := (thr k t)\<lparr>t_status := s\<rparr>)\<rparr>"

text \<open>The running thread has frames to do before those it already has.\<close>

definition push :: "frame list \<Rightarrow> kernel \<Rightarrow> kernel" where
  "push fs k = k\<lparr>todo := (todo k)(cur k := fs @ todo k (cur k))\<rparr>"

subsection \<open>Interrupt level\<close>

definition intr_get_level :: "kernel \<Rightarrow> bool" where
  "intr_get_level k = level k"

definition intr_context :: "kernel \<Rightarrow> bool" where
  "intr_context k = in_external_intr k"

definition intr_enable :: "kernel \<Rightarrow> kernel res" where
  "intr_enable k = assert_then (\<not> intr_context k) (Inr (k\<lparr>level := True\<rparr>))"

definition intr_disable :: "kernel \<Rightarrow> kernel" where
  "intr_disable k = k\<lparr>level := False\<rparr>"

definition intr_set_level :: "bool \<Rightarrow> kernel \<Rightarrow> kernel res" where
  "intr_set_level b k = (if b then intr_enable k else Inr (intr_disable k))"

definition intr_yield_on_return :: "kernel \<Rightarrow> kernel res" where
  "intr_yield_on_return k = assert_then (intr_context k) (Inr (k\<lparr>yield_on_return := True\<rparr>))"

subsection \<open>Scheduler\<close>

definition is_thread :: "kernel \<Rightarrow> nat \<Rightarrow> bool" where
  "is_thread k t = (t \<noteq> 0 \<and> t_magic (thr k t) = THREAD_MAGIC)"

definition running_thread :: "kernel \<Rightarrow> nat" where
  "running_thread k = cur k"

definition thread_current :: "kernel \<Rightarrow> nat res" where
  "thread_current k =
     (let t = running_thread k in
      assert_then (is_thread k t) (assert_then (status k t = THREAD_RUNNING) (Inr t)))"

definition next_thread_to_run :: "kernel \<Rightarrow> nat \<times> kernel" where
  "next_thread_to_run k =
     (case ready_list k of
        [] \<Rightarrow> (idle_thread k, k)
      | t # ts \<Rightarrow> (t, k\<lparr>ready_list := ts\<rparr>))"

definition schedule_tail :: "nat \<Rightarrow> kernel \<Rightarrow> kernel res" where
  "schedule_tail prev k =
     assert_then (\<not> level k)
       (let k = (set_status (running_thread k) THREAD_RUNNING k)\<lparr>thread_ticks := 0\<rparr> in
        if prev \<noteq> 0 \<and> status k prev = THREAD_DYING \<and> prev \<noteq> initial_thread k
        then assert_then (prev \<noteq> running_thread k) (Inr (k\<lparr>freed_pages := freed_pages k @ [prev]\<rparr>))
        else Inr k)"

definition schedule :: "kernel \<Rightarrow> kernel res" where
  "schedule k0 =
     (let c = running_thread k0; (next, k) = next_thread_to_run k0 in
      assert_then (\<not> level k) (assert_then (status k c \<noteq> THREAD_RUNNING) (assert_then (is_thread k next)
        (if c \<noteq> next then schedule_tail c (k\<lparr>cur := next\<rparr>) else schedule_tail 0 k))))"

text \<open>The switch of the processor mode around the call of \<open>schedule\<close> is not modelled.\<close>

definition thread_block :: "kernel \<Rightarrow> kernel res" where
  "thread_block k =
     assert_then (\<not> intr_context k) (assert_then (\<not> level k)
       (rbind (thread_current k) (\<lambda>t. schedule (set_status t THREAD_BLOCKED k))))"

definition thread_unblock :: "nat \<Rightarrow> kernel \<Rightarrow> kernel res" where
  "thread_unblock t k =
     assert_then (is_thread k t)
       (let old_level = level k; k = intr_disable k in
        assert_then (status k t = THREAD_BLOCKED)
          (intr_set_level old_level
             (set_status t THREAD_READY (k\<lparr>ready_list := ready_list k @ [t]\<rparr>))))"

definition thread_yield :: "kernel \<Rightarrow> kernel res" where
  "thread_yield k =
     rbind (thread_current k) (\<lambda>t.
     assert_then (\<not> intr_context k)
       (let old_level = level k; k = intr_disable k;
            k = (if t \<noteq> idle_thread k then k\<lparr>ready_list := ready_list k @ [t]\<rparr> else k) in
        schedule (push [INTR_SET_LEVEL old_level] (set_status t THREAD_READY k))))"

text \<open>A thread that exits has nothing left to do.\<close>

definition thread_exit :: "kernel \<Rightarrow> kernel res" where
  "thread_exit k =
     assert_then (\<not> intr_context k)
       (rbind (thread_current k) (\<lambda>t.
          let k = intr_disable k in
          assert_then (t \<in> set (all_list k))
            (schedule (set_status t THREAD_DYING
               (k\<lparr>all_list := remove1 t (all_list k), todo := (todo k)(t := [])\<rparr>)))))"

subsection \<open>Accessors\<close>

definition thread_name :: "kernel \<Rightarrow> string res" where
  "thread_name k = rbind (thread_current k) (\<lambda>t. Inr (t_name (thr k t)))"

definition thread_tid :: "kernel \<Rightarrow> u32 res" where
  "thread_tid k = rbind (thread_current k) (\<lambda>t. Inr (t_tid (thr k t)))"

definition thread_set_priority :: "int \<Rightarrow> kernel \<Rightarrow> kernel res" where
  "thread_set_priority p k =
     rbind (thread_current k) (\<lambda>t. Inr (k\<lparr>thr := (thr k)(t := (thr k t)\<lparr>t_priority := p\<rparr>)\<rparr>))"

definition thread_get_priority :: "kernel \<Rightarrow> int res" where
  "thread_get_priority k = rbind (thread_current k) (\<lambda>t. Inr (t_priority (thr k t)))"

text \<open>The routines of the scheduler that is not implemented.\<close>

definition thread_set_nice :: "int \<Rightarrow> kernel \<Rightarrow> kernel" where
  "thread_set_nice nice k = k"

definition thread_get_nice :: "kernel \<Rightarrow> int" where
  "thread_get_nice k = 0"

definition thread_get_load_avg :: "kernel \<Rightarrow> int" where
  "thread_get_load_avg k = 0"

definition thread_get_recent_cpu :: "kernel \<Rightarrow> int" where
  "thread_get_recent_cpu k = 0"

definition thread_initial :: "kernel \<Rightarrow> nat" where
  "thread_initial k = initial_thread k"

definition guest_tick :: "kernel \<Rightarrow> kernel" where
  "guest_tick k = k\<lparr>guest_ticks := guest_ticks k + 1\<rparr>"

text \<open>\<open>thread_foreach\<close> applies an action of the caller to every thread, oldest first.\<close>

definition thread_foreach :: "(nat \<Rightarrow> kernel \<Rightarrow> kernel res) \<Rightarrow> kernel \<Rightarrow> kernel res" where
  "thread_foreach action k = assert_then (\<not> level k) (rfold action (all_list k) k)"

subsection \<open>Creation\<close>

definition PGSIZE_t :: int where
  "PGSIZE_t = 4096"

text \<open>\<open>strlcpy\<close> into the 16-byte \<open>name\<close> keeps at most 15 characters.\<close>

definition init_thread :: "nat \<Rightarrow> string \<Rightarrow> int \<Rightarrow> kernel \<Rightarrow> kernel res" where
  "init_thread t nm prio k =
     assert_then (t \<noteq> 0) (assert_then (PRI_MIN \<le> prio \<and> prio \<le> PRI_MAX)
       (Inr (k\<lparr>thr := (thr k)(t := \<lparr>t_tid = 0, t_status = THREAD_BLOCKED, t_name = take 15 nm,
                 t_stack = int t + PGSIZE_t, t_priority = prio, t_magic = THREAD_MAGIC\<rparr>),
               all_list := all_list k @ [t]\<rparr>)))"

definition alloc_frame :: "nat \<Rightarrow> int \<Rightarrow> kernel \<Rightarrow> kernel res" where
  "alloc_frame t n k =
     assert_then (is_thread k t) (assert_then (n mod 4 = 0)
       (Inr (k\<lparr>thr := (thr k)(t := (thr k t)\<lparr>t_stack := t_stack (thr k t) - n\<rparr>)\<rparr>)))"

definition kernel_thread :: "body \<Rightarrow> frame list" where
  "kernel_thread b =
     [INTR_SET_LEVEL True, case b of IDLE s \<Rightarrow> IDLE_START s | CLIENT \<Rightarrow> BODY, THREAD_EXIT]"

text \<open>
  \<open>thread_create\<close> with the page \<open>t\<close> that \<open>palloc_get_page\<close> returned.  Its call of
  \<open>allocate_tid\<close> may sleep for the lock, so it continues in \<open>alloc_tid\<close> and
  \<open>create_done\<close>.  The frames it builds on the new stack, of 12, 4 and 28 bytes, make the
  thread start in \<open>kernel_thread\<close>.
\<close>

definition thread_create :: "string \<Rightarrow> int \<Rightarrow> body \<Rightarrow> nat \<Rightarrow> kernel \<Rightarrow> kernel res" where
  "thread_create nm prio b t k =
     (if t = 0 then Inr (k\<lparr>retval := (retval k)(cur k := False)\<rparr>)
      else rbind (init_thread t nm prio k) (\<lambda>k.
        Inr (push [LOCK_ACQUIRE tid_lock, ALLOC_TID t, LOCK_RELEASE tid_lock, CREATE_DONE t b] k)))"

definition alloc_tid :: "nat \<Rightarrow> kernel \<Rightarrow> kernel" where
  "alloc_tid t k =
     k\<lparr>thr := (thr k)(t := (thr k t)\<lparr>t_tid := next_tid k\<rparr>), next_tid := next_tid k + 1\<rparr>"

definition create_done :: "nat \<Rightarrow> body \<Rightarrow> kernel \<Rightarrow> kernel res" where
  "create_done t b k =
     (let old_level = level k in
      rbind (alloc_frame t 12 (intr_disable k)) (\<lambda>k.
      rbind (alloc_frame t 4 k) (\<lambda>k.
      rbind (alloc_frame t 28 k) (\<lambda>k.
      rbind (intr_set_level old_level (k\<lparr>todo := (todo k)(t := kernel_thread b)\<rparr>)) (\<lambda>k.
      rbind (thread_unblock t k) (\<lambda>k.
        Inr (k\<lparr>retval := (retval k)(cur k := True)\<rparr>)))))))"

end
