(* ===== verification/Synch.thy ===== *)
theory Synch
  imports Threads
begin

text \<open>
  \<^verbatim>\<open>threads/synch.c\<close>: semaphores, locks and condition variables, the timer tick, and
  the interleaving of the threads.  A routine that may sleep is a definition that leaves
  the rest of its work as frames; \<open>run_frame\<close> runs one frame of the current thread, and
  the step relation \<open>kstep\<close> lets the current thread run its next frame, the code outside
  the kernel call a routine, and the timer or a device interrupt while interrupts are on.
\<close>

subsection \<open>Semaphores\<close>

definition set_sema :: "sema_id \<Rightarrow> u32 \<Rightarrow> nat list \<Rightarrow> kernel \<Rightarrow> kernel" where
  "set_sema s v ws k = k\<lparr>sema := (sema k)(s := \<lparr>sema_value = v, sema_waiters = ws\<rparr>)\<rparr>"

abbreviation val :: "kernel \<Rightarrow> sema_id \<Rightarrow> u32" where
  "val k s \<equiv> sema_value (sema k s)"

abbreviation wtrs :: "kernel \<Rightarrow> sema_id \<Rightarrow> nat list" where
  "wtrs k s \<equiv> sema_waiters (sema k s)"

definition sema_init :: "sema_id \<Rightarrow> u32 \<Rightarrow> kernel \<Rightarrow> kernel" where
  "sema_init s v k = set_sema s v [] k"

definition sema_down :: "sema_id \<Rightarrow> kernel \<Rightarrow> kernel res" where
  "sema_down s k =
     assert_then (\<not> intr_context k) (Inr (push [SEMA_WAIT s (level k)] (intr_disable k)))"

text \<open>One test of the loop of \<open>sema_down\<close>; a thread that sleeps tests again when it wakes.\<close>

definition sema_wait :: "sema_id \<Rightarrow> bool \<Rightarrow> kernel \<Rightarrow> kernel res" where
  "sema_wait s old_level k =
     (if val k s = 0
      then rbind (thread_current k) (\<lambda>t.
        thread_block (push [SEMA_WAIT s old_level] (set_sema s (val k s) (wtrs k s @ [t]) k)))
      else intr_set_level old_level (set_sema s (val k s - 1) (wtrs k s) k))"

definition sema_try_down :: "sema_id \<Rightarrow> kernel \<Rightarrow> kernel res" where
  "sema_try_down s k =
     (let old_level = level k; k = intr_disable k in
      if val k s > 0
      then intr_set_level old_level
        ((set_sema s (val k s - 1) (wtrs k s) k)\<lparr>retval := (retval k)(cur k := True)\<rparr>)
      else intr_set_level old_level (k\<lparr>retval := (retval k)(cur k := False)\<rparr>))"

definition sema_up :: "sema_id \<Rightarrow> kernel \<Rightarrow> kernel res" where
  "sema_up s k =
     (let old_level = level k; k = intr_disable k in
      rbind (case wtrs k s of
               [] \<Rightarrow> Inr k
             | t # ts \<Rightarrow> thread_unblock t (set_sema s (val k s) ts k))
        (\<lambda>k. intr_set_level old_level (set_sema s (val k s + 1) (wtrs k s) k)))"

subsection \<open>Locks\<close>

definition lock_init :: "nat \<Rightarrow> kernel \<Rightarrow> kernel" where
  "lock_init l k = sema_init (LOCK l) 1 (k\<lparr>lock_holder := (lock_holder k)(l := 0)\<rparr>)"

definition lock_held_by_current_thread :: "nat \<Rightarrow> kernel \<Rightarrow> bool res" where
  "lock_held_by_current_thread l k = rbind (thread_current k) (\<lambda>t. Inr (lock_holder k l = t))"

definition lock_acquire :: "nat \<Rightarrow> kernel \<Rightarrow> kernel res" where
  "lock_acquire l k =
     assert_then (\<not> intr_context k) (rbind (lock_held_by_current_thread l k) (\<lambda>held.
     assert_then (\<not> held) (Inr (push [SEMA_DOWN (LOCK l), SET_HOLDER l] k))))"

definition set_holder :: "nat \<Rightarrow> kernel \<Rightarrow> kernel res" where
  "set_holder l k = rbind (thread_current k) (\<lambda>t. Inr (k\<lparr>lock_holder := (lock_holder k)(l := t)\<rparr>))"

definition lock_try_acquire :: "nat \<Rightarrow> kernel \<Rightarrow> kernel res" where
  "lock_try_acquire l k =
     rbind (lock_held_by_current_thread l k) (\<lambda>held. assert_then (\<not> held)
       (rbind (sema_try_down (LOCK l) k) (\<lambda>k.
          Inr (if retval k (cur k) then push [SET_HOLDER l] k else k))))"

definition lock_release :: "nat \<Rightarrow> kernel \<Rightarrow> kernel res" where
  "lock_release l k =
     rbind (lock_held_by_current_thread l k) (\<lambda>held. assert_then held
       (Inr (push [SEMA_UP (LOCK l)] (k\<lparr>lock_holder := (lock_holder k)(l := 0)\<rparr>))))"

subsection \<open>Condition variables\<close>

text \<open>
  A waiting thread has one \<open>semaphore_elem\<close> on its stack: the semaphore
  \<open>WAITER t\<close>, the time \<open>remaining\<close>, and the links by which it is on the list of a
  condition variable and on the list of timed waiters.  Unlinking an element that is not
  linked writes through its stale pointers.
\<close>

definition unlink :: "nat \<Rightarrow> nat list \<Rightarrow> nat list res" where
  "unlink t xs = (if t \<in> set xs then Inr (remove1 t xs) else Inl OUT_OF_BOUNDS)"

definition synch_init :: "kernel \<Rightarrow> kernel" where
  "synch_init k = k\<lparr>timed_semaphores := []\<rparr>"

definition cond_init :: "nat \<Rightarrow> kernel \<Rightarrow> kernel" where
  "cond_init c k = k\<lparr>cond_waiters := (cond_waiters k)(c := [])\<rparr>"

text \<open>The part all kinds of waiting start with.\<close>

definition enlist :: "nat \<Rightarrow> nat \<Rightarrow> kernel \<Rightarrow> kernel" where
  "enlist c t k =
     (sema_init (WAITER t) 0 k)\<lparr>cond_waiters := (cond_waiters k)(c := cond_waiters k c @ [t])\<rparr>"

definition set_remaining :: "nat \<Rightarrow> int \<Rightarrow> kernel \<Rightarrow> kernel" where
  "set_remaining t n k = k\<lparr>remaining := (remaining k)(t := n)\<rparr>"

definition cond_wait :: "nat \<Rightarrow> nat \<Rightarrow> kernel \<Rightarrow> kernel res" where
  "cond_wait c l k =
     assert_then (\<not> intr_context k) (rbind (lock_held_by_current_thread l k) (\<lambda>held.
     assert_then held
       (Inr (push [LOCK_RELEASE l, SEMA_DOWN (WAITER (cur k)), LOCK_ACQUIRE l]
          (set_remaining (cur k) (-1) (enlist c (cur k) k))))))"

definition cond_timed_wait :: "nat \<Rightarrow> nat \<Rightarrow> int \<Rightarrow> kernel \<Rightarrow> kernel res" where
  "cond_timed_wait c l nanoseconds k =
     assert_then (\<not> intr_context k) (rbind (lock_held_by_current_thread l k) (\<lambda>held.
     assert_then held (assert_then (nanoseconds > 0)
       (let k1 = set_remaining (cur k) nanoseconds (intr_disable (enlist c (cur k) k)) in
        Inr (push [LOCK_RELEASE l, SEMA_DOWN (WAITER (cur k)), LOCK_ACQUIRE l, TIMED_WAIT_DONE c (level k)]
          (k1\<lparr>timed_semaphores := timed_semaphores k @ [cur k]\<rparr>))))))"

text \<open>What a timed wait does once it has the lock again; it returns whether it timed out.\<close>

definition timed_wait_done :: "nat \<Rightarrow> bool \<Rightarrow> kernel \<Rightarrow> kernel res" where
  "timed_wait_done c old_level k =
     (if remaining k (cur k) > 0
      then intr_set_level old_level (k\<lparr>retval := (retval k)(cur k := False)\<rparr>)
      else assert_then (remaining k (cur k) = 0)
        (rbind (unlink (cur k) (cond_waiters k c)) (\<lambda>ws.
           intr_set_level old_level
             (k\<lparr>cond_waiters := (cond_waiters k)(c := ws), retval := (retval k)(cur k := True)\<rparr>))))"

definition cond_signal :: "nat \<Rightarrow> nat \<Rightarrow> kernel \<Rightarrow> kernel res" where
  "cond_signal c l k =
     assert_then (\<not> intr_context k) (rbind (lock_held_by_current_thread l k) (\<lambda>held.
     assert_then held
       (case cond_waiters k c of
          [] \<Rightarrow> Inr k
        | w # ws \<Rightarrow> Inr (push [SEMA_UP (WAITER w), SIGNAL_TIMED w]
            (k\<lparr>cond_waiters := (cond_waiters k)(c := ws)\<rparr>)))))"

definition signal_timed :: "nat \<Rightarrow> kernel \<Rightarrow> kernel res" where
  "signal_timed w k =
     (let old_level = level k; k = intr_disable k in
      if remaining k w > 0
      then rbind (unlink w (timed_semaphores k)) (\<lambda>ts.
        intr_set_level old_level (k\<lparr>timed_semaphores := ts\<rparr>))
      else intr_set_level old_level k)"

definition cond_broadcast :: "nat \<Rightarrow> nat \<Rightarrow> kernel \<Rightarrow> kernel res" where
  "cond_broadcast c l k =
     Inr (if cond_waiters k c \<noteq> [] then push [COND_SIGNAL c l, COND_BROADCAST c l] k else k)"

definition cond_wait_intr :: "nat \<Rightarrow> kernel \<Rightarrow> kernel res" where
  "cond_wait_intr c k =
     assert_then (\<not> level k) (assert_then (\<not> intr_context k)
       (intr_enable (push [SEMA_DOWN (WAITER (cur k)), INTR_SET_LEVEL False]
          (set_remaining (cur k) (-1) (enlist c (cur k) k)))))"

text \<open>The argument is multiplied by a million in 64 bits.\<close>

definition cond_timed_wait_intr :: "nat \<Rightarrow> int \<Rightarrow> kernel \<Rightarrow> kernel res" where
  "cond_timed_wait_intr c nanoseconds k =
     assert_then (\<not> intr_context k) (assert_then (\<not> level k) (assert_then (nanoseconds > 0)
       (let k1 = set_remaining (cur k) (sint (word_of_int (nanoseconds * 1000000) :: u64)) (enlist c (cur k) k) in
        intr_enable (push [SEMA_DOWN (WAITER (cur k)), INTR_SET_LEVEL False, TIMED_WAIT_INTR_DONE c]
          (k1\<lparr>timed_semaphores := timed_semaphores k @ [cur k]\<rparr>)))))"

definition timed_wait_intr_done :: "nat \<Rightarrow> kernel \<Rightarrow> kernel res" where
  "timed_wait_intr_done c k =
     (if remaining k (cur k) > 0 then Inr (k\<lparr>retval := (retval k)(cur k := False)\<rparr>)
      else assert_then (remaining k (cur k) = 0)
        (rbind (unlink (cur k) (cond_waiters k c)) (\<lambda>ws.
           Inr (k\<lparr>cond_waiters := (cond_waiters k)(c := ws), retval := (retval k)(cur k := True)\<rparr>))))"

definition cond_signal_intr :: "nat \<Rightarrow> kernel \<Rightarrow> kernel res" where
  "cond_signal_intr c k =
     assert_then (\<not> level k)
       (case cond_waiters k c of
          [] \<Rightarrow> Inr k
        | w # ws \<Rightarrow> Inr (push [SEMA_UP (WAITER w), SIGNAL_TIMED w]
            (k\<lparr>cond_waiters := (cond_waiters k)(c := ws)\<rparr>)))"

subsection \<open>Timer tick\<close>

definition tick_nanoseconds :: int where
  "tick_nanoseconds = 10000000"

definition timed_tick :: "nat \<Rightarrow> kernel \<Rightarrow> kernel res" where
  "timed_tick t k =
     (if remaining k t > tick_nanoseconds
      then assert_then (remaining k t - tick_nanoseconds > 0)
        (Inr (set_remaining t (remaining k t - tick_nanoseconds) k))
      else rbind (unlink t (timed_semaphores k)) (\<lambda>ts.
        sema_up (WAITER t) ((set_remaining t 0 k)\<lparr>timed_semaphores := ts\<rparr>)))"

definition timed_semaphores_tick :: "kernel \<Rightarrow> kernel res" where
  "timed_semaphores_tick k = rfold timed_tick (timed_semaphores k) k"

definition thread_tick :: "kernel \<Rightarrow> kernel res" where
  "thread_tick k =
     rbind (timed_semaphores_tick (k\<lparr>monitor_ticks := monitor_ticks k + 1\<rparr>)) (\<lambda>k.
       let k = k\<lparr>thread_ticks := thread_ticks k + 1\<rparr> in
       if thread_ticks k \<ge> TIME_SLICE then intr_yield_on_return k else Inr k)"

text \<open>
  An external interrupt: the interrupt gate turns interrupts off, the handler runs, and
  the interrupted thread may be made to yield before it returns.
\<close>

definition intr_handler_ext :: "(kernel \<Rightarrow> kernel res) \<Rightarrow> kernel \<Rightarrow> kernel res" where
  "intr_handler_ext handler k =
     (let k = push [IRET] (intr_disable k) in
      assert_then (\<not> level k) (assert_then (\<not> intr_context k)
        (rbind (handler (k\<lparr>in_external_intr := True, yield_on_return := False\<rparr>)) (\<lambda>k.
           assert_then (\<not> level k) (assert_then (intr_context k)
             (let k = k\<lparr>in_external_intr := False\<rparr> in
              if yield_on_return k then thread_yield k else Inr k))))))"

subsection \<open>Threads of control\<close>

definition thread_start :: "nat \<Rightarrow> kernel \<Rightarrow> kernel res" where
  "thread_start t k =
     thread_create ''idle'' PRI_MIN (IDLE (SEMA 0)) t
       (push [INTR_SET_LEVEL True, SEMA_DOWN (SEMA 0)] (sema_init (SEMA 0) 0 k))"

definition idle_start :: "sema_id \<Rightarrow> kernel \<Rightarrow> kernel res" where
  "idle_start s k =
     rbind (thread_current k) (\<lambda>t. sema_up s (push [IDLE_LOOP] (k\<lparr>idle_thread := t\<rparr>)))"

definition idle_loop :: "kernel \<Rightarrow> kernel res" where
  "idle_loop k = thread_block (push [IDLE_HLT] (intr_disable k))"

definition idle_hlt :: "kernel \<Rightarrow> kernel" where
  "idle_hlt k = push [IDLE_LOOP] (k\<lparr>level := True\<rparr>)"

fun run_frame :: "frame \<Rightarrow> kernel \<Rightarrow> kernel res" where
  "run_frame (SEMA_DOWN s) k = sema_down s k"
| "run_frame (SEMA_WAIT s old_level) k = sema_wait s old_level k"
| "run_frame (SEMA_TRY_DOWN s) k = sema_try_down s k"
| "run_frame (SEMA_UP s) k = sema_up s k"
| "run_frame (LOCK_ACQUIRE l) k = lock_acquire l k"
| "run_frame (SET_HOLDER l) k = set_holder l k"
| "run_frame (LOCK_TRY_ACQUIRE l) k = lock_try_acquire l k"
| "run_frame (LOCK_RELEASE l) k = lock_release l k"
| "run_frame (COND_WAIT c l) k = cond_wait c l k"
| "run_frame (COND_TIMED_WAIT c l n) k = cond_timed_wait c l n k"
| "run_frame (TIMED_WAIT_DONE c old_level) k = timed_wait_done c old_level k"
| "run_frame (COND_SIGNAL c l) k = cond_signal c l k"
| "run_frame (SIGNAL_TIMED w) k = signal_timed w k"
| "run_frame (COND_BROADCAST c l) k = cond_broadcast c l k"
| "run_frame (COND_WAIT_INTR c) k = cond_wait_intr c k"
| "run_frame (COND_TIMED_WAIT_INTR c n) k = cond_timed_wait_intr c n k"
| "run_frame (TIMED_WAIT_INTR_DONE c) k = timed_wait_intr_done c k"
| "run_frame (COND_SIGNAL_INTR c) k = cond_signal_intr c k"
| "run_frame (INTR_SET_LEVEL b) k = intr_set_level b k"
| "run_frame IRET k = Inr (k\<lparr>level := True\<rparr>)"
| "run_frame (THREAD_START t) k = thread_start t k"
| "run_frame (THREAD_CREATE nm prio b t) k = thread_create nm prio b t k"
| "run_frame (ALLOC_TID t) k = Inr (alloc_tid t k)"
| "run_frame (CREATE_DONE t b) k = create_done t b k"
| "run_frame THREAD_YIELD k = thread_yield k"
| "run_frame THREAD_EXIT k = thread_exit k"
| "run_frame (IDLE_START s) k = idle_start s k"
| "run_frame IDLE_LOOP k = idle_loop k"
| "run_frame IDLE_HLT k = Inr (idle_hlt k)"
| "run_frame BODY k = Inr k"

text \<open>
  \<open>thread_init\<close> makes the code that runs at boot the initial thread.  Its call of
  \<open>allocate_tid\<close> cannot sleep: no other thread exists and the lock is new.
\<close>

definition thread_init :: "kernel \<Rightarrow> kernel res" where
  "thread_init k =
     assert_then (\<not> level k)
       (let t = running_thread k;
            k = (lock_init tid_lock k)\<lparr>ready_list := [], all_list := [], initial_thread := t\<rparr> in
        rbind (init_thread t ''main'' PRI_DEFAULT k) (\<lambda>k.
          Inr (alloc_tid t (set_status t THREAD_RUNNING k))))"

subsection \<open>Steps\<close>

text \<open>The calls the rest of the monitor makes.\<close>

fun client_call :: "frame \<Rightarrow> bool" where
  "client_call (SEMA_DOWN (SEMA n)) = True"
| "client_call (SEMA_TRY_DOWN (SEMA n)) = True"
| "client_call (SEMA_UP (SEMA n)) = True"
| "client_call (LOCK_ACQUIRE l) = True"
| "client_call (LOCK_TRY_ACQUIRE l) = True"
| "client_call (LOCK_RELEASE l) = True"
| "client_call (COND_WAIT c l) = True"
| "client_call (COND_TIMED_WAIT c l n) = True"
| "client_call (COND_SIGNAL c l) = True"
| "client_call (COND_BROADCAST c l) = True"
| "client_call (COND_WAIT_INTR c) = True"
| "client_call (COND_TIMED_WAIT_INTR c n) = True"
| "client_call (COND_SIGNAL_INTR c) = True"
| "client_call (INTR_SET_LEVEL b) = True"
| "client_call (THREAD_CREATE nm prio b t) = (b = CLIENT)"
| "client_call THREAD_YIELD = True"
| "client_call f = False"

text \<open>The page allocator does not hand out the page of an existing thread.\<close>

fun page_ok :: "kernel \<Rightarrow> frame \<Rightarrow> bool" where
  "page_ok k (THREAD_CREATE nm prio b t) = (t \<notin> set (all_list k))"
| "page_ok k f = True"

definition set_todo :: "frame list \<Rightarrow> kernel \<Rightarrow> kernel" where
  "set_todo fs k = k\<lparr>todo := (todo k)(cur k := fs)\<rparr>"

inductive kstep :: "kernel \<Rightarrow> kernel \<Rightarrow> bool" where
  frame: "todo k (cur k) = f # fs \<Longrightarrow> f \<noteq> BODY \<Longrightarrow> run_frame f (set_todo fs k) = Inr k' \<Longrightarrow> kstep k k'"
| call: "todo k (cur k) = BODY # fs \<Longrightarrow> client_call f \<Longrightarrow> page_ok k f \<Longrightarrow> run_frame f k = Inr k' \<Longrightarrow> kstep k k'"
| return: "todo k (cur k) = BODY # fs \<Longrightarrow> kstep k (set_todo fs k)"
| exit: "todo k (cur k) = BODY # fs \<Longrightarrow> kstep k (set_todo [THREAD_EXIT] k)"
| timer: "level k \<Longrightarrow> intr_handler_ext thread_tick k = Inr k' \<Longrightarrow> kstep k k'"
| device: "level k \<Longrightarrow> intr_handler_ext (sema_up (SEMA n)) k = Inr k' \<Longrightarrow> kstep k k'"

end
