(* ===== verification/Concurrency.thy ===== *)
theory Concurrency
  imports Synch
begin

text \<open>
  The consistency of threads, run queue and wait lists, as an invariant of the steps of
  theory \<open>Synch\<close>: every step preserves it.
\<close>

subsection \<open>Shape of kernel stacks\<close>

definition waits_on :: "kernel \<Rightarrow> sema_id \<Rightarrow> nat \<Rightarrow> bool" where
  "waits_on k s t = (\<exists>b fs. todo k t = SEMA_WAIT s b # fs)"

fun is_wait :: "frame \<Rightarrow> bool" where
  "is_wait (SEMA_WAIT s b) = True"
| "is_wait f = False"

fun stack_ok :: "frame list \<Rightarrow> bool" where
  "stack_ok [] = True"
| "stack_ok (BODY # fs) = (fs = [] \<or> fs = [THREAD_EXIT])"
| "stack_ok (THREAD_EXIT # fs) = (fs = [])"
| "stack_ok (f # fs) = stack_ok fs"

fun idle_stack :: "frame list \<Rightarrow> bool" where
  "idle_stack (IRET # fs) = idle_stack fs"
| "idle_stack (INTR_SET_LEVEL b # fs) = idle_stack fs"
| "idle_stack (IDLE_LOOP # fs) = (fs = [THREAD_EXIT])"
| "idle_stack (IDLE_HLT # fs) = (fs = [THREAD_EXIT])"
| "idle_stack fs = False"

fun good_frame :: "nat \<Rightarrow> nat \<Rightarrow> frame \<Rightarrow> bool" where
  "good_frame i t (SEMA_DOWN (WAITER w)) = (w = t)"
| "good_frame i t (SEMA_WAIT (WAITER w) b) = (w = t)"
| "good_frame i t (THREAD_START p) = False"
| "good_frame i t (THREAD_CREATE nm prio b p) = False"
| "good_frame i t (CREATE_DONE p b) = (b = CLIENT)"
| "good_frame i t (IDLE_START s) = False"
| "good_frame i t IDLE_LOOP = (t = i)"
| "good_frame i t IDLE_HLT = (t = i)"
| "good_frame i t (SEMA_TRY_DOWN s) = False"
| "good_frame i t f = True"

definition frames_ok :: "nat \<Rightarrow> nat \<Rightarrow> frame list \<Rightarrow> bool" where
  "frames_ok i t fs = (stack_ok fs \<and> (\<forall>f \<in> set fs. good_frame i t f)
     \<and> (\<forall>f \<in> set (tl fs). \<not> is_wait f) \<and> (t = i \<longrightarrow> idle_stack fs))"

text \<open>The threads a stack is still to finish the creation of.\<close>

fun creating :: "frame list \<Rightarrow> nat list" where
  "creating [] = []"
| "creating (CREATE_DONE t b # fs) = t # creating fs"
| "creating (f # fs) = creating fs"

subsection \<open>Consistency\<close>

text \<open>The invariant while thread \<open>r\<close>, if any, is marked as running.\<close>

definition threads_ok :: "kernel \<Rightarrow> nat option \<Rightarrow> bool" where
  "threads_ok k r \<longleftrightarrow> distinct (all_list k)
     \<and> (\<forall>t \<in> set (all_list k). is_thread k t \<and> status k t \<noteq> THREAD_DYING
          \<and> (status k t = THREAD_RUNNING \<longleftrightarrow> r = Some t))"

definition queue_ok :: "kernel \<Rightarrow> bool" where
  "queue_ok k \<longleftrightarrow> distinct (ready_list k)
     \<and> (\<forall>t. t \<in> set (ready_list k) \<longleftrightarrow>
          t \<in> set (all_list k) \<and> status k t = THREAD_READY \<and> t \<noteq> idle_thread k)"

definition waiters_ok :: "kernel \<Rightarrow> bool" where
  "waiters_ok k \<longleftrightarrow> (\<forall>s. distinct (wtrs k s)
     \<and> (\<forall>t \<in> set (wtrs k s). t \<in> set (all_list k) \<and> status k t = THREAD_BLOCKED \<and> waits_on k s t))"

definition blocked_ok :: "kernel \<Rightarrow> bool" where
  "blocked_ok k \<longleftrightarrow> (\<forall>t \<in> set (all_list k). status k t = THREAD_BLOCKED \<longrightarrow>
     (\<exists>s. t \<in> set (wtrs k s)) \<or> t = idle_thread k \<or> todo k t = [])"

definition stacks_ok :: "kernel \<Rightarrow> bool" where
  "stacks_ok k \<longleftrightarrow> idle_thread k \<in> set (all_list k)
     \<and> (\<forall>t. frames_ok (idle_thread k) t (todo k t))
     \<and> (\<forall>t. t \<notin> set (all_list k) \<longrightarrow> todo k t = [])"

definition creation_ok :: "kernel \<Rightarrow> bool" where
  "creation_ok k \<longleftrightarrow> (\<forall>u. distinct (creating (todo k u)))
     \<and> (\<forall>u v. u \<noteq> v \<longrightarrow> set (creating (todo k u)) \<inter> set (creating (todo k v)) = {})
     \<and> (\<forall>u. \<forall>t \<in> set (creating (todo k u)).
          t \<in> set (all_list k) \<and> todo k t = [] \<and> status k t = THREAD_BLOCKED)"

definition base_inv :: "kernel \<Rightarrow> nat option \<Rightarrow> bool" where
  "base_inv k r \<longleftrightarrow> threads_ok k r \<and> queue_ok k \<and> waiters_ok k \<and> blocked_ok k \<and> stacks_ok k \<and> creation_ok k"

definition sched_inv :: "kernel \<Rightarrow> bool" where
  "sched_inv k \<longleftrightarrow> base_inv k (Some (cur k)) \<and> cur k \<in> set (all_list k) \<and> \<not> in_external_intr k
     \<and> ((\<exists>s. waits_on k s (cur k)) \<longrightarrow> \<not> level k)"

lemmas inv_parts = threads_ok_def queue_ok_def waiters_ok_def blocked_ok_def stacks_ok_def creation_ok_def

lemma base_invD:
  assumes "base_inv k r"
  shows "threads_ok k r" "queue_ok k" "waiters_ok k" "blocked_ok k" "stacks_ok k" "creation_ok k"
  using assms by (simp_all add: base_inv_def)

lemma queue_okD: "queue_ok k \<Longrightarrow> t \<in> set (ready_list k) \<longleftrightarrow>
    t \<in> set (all_list k) \<and> status k t = THREAD_READY \<and> t \<noteq> idle_thread k"
  by (simp add: queue_ok_def)

lemma waiters_okD:
  "waiters_ok k \<Longrightarrow> t \<in> set (wtrs k s) \<Longrightarrow>
   t \<in> set (all_list k) \<and> status k t = THREAD_BLOCKED \<and> waits_on k s t"
  by (simp add: waiters_ok_def)

lemma stacks_okD: "stacks_ok k \<Longrightarrow> frames_ok (idle_thread k) t (todo k t)"
  by (simp add: stacks_ok_def)

lemma idle_not_waiting: "stacks_ok k \<Longrightarrow> waits_on k s t \<Longrightarrow> t \<noteq> idle_thread k"
  using stacks_okD [of k t] by (auto simp: waits_on_def frames_ok_def)

lemma creation_okD:
  "creation_ok k \<Longrightarrow> t \<in> set (creating (todo k u)) \<Longrightarrow>
   t \<in> set (all_list k) \<and> todo k t = [] \<and> status k t = THREAD_BLOCKED"
  by (simp add: creation_ok_def)

text \<open>The invariant reads only some of the state.\<close>

definition same_view :: "kernel \<Rightarrow> kernel \<Rightarrow> bool" where
  "same_view k k' \<longleftrightarrow> all_list k' = all_list k \<and> ready_list k' = ready_list k \<and> idle_thread k' = idle_thread k
     \<and> todo k' = todo k \<and> (\<forall>t. status k' t = status k t \<and> is_thread k' t = is_thread k t)
     \<and> (\<forall>s. wtrs k' s = wtrs k s)"

lemma same_viewD:
  assumes "same_view k k'"
  shows "all_list k' = all_list k" "ready_list k' = ready_list k" "idle_thread k' = idle_thread k"
    "todo k' = todo k" "status k' t = status k t" "is_thread k' t = is_thread k t" "wtrs k' s = wtrs k s"
    "waits_on k' s t = waits_on k s t"
  using assms by (simp_all add: same_view_def waits_on_def)

lemma base_inv_view:
  assumes "same_view k k'" "base_inv k r"
  shows "base_inv k' r"
  using assms(2) unfolding base_inv_def inv_parts same_viewD [OF assms(1)] .

lemma sched_inv_view:
  assumes "same_view k k'" "sched_inv k" "cur k' = cur k" "in_external_intr k' = in_external_intr k"
    "(\<exists>s. waits_on k s (cur k)) \<longrightarrow> \<not> level k'"
  shows "sched_inv k'"
  using assms(2-) base_inv_view [OF assms(1), of "Some (cur k)"]
  unfolding sched_inv_def same_viewD [OF assms(1)] by simp

lemma current_runs:
  "sched_inv k \<Longrightarrow> is_thread k (cur k) \<and> status k (cur k) = THREAD_RUNNING"
  by (auto simp: sched_inv_def base_inv_def threads_ok_def)

lemma thread_current_ok: "sched_inv k \<Longrightarrow> thread_current k = Inr (cur k)"
  using current_runs [of k] by (simp add: thread_current_def running_thread_def)

lemma current_not_waiting: "sched_inv k \<Longrightarrow> cur k \<notin> set (wtrs k s)"
  using current_runs [of k] by (auto simp: sched_inv_def base_inv_def waiters_ok_def)

text \<open>Changing the stack of the current thread.\<close>

lemma set_todo_sel:
  "cur (set_todo fs k) = cur k" "thr (set_todo fs k) = thr k" "all_list (set_todo fs k) = all_list k"
  "ready_list (set_todo fs k) = ready_list k" "idle_thread (set_todo fs k) = idle_thread k"
  "level (set_todo fs k) = level k" "in_external_intr (set_todo fs k) = in_external_intr k"
  "sema (set_todo fs k) = sema k" "lock_holder (set_todo fs k) = lock_holder k"
  "is_thread (set_todo fs k) t = is_thread k t"
  by (simp_all add: set_todo_def is_thread_def)

lemma sched_inv_set_todo:
  assumes inv: "sched_inv k" and ok: "frames_ok (idle_thread k) (cur k) fs"
    and cr: "distinct (creating fs)"
      "\<And>t. t \<in> set (creating fs) \<Longrightarrow> t \<in> set (all_list k) \<and> todo k t = [] \<and> status k t = THREAD_BLOCKED
         \<and> (\<forall>v. v \<noteq> cur k \<longrightarrow> t \<notin> set (creating (todo k v)))"
    and w: "fs \<noteq> [] \<and> is_wait (hd fs) \<Longrightarrow> \<not> level k"
  shows "sched_inv (set_todo fs k)"
proof -
  have b: "base_inv k (Some (cur k))" "cur k \<in> set (all_list k)" using inv by (auto simp: sched_inv_def)
  have wv: "waits_on (set_todo fs k) s t \<longleftrightarrow> waits_on k s t" if "t \<noteq> cur k" for s t
    using that by (simp add: waits_on_def set_todo_def)
  have run: "status k (cur k) = THREAD_RUNNING" using current_runs [OF inv] by simp
  have "waiters_ok (set_todo fs k)"
    unfolding waiters_ok_def
  proof (intro allI conjI ballI)
    fix s show "distinct (wtrs (set_todo fs k) s)"
      using base_invD(3) [OF b(1)] by (simp add: waiters_ok_def set_todo_def)
    fix t assume "t \<in> set (wtrs (set_todo fs k) s)"
    then have t: "t \<in> set (wtrs k s)" by (simp add: set_todo_def)
    then have "t \<noteq> cur k" using current_not_waiting [OF inv] by auto
    then show "t \<in> set (all_list (set_todo fs k))" "status (set_todo fs k) t = THREAD_BLOCKED"
      "waits_on (set_todo fs k) s t"
      using t wv base_invD(3) [OF b(1)] by (auto simp: waiters_ok_def set_todo_def)
  qed
  moreover have "threads_ok (set_todo fs k) (Some (cur k))" "queue_ok (set_todo fs k)"
    using base_invD(1,2) [OF b(1)] by (simp_all add: threads_ok_def queue_ok_def set_todo_def is_thread_def)
  moreover have "blocked_ok (set_todo fs k)"
    using base_invD(4) [OF b(1)] run by (auto simp: blocked_ok_def set_todo_def)
  moreover have "stacks_ok (set_todo fs k)"
    using base_invD(5) [OF b(1)] ok b(2) by (auto simp: stacks_ok_def set_todo_def)
  moreover have "creation_ok (set_todo fs k)"
  proof -
    have c: "creating (todo (set_todo fs k) u) = (if u = cur k then creating fs else creating (todo k u))" for u
      by (simp add: set_todo_def)
    have old: "distinct (creating (todo k u))"
      "u \<noteq> v \<Longrightarrow> set (creating (todo k u)) \<inter> set (creating (todo k v)) = {}"
      "t \<in> set (creating (todo k u)) \<Longrightarrow> t \<in> set (all_list k) \<and> todo k t = [] \<and> status k t = THREAD_BLOCKED"
      for u v t using base_invD(6) [OF b(1)] by (simp_all add: creation_ok_def)
    have t: "t \<in> set (all_list k) \<and> todo (set_todo fs k) t = [] \<and> status k t = THREAD_BLOCKED"
      if "t \<in> set (creating (todo (set_todo fs k) u))" for t u
    proof -
      have "t \<in> set (all_list k) \<and> todo k t = [] \<and> status k t = THREAD_BLOCKED"
        using that cr(2) old(3) unfolding c by (auto split: if_splits)
      moreover from this have "t \<noteq> cur k" using run by auto
      ultimately show ?thesis by (simp add: set_todo_def)
    qed
    have "set (creating (todo (set_todo fs k) u)) \<inter> set (creating (todo (set_todo fs k) v)) = {}"
      if "u \<noteq> v" for u v
      using that cr(2) old(2) [OF that] unfolding c by (auto split: if_splits)
    moreover have "distinct (creating (todo (set_todo fs k) u))" for u
      using cr(1) old(1) by (simp add: c)
    ultimately show ?thesis
      unfolding creation_ok_def using t by (simp add: set_todo_sel)
  qed
  ultimately have "base_inv (set_todo fs k) (Some (cur (set_todo fs k)))"
    by (simp add: base_inv_def set_todo_def)
  moreover have "\<exists>s. waits_on (set_todo fs k) s (cur k) \<Longrightarrow> \<not> level k"
    using w by (auto simp: waits_on_def set_todo_def)
  ultimately show ?thesis
    using inv by (auto simp: sched_inv_def set_todo_def)
qed

lemma push_set_todo: "push fs k = set_todo (fs @ todo k (cur k)) k"
  by (simp add: push_def set_todo_def)

fun plain :: "frame \<Rightarrow> bool" where
  "plain BODY = False"
| "plain THREAD_EXIT = False"
| "plain (CREATE_DONE t b) = False"
| "plain f = True"

lemma plain_stack: "plain f \<Longrightarrow> stack_ok (f # fs) = stack_ok fs" "plain f \<Longrightarrow> creating (f # fs) = creating fs"
  by (cases f; simp)+

lemma plain_stacks:
  "\<forall>f \<in> set gs. plain f \<Longrightarrow> stack_ok (gs @ fs) = stack_ok fs"
  "\<forall>f \<in> set gs. plain f \<Longrightarrow> creating (gs @ fs) = creating fs"
  by (induction gs) (simp_all add: plain_stack)

lemma stack_ok_tl: "stack_ok (f # fs) \<Longrightarrow> stack_ok fs"
  by (cases f) auto

lemma creating_tl: "set (creating fs) \<subseteq> set (creating (f # fs))" "distinct (creating (f # fs)) \<Longrightarrow> distinct (creating fs)"
  by (cases f; auto)+

lemma sched_inv_frames: "sched_inv k \<Longrightarrow> frames_ok (idle_thread k) t (todo k t)"
  by (simp add: sched_inv_def base_inv_def stacks_ok_def)

lemma sched_inv_creating:
  assumes "sched_inv k"
  shows "distinct (creating (todo k u))"
    "t \<in> set (creating (todo k u)) \<Longrightarrow> t \<in> set (all_list k) \<and> todo k t = [] \<and> status k t = THREAD_BLOCKED
       \<and> (\<forall>v. v \<noteq> u \<longrightarrow> t \<notin> set (creating (todo k v)))"
  using assms unfolding sched_inv_def base_inv_def creation_ok_def by (simp, blast)

lemma pop_inv:
  assumes inv: "sched_inv k" and top: "todo k (cur k) = f # fs"
    and idle: "cur k = idle_thread k \<Longrightarrow> idle_stack fs"
  shows "sched_inv (set_todo fs k)"
proof (rule sched_inv_set_todo [OF inv])
  have "frames_ok (idle_thread k) (cur k) (f # fs)"
    using sched_inv_frames [OF inv, of "cur k"] top by simp
  then show "frames_ok (idle_thread k) (cur k) fs"
    using stack_ok_tl idle by (cases fs) (auto simp: frames_ok_def)
  have nw: "\<forall>f \<in> set fs. \<not> is_wait f" using \<open>frames_ok (idle_thread k) (cur k) (f # fs)\<close> by (simp add: frames_ok_def)
  show "\<not> level k" if "fs \<noteq> [] \<and> is_wait (hd fs)" using that nw by (cases fs) auto
  show "distinct (creating fs)"
    using sched_inv_creating(1) [OF inv, of "cur k"] top creating_tl(2) by simp
  fix t assume "t \<in> set (creating fs)"
  then have "t \<in> set (creating (todo k (cur k)))" using top creating_tl(1) by auto
  then show "t \<in> set (all_list k) \<and> todo k t = [] \<and> status k t = THREAD_BLOCKED
      \<and> (\<forall>v. v \<noteq> cur k \<longrightarrow> t \<notin> set (creating (todo k v)))"
    by (rule sched_inv_creating(2) [OF inv])
qed

lemma push_inv:
  assumes inv: "sched_inv k" and pl: "\<forall>f \<in> set gs. plain f \<and> good_frame (idle_thread k) (cur k) f"
    and nw: "\<forall>f \<in> set (tl gs). \<not> is_wait f" "gs \<noteq> [] \<and> is_wait (hd gs) \<Longrightarrow> \<not> level k"
    and top: "gs \<noteq> [] \<Longrightarrow> todo k (cur k) \<noteq> [] \<Longrightarrow> \<not> is_wait (hd (todo k (cur k)))"
    and idle: "cur k = idle_thread k \<Longrightarrow> idle_stack (gs @ todo k (cur k))"
  shows "sched_inv (push gs k)"
proof (cases "gs = []")
  case True
  then show ?thesis using inv by (simp add: push_set_todo set_todo_def)
next
  case False
  have fr: "frames_ok (idle_thread k) (cur k) (todo k (cur k))" by (rule sched_inv_frames [OF inv])
  have nw': "\<forall>f \<in> set (todo k (cur k)). \<not> is_wait f"
    using fr top False by (cases "todo k (cur k)") (auto simp: frames_ok_def)
  show ?thesis
    unfolding push_set_todo
  proof (rule sched_inv_set_todo [OF inv])
    show "frames_ok (idle_thread k) (cur k) (gs @ todo k (cur k))"
      using fr pl nw(1) nw' idle False by (auto simp: frames_ok_def plain_stacks)
    show "distinct (creating (gs @ todo k (cur k)))"
      using sched_inv_creating(1) [OF inv] pl by (simp add: plain_stacks)
    show "\<not> level k" if "gs @ todo k (cur k) \<noteq> [] \<and> is_wait (hd (gs @ todo k (cur k)))"
      using that nw(2) False by simp
    fix t assume "t \<in> set (creating (gs @ todo k (cur k)))"
    then have "t \<in> set (creating (todo k (cur k)))" using pl by (simp add: plain_stacks)
    then show "t \<in> set (all_list k) \<and> todo k t = [] \<and> status k t = THREAD_BLOCKED
        \<and> (\<forall>v. v \<noteq> cur k \<longrightarrow> t \<notin> set (creating (todo k v)))"
      by (rule sched_inv_creating(2) [OF inv])
  qed
qed

subsection \<open>Scheduling\<close>

lemma set_status_sel:
  "cur (set_status t s k) = cur k" "todo (set_status t s k) = todo k" "all_list (set_status t s k) = all_list k"
  "ready_list (set_status t s k) = ready_list k" "idle_thread (set_status t s k) = idle_thread k"
  "level (set_status t s k) = level k" "in_external_intr (set_status t s k) = in_external_intr k"
  "sema (set_status t s k) = sema k" "status (set_status t s k) u = (if u = t then s else status k u)"
  "is_thread (set_status t s k) u = is_thread k u" "waits_on (set_status t s k) q u = waits_on k q u"
  by (simp_all add: set_status_def is_thread_def waits_on_def)

text \<open>Marking the thread that is to run next, taken off the run queue.\<close>

lemma mark_running:
  assumes "base_inv k None" "t \<in> set (all_list k)" "k' = (set_status t THREAD_RUNNING k)\<lparr>ready_list := rs, cur := c\<rparr>"
    "t = idle_thread k \<and> rs = ready_list k \<or> ready_list k = t # rs"
  shows "base_inv k' (Some t)"
proof -
  note b = base_invD [OF assms(1)]
  have idle: "idle_thread k \<notin> set (ready_list k)" using b(2) by (simp add: queue_ok_def)
  have nw: "t \<notin> set (wtrs k s)" for s
  proof
    assume "t \<in> set (wtrs k s)"
    then have w: "status k t = THREAD_BLOCKED" "waits_on k s t" using waiters_okD [OF b(3)] by blast+
    then have "t \<notin> set (ready_list k)" using queue_okD [OF b(2)] by simp
    then show False using assms(4) idle_not_waiting [OF b(5) w(2)] by auto
  qed
  have sel: "all_list k' = all_list k" "todo k' = todo k" "idle_thread k' = idle_thread k" "ready_list k' = rs"
    "sema k' = sema k" "status k' u = (if u = t then THREAD_RUNNING else status k u)"
    "is_thread k' u = is_thread k u" "waits_on k' s u = waits_on k s u" for u s
    by (simp_all add: assms(3) set_status_def is_thread_def waits_on_def)
  have "threads_ok k' (Some t)" using b(1) unfolding threads_ok_def sel by auto
  moreover have "queue_ok k'"
  proof -
    have "distinct (ready_list k)" using b(2) by (simp add: queue_ok_def)
    then have "distinct rs" "set rs = set (ready_list k) - {t}" using assms(4) idle by auto
    then show ?thesis unfolding queue_ok_def sel using queue_okD [OF b(2)] by simp
  qed
  moreover have "waiters_ok k'" using b(3) nw unfolding waiters_ok_def sel by auto
  moreover have "blocked_ok k'" using b(4) unfolding blocked_ok_def sel by auto
  moreover have "stacks_ok k'" using b(5) unfolding stacks_ok_def sel by auto
  moreover have "creation_ok k'"
  proof -
    have "t \<notin> set (creating (todo k u))" for u
    proof
      assume "t \<in> set (creating (todo k u))"
      then have c: "todo k t = []" "status k t = THREAD_BLOCKED" using creation_okD [OF b(6)] by blast+
      then have "t \<notin> set (ready_list k)" using queue_okD [OF b(2)] by simp
      then have "t = idle_thread k" using assms(4) by auto
      then show False using stacks_okD [OF b(5), of t] c(1) by (simp add: frames_ok_def)
    qed
    then show ?thesis using b(6) unfolding creation_ok_def sel by auto
  qed
  ultimately show ?thesis by (simp add: base_inv_def)
qed

lemma schedule_tail_result:
  "schedule_tail p k = Inr k' \<Longrightarrow> \<not> level k
   \<and> k' = (set_status (cur k) THREAD_RUNNING k)\<lparr>thread_ticks := 0, freed_pages := freed_pages k'\<rparr>"
  by (auto simp: schedule_tail_def running_thread_def Let_def res_simps set_status_def split: if_splits)

lemma schedule_result:
  assumes "schedule k = Inr k'"
  shows "\<exists>t rs fp. (ready_list k = t # rs \<or> ready_list k = [] \<and> t = idle_thread k \<and> rs = [])
    \<and> k' = (set_status t THREAD_RUNNING k)\<lparr>ready_list := rs, cur := t, thread_ticks := 0, freed_pages := fp\<rparr>
    \<and> \<not> level k"
proof -
  define t rs where "t = (case ready_list k of [] \<Rightarrow> idle_thread k | t # ts \<Rightarrow> t)"
    and "rs = (case ready_list k of [] \<Rightarrow> [] | t # ts \<Rightarrow> ts)"
  have nt: "next_thread_to_run k = (t, k\<lparr>ready_list := rs\<rparr>)"
    by (simp add: next_thread_to_run_def t_def rs_def split: list.splits)
  have "\<exists>p. schedule_tail p (k\<lparr>ready_list := rs, cur := t\<rparr>) = Inr k'"
    using assms unfolding schedule_def nt
    by (auto simp: Let_def running_thread_def res_simps split: if_splits)
  then obtain p where p: "schedule_tail p (k\<lparr>ready_list := rs, cur := t\<rparr>) = Inr k'" ..
  obtain fp where "\<not> level k"
    "k' = (set_status t THREAD_RUNNING (k\<lparr>ready_list := rs, cur := t\<rparr>))\<lparr>thread_ticks := 0, freed_pages := fp\<rparr>"
    using that [of "freed_pages k'"] schedule_tail_result [OF p] by simp
  moreover have "ready_list k = t # rs \<or> ready_list k = [] \<and> t = idle_thread k \<and> rs = []"
    by (simp add: t_def rs_def split: list.splits)
  ultimately show ?thesis
    by (rule_tac exI [of _ t], rule_tac exI [of _ rs], rule_tac exI [of _ fp]) (simp add: set_status_def)
qed

lemma schedule_inv:
  assumes "base_inv k None" "\<not> in_external_intr k" "schedule k = Inr k'"
  shows "sched_inv k'"
proof -
  obtain t rs fp where t: "ready_list k = t # rs \<or> ready_list k = [] \<and> t = idle_thread k \<and> rs = []"
    and k': "k' = (set_status t THREAD_RUNNING k)\<lparr>ready_list := rs, cur := t, thread_ticks := 0, freed_pages := fp\<rparr>"
    and lv: "\<not> level k"
    using schedule_result [OF assms(3)] by blast
  have al: "t \<in> set (all_list k)"
    using t queue_okD [OF base_invD(2) [OF assms(1)], of t] base_invD(5) [OF assms(1)]
    by (auto simp: stacks_ok_def)
  have "base_inv ((set_status t THREAD_RUNNING k)\<lparr>ready_list := rs, cur := t\<rparr>) (Some t)"
    using mark_running [OF assms(1) al refl] t by auto
  moreover have "same_view ((set_status t THREAD_RUNNING k)\<lparr>ready_list := rs, cur := t\<rparr>) k'"
    by (simp add: same_view_def k' is_thread_def)
  ultimately have "base_inv k' (Some t)" by (rule base_inv_view [rotated])
  then show ?thesis
    using assms(2) lv al by (simp add: sched_inv_def k' set_status_def)
qed

text \<open>Putting the current thread on the wait list of a semaphore.\<close>

lemma block_inv:
  assumes inv: "sched_inv k" and c: "cur k \<noteq> idle_thread k" and nw: "\<forall>f \<in> set (todo k (cur k)). \<not> is_wait f"
    and g: "good_frame (idle_thread k) (cur k) (SEMA_WAIT s b)"
    and k': "k' = set_status (cur k) THREAD_BLOCKED
      (push [SEMA_WAIT s b] (set_sema s v (wtrs k s @ [cur k]) k))"
  shows "base_inv k' None"
proof -
  have b: "base_inv k (Some (cur k))" "cur k \<in> set (all_list k)" using inv by (auto simp: sched_inv_def)
  note bs = base_invD [OF b(1)]
  have run: "status k (cur k) = THREAD_RUNNING" using current_runs [OF inv] by simp
  have sel: "all_list k' = all_list k" "idle_thread k' = idle_thread k" "ready_list k' = ready_list k"
    "todo k' u = (if u = cur k then SEMA_WAIT s b # todo k u else todo k u)"
    "wtrs k' q = (if q = s then wtrs k s @ [cur k] else wtrs k q)"
    "status k' u = (if u = cur k then THREAD_BLOCKED else status k u)"
    "is_thread k' u = is_thread k u" for u q
    by (simp_all add: k' set_status_def push_def set_sema_def is_thread_def)
  have w: "waits_on k' q u = (if u = cur k then q = s else waits_on k q u)" for q u
    by (auto simp: waits_on_def sel)
  have "threads_ok k' None" using bs(1) unfolding threads_ok_def sel by auto
  moreover have "queue_ok k'" using bs(2) run unfolding queue_ok_def sel by auto
  moreover have "waiters_ok k'"
    using bs(3) b(2) current_not_waiting [OF inv] unfolding waiters_ok_def w sel by auto
  moreover have "blocked_ok k'" using bs(4) run unfolding blocked_ok_def sel by auto
  moreover have "stacks_ok k'"
    using bs(5) b(2) c g nw unfolding stacks_ok_def sel by (auto simp: frames_ok_def)
  moreover have "creation_ok k'"
  proof -
    have cr: "creating (todo k' u) = creating (todo k u)" for u by (simp add: sel)
    have "t \<noteq> cur k" if "t \<in> set (creating (todo k u))" for t u
      using creation_okD [OF bs(6) that] run by auto
    then show ?thesis using bs(6) unfolding creation_ok_def cr sel(1,6) sel(4) [of "_"] by auto
  qed
  ultimately show ?thesis by (simp add: base_inv_def)
qed

subsection \<open>Waking\<close>

definition wake :: "sema_id \<Rightarrow> kernel \<Rightarrow> kernel" where
  "wake s k = (case wtrs k s of
       [] \<Rightarrow> set_sema s (val k s + 1) [] k
     | t # ts \<Rightarrow> set_status t THREAD_READY
         ((set_sema s (val k s + 1) ts k)\<lparr>ready_list := ready_list k @ [t]\<rparr>))"

lemma intr_set_level_Inr: "intr_set_level b k = Inr k' \<Longrightarrow> k' = k\<lparr>level := b\<rparr>"
  by (auto simp: intr_set_level_def intr_enable_def intr_disable_def res_simps split: if_splits)

lemma sema_up_result:
  assumes "sema_up s k = Inr k'"
  shows "k' = (wake s k)\<lparr>level := level k\<rparr>"
proof (cases "wtrs k s")
  case Nil
  then show ?thesis
    using assms by (auto simp: sema_up_def Let_def intr_disable_def wake_def set_sema_def dest!: intr_set_level_Inr)
next
  case (Cons t ts)
  then show ?thesis
    using assms
    by (auto simp: sema_up_def Let_def intr_disable_def wake_def set_sema_def set_status_def thread_unblock_def
        res_simps dest!: intr_set_level_Inr)
qed

lemma wake_sel:
  "cur (wake s k) = cur k" "todo (wake s k) = todo k" "all_list (wake s k) = all_list k"
  "idle_thread (wake s k) = idle_thread k" "in_external_intr (wake s k) = in_external_intr k"
  "level (wake s k) = level k" "is_thread (wake s k) t = is_thread k t" "waits_on (wake s k) q t = waits_on k q t"
  "lock_holder (wake s k) = lock_holder k" "yield_on_return (wake s k) = yield_on_return k"
  "timed_semaphores (wake s k) = timed_semaphores k" "remaining (wake s k) = remaining k"
  by (simp_all add: wake_def set_sema_def set_status_def is_thread_def waits_on_def split: list.splits)

lemma wake_status:
  "status (wake s k) t = (if t \<in> set (take 1 (wtrs k s)) then THREAD_READY else status k t)"
  by (auto simp: wake_def set_sema_def set_status_def split: list.splits)

lemma wake_lists:
  "wtrs (wake s k) q = (if q = s then tl (wtrs k s) else wtrs k q)"
  "ready_list (wake s k) = ready_list k @ take 1 (wtrs k s)"
  "val (wake s k) q = (if q = s then val k s + 1 else val k q)"
  by (auto simp: wake_def set_sema_def set_status_def split: list.splits)

lemma wake_inv:
  assumes "base_inv k r"
  shows "base_inv (wake s k) r"
proof (cases "wtrs k s")
  case Nil
  then have "same_view k (wake s k)"
    by (simp add: same_view_def wake_def set_sema_def is_thread_def)
  then show ?thesis using assms by (rule base_inv_view)
next
  case (Cons t ts)
  note b = base_invD [OF assms]
  have t: "t \<in> set (all_list k)" "status k t = THREAD_BLOCKED" "waits_on k s t"
    using waiters_okD [OF b(3), of t s] Cons by auto
  have ts: "t \<notin> set ts" "distinct ts" using b(3) Cons unfolding waiters_ok_def by (metis distinct.simps(2))+
  have idle: "t \<noteq> idle_thread k" using idle_not_waiting [OF b(5) t(3)] .
  have st: "status (wake s k) u = (if u = t then THREAD_READY else status k u)" for u
    by (simp add: wake_status Cons)
  have wt: "wtrs (wake s k) q = (if q = s then ts else wtrs k q)" for q by (simp add: wake_lists Cons)
  have other: "t \<notin> set (wtrs k q)" if "q \<noteq> s" for q
    using waiters_okD [OF b(3), of t q] t(3) that by (auto simp: waits_on_def)
  have sub: "u \<in> set (all_list k) \<and> status k u = THREAD_BLOCKED \<and> waits_on k s u" if "u \<in> set ts" for u
    using waiters_okD [OF b(3), of u s] that Cons by simp
  have "threads_ok (wake s k) r" using b(1) t unfolding threads_ok_def wake_sel st by auto
  moreover have "queue_ok (wake s k)"
    using b(2) t idle queue_okD [OF b(2)] unfolding queue_ok_def wake_sel st wake_lists Cons by auto
  moreover have "waiters_ok (wake s k)"
    unfolding waiters_ok_def wake_sel st wt
    using ts other sub b(3) by (auto simp: waiters_ok_def)
  moreover have "blocked_ok (wake s k)"
    unfolding blocked_ok_def wake_sel st
  proof (intro ballI impI)
    fix u assume u: "u \<in> set (all_list k)" "(if u = t then THREAD_READY else status k u) = THREAD_BLOCKED"
    then have "u \<noteq> t" "status k u = THREAD_BLOCKED" by (auto split: if_splits)
    then consider q where "u \<in> set (wtrs k q)" | "u = idle_thread k \<or> todo k u = []"
      using b(4) u(1) by (auto simp: blocked_ok_def)
    then show "(\<exists>q. u \<in> set (wtrs (wake s k) q)) \<or> u = idle_thread k \<or> todo k u = []"
    proof cases
      case 1
      then have "u \<in> set (wtrs (wake s k) q)" using \<open>u \<noteq> t\<close> Cons by (auto simp: wt)
      then show ?thesis by blast
    qed blast
  qed
  moreover have "stacks_ok (wake s k)" using b(5) unfolding stacks_ok_def wake_sel .
  moreover have "creation_ok (wake s k)"
  proof -
    have "t \<notin> set (creating (todo k u))" for u
      using creation_okD [OF b(6), of t u] t(3) by (auto simp: waits_on_def)
    then show ?thesis using b(6) unfolding creation_ok_def wake_sel st by auto
  qed
  ultimately show ?thesis by (simp add: base_inv_def)
qed

lemma level_view: "same_view k (k\<lparr>level := b\<rparr>)"
  by (simp add: same_view_def is_thread_def)

lemma sema_up_inv:
  assumes "sched_inv k" "sema_up s k = Inr k'"
  shows "sched_inv k'"
proof -
  have k': "k' = (wake s k)\<lparr>level := level k\<rparr>" by (rule sema_up_result [OF assms(2)])
  have "base_inv (wake s k) (Some (cur k))" using assms(1) wake_inv by (simp add: sched_inv_def)
  then have "base_inv k' (Some (cur k))" unfolding k' by (rule base_inv_view [OF level_view])
  then show ?thesis
    using assms(1) by (simp add: k' sched_inv_def wake_sel waits_on_def)
qed

subsection \<open>Yielding, exiting and creating\<close>

lemma yield_inv:
  assumes inv: "sched_inv k" and nw: "\<forall>f \<in> set (todo k (cur k)). \<not> is_wait f"
    and y: "thread_yield k = Inr k'"
  shows "sched_inv k'"
proof -
  let ?c = "cur k"
  define rs where "rs = (if ?c \<noteq> idle_thread k then ready_list k @ [?c] else ready_list k)"
  define k1 where "k1 = set_status ?c THREAD_READY (push [INTR_SET_LEVEL (level k)] (k\<lparr>level := False, ready_list := rs\<rparr>))"
  have b: "base_inv k (Some ?c)" "?c \<in> set (all_list k)" using inv by (auto simp: sched_inv_def)
  note bs = base_invD [OF b(1)]
  have run: "status k ?c = THREAD_RUNNING" using current_runs [OF inv] by simp
  have "push [INTR_SET_LEVEL (level k)] (set_status ?c THREAD_READY
      (if ?c \<noteq> idle_thread k then k\<lparr>level := False, ready_list := ready_list k @ [?c]\<rparr> else k\<lparr>level := False\<rparr>)) = k1"
    by (simp add: k1_def push_def set_status_def rs_def)
  then have sch: "schedule k1 = Inr k'"
    using y thread_current_ok [OF inv]
    by (auto simp: thread_yield_def Let_def intr_disable_def res_simps split: if_splits)
  have sel: "all_list k1 = all_list k" "idle_thread k1 = idle_thread k" "ready_list k1 = rs"
    "todo k1 u = (if u = ?c then INTR_SET_LEVEL (level k) # todo k u else todo k u)" "wtrs k1 q = wtrs k q"
    "status k1 u = (if u = ?c then THREAD_READY else status k u)"
    "is_thread k1 u = is_thread k u" for u q
    by (simp_all add: k1_def set_status_def push_def is_thread_def)
  have w: "waits_on k1 q u = waits_on k q u" if "u \<noteq> ?c" for q u
    using that by (simp add: waits_on_def sel)
  have "threads_ok k1 None" using bs(1) unfolding threads_ok_def sel by auto
  moreover have "queue_ok k1"
    using bs(2) run b(2) queue_okD [OF bs(2)] unfolding queue_ok_def sel rs_def by auto
  moreover have "waiters_ok k1"
    unfolding waiters_ok_def sel
    using bs(3) w current_not_waiting [OF inv] waiters_okD [OF bs(3)] by (metis waiters_ok_def)
  moreover have "blocked_ok k1" using bs(4) unfolding blocked_ok_def sel by auto
  moreover have "stacks_ok k1"
  proof -
    have "frames_ok (idle_thread k) ?c (INTR_SET_LEVEL (level k) # todo k ?c)"
      using stacks_okD [OF bs(5), of ?c] nw by (auto simp: frames_ok_def)
    then show ?thesis using bs(5) b(2) unfolding stacks_ok_def sel by auto
  qed
  moreover have "creation_ok k1"
  proof -
    have cr: "creating (todo k1 u) = creating (todo k u)" for u by (simp add: sel)
    have "t \<noteq> ?c" if "t \<in> set (creating (todo k u))" for t u
      using creation_okD [OF bs(6) that] run by auto
    then show ?thesis using bs(6) unfolding creation_ok_def cr sel(1,6) sel(4) [of "_"] by auto
  qed
  ultimately have "base_inv k1 None" by (simp add: base_inv_def)
  moreover have "\<not> in_external_intr k1"
    using inv by (simp add: sched_inv_def k1_def set_status_def push_def)
  ultimately show ?thesis using sch schedule_inv by blast
qed

lemma exit_inv:
  assumes inv: "sched_inv k" and top: "todo k (cur k) = []" and c: "cur k \<noteq> idle_thread k"
    and x: "thread_exit k = Inr k'"
  shows "sched_inv k'"
proof -
  let ?c = "cur k"
  define k1 where "k1 = set_status ?c THREAD_DYING
    (k\<lparr>level := False, all_list := remove1 ?c (all_list k), todo := (todo k)(?c := [])\<rparr>)"
  have b: "base_inv k (Some ?c)" using inv by (auto simp: sched_inv_def)
  note bs = base_invD [OF b]
  have run: "status k ?c = THREAD_RUNNING" using current_runs [OF inv] by simp
  have sch: "schedule k1 = Inr k'"
    using x thread_current_ok [OF inv]
    by (auto simp: thread_exit_def Let_def intr_disable_def res_simps k1_def)
  have d: "distinct (all_list k)" using bs(1) by (simp add: threads_ok_def)
  have sel: "set (all_list k1) = set (all_list k) - {?c}" "distinct (all_list k1)" "idle_thread k1 = idle_thread k"
    "ready_list k1 = ready_list k" "todo k1 = todo k" "wtrs k1 q = wtrs k q"
    "status k1 u = (if u = ?c then THREAD_DYING else status k u)"
    "is_thread k1 u = is_thread k u" "waits_on k1 q u = waits_on k q u" for u q
    using d top by (auto simp: k1_def set_status_def is_thread_def waits_on_def fun_eq_iff)
  have "threads_ok k1 None" using bs(1) sel(2) unfolding threads_ok_def sel(1) sel(3-) by auto
  moreover have "queue_ok k1" using bs(2) run queue_okD [OF bs(2)] unfolding queue_ok_def sel by auto
  moreover have "waiters_ok k1"
    using bs(3) current_not_waiting [OF inv] unfolding waiters_ok_def sel by auto
  moreover have "blocked_ok k1" using bs(4) unfolding blocked_ok_def sel by auto
  moreover have "stacks_ok k1" using bs(5) c top unfolding stacks_ok_def sel by auto
  moreover have "creation_ok k1"
  proof -
    have "t \<noteq> ?c" if "t \<in> set (creating (todo k u))" for t u
      using creation_okD [OF bs(6) that] run by auto
    then show ?thesis using bs(6) unfolding creation_ok_def sel by auto
  qed
  ultimately have "base_inv k1 None" by (simp add: base_inv_def)
  moreover have "\<not> in_external_intr k1" using inv by (simp add: sched_inv_def k1_def set_status_def)
  ultimately show ?thesis using sch schedule_inv by blast
qed

lemma init_thread_inv:
  assumes inv: "sched_inv k" and t: "t \<notin> set (all_list k)" and i: "init_thread t nm prio k = Inr k'"
  shows "sched_inv k'" and "cur k' = cur k" and "todo k' = todo k" and "set (all_list k') = insert t (set (all_list k))"
    and "status k' t = THREAD_BLOCKED" and "idle_thread k' = idle_thread k" and "level k' = level k"
    and "lock_holder k' = lock_holder k" and "sema k' = sema k"
proof -
  have b: "base_inv k (Some (cur k))" "cur k \<in> set (all_list k)" using inv by (auto simp: sched_inv_def)
  note bs = base_invD [OF b(1)]
  have k': "k' = k\<lparr>thr := (thr k)(t := \<lparr>t_tid = 0, t_status = THREAD_BLOCKED, t_name = take 15 nm,
      t_stack = int t + PGSIZE_t, t_priority = prio, t_magic = THREAD_MAGIC\<rparr>), all_list := all_list k @ [t]\<rparr>"
    and t0: "t \<noteq> 0" using i by (auto simp: init_thread_def res_simps)
  show "cur k' = cur k" "todo k' = todo k" "set (all_list k') = insert t (set (all_list k))"
    "status k' t = THREAD_BLOCKED" "idle_thread k' = idle_thread k" "level k' = level k"
    "lock_holder k' = lock_holder k" "sema k' = sema k"
    by (simp_all add: k')
  have sel: "all_list k' = all_list k @ [t]" "idle_thread k' = idle_thread k" "ready_list k' = ready_list k"
    "todo k' = todo k" "wtrs k' q = wtrs k q" "status k' u = (if u = t then THREAD_BLOCKED else status k u)"
    "is_thread k' u = (if u = t then True else is_thread k u)" "waits_on k' q u = waits_on k q u" for u q
    using t0 by (simp_all add: k' is_thread_def waits_on_def)
  have tt: "todo k t = []" using bs(5) t by (simp add: stacks_ok_def)
  have "threads_ok k' (Some (cur k))" using bs(1) t b(2) unfolding threads_ok_def sel by auto
  moreover have "queue_ok k'" using bs(2) t queue_okD [OF bs(2)] unfolding queue_ok_def sel by auto
  moreover have "waiters_ok k'" using bs(3) unfolding waiters_ok_def sel by auto
  moreover have "blocked_ok k'" using bs(4) tt unfolding blocked_ok_def sel by auto
  moreover have "stacks_ok k'" using bs(5) unfolding stacks_ok_def sel by auto
  moreover have "creation_ok k'" using bs(6) unfolding creation_ok_def sel by auto
  ultimately have "base_inv k' (Some (cur k))" by (simp add: base_inv_def)
  then show "sched_inv k'" using inv by (simp add: sched_inv_def k' waits_on_def)
qed

lemma create_inv:
  assumes inv: "sched_inv k" and t: "t \<notin> set (all_list k)" and b: "b = CLIENT"
    and nw: "\<forall>f \<in> set (todo k (cur k)). \<not> is_wait f" and c: "cur k \<noteq> idle_thread k"
    and cr: "thread_create nm prio b t k = Inr k'"
  shows "sched_inv k'"
proof (cases "t = 0")
  case True
  then have "k' = k\<lparr>retval := (retval k)(cur k := False)\<rparr>" using cr by (simp add: thread_create_def)
  then show ?thesis
    using inv sched_inv_view [of k k'] by (simp add: same_view_def is_thread_def sched_inv_def)
next
  case False
  then obtain k1 where k1: "init_thread t nm prio k = Inr k1"
    and k': "k' = push [LOCK_ACQUIRE tid_lock, ALLOC_TID t, LOCK_RELEASE tid_lock, CREATE_DONE t b] k1"
    using cr by (auto simp: thread_create_def res_simps)
  note i = init_thread_inv [OF inv t k1]
  have tc: "t \<noteq> cur k" "todo k t = []" "\<And>u. t \<notin> set (creating (todo k u))"
    using inv t creation_okD [of k t] by (auto simp: sched_inv_def base_inv_def stacks_ok_def)
  have fr: "frames_ok (idle_thread k) (cur k) (todo k (cur k))" using sched_inv_frames [OF inv] .
  show ?thesis
    unfolding k' push_set_todo
  proof (rule sched_inv_set_todo [OF i(1)])
    show "frames_ok (idle_thread k1) (cur k1)
        ([LOCK_ACQUIRE tid_lock, ALLOC_TID t, LOCK_RELEASE tid_lock, CREATE_DONE t b] @ todo k1 (cur k1))"
      unfolding i(2,3,6) using fr nw c b by (auto simp: frames_ok_def)
    show "distinct (creating ([LOCK_ACQUIRE tid_lock, ALLOC_TID t, LOCK_RELEASE tid_lock, CREATE_DONE t b] @ todo k1 (cur k1)))"
      unfolding i(2,3) using sched_inv_creating(1) [OF inv] tc(3) by simp
    fix u assume "u \<in> set (creating ([LOCK_ACQUIRE tid_lock, ALLOC_TID t, LOCK_RELEASE tid_lock, CREATE_DONE t b] @ todo k1 (cur k1)))"
    then have "u = t \<or> u \<in> set (creating (todo k1 (cur k1)))" by auto
    then show "u \<in> set (all_list k1) \<and> todo k1 u = [] \<and> status k1 u = THREAD_BLOCKED
        \<and> (\<forall>v. v \<noteq> cur k1 \<longrightarrow> u \<notin> set (creating (todo k1 v)))"
      using sched_inv_creating(2) [OF i(1), of u "cur k1"] i tc by auto
  qed (use i in simp)
qed

lemma create_done_result:
  assumes "create_done t b k = Inr k'"
  shows "k' = k\<lparr>todo := (todo k)(t := kernel_thread b), ready_list := ready_list k @ [t],
    thr := (thr k)(t := (thr k t)\<lparr>t_stack := t_stack (thr k t) - 44, t_status := THREAD_READY\<rparr>),
    retval := (retval k)(cur k := True)\<rparr>"
  using assms
  by (auto simp: create_done_def alloc_frame_def thread_unblock_def set_status_def intr_disable_def Let_def res_simps
      dest!: intr_set_level_Inr)

lemma create_done_inv:
  assumes inv: "sched_inv k" and t: "t \<in> set (all_list k)" "status k t = THREAD_BLOCKED" "todo k t = []"
      "\<And>u. t \<notin> set (creating (todo k u))"
    and c: "create_done t CLIENT k = Inr k'"
  shows "sched_inv k'"
proof -
  note k' = create_done_result [OF c]
  have b: "base_inv k (Some (cur k))" using inv by (auto simp: sched_inv_def)
  note bs = base_invD [OF b]
  have tc: "t \<noteq> cur k" using current_runs [OF inv] t by auto
  have ti: "t \<noteq> idle_thread k" using stacks_okD [OF bs(5), of t] t(3) by (auto simp: frames_ok_def)
  have tw: "t \<notin> set (wtrs k q)" for q
    using waiters_okD [OF bs(3), of t q] t(3) by (auto simp: waits_on_def)
  have sel: "all_list k' = all_list k" "idle_thread k' = idle_thread k" "ready_list k' = ready_list k @ [t]"
    "todo k' u = (if u = t then kernel_thread CLIENT else todo k u)" "wtrs k' q = wtrs k q"
    "status k' u = (if u = t then THREAD_READY else status k u)" "is_thread k' u = is_thread k u" "cur k' = cur k" for u q
    by (simp_all add: k' is_thread_def)
  have w: "waits_on k' q u = waits_on k q u" for q u
    using t(3) by (simp add: waits_on_def sel kernel_thread_def)
  have "threads_ok k' (Some (cur k))" using bs(1) t tc unfolding threads_ok_def sel by auto
  moreover have "queue_ok k'" using bs(2) t ti queue_okD [OF bs(2)] unfolding queue_ok_def sel by auto
  moreover have "waiters_ok k'" using bs(3) tw unfolding waiters_ok_def sel w by auto
  moreover have "blocked_ok k'" using bs(4) unfolding blocked_ok_def sel by auto
  moreover have "stacks_ok k'"
    using bs(5) t ti unfolding stacks_ok_def sel by (auto simp: frames_ok_def kernel_thread_def)
  moreover have "creation_ok k'"
  proof -
    have cr: "creating (todo k' u) = creating (todo k u)" for u using t(3) by (simp add: sel kernel_thread_def)
    have "u \<noteq> t" if "u \<in> set (creating (todo k v))" for u v using that t(4) by auto
    then show ?thesis using bs(6) unfolding creation_ok_def cr sel(1,6) sel(4) [of "_"]
      by (auto simp: kernel_thread_def)
  qed
  ultimately have "base_inv k' (Some (cur k))" by (simp add: base_inv_def)
  moreover have "in_external_intr k' = in_external_intr k" "level k' = level k" by (simp_all add: k')
  ultimately show ?thesis using inv unfolding sched_inv_def sel w by simp
qed

subsection \<open>Interrupts\<close>

text \<open>Changes the invariants do not see.\<close>

definition unseen :: "kernel \<Rightarrow> kernel \<Rightarrow> bool" where
  "unseen k k' \<longleftrightarrow> same_view k k' \<and> sema k' = sema k \<and> lock_holder k' = lock_holder k
     \<and> cur k' = cur k \<and> in_external_intr k' = in_external_intr k \<and> level k' = level k"

text \<open>What an interrupt handler does to the threads: it wakes some.\<close>

inductive wakes :: "kernel \<Rightarrow> kernel \<Rightarrow> bool" where
  unseen: "unseen k k' \<Longrightarrow> wakes k k'"
| wake: "\<forall>l. s \<noteq> LOCK l \<Longrightarrow> wakes k (wake s k)"
| trans: "wakes k k' \<Longrightarrow> wakes k' k'' \<Longrightarrow> wakes k k''"

lemma wakes_refl: "wakes k k"
  by (rule wakes.unseen) (simp add: unseen_def same_view_def)

lemma wakes_sema_up:
  assumes "\<forall>l. s \<noteq> LOCK l" "sema_up s k = Inr k'"
  shows "wakes k k'"
proof -
  have "k' = (wake s k)\<lparr>level := level (wake s k)\<rparr>"
    using sema_up_result [OF assms(2)] by (simp add: wake_sel)
  then have "k' = wake s k" by simp
  then show ?thesis using wakes.wake [OF assms(1)] by simp
qed

lemma wakes_timed_tick:
  assumes "timed_tick t k = Inr k'"
  shows "wakes k k'"
proof (cases "remaining k t > tick_nanoseconds")
  case True
  then have "k' = set_remaining t (remaining k t - tick_nanoseconds) k"
    using assms by (simp add: timed_tick_def res_simps)
  then show ?thesis
    by (intro wakes.unseen) (simp add: unseen_def same_view_def set_remaining_def is_thread_def)
next
  case False
  then obtain ts where "sema_up (WAITER t) ((set_remaining t 0 k)\<lparr>timed_semaphores := ts\<rparr>) = Inr k'"
    using assms by (auto simp: timed_tick_def res_simps)
  then have "wakes ((set_remaining t 0 k)\<lparr>timed_semaphores := ts\<rparr>) k'" by (intro wakes_sema_up) auto
  moreover have "wakes k ((set_remaining t 0 k)\<lparr>timed_semaphores := ts\<rparr>)"
    by (intro wakes.unseen) (simp add: unseen_def same_view_def set_remaining_def is_thread_def)
  ultimately show ?thesis using wakes.trans by blast
qed

lemma wakes_thread_tick:
  assumes "thread_tick k = Inr k'"
  shows "wakes k k'"
proof -
  let ?k1 = "k\<lparr>monitor_ticks := monitor_ticks k + 1\<rparr>"
  obtain k2 where k2: "rfold timed_tick (timed_semaphores ?k1) ?k1 = Inr k2"
    and k': "k' = k2\<lparr>thread_ticks := thread_ticks k2 + 1\<rparr>
      \<or> k' = k2\<lparr>thread_ticks := thread_ticks k2 + 1, yield_on_return := True\<rparr>"
    using assms by (auto simp: thread_tick_def timed_semaphores_tick_def intr_yield_on_return_def Let_def res_simps
        split: if_splits)
  have "wakes ?k1 k2"
  proof (rule rfold_invariant [where P = "wakes ?k1", OF k2 wakes_refl])
    fix t k3 k4 assume "wakes ?k1 k3" "timed_tick t k3 = Inr k4"
    then show "wakes ?k1 k4" using wakes_timed_tick wakes.trans by blast
  qed
  moreover have "wakes k ?k1" "wakes k2 k'"
    using k' by (auto intro!: wakes.unseen simp: unseen_def same_view_def is_thread_def)
  ultimately show ?thesis using wakes.trans by blast
qed

lemma wakes_sel:
  "wakes k k' \<Longrightarrow> cur k' = cur k \<and> todo k' = todo k \<and> all_list k' = all_list k \<and> idle_thread k' = idle_thread k
     \<and> in_external_intr k' = in_external_intr k \<and> level k' = level k \<and> lock_holder k' = lock_holder k
     \<and> (\<forall>l. val k' (LOCK l) = val k (LOCK l))"
  by (induction rule: wakes.induct) (auto simp: unseen_def same_view_def wake_sel wake_lists)

lemma wakes_base: "wakes k k' \<Longrightarrow> base_inv k r \<Longrightarrow> base_inv k' r"
  by (induction rule: wakes.induct) (auto simp: unseen_def intro: base_inv_view wake_inv)

text \<open>An external interrupt is a change of stack, some wake-ups, and perhaps a yield.\<close>

lemma intr_handler_ext_result:
  assumes "intr_handler_ext handler k = Inr k'" and "\<And>k k'. handler k = Inr k' \<Longrightarrow> wakes k k'"
  shows "\<exists>k1 k2. k1 = (push [IRET] (intr_disable k))\<lparr>in_external_intr := True, yield_on_return := False\<rparr>
    \<and> \<not> in_external_intr k \<and> wakes k1 k2
    \<and> (k' = k2\<lparr>in_external_intr := False\<rparr> \<or> thread_yield (k2\<lparr>in_external_intr := False\<rparr>) = Inr k')"
  using assms by (auto simp: intr_handler_ext_def Let_def intr_context_def push_def intr_disable_def res_simps
      split: if_splits)

lemma level_inv: "sched_inv k \<Longrightarrow> sched_inv (k\<lparr>level := False\<rparr>)"
  by (rule sched_inv_view [OF level_view]) simp_all

text \<open>The state in which a handler of an external interrupt starts, and the one in which it is done.\<close>

definition entry :: "kernel \<Rightarrow> kernel" where
  "entry k = (push [IRET] (intr_disable k))\<lparr>in_external_intr := True, yield_on_return := False\<rparr>"

lemma not_waiting:
  assumes "sched_inv k" "level k"
  shows "\<not> waits_on k s (cur k)" "\<forall>f \<in> set (todo k (cur k)). \<not> is_wait f"
proof -
  have nw: "\<not> waits_on k s (cur k)" for s using assms by (auto simp: sched_inv_def)
  then show "\<not> waits_on k s (cur k)" .
  show "\<forall>f \<in> set (todo k (cur k)). \<not> is_wait f"
  proof (cases "todo k (cur k)")
    case (Cons f fs)
    have "\<not> is_wait f" using nw Cons by (cases f) (auto simp: waits_on_def)
    then show ?thesis using Cons sched_inv_frames [OF assms(1), of "cur k"] by (auto simp: frames_ok_def)
  qed simp
qed

lemma entry_inv:
  assumes "sched_inv k" "level k"
  shows "base_inv (entry k) (Some (cur k))"
proof -
  have "sched_inv (push [IRET] (k\<lparr>level := False\<rparr>))"
    using not_waiting(2) [OF assms] sched_inv_frames [OF assms(1), of "cur k"]
    by (intro push_inv [OF level_inv [OF assms(1)]]) (auto simp: frames_ok_def)
  then show ?thesis
    using base_inv_view [of "push [IRET] (k\<lparr>level := False\<rparr>)" "entry k"]
    by (simp add: entry_def intr_disable_def sched_inv_def same_view_def is_thread_def push_def)
qed

lemma handled_sel:
  assumes "wakes (entry k) k2"
  shows "cur k2 = cur k" "todo k2 = (todo k)(cur k := IRET # todo k (cur k))" "lock_holder k2 = lock_holder k"
    "all_list k2 = all_list k" "idle_thread k2 = idle_thread k" "\<not> level k2" "in_external_intr k2"
    "val k2 (LOCK l) = val k (LOCK l)"
  using wakes_sel [OF assms] by (simp_all add: entry_def push_def intr_disable_def)

lemma handled_inv:
  assumes "sched_inv k" "level k" "wakes (entry k) k2"
  shows "sched_inv (k2\<lparr>in_external_intr := False\<rparr>)"
proof -
  have "base_inv (k2\<lparr>in_external_intr := False\<rparr>) (Some (cur k))"
    using wakes_base [OF assms(3) entry_inv [OF assms(1,2)]]
    by (rule base_inv_view [rotated]) (simp add: same_view_def is_thread_def)
  then show ?thesis
    using assms(1) handled_sel [OF assms(3)] by (simp add: sched_inv_def)
qed

lemma intr_handler_ext_cases:
  assumes "intr_handler_ext handler k = Inr k'" and "\<And>k k'. handler k = Inr k' \<Longrightarrow> wakes k k'"
  obtains k2 where "wakes (entry k) k2"
    "k' = k2\<lparr>in_external_intr := False\<rparr> \<or> thread_yield (k2\<lparr>in_external_intr := False\<rparr>) = Inr k'"
  using intr_handler_ext_result [OF assms] unfolding entry_def by blast

lemma ext_inv:
  assumes inv: "sched_inv k" and lv: "level k"
    and ext: "intr_handler_ext handler k = Inr k'" and h: "\<And>k k'. handler k = Inr k' \<Longrightarrow> wakes k k'"
  shows "sched_inv k'"
proof -
  obtain k2 where k2: "wakes (entry k) k2"
    and k': "k' = k2\<lparr>in_external_intr := False\<rparr> \<or> thread_yield (k2\<lparr>in_external_intr := False\<rparr>) = Inr k'"
    using intr_handler_ext_cases [OF ext h] .
  note i2 = handled_inv [OF inv lv k2]
  from k' show ?thesis
  proof
    assume "thread_yield (k2\<lparr>in_external_intr := False\<rparr>) = Inr k'"
    then show ?thesis
      using not_waiting(2) [OF inv lv] handled_sel [OF k2] by (intro yield_inv [OF i2]) auto
  qed (use i2 in simp)
qed

subsection \<open>Every step keeps the invariant\<close>

lemma unseen_inv: "sched_inv k \<Longrightarrow> unseen k k' \<Longrightarrow> sched_inv k'"
  by (rule sched_inv_view) (auto simp: unseen_def sched_inv_def)

lemma set_level_inv:
  assumes "sched_inv k" "\<forall>f \<in> set (todo k (cur k)). \<not> is_wait f"
  shows "sched_inv (k\<lparr>level := b\<rparr>)"
  using assms by (intro sched_inv_view [OF level_view]) (auto simp: waits_on_def)

text \<open>Changes of a semaphore's value alone, of a lock's holder and of the other lists.\<close>

definition minor :: "kernel \<Rightarrow> kernel \<Rightarrow> bool" where
  "minor k k' \<longleftrightarrow> same_view k k' \<and> cur k' = cur k \<and> in_external_intr k' = in_external_intr k"

lemma minor_inv:
  assumes "sched_inv k" "\<forall>f \<in> set (todo k (cur k)). \<not> is_wait f" "minor k k'"
  shows "sched_inv k' \<and> todo k' = todo k \<and> cur k' = cur k \<and> idle_thread k' = idle_thread k"
proof -
  have "\<not> waits_on k s (cur k)" for s using assms(2) by (auto simp: waits_on_def)
  then have "sched_inv k'" using assms(1,3) sched_inv_view [of k k'] by (simp add: minor_def)
  then show ?thesis using assms(3) by (simp add: minor_def same_view_def)
qed

lemma minor_push_inv:
  assumes inv: "sched_inv k" and c: "cur k \<noteq> idle_thread k" and nw: "\<forall>f \<in> set (todo k (cur k)). \<not> is_wait f"
    and m: "minor k k'" and gs: "\<forall>f \<in> set gs. plain f \<and> good_frame (idle_thread k) (cur k) f \<and> \<not> is_wait f"
  shows "sched_inv (push gs k')"
proof -
  have k': "sched_inv k' \<and> todo k' = todo k \<and> cur k' = cur k \<and> idle_thread k' = idle_thread k"
    by (rule minor_inv [OF inv nw m])
  have "\<forall>f \<in> set (tl gs). \<not> is_wait f" using gs by (cases gs) auto
  then show ?thesis
    using k' c nw gs by (intro push_inv) auto
qed

text \<open>A thread that starts to wait for a condition resets its own semaphore, on which no thread waits.\<close>

lemma own_waiter_free:
  assumes "sched_inv k"
  shows "wtrs k (WAITER (cur k)) = []"
proof (rule ccontr)
  assume "wtrs k (WAITER (cur k)) \<noteq> []"
  then obtain t where t: "t \<in> set (wtrs k (WAITER (cur k)))" by (cases "wtrs k (WAITER (cur k))") auto
  then have "waits_on k (WAITER (cur k)) t"
    using assms waiters_okD [of k t] by (auto simp: sched_inv_def base_inv_def)
  then have "t = cur k" using sched_inv_frames [OF assms, of t] by (auto simp: waits_on_def frames_ok_def)
  then show False using t current_not_waiting [OF assms] by simp
qed

lemma enlist_minor: "sched_inv k \<Longrightarrow> minor k (enlist c (cur k) k)"
  using own_waiter_free [of k]
  by (simp add: minor_def same_view_def enlist_def sema_init_def set_sema_def is_thread_def)

lemma minor_trans: "minor k k' \<Longrightarrow> minor k' k'' \<Longrightarrow> minor k k''"
  by (simp add: minor_def same_view_def)

lemma minor_simps:
  "minor k (set_remaining t n k)" "minor k (k\<lparr>level := b\<rparr>)" "minor k (k\<lparr>lock_holder := h\<rparr>)"
  "minor k (k\<lparr>cond_waiters := cw\<rparr>)" "minor k (k\<lparr>timed_semaphores := ts\<rparr>)" "minor k (k\<lparr>retval := rv\<rparr>)"
  "minor k (set_sema s v (wtrs k s) k)" "minor k (alloc_tid t k)" "minor k k"
  by (simp_all add: minor_def same_view_def set_remaining_def is_thread_def set_sema_def alloc_tid_def)

lemma enlist_push_inv:
  assumes inv: "sched_inv k" and c: "cur k \<noteq> idle_thread k" and nw: "\<forall>f \<in> set (todo k (cur k)). \<not> is_wait f"
    and gs: "\<forall>f \<in> set gs. plain f \<and> good_frame (idle_thread k) (cur k) f \<and> \<not> is_wait f"
    and m: "minor (enlist cv (cur k) k) k'"
  shows "sched_inv (push gs k')"
  using minor_push_inv [OF inv c nw minor_trans [OF enlist_minor [OF inv] m] gs] .

lemma sema_down_inv:
  assumes inv: "sched_inv k" and c: "cur k \<noteq> idle_thread k" and nw: "\<forall>f \<in> set (todo k (cur k)). \<not> is_wait f"
    and g: "\<And>b. good_frame (idle_thread k) (cur k) (SEMA_WAIT s b)"
  shows "sched_inv (push [SEMA_WAIT s b] (k\<lparr>level := False\<rparr>))"
  using g c nw by (intro push_inv [OF level_inv [OF inv]]) auto

lemma sema_wait_inv:
  assumes inv: "sched_inv k" and c: "cur k \<noteq> idle_thread k" and nw: "\<forall>f \<in> set (todo k (cur k)). \<not> is_wait f"
    and g: "good_frame (idle_thread k) (cur k) (SEMA_WAIT s b)" and r: "sema_wait s b k = Inr k'"
  shows "sched_inv k'"
proof (cases "val k s = 0")
  case True
  define k1 where "k1 = set_status (cur k) THREAD_BLOCKED (push [SEMA_WAIT s b] (set_sema s (val k s) (wtrs k s @ [cur k]) k))"
  have "thread_current (push [SEMA_WAIT s b] (set_sema s 0 (wtrs k s @ [cur k]) k)) = Inr (cur k)"
    using current_runs [OF inv] by (simp add: thread_current_def running_thread_def push_def set_sema_def is_thread_def)
  then have "schedule k1 = Inr k'"
    using r True thread_current_ok [OF inv] by (auto simp: sema_wait_def thread_block_def res_simps k1_def)
  moreover have "base_inv k1 None" unfolding k1_def by (rule block_inv [OF inv c nw g refl])
  moreover have "\<not> in_external_intr k1"
    using inv by (simp add: k1_def sched_inv_def set_status_def push_def set_sema_def)
  ultimately show ?thesis using schedule_inv by blast
next
  case False
  then have "k' = (set_sema s (val k s - 1) (wtrs k s) k)\<lparr>level := b\<rparr>"
    using r by (auto simp: sema_wait_def dest: intr_set_level_Inr)
  moreover have "minor k ((set_sema s (val k s - 1) (wtrs k s) k)\<lparr>level := b\<rparr>)"
    using minor_simps(7) minor_simps(2) minor_trans by blast
  ultimately show ?thesis using minor_inv [OF inv nw] by blast
qed

lemmas minor_unfold = minor_def same_view_def is_thread_def set_sema_def set_remaining_def intr_disable_def

lemma sema_try_down_minor: "sema_try_down s k = Inr k' \<Longrightarrow> minor k k'"
  by (auto simp: sema_try_down_def Let_def minor_unfold split: if_splits dest!: intr_set_level_Inr)

lemma signal_timed_minor: "signal_timed w k = Inr k' \<Longrightarrow> minor k k'"
  by (auto simp: signal_timed_def Let_def minor_unfold res_simps split: if_splits dest!: intr_set_level_Inr)

lemma timed_wait_done_minor: "timed_wait_done c b k = Inr k' \<Longrightarrow> minor k k'"
  by (auto simp: timed_wait_done_def minor_unfold res_simps split: if_splits dest!: intr_set_level_Inr)

lemma timed_wait_intr_done_minor: "timed_wait_intr_done c k = Inr k' \<Longrightarrow> minor k k'"
  by (auto simp: timed_wait_intr_done_def minor_unfold res_simps split: if_splits)

lemma intr_set_level_minor: "intr_set_level b k = Inr k' \<Longrightarrow> minor k k'"
  by (auto simp: minor_unfold dest!: intr_set_level_Inr)

lemma set_holder_minor: "set_holder l k = Inr k' \<Longrightarrow> minor k k'"
  by (auto simp: set_holder_def minor_unfold res_simps)

lemmas run_minor = sema_try_down_minor signal_timed_minor timed_wait_done_minor timed_wait_intr_done_minor
  intr_set_level_minor set_holder_minor

text \<open>Routines that push frames after a change the invariant does not see.\<close>

lemma cond_signal_pushes:
  assumes "cond_signal c l k = Inr k' \<or> cond_signal_intr c k = Inr k'"
  shows "k' = k \<or> (\<exists>w cw. k' = push [SEMA_UP (WAITER w), SIGNAL_TIMED w] (k\<lparr>cond_waiters := cw\<rparr>))"
  using assms by (auto simp: cond_signal_def cond_signal_intr_def res_simps split: list.splits)

lemma lock_try_acquire_pushes:
  assumes "lock_try_acquire l k = Inr k'"
  shows "\<exists>k1. sema_try_down (LOCK l) k = Inr k1 \<and> (k' = (if retval k1 (cur k1) then push [SET_HOLDER l] k1 else k1))"
  using assms by (auto simp: lock_try_acquire_def res_simps)

lemma cond_wait_pushes:
  assumes "cond_wait c l k = Inr k' \<or> cond_timed_wait c l n k = Inr k' \<or> cond_wait_intr c k = Inr k'
    \<or> cond_timed_wait_intr c n k = Inr k'"
  shows "\<exists>k1 gs. k' = push gs k1 \<and> minor (enlist c (cur k) k) k1 \<and> sema k1 = sema (enlist c (cur k) k)
    \<and> lock_holder k1 = lock_holder k
    \<and> set gs \<subseteq> {LOCK_RELEASE l, SEMA_DOWN (WAITER (cur k)), LOCK_ACQUIRE l, INTR_SET_LEVEL False}
       \<union> range (TIMED_WAIT_DONE c) \<union> {TIMED_WAIT_INTR_DONE c}"
proof -
  have en: "cur (enlist c t k) = cur k" "lock_holder (enlist c t k) = lock_holder k" for t
    by (simp_all add: enlist_def sema_init_def set_sema_def)
  show ?thesis
    using assms
  proof (elim disjE)
    assume "cond_wait c l k = Inr k'"
    then have "k' = push [LOCK_RELEASE l, SEMA_DOWN (WAITER (cur k)), LOCK_ACQUIRE l]
        (set_remaining (cur k) (-1) (enlist c (cur k) k))"
      by (auto simp: cond_wait_def res_simps)
    then show ?thesis
      by - (rule exI, rule exI, rule conjI, assumption, auto simp: minor_unfold en)
  next
    assume "cond_timed_wait c l n k = Inr k'"
    then have "k' = push [LOCK_RELEASE l, SEMA_DOWN (WAITER (cur k)), LOCK_ACQUIRE l, TIMED_WAIT_DONE c (level k)]
        ((set_remaining (cur k) n (intr_disable (enlist c (cur k) k)))\<lparr>timed_semaphores := timed_semaphores k @ [cur k]\<rparr>)"
      by (auto simp: cond_timed_wait_def Let_def res_simps)
    then show ?thesis
      by - (rule exI, rule exI, rule conjI, assumption, auto simp: minor_unfold en)
  next
    assume "cond_wait_intr c k = Inr k'"
    then have "k' = push [SEMA_DOWN (WAITER (cur k)), INTR_SET_LEVEL False]
        ((set_remaining (cur k) (-1) (enlist c (cur k) k))\<lparr>level := True\<rparr>)"
      by (auto simp: cond_wait_intr_def intr_enable_def res_simps push_def)
    then show ?thesis
      by - (rule exI, rule exI, rule conjI, assumption, auto simp: minor_unfold en)
  next
    assume "cond_timed_wait_intr c n k = Inr k'"
    then have "k' = push [SEMA_DOWN (WAITER (cur k)), INTR_SET_LEVEL False, TIMED_WAIT_INTR_DONE c]
        ((set_remaining (cur k) (sint (word_of_int (n * 1000000) :: u64)) (enlist c (cur k) k))
          \<lparr>timed_semaphores := timed_semaphores k @ [cur k], level := True\<rparr>)"
      by (auto simp: cond_timed_wait_intr_def intr_enable_def Let_def res_simps push_def)
    then show ?thesis
      by - (rule exI, rule exI, rule conjI, assumption, auto simp: minor_unfold en)
  qed
qed

lemma cond_wait_inv:
  assumes inv: "sched_inv k" and c: "cur k \<noteq> idle_thread k" and nw: "\<forall>f \<in> set (todo k (cur k)). \<not> is_wait f"
    and r: "cond_wait cv l k = Inr k' \<or> cond_timed_wait cv l n k = Inr k' \<or> cond_wait_intr cv k = Inr k'
      \<or> cond_timed_wait_intr cv n k = Inr k'"
  shows "sched_inv k'"
proof -
  obtain k1 gs where k1: "k' = push gs k1" "minor (enlist cv (cur k) k) k1"
    and gs: "set gs \<subseteq> {LOCK_RELEASE l, SEMA_DOWN (WAITER (cur k)), LOCK_ACQUIRE l, INTR_SET_LEVEL False}
       \<union> range (TIMED_WAIT_DONE cv) \<union> {TIMED_WAIT_INTR_DONE cv}"
    using cond_wait_pushes [OF r] by blast
  show ?thesis
    unfolding k1(1) by (rule enlist_push_inv [OF inv c nw _ k1(2)]) (use gs in auto)
qed

lemma run_frame_inv:
  assumes inv: "sched_inv k" and c: "cur k \<noteq> idle_thread k" and nw: "\<forall>f \<in> set (todo k (cur k)). \<not> is_wait f"
    and g: "good_frame (idle_thread k) (cur k) f \<or> client_call f" and p: "page_ok k f"
    and cd: "\<And>t b. f = CREATE_DONE t b \<Longrightarrow> t \<in> set (all_list k) \<and> status k t = THREAD_BLOCKED \<and> todo k t = []
        \<and> (\<forall>u. t \<notin> set (creating (todo k u)))"
    and ex: "f = THREAD_EXIT \<Longrightarrow> todo k (cur k) = []"
    and r: "run_frame f k = Inr k'"
  shows "sched_inv k'"
proof -
  have mi: "sched_inv k1" if "minor k k1" for k1 using minor_inv [OF inv nw that] by blast
  have mp: "sched_inv (push gs k1)"
    if "minor k k1" "\<forall>f \<in> set gs. plain f \<and> good_frame (idle_thread k) (cur k) f \<and> \<not> is_wait f" for gs k1
    using minor_push_inv [OF inv c nw that] .
  have cw: "cond_wait cv l k = Inr k1 \<Longrightarrow> sched_inv k1" "cond_timed_wait cv l n k = Inr k1 \<Longrightarrow> sched_inv k1"
    "cond_wait_intr cv k = Inr k1 \<Longrightarrow> sched_inv k1" "cond_timed_wait_intr cv n k = Inr k1 \<Longrightarrow> sched_inv k1"
    for cv l n k1 using cond_wait_inv [OF inv c nw] by blast+
  show ?thesis
  proof (cases f)
    case (SEMA_DOWN s)
    have "good_frame (idle_thread k) (cur k) (SEMA_WAIT s b)" for b using g SEMA_DOWN by (cases s) auto
    then show ?thesis
      using r SEMA_DOWN sema_down_inv [OF inv c nw] by (auto simp: sema_down_def intr_disable_def res_simps)
  next
    case (SEMA_WAIT s b)
    then have "good_frame (idle_thread k) (cur k) (SEMA_WAIT s b)" using g by auto
    then show ?thesis using r SEMA_WAIT sema_wait_inv [OF inv c nw] by simp
  next
    case (LOCK_ACQUIRE l)
    then show ?thesis
      using r mp [OF minor_simps(9)] by (auto simp: lock_acquire_def res_simps)
  next
    case (LOCK_TRY_ACQUIRE l)
    then obtain k1 where k1: "sema_try_down (LOCK l) k = Inr k1"
      "k' = (if retval k1 (cur k1) then push [SET_HOLDER l] k1 else k1)"
      using r lock_try_acquire_pushes [of l k k'] by auto
    then show ?thesis using mp [OF sema_try_down_minor [OF k1(1)], of "[SET_HOLDER l]"] mi [OF sema_try_down_minor [OF k1(1)]] by auto
  next
    case (LOCK_RELEASE l)
    then show ?thesis
      using r mp [OF minor_simps(3)] by (auto simp: lock_release_def res_simps)
  next
    case (COND_SIGNAL cv l)
    then have "k' = k \<or> (\<exists>w cw. k' = push [SEMA_UP (WAITER w), SIGNAL_TIMED w] (k\<lparr>cond_waiters := cw\<rparr>))"
      using r cond_signal_pushes [of cv l k k'] by simp
    then show ?thesis using inv mp [OF minor_simps(4)] by auto
  next
    case (COND_SIGNAL_INTR cv)
    then have "k' = k \<or> (\<exists>w cw. k' = push [SEMA_UP (WAITER w), SIGNAL_TIMED w] (k\<lparr>cond_waiters := cw\<rparr>))"
      using r cond_signal_pushes [of cv 0 k k'] by simp
    then show ?thesis using inv mp [OF minor_simps(4)] by auto
  next
    case (COND_BROADCAST cv l)
    then show ?thesis
      using r inv mp [OF minor_simps(9)] by (auto simp: cond_broadcast_def split: if_splits)
  next
    case (THREAD_CREATE nm prio b t)
    then show ?thesis
      using r g p create_inv [OF inv _ _ nw c] by auto
  next
    case (ALLOC_TID t)
    then show ?thesis using r mi [OF minor_simps(8)] by auto
  next
    case (CREATE_DONE t b)
    then show ?thesis
      using r g cd create_done_inv [OF inv] by auto
  next
    case THREAD_EXIT
    then show ?thesis using r ex exit_inv [OF inv _ c] by simp
  next
    case IRET
    then show ?thesis using r mi [OF minor_simps(2)] by auto
  qed (use r g c inv nw mi run_minor cw sema_up_inv [OF inv] yield_inv [OF inv nw] in auto)
qed

lemma idle_loop_inv:
  assumes inv: "sched_inv k" and c: "cur k = idle_thread k" and top: "todo k (cur k) = [IDLE_LOOP, THREAD_EXIT]"
    and r: "idle_loop (set_todo [THREAD_EXIT] k) = Inr k'"
  shows "sched_inv k'"
proof -
  define k0 where "k0 = (set_todo [IDLE_HLT, THREAD_EXIT] k)\<lparr>level := False\<rparr>"
  have "sched_inv (set_todo [IDLE_HLT, THREAD_EXIT] k)"
    using c by (intro sched_inv_set_todo [OF inv]) (auto simp: frames_ok_def)
  then have i0: "sched_inv k0" unfolding k0_def by (rule level_inv)
  have c0: "cur k0 = idle_thread k0" using c by (simp add: k0_def set_todo_def)
  define k1 where "k1 = set_status (cur k0) THREAD_BLOCKED k0"
  have "push [IDLE_HLT] (intr_disable (set_todo [THREAD_EXIT] k)) = k0"
    by (simp add: k0_def push_def set_todo_def intr_disable_def)
  then have sch: "schedule k1 = Inr k'"
    using r thread_current_ok [OF i0] by (auto simp: idle_loop_def thread_block_def res_simps k1_def)
  have b: "base_inv k0 (Some (cur k0))" using i0 by (simp add: sched_inv_def)
  note bs = base_invD [OF b]
  have run: "status k0 (cur k0) = THREAD_RUNNING" using current_runs [OF i0] by simp
  have "threads_ok k1 None" using bs(1) unfolding threads_ok_def k1_def set_status_sel by auto
  moreover have "queue_ok k1" using bs(2) run unfolding queue_ok_def k1_def set_status_sel by auto
  moreover have "waiters_ok k1" using bs(3) current_not_waiting [OF i0] unfolding waiters_ok_def k1_def set_status_sel by auto
  moreover have "blocked_ok k1" using bs(4) c0 unfolding blocked_ok_def k1_def set_status_sel by auto
  moreover have "stacks_ok k1" using bs(5) unfolding stacks_ok_def k1_def set_status_sel .
  moreover have "creation_ok k1" using bs(6) unfolding creation_ok_def k1_def set_status_sel by auto
  ultimately have "base_inv k1 None" by (simp add: base_inv_def)
  moreover have "\<not> in_external_intr k1" using i0 by (simp add: sched_inv_def k1_def set_status_def)
  ultimately show ?thesis using sch schedule_inv by blast
qed

lemma idle_hlt_inv:
  assumes inv: "sched_inv k" and c: "cur k = idle_thread k"
  shows "sched_inv (idle_hlt (set_todo [THREAD_EXIT] k))"
proof -
  have "sched_inv (set_todo [IDLE_LOOP, THREAD_EXIT] k)"
    using c by (intro sched_inv_set_todo [OF inv]) (auto simp: frames_ok_def)
  then have "sched_inv ((set_todo [IDLE_LOOP, THREAD_EXIT] k)\<lparr>level := True\<rparr>)"
    by (rule set_level_inv) (simp add: set_todo_def)
  moreover have "(set_todo [IDLE_LOOP, THREAD_EXIT] k)\<lparr>level := True\<rparr> = idle_hlt (set_todo [THREAD_EXIT] k)"
    by (simp add: idle_hlt_def push_def set_todo_def)
  ultimately show ?thesis by simp
qed

lemma idle_stack_cases:
  assumes "idle_stack (f # fs)"
  obtains (loop) "f = IDLE_LOOP" "fs = [THREAD_EXIT]" | (hlt) "f = IDLE_HLT" "fs = [THREAD_EXIT]"
    | (iret) "f = IRET" "idle_stack fs" | (set) b where "f = INTR_SET_LEVEL b" "idle_stack fs"
  using assms by (cases f) auto

lemma frame_step_inv:
  assumes inv: "sched_inv k" and top: "todo k (cur k) = f # fs" and "f \<noteq> BODY"
    and r: "run_frame f (set_todo fs k) = Inr k'"
  shows "sched_inv k'"
proof -
  have fr: "frames_ok (idle_thread k) (cur k) (f # fs)" using sched_inv_frames [OF inv, of "cur k"] top by simp
  have sel: "cur (set_todo fs k) = cur k" "todo (set_todo fs k) (cur k) = fs" "idle_thread (set_todo fs k) = idle_thread k"
    by (simp_all add: set_todo_def)
  have nw: "\<forall>f \<in> set (todo (set_todo fs k) (cur (set_todo fs k))). \<not> is_wait f"
    using fr by (simp add: sel frames_ok_def)
  show ?thesis
  proof (cases "cur k = idle_thread k")
    case True
    then have "idle_stack (f # fs)" using fr by (simp add: frames_ok_def)
    then show ?thesis
    proof (cases rule: idle_stack_cases)
      case loop
      then show ?thesis using idle_loop_inv [OF inv True] top r by simp
    next
      case hlt
      then show ?thesis using idle_hlt_inv [OF inv True] r by simp
    next
      case iret
      then show ?thesis
        using set_level_inv [OF pop_inv [OF inv top] nw, of True] r by auto
    next
      case (set b)
      then show ?thesis
        using set_level_inv [OF pop_inv [OF inv top] nw] r by (auto dest: intr_set_level_Inr)
    qed
  next
    case False
    have i: "sched_inv (set_todo fs k)" using False by (intro pop_inv [OF inv top]) simp
    show ?thesis
    proof (rule run_frame_inv [OF i _ nw _ _ _ _ r])
      show "cur (set_todo fs k) \<noteq> idle_thread (set_todo fs k)" using False by (simp add: sel)
      show "good_frame (idle_thread (set_todo fs k)) (cur (set_todo fs k)) f \<or> client_call f"
        using fr by (simp add: sel frames_ok_def)
      show "page_ok (set_todo fs k) f" using fr by (cases f) (auto simp: frames_ok_def)
      show "todo (set_todo fs k) (cur (set_todo fs k)) = []" if "f = THREAD_EXIT"
        using that fr by (simp add: set_todo_def frames_ok_def)
      fix t b assume f: "f = CREATE_DONE t b"
      then have "t \<in> set (creating (todo k (cur k)))" using top by simp
      note old = sched_inv_creating(2) [OF inv this]
      have "t \<noteq> cur k" using old top by auto
      moreover have "t \<notin> set (creating fs)" using sched_inv_creating(1) [OF inv, of "cur k"] top f by simp
      ultimately show "t \<in> set (all_list (set_todo fs k)) \<and> status (set_todo fs k) t = THREAD_BLOCKED \<and> todo (set_todo fs k) t = []
          \<and> (\<forall>u. t \<notin> set (creating (todo (set_todo fs k) u)))"
        using old by (auto simp: set_todo_def)
    qed
  qed
qed

lemma kstep_sched_inv: "kstep k k' \<Longrightarrow> sched_inv k \<Longrightarrow> sched_inv k'"
proof (induction rule: kstep.induct)
  case (frame k f fs k')
  then show ?case using frame_step_inv by blast
next
  case (call k fs f k')
  have fr: "frames_ok (idle_thread k) (cur k) (BODY # fs)" using sched_inv_frames [OF call.prems, of "cur k"] call.hyps(1) by simp
  then have "cur k \<noteq> idle_thread k" "\<forall>f \<in> set (todo k (cur k)). \<not> is_wait f"
    using call.hyps(1) by (auto simp: frames_ok_def)
  then show ?case using call by (intro run_frame_inv [of k f k']) auto
next
  case (return k fs)
  then show ?case using sched_inv_frames [of k "cur k"] by (intro pop_inv) (auto simp: frames_ok_def)
next
  case (exit k fs)
  then have "cur k \<noteq> idle_thread k" using sched_inv_frames [of k "cur k"] by (auto simp: frames_ok_def)
  then show ?case using exit by (intro sched_inv_set_todo) (auto simp: frames_ok_def)
next
  case (timer k k')
  then show ?case using ext_inv wakes_thread_tick by blast
next
  case (device k n k')
  then show ?case using ext_inv wakes_sema_up [of "SEMA n"] by blast
qed

end
