(* ===== verification/Mutex.thy ===== *)
theory Mutex
  imports Concurrency
begin

text \<open>
  Mutual exclusion by locks and the absence of lost wake-ups, for the steps of theory
  \<open>Synch\<close>, on top of the consistency invariant of theory \<open>Concurrency\<close>; and the
  properties of threads and synchronisation.
\<close>

subsection \<open>The right to a lock\<close>

text \<open>
  A thread has the right to lock \<open>l\<close> between taking its semaphore and recording itself
  as the holder, while it is the holder, and between giving up the lock and raising the
  semaphore.  For the first and the last, the frames of its stack are counted: a frame
  that will record the holder or raise the semaphore counts one, a frame that has yet to
  take the semaphore counts minus one.
\<close>

fun tokf :: "nat \<Rightarrow> frame \<Rightarrow> int" where
  "tokf l (SET_HOLDER m) = (if m = l then 1 else 0)"
| "tokf l (SEMA_UP (LOCK m)) = (if m = l then 1 else 0)"
| "tokf l (SEMA_DOWN (LOCK m)) = (if m = l then -1 else 0)"
| "tokf l (SEMA_WAIT (LOCK m) b) = (if m = l then -1 else 0)"
| "tokf l f = 0"

definition tok :: "nat \<Rightarrow> frame list \<Rightarrow> int" where
  "tok l fs = sum_list (map (tokf l) fs)"

definition suffix_ok :: "nat \<Rightarrow> frame list \<Rightarrow> bool" where
  "suffix_ok l fs = (\<forall>n. 0 \<le> tok l (drop n fs))"

text \<open>Semaphore value, holder, and the rights of the threads, of one lock.\<close>

definition lock_state :: "u32 \<Rightarrow> nat \<Rightarrow> (nat \<Rightarrow> int) \<Rightarrow> bool" where
  "lock_state v h r \<longleftrightarrow>
     v = 1 \<and> h = 0 \<and> (\<forall>t. r t = 0)
   \<or> v = 0 \<and> h \<noteq> 0 \<and> (\<forall>t. r t = 0)
   \<or> v = 0 \<and> h = 0 \<and> (\<exists>t. r t = 1 \<and> (\<forall>u. u \<noteq> t \<longrightarrow> r u = 0))"

definition lock_inv :: "nat \<Rightarrow> kernel \<Rightarrow> bool" where
  "lock_inv l k \<longleftrightarrow> (\<forall>t. suffix_ok l (todo k t))
     \<and> lock_state (val k (LOCK l)) (lock_holder k l) (\<lambda>t. tok l (todo k t))"

lemma tok_simps [simp]: "tok l [] = 0" "tok l (f # fs) = tokf l f + tok l fs" "tok l (gs @ fs) = tok l gs + tok l fs"
  by (simp_all add: tok_def)

lemma suffix_ok_Nil [simp]: "suffix_ok l []"
  by (simp add: suffix_ok_def)

lemma suffix_ok_tl: "suffix_ok l (f # fs) \<Longrightarrow> suffix_ok l fs"
  by (metis suffix_ok_def drop_Suc_Cons)

lemma suffix_ok_nonneg: "suffix_ok l fs \<Longrightarrow> 0 \<le> tok l fs"
  by (metis suffix_ok_def drop0)

lemma suffix_ok_Cons: "suffix_ok l (f # fs) \<longleftrightarrow> 0 \<le> tokf l f + tok l fs \<and> suffix_ok l fs"
proof
  assume a: "0 \<le> tokf l f + tok l fs \<and> suffix_ok l fs"
  show "suffix_ok l (f # fs)"
    unfolding suffix_ok_def
  proof
    fix n show "0 \<le> tok l (drop n (f # fs))"
      using a by (cases n) (auto simp: suffix_ok_def)
  qed
next
  assume "suffix_ok l (f # fs)"
  then show "0 \<le> tokf l f + tok l fs \<and> suffix_ok l fs"
    using suffix_ok_nonneg [of l "f # fs"] suffix_ok_tl by auto
qed

lemma suffix_ok_append:
  assumes "suffix_ok l fs" "0 \<le> tok l gs + tok l fs" "\<forall>n. 0 < n \<longrightarrow> 0 \<le> tok l (drop n gs)"
  shows "suffix_ok l (gs @ fs)"
  unfolding suffix_ok_def
proof
  fix n
  have "0 \<le> tok l (drop m fs)" for m using assms(1) by (simp add: suffix_ok_def)
  moreover have "0 \<le> tok l (drop n gs)" if "0 < n" using assms(3) that by simp
  ultimately show "0 \<le> tok l (drop n (gs @ fs))"
    using assms(2) by (cases "n = 0") (auto intro: add_nonneg_nonneg)
qed

lemma lock_state_acquire:
  assumes "lock_state v h r" "v \<noteq> 0"
  shows "lock_state (v - 1) h (r(c := r c + 1))"
  using assms by (auto simp: lock_state_def)

lemma lock_state_right:
  assumes "lock_state v h r" "1 \<le> r c"
  shows "v = 0 \<and> h = 0 \<and> r c = 1 \<and> (\<forall>u. u \<noteq> c \<longrightarrow> r u = 0)"
proof -
  have "\<not> (\<forall>t. r t = 0)" using assms(2) by (metis not_one_le_zero)
  then obtain t where t: "v = 0" "h = 0" "r t = 1" "\<forall>u. u \<noteq> t \<longrightarrow> r u = 0"
    using assms(1) unfolding lock_state_def by blast
  moreover have "c = t" using t(4) assms(2) by (metis not_one_le_zero)
  ultimately show ?thesis by simp
qed

lemma lock_state_holder:
  assumes "lock_state v h r" "1 \<le> r c" "c \<noteq> 0"
  shows "lock_state v c (r(c := r c - 1))"
  using lock_state_right [OF assms(1,2)] assms(3) by (simp add: lock_state_def)

lemma lock_state_release:
  assumes "lock_state v c r" "c \<noteq> 0"
  shows "lock_state v 0 (r(c := r c + 1))"
  using assms by (auto simp: lock_state_def)

lemma lock_state_up:
  assumes "lock_state v h r" "1 \<le> r c"
  shows "lock_state (v + 1) h (r(c := r c - 1))"
  using lock_state_right [OF assms] by (simp add: lock_state_def)

subsection \<open>Sleepers and available units\<close>

text \<open>The threads that have been woken for semaphore \<open>s\<close> and are yet to test it again.\<close>

definition woken :: "kernel \<Rightarrow> sema_id \<Rightarrow> nat set" where
  "woken k s = {t \<in> set (all_list k). waits_on k s t \<and> t \<notin> set (wtrs k s)}"

definition unit_inv :: "sema_id \<Rightarrow> kernel \<Rightarrow> bool" where
  "unit_inv s k \<longleftrightarrow> (wtrs k s \<noteq> [] \<longrightarrow> unat (val k s) \<le> card (woken k s))"

lemma finite_woken [simp]: "finite (woken k s)"
  by (simp add: woken_def)

lemma unit_inv_mono:
  assumes "unit_inv s k" "wtrs k' s = wtrs k s \<or> wtrs k' s = []" "unat (val k' s) \<le> unat (val k s)"
    "wtrs k' s \<noteq> [] \<Longrightarrow> woken k s \<subseteq> woken k' s"
  shows "unit_inv s k'"
  using assms card_mono [of "woken k' s" "woken k s"] unfolding unit_inv_def
  by (metis finite_woken le_trans)

subsection \<open>Frames that touch neither locks nor sleepers\<close>

text \<open>The change a frame makes to what the two invariants read.\<close>

definition quiet :: "frame \<Rightarrow> kernel \<Rightarrow> kernel \<Rightarrow> bool" where
  "quiet f k k' \<longleftrightarrow> lock_holder k' = lock_holder k \<and> set (all_list k) \<subseteq> set (all_list k')
     \<and> (\<forall>l. val k' (LOCK l) = val k (LOCK l))
     \<and> (\<forall>s. unat (val k' s) \<le> unat (val k s) \<and> (wtrs k' s = wtrs k s \<or> wtrs k' s = []))
     \<and> (\<exists>gs. todo k' = (todo k)(cur k := gs @ todo k (cur k))
          \<and> (\<forall>l. tok l gs = tokf l f \<and> (\<forall>n. 0 < n \<longrightarrow> 0 \<le> tok l (drop n gs))))"

lemma quiet_push:
  assumes "k' = push gs k1" "cur k1 = cur k" "todo k1 = todo k" "lock_holder k1 = lock_holder k"
    "set (all_list k) \<subseteq> set (all_list k1)" "\<And>l. val k1 (LOCK l) = val k (LOCK l)"
    "\<And>s. unat (val k1 s) \<le> unat (val k s) \<and> (wtrs k1 s = wtrs k s \<or> wtrs k1 s = [])"
    "\<And>l. tok l gs = tokf l f \<and> (\<forall>n. 0 < n \<longrightarrow> 0 \<le> tok l (drop n gs))"
  shows "quiet f k k'"
  using assms unfolding quiet_def by (auto simp: push_def)

lemma tok_zero: "\<forall>g \<in> set gs. tokf l g = 0 \<Longrightarrow> tok l gs = 0"
  by (induction gs) auto

lemma tok_zero_drop: "\<forall>g \<in> set gs. tokf l g = 0 \<Longrightarrow> tok l (drop n gs) = 0"
  by (rule tok_zero) (auto dest: in_set_dropD)

lemma quiet_unseen:
  assumes "todo k' = todo k" "lock_holder k' = lock_holder k" "all_list k' = all_list k"
    "\<And>s. unat (val k' s) \<le> unat (val k s) \<and> (wtrs k' s = wtrs k s \<or> wtrs k' s = [])"
    "\<And>l. val k' (LOCK l) = val k (LOCK l)" "\<And>l. tokf l f = 0"
  shows "quiet f k k'"
  using assms unfolding quiet_def by (auto intro!: exI [of _ "[]"])

lemma schedule_same:
  "schedule k = Inr k' \<Longrightarrow>
   todo k' = todo k \<and> lock_holder k' = lock_holder k \<and> all_list k' = all_list k \<and> sema k' = sema k"
  by (drule schedule_result) (auto simp: set_status_def)

lemma quiet_yield:
  assumes "thread_yield k = Inr k'" "\<And>l. tokf l f = 0"
  shows "quiet f k k'"
proof -
  obtain k1 where k1: "schedule k1 = Inr k'" "todo k1 = (todo k)(cur k := INTR_SET_LEVEL (level k) # todo k (cur k))"
    "lock_holder k1 = lock_holder k" "all_list k1 = all_list k" "sema k1 = sema k"
  proof
    let ?k = "if cur k \<noteq> idle_thread k then k\<lparr>level := False, ready_list := ready_list k @ [cur k]\<rparr> else k\<lparr>level := False\<rparr>"
    have "thread_current k = Inr (cur k)"
      using assms(1) by (auto simp: thread_yield_def res_simps thread_current_def Let_def running_thread_def)
    then show "schedule (push [INTR_SET_LEVEL (level k)] (set_status (cur k) THREAD_READY ?k)) = Inr k'"
      using assms(1) by (auto simp: thread_yield_def Let_def intr_disable_def res_simps split: if_splits)
  qed (auto simp: push_def set_status_def)
  show ?thesis
    using schedule_same [OF k1(1)] k1(2-) assms(2) unfolding quiet_def
    by (auto intro!: exI [of _ "[INTR_SET_LEVEL (level k)]"] simp: drop_Cons')
qed

lemma quiet_idle_loop:
  assumes "idle_loop k = Inr k'"
  shows "quiet IDLE_LOOP k k'"
proof -
  obtain t where "schedule (set_status t THREAD_BLOCKED (push [IDLE_HLT] (k\<lparr>level := False\<rparr>))) = Inr k'"
    using assms by (auto simp: idle_loop_def thread_block_def intr_disable_def res_simps)
  then show ?thesis
    using schedule_same unfolding quiet_def
    by (fastforce intro!: exI [of _ "[IDLE_HLT]"] simp: set_status_def push_def drop_Cons')
qed

lemma enlist_sel:
  "cur (enlist c t k) = cur k" "todo (enlist c t k) = todo k" "lock_holder (enlist c t k) = lock_holder k"
  "all_list (enlist c t k) = all_list k" "sema (enlist c t k) = (sema k)(WAITER t := \<lparr>sema_value = 0, sema_waiters = []\<rparr>)"
  by (simp_all add: enlist_def sema_init_def set_sema_def)

lemma quiet_cond_wait:
  assumes r: "cond_wait cv l k = Inr k' \<or> cond_timed_wait cv l n k = Inr k' \<or> cond_wait_intr cv k = Inr k'
      \<or> cond_timed_wait_intr cv n k = Inr k'" and f: "\<And>l. tokf l f = 0"
  shows "quiet f k k'"
proof -
  obtain k1 gs where k1: "k' = push gs k1" "minor (enlist cv (cur k) k) k1" "sema k1 = sema (enlist cv (cur k) k)"
      "lock_holder k1 = lock_holder k"
    and gs: "set gs \<subseteq> {LOCK_RELEASE l, SEMA_DOWN (WAITER (cur k)), LOCK_ACQUIRE l, INTR_SET_LEVEL False}
       \<union> range (TIMED_WAIT_DONE cv) \<union> {TIMED_WAIT_INTR_DONE cv}"
    using cond_wait_pushes [OF r] by blast
  have z: "\<forall>g \<in> set gs. tokf m g = 0" for m using gs by auto
  show ?thesis
    using k1(2) by (intro quiet_push [OF k1(1)])
      (auto simp: minor_def same_view_def enlist_sel k1(3,4) f tok_zero [OF z] tok_zero_drop [OF z])
qed

fun special :: "frame \<Rightarrow> bool" where
  "special (SEMA_WAIT s b) = True"
| "special (SEMA_UP s) = True"
| "special (SET_HOLDER l) = True"
| "special (LOCK_TRY_ACQUIRE l) = True"
| "special (LOCK_RELEASE l) = True"
| "special (CREATE_DONE t b) = True"
| "special THREAD_EXIT = True"
| "special (THREAD_START t) = True"
| "special (IDLE_START s) = True"
| "special (SEMA_TRY_DOWN (LOCK l)) = True"
| "special f = False"

lemma unat_minus_one_le: "(v::u32) > 0 \<Longrightarrow> unat (v - 1) \<le> unat v"
  by (simp add: unat_minus_one)

lemma run_frame_quiet:
  assumes "\<not> special f" and r: "run_frame f k = Inr k'"
  shows "quiet f k k'"
proof (cases f)
  case (SEMA_DOWN s)
  have "k' = push [SEMA_WAIT s (level k)] (k\<lparr>level := False\<rparr>)"
    using r SEMA_DOWN by (auto simp: sema_down_def intr_disable_def res_simps)
  moreover have "tokf l (SEMA_WAIT s b) = tokf l (SEMA_DOWN s)" for l b by (cases s) auto
  ultimately show ?thesis by (auto intro!: quiet_push simp: SEMA_DOWN drop_Cons')
next
  case (SEMA_TRY_DOWN s)
  then show ?thesis
    using r assms(1) unat_minus_one_le [of "val k s"]
    by (cases s) (auto intro!: quiet_unseen simp: sema_try_down_def Let_def set_sema_def intr_disable_def
        split: if_splits dest!: intr_set_level_Inr)
next
  case (LOCK_ACQUIRE l)
  then have "k' = push [SEMA_DOWN (LOCK l), SET_HOLDER l] k"
    using r by (auto simp: lock_acquire_def res_simps)
  then show ?thesis by (auto intro!: quiet_push simp: LOCK_ACQUIRE drop_Cons' split: if_splits)
next
  case (COND_SIGNAL cv l)
  then have "k' = k \<or> (\<exists>w cw. k' = push [SEMA_UP (WAITER w), SIGNAL_TIMED w] (k\<lparr>cond_waiters := cw\<rparr>))"
    using r cond_signal_pushes [of cv l k k'] by simp
  then show ?thesis
    by (elim disjE) (simp add: quiet_unseen COND_SIGNAL, auto intro!: quiet_push simp: COND_SIGNAL drop_Cons')
next
  case (COND_SIGNAL_INTR cv)
  then have "k' = k \<or> (\<exists>w cw. k' = push [SEMA_UP (WAITER w), SIGNAL_TIMED w] (k\<lparr>cond_waiters := cw\<rparr>))"
    using r cond_signal_pushes [of cv 0 k k'] by simp
  then show ?thesis
    by (elim disjE) (simp add: quiet_unseen COND_SIGNAL_INTR, auto intro!: quiet_push simp: COND_SIGNAL_INTR drop_Cons')
next
  case (COND_BROADCAST cv l)
  then have "k' = k \<or> k' = push [COND_SIGNAL cv l, COND_BROADCAST cv l] k"
    using r by (auto simp: cond_broadcast_def split: if_splits)
  then show ?thesis
    by (elim disjE) (simp add: quiet_unseen COND_BROADCAST, auto intro!: quiet_push simp: COND_BROADCAST drop_Cons')
next
  case (THREAD_CREATE nm prio b t)
  then consider "k' = k\<lparr>retval := (retval k)(cur k := False)\<rparr>"
    | k1 where "init_thread t nm prio k = Inr k1"
      "k' = push [LOCK_ACQUIRE tid_lock, ALLOC_TID t, LOCK_RELEASE tid_lock, CREATE_DONE t b] k1"
    using r by (auto simp: thread_create_def res_simps split: if_splits)
  then show ?thesis
    by cases (simp add: quiet_unseen THREAD_CREATE,
        auto intro!: quiet_push simp: THREAD_CREATE init_thread_def res_simps drop_Cons')
next
  case IDLE_HLT
  then have "k' = push [IDLE_LOOP] (k\<lparr>level := True\<rparr>)" using r by (simp add: idle_hlt_def)
  then show ?thesis by (auto intro!: quiet_push simp: IDLE_HLT drop_Cons')
next
  case (COND_WAIT cv l)
  then show ?thesis using r quiet_cond_wait [of cv l k k' 0 f] by simp
next
  case (COND_TIMED_WAIT cv l n)
  then show ?thesis using r quiet_cond_wait [of cv l k k' n f] by simp
next
  case (COND_WAIT_INTR cv)
  then show ?thesis using r quiet_cond_wait [of cv 0 k k' 0 f] by simp
next
  case (COND_TIMED_WAIT_INTR cv n)
  then show ?thesis using r quiet_cond_wait [of cv 0 k k' n f] by simp
next
  case THREAD_YIELD
  then show ?thesis using r by (simp add: quiet_yield)
next
  case IDLE_LOOP
  then show ?thesis using r by (simp add: quiet_idle_loop)
qed (use assms in
     \<open>auto intro!: quiet_unseen simp: signal_timed_def timed_wait_done_def timed_wait_intr_done_def alloc_tid_def
        Let_def intr_disable_def res_simps split: if_splits dest!: intr_set_level_Inr\<close>)

subsection \<open>Locks\<close>

text \<open>The invariant of a lock while frame \<open>f\<close> of the current thread has been taken off and is to be run.\<close>

definition rights :: "nat \<Rightarrow> frame \<Rightarrow> kernel \<Rightarrow> nat \<Rightarrow> int" where
  "rights l f k = (\<lambda>t. tok l (todo k t))(cur k := tokf l f + tok l (todo k (cur k)))"

definition lock_pre :: "nat \<Rightarrow> frame \<Rightarrow> kernel \<Rightarrow> bool" where
  "lock_pre l f k \<longleftrightarrow> (\<forall>t. suffix_ok l (todo k t)) \<and> 0 \<le> tokf l f + tok l (todo k (cur k))
     \<and> lock_state (val k (LOCK l)) (lock_holder k l) (rights l f k)"

lemma lock_pre_frame:
  assumes "lock_inv l k" "todo k (cur k) = f # fs"
  shows "lock_pre l f (set_todo fs k)"
proof -
  have "rights l f (set_todo fs k) = (\<lambda>t. tok l (todo k t))"
    using assms(2) by (auto simp: rights_def set_todo_def)
  moreover have "suffix_ok l (f # fs)" using assms by (metis lock_inv_def)
  ultimately show ?thesis
    using assms(1) by (auto simp: lock_pre_def lock_inv_def set_todo_def suffix_ok_Cons)
qed

lemma lock_pre_call:
  assumes "lock_inv l k" "tokf l f = 0"
  shows "lock_pre l f k"
proof -
  have "rights l f k = (\<lambda>t. tok l (todo k t))" using assms(2) by (auto simp: rights_def)
  then show ?thesis
    using assms by (auto simp: lock_pre_def lock_inv_def suffix_ok_nonneg)
qed

lemma lock_inv_step:
  assumes p: "lock_pre l f k" and t: "todo k' = (todo k)(cur k := gs @ todo k (cur k))"
    and n: "\<And>n. 0 < n \<Longrightarrow> 0 \<le> tok l (drop n gs)" and z: "0 \<le> tok l gs + tok l (todo k (cur k))"
    and s: "lock_state (val k' (LOCK l)) (lock_holder k' l)
        ((rights l f k)(cur k := tok l gs + tok l (todo k (cur k))))"
  shows "lock_inv l k'"
proof -
  have "(\<lambda>t. tok l (todo k' t)) = (rights l f k)(cur k := tok l gs + tok l (todo k (cur k)))"
    by (auto simp: t rights_def)
  moreover have "suffix_ok l (gs @ todo k (cur k))"
    using p n z by (intro suffix_ok_append) (auto simp: lock_pre_def)
  ultimately show ?thesis
    using s p by (simp add: lock_inv_def lock_pre_def t)
qed

lemma rights_cur: "rights l f k (cur k) = tokf l f + tok l (todo k (cur k))"
  by (simp add: rights_def)

lemma lock_inv_same:
  assumes p: "lock_pre l f k" and t: "todo k' = (todo k)(cur k := gs @ todo k (cur k))"
    and n: "\<And>n. 0 < n \<Longrightarrow> 0 \<le> tok l (drop n gs)" and z: "tok l gs = tokf l f"
    and s: "val k' (LOCK l) = val k (LOCK l)" "lock_holder k' l = lock_holder k l"
  shows "lock_inv l k'"
proof (rule lock_inv_step [OF p t n])
  show "lock_state (val k' (LOCK l)) (lock_holder k' l)
        ((rights l f k)(cur k := tok l gs + tok l (todo k (cur k))))"
    using p unfolding s z rights_cur [symmetric] by (simp add: lock_pre_def)
qed (use p in \<open>auto simp: lock_pre_def z\<close>)

lemma lock_inv_quiet: "lock_pre l f k \<Longrightarrow> quiet f k k' \<Longrightarrow> lock_inv l k'"
  unfolding quiet_def by (elim conjE exE, rule lock_inv_same) (simp, simp, meson, meson, simp_all)

lemma thread_current_cur: "thread_current k = Inr t \<Longrightarrow> t = cur k \<and> cur k \<noteq> 0"
  by (auto simp: thread_current_def is_thread_def running_thread_def Let_def res_simps)

lemma sema_wait_result:
  assumes "sema_wait q b k = Inr k'"
  obtains (take) "val k q \<noteq> 0" "k' = (set_sema q (val k q - 1) (wtrs k q) k)\<lparr>level := b\<rparr>"
  | (sleep) "val k q = 0" "todo k' = (todo k)(cur k := [SEMA_WAIT q b] @ todo k (cur k))"
      "lock_holder k' = lock_holder k" "all_list k' = all_list k"
      "sema k' = (sema k)(q := \<lparr>sema_value = val k q, sema_waiters = wtrs k q @ [cur k]\<rparr>)"
proof (cases "val k q = 0")
  case True
  then obtain k1 where "schedule k1 = Inr k'"
    "k1 = set_status (cur k) THREAD_BLOCKED (push [SEMA_WAIT q b] (set_sema q (val k q) (wtrs k q @ [cur k]) k))"
    using assms by (auto simp: sema_wait_def thread_block_def res_simps push_def set_sema_def dest!: thread_current_cur)
  then show ?thesis
    using schedule_same [of k1 k'] True by (intro sleep) (auto simp: set_status_def push_def set_sema_def)
next
  case False
  then show ?thesis using assms by (intro take) (auto simp: sema_wait_def dest!: intr_set_level_Inr)
qed

lemma lock_inv_sema_wait:
  assumes p: "lock_pre l (SEMA_WAIT q b) k" and r: "sema_wait q b k = Inr k'"
  shows "lock_inv l k'"
  using r
proof (cases rule: sema_wait_result)
  case take
  show ?thesis
  proof (cases "q = LOCK l")
    case True
    have "lock_state (val k (LOCK l) - 1) (lock_holder k l)
        ((rights l (SEMA_WAIT q b) k)(cur k := rights l (SEMA_WAIT q b) k (cur k) + 1))"
      using p take(1) True by (intro lock_state_acquire) (auto simp: lock_pre_def)
    then show ?thesis
      using p by (intro lock_inv_step [OF p, where gs = "[]"])
        (auto simp: take(2) True set_sema_def rights_cur lock_pre_def suffix_ok_nonneg)
  next
    case False
    then have "tokf l (SEMA_WAIT q b) = 0" by (cases q) auto
    then show ?thesis
      using False by (intro lock_inv_same [OF p, where gs = "[]"]) (auto simp: take(2) set_sema_def)
  qed
next
  case sleep
  then show ?thesis
    by (intro lock_inv_same [OF p sleep(2)]) (auto simp: drop_Cons')
qed

lemma lock_inv_sema_up:
  assumes p: "lock_pre l (SEMA_UP q) k" and r: "sema_up q k = Inr k'"
  shows "lock_inv l k'"
proof -
  have k': "todo k' = todo k" "lock_holder k' = lock_holder k"
      "val k' (LOCK l) = (if q = LOCK l then val k q + 1 else val k (LOCK l))"
    by (simp_all add: sema_up_result [OF r] wake_sel wake_lists)
  show ?thesis
  proof (cases "q = LOCK l")
    case True
    have "0 \<le> tok l (todo k (cur k))" using p by (simp add: lock_pre_def suffix_ok_nonneg)
    then have "lock_state (val k (LOCK l) + 1) (lock_holder k l)
        ((rights l (SEMA_UP q) k)(cur k := rights l (SEMA_UP q) k (cur k) - 1))"
      using p True by (intro lock_state_up) (auto simp: lock_pre_def rights_cur)
    then show ?thesis
      using p by (intro lock_inv_step [OF p, where gs = "[]"])
        (auto simp: k' True rights_cur lock_pre_def suffix_ok_nonneg)
  next
    case False
    then have "tokf l (SEMA_UP q) = 0" by (cases q) auto
    then show ?thesis
      using False by (intro lock_inv_same [OF p, where gs = "[]"]) (auto simp: k')
  qed
qed

lemma lock_inv_set_holder:
  assumes p: "lock_pre l (SET_HOLDER m) k" and r: "set_holder m k = Inr k'"
  shows "lock_inv l k'"
proof -
  have k': "k' = k\<lparr>lock_holder := (lock_holder k)(m := cur k)\<rparr>" and c: "cur k \<noteq> 0"
    using r by (auto simp: set_holder_def res_simps dest!: thread_current_cur)
  show ?thesis
  proof (cases "m = l")
    case True
    have "0 \<le> tok l (todo k (cur k))" using p by (simp add: lock_pre_def suffix_ok_nonneg)
    then have "lock_state (val k (LOCK l)) (cur k)
        ((rights l (SET_HOLDER m) k)(cur k := rights l (SET_HOLDER m) k (cur k) - 1))"
      using p c True by (intro lock_state_holder) (auto simp: lock_pre_def rights_cur)
    then show ?thesis
      using p by (intro lock_inv_step [OF p, where gs = "[]"])
        (auto simp: k' True rights_cur lock_pre_def suffix_ok_nonneg)
  qed (intro lock_inv_same [OF p, where gs = "[]"], auto simp: k')
qed

lemma lock_inv_release:
  assumes p: "lock_pre l (LOCK_RELEASE m) k" and r: "lock_release m k = Inr k'"
  shows "lock_inv l k'"
proof -
  have k': "k' = push [SEMA_UP (LOCK m)] (k\<lparr>lock_holder := (lock_holder k)(m := 0)\<rparr>)"
    and c: "cur k \<noteq> 0" "lock_holder k m = cur k"
    using r by (auto simp: lock_release_def lock_held_by_current_thread_def res_simps dest!: thread_current_cur)
  show ?thesis
  proof (cases "m = l")
    case True
    have "lock_state (val k (LOCK l)) 0
        ((rights l (LOCK_RELEASE m) k)(cur k := rights l (LOCK_RELEASE m) k (cur k) + 1))"
      using p c True by (intro lock_state_release) (auto simp: lock_pre_def)
    then show ?thesis
      using p by (intro lock_inv_step [OF p, where gs = "[SEMA_UP (LOCK m)]"])
        (auto simp: k' True push_def rights_cur lock_pre_def suffix_ok_nonneg drop_Cons' add.commute)
  qed (intro lock_inv_same [OF p, where gs = "[SEMA_UP (LOCK m)]"], auto simp: k' push_def drop_Cons')
qed

lemma try_acquire_result:
  assumes "lock_try_acquire m k = Inr k'"
  obtains (fail) v where "k' = k\<lparr>retval := v, level := level k\<rparr>"
  | (take) v where "val k (LOCK m) \<noteq> 0"
      "k' = push [SET_HOLDER m] ((set_sema (LOCK m) (val k (LOCK m) - 1) (wtrs k (LOCK m)) k)\<lparr>retval := v, level := level k\<rparr>)"
proof -
  obtain k1 where k1: "sema_try_down (LOCK m) k = Inr k1" "k' = (if retval k1 (cur k1) then push [SET_HOLDER m] k1 else k1)"
    using lock_try_acquire_pushes [OF assms] by blast
  show ?thesis
  proof (cases "val k (LOCK m) > 0")
    case True
    then have "k1 = (set_sema (LOCK m) (val k (LOCK m) - 1) (wtrs k (LOCK m)) k)\<lparr>retval := (retval k)(cur k := True), level := level k\<rparr>"
      using k1(1) by (auto simp: sema_try_down_def Let_def intr_disable_def set_sema_def dest!: intr_set_level_Inr)
    then show ?thesis using k1(2) True by (intro take) (auto simp: set_sema_def)
  next
    case False
    then have "k1 = k\<lparr>retval := (retval k)(cur k := False), level := level k\<rparr>"
      using k1(1) by (auto simp: sema_try_down_def Let_def intr_disable_def dest!: intr_set_level_Inr)
    then show ?thesis using k1(2) by (intro fail) auto
  qed
qed

lemma lock_inv_try_acquire:
  assumes p: "lock_pre l (LOCK_TRY_ACQUIRE m) k" and r: "lock_try_acquire m k = Inr k'"
  shows "lock_inv l k'"
  using r
proof (cases rule: try_acquire_result)
  case (take v)
  show ?thesis
  proof (cases "m = l")
    case True
    have "lock_state (val k (LOCK l) - 1) (lock_holder k l)
        ((rights l (LOCK_TRY_ACQUIRE m) k)(cur k := rights l (LOCK_TRY_ACQUIRE m) k (cur k) + 1))"
      using p take(1) True by (intro lock_state_acquire) (auto simp: lock_pre_def)
    then show ?thesis
      using p by (intro lock_inv_step [OF p, where gs = "[SET_HOLDER m]"])
        (auto simp: take(2) True push_def set_sema_def rights_cur lock_pre_def suffix_ok_nonneg drop_Cons' add.commute)
  qed (intro lock_inv_same [OF p, where gs = "[SET_HOLDER m]"], auto simp: take(2) push_def set_sema_def drop_Cons')
qed (intro lock_inv_same [OF p, where gs = "[]"], auto)

text \<open>What the consistency invariant says when a frame is run.\<close>

definition runnable :: "frame \<Rightarrow> kernel \<Rightarrow> bool" where
  "runnable f k \<longleftrightarrow> waiters_ok k \<and> (\<forall>s. \<not> waits_on k s (cur k))
     \<and> (good_frame (idle_thread k) (cur k) f \<or> client_call f)
     \<and> (\<forall>t b. f = CREATE_DONE t b \<longrightarrow> todo k t = []) \<and> (f = THREAD_EXIT \<longrightarrow> todo k (cur k) = [])"

lemma runnable_frame:
  assumes inv: "sched_inv k" and top: "todo k (cur k) = f # fs"
  shows "runnable f (set_todo fs k)"
proof -
  have fr: "frames_ok (idle_thread k) (cur k) (f # fs)" using sched_inv_frames [OF inv, of "cur k"] top by simp
  have w: "waiters_ok k" and st: "status k (cur k) = THREAD_RUNNING"
    using inv by (auto simp: sched_inv_def base_inv_def threads_ok_def)
  have "waits_on (set_todo fs k) s t" if "t \<in> set (wtrs k s)" for s t
    using waiters_okD [OF w that] st by (auto simp: waits_on_def set_todo_def)
  then have "waiters_ok (set_todo fs k)" using w by (simp add: waiters_ok_def set_todo_def)
  moreover have "todo (set_todo fs k) t = []" if "f = CREATE_DONE t b" for t b
    using sched_inv_creating(2) [OF inv, of t "cur k"] top that by (auto simp: set_todo_def)
  moreover have "\<not> waits_on (set_todo fs k) s (cur k)" for s
    using fr by (auto simp: waits_on_def set_todo_def frames_ok_def)
  ultimately show ?thesis
    using fr by (auto simp: runnable_def set_todo_def frames_ok_def)
qed

lemma runnable_call:
  assumes inv: "sched_inv k" and top: "todo k (cur k) = BODY # fs" and "client_call f"
  shows "runnable f k"
  using assms by (cases f) (auto simp: runnable_def waits_on_def sched_inv_def base_inv_def)

lemma create_done_same:
  assumes "create_done t b k = Inr k'"
  shows "todo k' = (todo k)(t := kernel_thread b) \<and> sema k' = sema k \<and> lock_holder k' = lock_holder k \<and> all_list k' = all_list k"
  by (simp add: create_done_result [OF assms])

lemma thread_exit_same:
  assumes "thread_exit k = Inr k'"
  shows "todo k' = (todo k)(cur k := []) \<and> sema k' = sema k \<and> lock_holder k' = lock_holder k
    \<and> all_list k' = remove1 (cur k) (all_list k)"
proof -
  obtain k1 where "schedule k1 = Inr k'" "k1 = set_status (cur k) THREAD_DYING
      (k\<lparr>level := False, all_list := remove1 (cur k) (all_list k), todo := (todo k)(cur k := [])\<rparr>)"
    using assms by (auto simp: thread_exit_def Let_def intr_disable_def res_simps dest!: thread_current_cur)
  then show ?thesis using schedule_same [of k1 k'] by (simp add: set_status_def)
qed

lemma lock_inv_run:
  assumes p: "lock_pre l f k" and w: "runnable f k" and r: "run_frame f k = Inr k'"
  shows "lock_inv l k'"
proof (cases "special f")
  case True
  then show ?thesis
  proof (cases f rule: special.cases)
    case (6 t b)
    have c: "todo k' = (todo k)(t := kernel_thread b)" "sema k' = sema k" "lock_holder k' = lock_holder k"
      using create_done_same [of t b k k'] r 6 by auto
    have z: "suffix_ok l (kernel_thread b)" "tok l (kernel_thread b) = 0"
      by (auto simp: kernel_thread_def suffix_ok_Cons split: body.splits)
    have "todo k t = []" using w 6 by (simp add: runnable_def)
    then have "(\<lambda>u. tok l (todo k' u)) = rights l f k" using z(2) 6 by (auto simp: c rights_def fun_eq_iff)
    then show ?thesis using p z(1) by (simp add: lock_inv_def lock_pre_def c)
  next
    case 7
    have c: "todo k' = todo k" "sema k' = sema k" "lock_holder k' = lock_holder k"
      using thread_exit_same [of k k'] r w 7 by (auto simp: runnable_def)
    then show ?thesis using 7 by (intro lock_inv_same [OF p, where gs = "[]"]) auto
  qed (use p w r lock_inv_sema_wait lock_inv_sema_up lock_inv_set_holder lock_inv_try_acquire lock_inv_release
       in \<open>auto simp: runnable_def\<close>)
qed (use lock_inv_quiet [OF p] run_frame_quiet [OF _ r] in blast)

subsection \<open>Sleepers\<close>

definition unit_pre :: "sema_id \<Rightarrow> frame \<Rightarrow> kernel \<Rightarrow> bool" where
  "unit_pre s f k \<longleftrightarrow> (wtrs k s \<noteq> [] \<longrightarrow>
     unat (val k s) \<le> card (woken k s \<union> (if \<exists>b. f = SEMA_WAIT s b then {cur k} else {})))"

lemma unit_pre_frame:
  assumes "unit_inv s k" "todo k (cur k) = f # fs"
  shows "unit_pre s f (set_todo fs k)"
proof -
  have "woken k s \<subseteq> woken (set_todo fs k) s \<union> (if \<exists>b. f = SEMA_WAIT s b then {cur k} else {})"
    using assms(2) by (auto simp: woken_def waits_on_def set_todo_def)
  then have "card (woken k s) \<le> card (woken (set_todo fs k) s \<union> (if \<exists>b. f = SEMA_WAIT s b then {cur k} else {}))"
    by (intro card_mono) auto
  then show ?thesis
    using assms(1) by (auto simp: unit_pre_def unit_inv_def set_todo_def)
qed

lemma unit_pre_call: "unit_inv s k \<Longrightarrow> client_call f \<Longrightarrow> unit_pre s f k"
  by (cases f) (auto simp: unit_pre_def unit_inv_def)

lemma unit_inv_step:
  assumes p: "unit_pre s f k" and f: "\<And>b. f \<noteq> SEMA_WAIT s b" and w: "\<not> waits_on k s (cur k)"
    and k': "wtrs k' s = wtrs k s \<or> wtrs k' s = []" "unat (val k' s) \<le> unat (val k s)"
    and t: "\<And>t. t \<in> set (all_list k) \<Longrightarrow> t \<noteq> cur k \<Longrightarrow> waits_on k s t \<Longrightarrow> t \<in> set (all_list k') \<and> waits_on k' s t"
  shows "unit_inv s k'"
proof (rule unit_inv_mono [OF _ k'])
  show "unit_inv s k" using p f by (simp add: unit_pre_def unit_inv_def)
  show "woken k s \<subseteq> woken k' s" if "wtrs k' s \<noteq> []"
    using that k'(1) t w by (auto simp: woken_def)
qed

lemma unit_inv_quiet:
  assumes "unit_pre s f k" "\<not> special f" "\<not> waits_on k s (cur k)" and q: "quiet f k k'"
  shows "unit_inv s k'"
  using assms by (intro unit_inv_step [OF assms(1)]) (auto simp: quiet_def waits_on_def)

lemma unit_inv_sema_wait:
  assumes p: "unit_pre s (SEMA_WAIT q b) k" and w: "\<not> waits_on k s (cur k)" and r: "sema_wait q b k = Inr k'"
  shows "unit_inv s k'"
  using r
proof (cases rule: sema_wait_result)
  case take
  show ?thesis
  proof (cases "q = s")
    case True
    have "woken k' s = woken k s" by (simp add: take(2) woken_def waits_on_def set_sema_def True)
    moreover have "card (insert (cur k) (woken k s)) \<le> card (woken k s) + 1" by (simp add: card_insert_le_m1 card_insert_if)
    moreover have "unat (val k s - 1) = unat (val k s) - 1" using take(1) True by (simp add: unat_minus_one)
    ultimately show ?thesis
      using p by (auto simp: unit_inv_def unit_pre_def take(2) set_sema_def True)
  qed (use w in \<open>intro unit_inv_step [OF p], auto simp: take(2) set_sema_def waits_on_def\<close>)
next
  case sleep
  show ?thesis
  proof (cases "q = s")
    case True
    then have "val k s = 0" using sleep(1) by simp
    then show ?thesis using True by (simp add: unit_inv_def sleep(5))
  qed (use w in \<open>intro unit_inv_step [OF p], auto simp: sleep waits_on_def\<close>)
qed

lemma unit_inv_wake:
  assumes i: "unit_inv s k" and w: "waiters_ok k"
  shows "unit_inv s (wake q k)"
proof (cases "q = s \<and> wtrs k s \<noteq> []")
  case True
  then obtain t ts where t: "wtrs k s = t # ts" by (cases "wtrs k s") auto
  have d: "t \<notin> set ts" using w t by (metis waiters_ok_def distinct.simps(2))
  have t': "t \<in> set (all_list k)" "waits_on k s t" using waiters_okD [OF w, of t s] t by auto
  have "insert t (woken k s) \<subseteq> woken (wake s k) s"
    using t d t' by (auto simp: woken_def wake_sel wake_lists)
  then have "card (insert t (woken k s)) \<le> card (woken (wake s k) s)" by (intro card_mono) auto
  moreover have "t \<notin> woken k s" by (simp add: woken_def t)
  moreover have "unat (val k s + 1) \<le> unat (val k s) + 1" by (simp add: unat_word_ariths)
  ultimately show ?thesis
    using i t True by (auto simp: unit_inv_def wake_lists)
next
  case False
  then show ?thesis
    using i by (cases "q = s") (auto simp: unit_inv_def wake_lists wake_sel woken_def)
qed

lemma unit_inv_run:
  assumes p: "unit_pre s f k" and w: "runnable f k" and r: "run_frame f k = Inr k'"
  shows "unit_inv s k'"
proof -
  have nw: "\<not> waits_on k s (cur k)" using w by (simp add: runnable_def)
  show ?thesis
  proof (cases "special f")
    case True
    then show ?thesis
    proof (cases f rule: special.cases)
      case (1 q b)
      then show ?thesis using unit_inv_sema_wait p nw r by simp
    next
      case (2 q)
      then have "unit_inv s (wake q k)"
        using p w by (intro unit_inv_wake) (auto simp: unit_pre_def unit_inv_def runnable_def)
      then show ?thesis
        using sema_up_result [of q k k'] r 2 by (simp add: unit_inv_def woken_def waits_on_def)
    next
      case (3 l)
      then show ?thesis
        using r nw by (intro unit_inv_step [OF p]) (auto simp: set_holder_def res_simps waits_on_def)
    next
      case (4 l)
      then have "lock_try_acquire l k = Inr k'" using r by simp
      then show ?thesis
        by (cases rule: try_acquire_result)
          (use nw 4 unat_minus_one_le [of "val k (LOCK l)"] in
            \<open>intro unit_inv_step [OF p], auto simp: push_def set_sema_def waits_on_def word_gt_0\<close>)+
    next
      case (5 l)
      then show ?thesis
        using r nw by (intro unit_inv_step [OF p])
          (auto simp: lock_release_def res_simps push_def waits_on_def)
    next
      case (6 t b)
      then show ?thesis
        using create_done_same [of t b k k'] r w nw by (intro unit_inv_step [OF p])
          (auto simp: waits_on_def runnable_def)
    next
      case 7
      then show ?thesis
        using thread_exit_same [of k k'] r nw by (intro unit_inv_step [OF p]) (auto simp: waits_on_def)
    qed (use w in \<open>auto simp: runnable_def\<close>)
  qed (use unit_inv_quiet [OF p _ nw] run_frame_quiet [OF _ r] in blast)
qed

subsection \<open>All steps\<close>

definition kernel_inv :: "kernel \<Rightarrow> bool" where
  "kernel_inv k \<longleftrightarrow> sched_inv k \<and> (\<forall>l. lock_inv l k) \<and> (\<forall>s. unit_inv s k)"

lemma wakes_waiters: "wakes k k' \<Longrightarrow> base_inv k r \<Longrightarrow> (\<forall>s. unit_inv s k) \<Longrightarrow> (\<forall>s. unit_inv s k')"
proof (induction rule: wakes.induct)
  case (unseen k k')
  then show ?case by (auto simp: unseen_def same_view_def unit_inv_def woken_def waits_on_def)
next
  case (wake s k)
  then show ?case by (simp add: unit_inv_wake base_inv_def)
next
  case (trans k k' k'')
  then show ?case using wakes_base by blast
qed

text \<open>An interrupt pushes the return frame, wakes threads and possibly yields.\<close>

lemma ext_units_locks:
  assumes inv: "kernel_inv k" and lv: "level k"
    and ext: "intr_handler_ext handler k = Inr k'" and h: "\<And>k k'. handler k = Inr k' \<Longrightarrow> wakes k k'"
  shows "(\<forall>l. lock_inv l k') \<and> (\<forall>s. unit_inv s k')"
proof -
  have i: "sched_inv k" using inv by (simp add: kernel_inv_def)
  obtain k2 where k2: "wakes (entry k) k2"
    and k': "k' = k2\<lparr>in_external_intr := False\<rparr> \<or> thread_yield (k2\<lparr>in_external_intr := False\<rparr>) = Inr k'"
    using intr_handler_ext_cases [OF ext h] .
  note sel = handled_sel [OF k2]
  let ?k3 = "k2\<lparr>in_external_intr := False\<rparr>"
  have l3: "lock_inv l ?k3" for l
  proof (rule lock_inv_same)
    show "lock_pre l IRET k" using inv by (intro lock_pre_call) (auto simp: kernel_inv_def)
    show "todo ?k3 = (todo k)(cur k := [IRET] @ todo k (cur k))" by (simp add: sel)
  qed (use sel in \<open>auto simp: drop_Cons'\<close>)
  have "unit_inv s (entry k)" for s
  proof (rule unit_inv_step)
    show "unit_pre s IRET k" using inv by (auto simp: kernel_inv_def unit_inv_def unit_pre_def)
  qed (use not_waiting(1) [OF i lv] in \<open>auto simp: entry_def push_def intr_disable_def waits_on_def\<close>)
  then have "unit_inv s k2" for s using wakes_waiters [OF k2 entry_inv [OF i lv]] by blast
  then have u3: "unit_inv s ?k3" for s by (simp add: unit_inv_def woken_def waits_on_def)
  from k' show ?thesis
  proof
    assume y: "thread_yield ?k3 = Inr k'"
    have q: "quiet IRET ?k3 k'" by (rule quiet_yield [OF y]) simp
    have "lock_inv l k'" for l by (rule lock_inv_quiet [OF lock_pre_call [OF l3] q]) simp
    moreover have "unit_inv s k'" for s
      by (rule unit_inv_quiet [OF _ _ _ q]) (use u3 [of s] sel in \<open>auto simp: unit_pre_def unit_inv_def waits_on_def\<close>)
    ultimately show ?thesis by blast
  qed (use l3 u3 in simp)
qed

lemma set_todo_units_locks:
  assumes inv: "kernel_inv k" and top: "todo k (cur k) = BODY # fs" and gs: "gs = fs \<or> gs = [THREAD_EXIT]"
  shows "(\<forall>l. lock_inv l (set_todo gs k)) \<and> (\<forall>s. unit_inv s (set_todo gs k))"
proof -
  have fs: "fs = [] \<or> fs = [THREAD_EXIT]"
    using sched_inv_frames [of k "cur k"] inv top by (auto simp: kernel_inv_def frames_ok_def)
  have z: "tok l gs = 0" "suffix_ok l gs" for l using fs gs by (auto simp: suffix_ok_Cons)
  have zf: "tok l (BODY # fs) = 0" for l using fs by auto
  have "lock_inv l (set_todo gs k)" for l
  proof -
    have "(\<lambda>t. tok l (todo (set_todo gs k) t)) = (\<lambda>t. tok l (todo k t))"
      using z(1) zf top by (auto simp: set_todo_def fun_eq_iff)
    then show ?thesis using inv z by (simp add: kernel_inv_def lock_inv_def set_todo_def)
  qed
  moreover have "unit_inv s (set_todo gs k)" for s
  proof -
    have "woken (set_todo gs k) s = woken k s"
      using fs gs top by (auto simp: woken_def waits_on_def set_todo_def)
    then show ?thesis using inv by (simp add: kernel_inv_def unit_inv_def set_todo_def)
  qed
  ultimately show ?thesis by blast
qed

lemma kstep_inv:
  assumes "kstep k k'" "kernel_inv k"
  shows "kernel_inv k'"
proof -
  have s: "sched_inv k" using assms(2) by (simp add: kernel_inv_def)
  have "(\<forall>l. lock_inv l k') \<and> (\<forall>s. unit_inv s k')"
    using assms(1)
  proof cases
    case (frame f fs)
    note w = runnable_frame [OF s frame(1)]
    show ?thesis
      using lock_inv_run [OF lock_pre_frame [OF _ frame(1)] w frame(3)]
        unit_inv_run [OF unit_pre_frame [OF _ frame(1)] w frame(3)] assms(2)
      by (simp add: kernel_inv_def)
  next
    case (call fs f)
    note w = runnable_call [OF s call(1,2)]
    have "tokf l f = 0" for l using call(2) by (cases f rule: client_call.cases) auto
    then show ?thesis
      using lock_inv_run [OF lock_pre_call w call(4)] unit_inv_run [OF unit_pre_call w call(4)] call(2) assms(2)
      by (simp add: kernel_inv_def)
  next
    case (return fs)
    then show ?thesis using set_todo_units_locks [OF assms(2)] by blast
  next
    case (exit fs)
    then show ?thesis using set_todo_units_locks [OF assms(2)] by blast
  next
    case timer
    then show ?thesis using ext_units_locks [OF assms(2)] wakes_thread_tick by blast
  next
    case (device n)
    then show ?thesis using ext_units_locks [OF assms(2)] wakes_sema_up [of "SEMA n"] by blast
  qed
  then show ?thesis using kstep_sched_inv [OF assms(1) s] by (simp add: kernel_inv_def)
qed

end
