(* ===== verification/Scheduling.thy ===== *)
theory Scheduling
  imports Mutex
begin

text \<open>
  The properties of threads and synchronisation: the boot sequence of
  \<^verbatim>\<open>threads/thread.c\<close> from \<open>thread_init\<close> to the end of \<open>thread_start\<close>, the states the
  kernel reaches from there, and what holds in all of them.
\<close>

subsection \<open>Boot\<close>

text \<open>
  Before \<open>thread_init\<close> the memory of the kernel is zero, but for the semaphores and locks
  that other parts of the monitor initialise; \<open>m\<close> is the page the boot code runs on.
\<close>

definition before_boot :: "nat \<Rightarrow> (nat \<Rightarrow> u32) \<Rightarrow> kernel" where
  "before_boot m v = \<lparr>cur = m,
     thr = (\<lambda>t. \<lparr>t_tid = 0, t_status = THREAD_RUNNING, t_name = [], t_stack = 0, t_priority = 0, t_magic = 0\<rparr>),
     todo = (\<lambda>t. []), ready_list = [], all_list = [], idle_thread = 0, initial_thread = 0, next_tid = 1,
     level = False, in_external_intr = False, yield_on_return = False, thread_ticks = 0, monitor_ticks = 0,
     guest_ticks = 0, freed_pages = [],
     sema = (\<lambda>s. \<lparr>sema_value = (case s of SEMA n \<Rightarrow> v n | LOCK l \<Rightarrow> 1 | WAITER t \<Rightarrow> 0), sema_waiters = []\<rparr>),
     lock_holder = (\<lambda>l. 0), cond_waiters = (\<lambda>c. []), remaining = (\<lambda>t. 0), timed_semaphores = [],
     retval = (\<lambda>t. False)\<rparr>"

text \<open>The current thread, whichever it is, runs its next frame, \<open>n\<close> times.\<close>

fun run_frames :: "nat \<Rightarrow> kernel \<Rightarrow> kernel res" where
  "run_frames 0 k = Inr k"
| "run_frames (Suc n) k =
     (case todo k (cur k) of
        [] \<Rightarrow> Inl OUT_OF_FUEL
      | f # fs \<Rightarrow> rbind (run_frame f (set_todo fs k)) (run_frames n))"

text \<open>
  The boot code calls \<open>thread_init\<close>, \<open>synch_init\<close> and then \<open>thread_start\<close>, which gets page \<open>i\<close> for the
  idle thread and is over after sixteen frames.
\<close>

definition boot :: "nat \<Rightarrow> nat \<Rightarrow> (nat \<Rightarrow> u32) \<Rightarrow> kernel res" where
  "boot m i v =
     rbind (thread_init (before_boot m v))
       (\<lambda>k. run_frames 16 (set_todo [THREAD_START i, BODY] (synch_init k)))"

lemmas boot_simps = res_simps Let_def running_thread_def thread_current_def is_thread_def intr_context_def
  intr_disable_def intr_enable_def intr_set_level_def sema_init_def set_sema_def init_thread_def PRI_DEFAULT_def
  PRI_MIN_def PRI_MAX_def alloc_tid_def set_status_def push_def set_todo_def thread_init_def lock_init_def
  thread_start_def thread_create_def lock_acquire_def lock_held_by_current_thread_def sema_down_def sema_wait_def
  set_holder_def lock_release_def sema_up_def create_done_def alloc_frame_def thread_unblock_def thread_block_def
  schedule_def next_thread_to_run_def schedule_tail_def idle_start_def idle_loop_def kernel_thread_def synch_init_def

lemma boot_result:
  assumes "m \<noteq> 0" "i \<noteq> 0" "m \<noteq> i"
  shows "boot m i v = Inr (before_boot m v\<lparr>
     thr := (thr (before_boot m v))(
       i := \<lparr>t_tid = 2, t_status = THREAD_BLOCKED, t_name = ''idle'', t_stack = int i + PGSIZE_t - 44,
             t_priority = PRI_MIN, t_magic = THREAD_MAGIC\<rparr>,
       m := \<lparr>t_tid = 1, t_status = THREAD_RUNNING, t_name = ''main'', t_stack = int m + PGSIZE_t,
             t_priority = PRI_DEFAULT, t_magic = THREAD_MAGIC\<rparr>),
     todo := (\<lambda>t. [])(i := [IDLE_HLT, THREAD_EXIT], m := [BODY]),
     all_list := [m, i], idle_thread := i, initial_thread := m, next_tid := 3, level := True,
     sema := (sema (before_boot m v))(SEMA 0 := \<lparr>sema_value = 0, sema_waiters = []\<rparr>),
     retval := (\<lambda>t. False)(m := True)\<rparr>)"
  using assms by (simp add: boot_def before_boot_def eval_nat_numeral boot_simps) (auto simp: fun_eq_iff)

lemma boot_inv:
  assumes "m \<noteq> 0" "i \<noteq> 0" "m \<noteq> i" "boot m i v = Inr k"
  shows "kernel_inv k"
proof -
  note k = boot_result [OF assms(1-3), of v, unfolded assms(4) sum.inject]
  have w: "wtrs k s = []" and l: "val k (LOCK l) = 1" "lock_holder k l = 0" for s l
    by (simp_all add: k before_boot_def)
  have td: "todo k t = (if t = m then [BODY] else if t = i then [IDLE_HLT, THREAD_EXIT] else [])" for t
    by (simp add: k)
  have "lock_inv l k" for l
    by (auto simp: lock_inv_def l td suffix_ok_Cons lock_state_def)
  moreover have "unit_inv s k" for s by (simp add: unit_inv_def w)
  moreover have "base_inv k (Some (cur k))"
    using assms(1-3) by (simp add: base_inv_def inv_parts w td frames_ok_def)
      (auto simp: k before_boot_def is_thread_def td)
  ultimately show ?thesis
    using assms(1-3) by (auto simp: kernel_inv_def sched_inv_def waits_on_def k before_boot_def)
qed

inductive reachable :: "kernel \<Rightarrow> bool" where
  boot: "m \<noteq> 0 \<Longrightarrow> i \<noteq> 0 \<Longrightarrow> m \<noteq> i \<Longrightarrow> boot m i v = Inr k \<Longrightarrow> reachable k"
| step: "reachable k \<Longrightarrow> kstep k k' \<Longrightarrow> reachable k'"

lemma reachable_inv: "reachable k \<Longrightarrow> kernel_inv k"
  by (induction rule: reachable.induct) (auto intro: boot_inv kstep_inv)

subsection \<open>Runs\<close>

text \<open>What can happen next, as a function: the code outside the kernel and the devices choose the event.\<close>

datatype event = FRAME | CALL frame | RETURN | EXIT | TIMER | DEVICE nat

fun happen :: "event \<Rightarrow> kernel \<Rightarrow> kernel res" where
  "happen FRAME k =
     (case todo k (cur k) of
        [] \<Rightarrow> Inl OUT_OF_FUEL
      | f # fs \<Rightarrow> if f = BODY then Inl OUT_OF_FUEL else run_frame f (set_todo fs k))"
| "happen (CALL f) k =
     (if take 1 (todo k (cur k)) = [BODY] \<and> client_call f \<and> page_ok k f then run_frame f k else Inl OUT_OF_FUEL)"
| "happen RETURN k =
     (if take 1 (todo k (cur k)) = [BODY] then Inr (set_todo (tl (todo k (cur k))) k) else Inl OUT_OF_FUEL)"
| "happen EXIT k =
     (if take 1 (todo k (cur k)) = [BODY] then Inr (set_todo [THREAD_EXIT] k) else Inl OUT_OF_FUEL)"
| "happen TIMER k = (if level k then intr_handler_ext thread_tick k else Inl OUT_OF_FUEL)"
| "happen (DEVICE n) k = (if level k then intr_handler_ext (sema_up (SEMA n)) k else Inl OUT_OF_FUEL)"

lemma take_1_eq: "take (Suc 0) xs = [x] \<longleftrightarrow> (\<exists>ys. xs = x # ys)"
  by (cases xs) auto

lemma happen_kstep: "happen e k = Inr k' \<Longrightarrow> kstep k k'"
  by (cases e) (auto simp: take_1_eq split: if_splits list.splits intro: kstep.intros)

lemma happen_reachable: "rfold happen es k = Inr k' \<Longrightarrow> reachable k \<Longrightarrow> reachable k'"
  by (induction es arbitrary: k) (auto simp: res_simps dest: happen_kstep intro: reachable.step)

subsection \<open>The run queue\<close>

text \<open>What a step does to the run queue: it grows at its end, or its first thread takes over.\<close>

definition advance :: "kernel \<Rightarrow> kernel \<Rightarrow> bool" where
  "advance k k' \<longleftrightarrow> (cur k' = cur k \<and> (\<exists>ys. ready_list k' = ready_list k @ ys))
     \<or> (\<exists>ys. ready_list k @ ys = cur k' # ready_list k') \<or> ready_list k = []"

lemma advance_same: "cur k' = cur k \<Longrightarrow> ready_list k' = ready_list k \<Longrightarrow> advance k k'"
  by (simp add: advance_def)

lemma advance_schedule:
  assumes "schedule k1 = Inr k'" "\<exists>ys. ready_list k1 = ready_list k @ ys"
  shows "advance k k'"
  using schedule_result [OF assms(1)] assms(2) by (auto simp: advance_def set_status_def)

lemma advance_yield: "thread_yield k = Inr k' \<Longrightarrow> advance k k'"
  by (auto simp: thread_yield_def res_simps Let_def intr_disable_def push_def set_status_def
      split: if_splits elim!: advance_schedule)

lemma advance_wakes: "wakes k k' \<Longrightarrow> cur k' = cur k \<and> (\<exists>ys. ready_list k' = ready_list k @ ys)"
  by (induction rule: wakes.induct) (auto simp: unseen_def same_view_def wake_sel wake_lists)

lemma advance_minor: "minor k k' \<Longrightarrow> advance k k'"
  by (auto simp: minor_def same_view_def intro: advance_same)

lemma advance_run:
  assumes r: "run_frame f k = Inr k'"
  shows "advance k k'"
proof (cases f)
  case (SEMA_WAIT s b)
  then show ?thesis
    using r by (auto simp: sema_wait_def thread_block_def res_simps push_def set_sema_def set_status_def
        split: if_splits elim!: advance_schedule intro: advance_same dest!: intr_set_level_Inr)
next
  case (SEMA_UP s)
  then show ?thesis using r sema_up_result [of s k k'] by (simp add: advance_def wake_sel wake_lists)
next
  case (LOCK_TRY_ACQUIRE l)
  then have "lock_try_acquire l k = Inr k'" using r by simp
  then show ?thesis by (cases rule: try_acquire_result) (auto intro: advance_same simp: push_def set_sema_def)
next
  case (COND_WAIT c l)
  then obtain k1 gs where "k' = push gs k1" "minor (enlist c (cur k) k) k1"
    using r cond_wait_pushes [of c l k k' 0] by auto
  then show ?thesis by (auto simp: minor_def same_view_def push_def enlist_def sema_init_def set_sema_def intro: advance_same)
next
  case (CREATE_DONE t b)
  then show ?thesis using r create_done_result [of t b k k'] by (simp add: advance_def)
next
  case THREAD_YIELD
  then show ?thesis using r by (simp add: advance_yield)
next
  case THREAD_EXIT
  then show ?thesis
    using r by (auto simp: thread_exit_def Let_def intr_disable_def res_simps set_status_def elim!: advance_schedule)
next
  case (IDLE_START s)
  then obtain t where "sema_up s (push [IDLE_LOOP] (k\<lparr>idle_thread := t\<rparr>)) = Inr k'"
    using r by (auto simp: idle_start_def res_simps)
  from sema_up_result [OF this] show ?thesis by (simp add: advance_def wake_sel wake_lists push_def)
next
  case IDLE_LOOP
  then show ?thesis
    using r by (auto simp: idle_loop_def thread_block_def intr_disable_def res_simps push_def set_status_def
        elim!: advance_schedule)
qed (use r in \<open>auto intro!: advance_same simp: sema_down_def sema_try_down_def lock_acquire_def set_holder_def
      lock_release_def cond_timed_wait_def timed_wait_done_def cond_signal_def signal_timed_def cond_broadcast_def
      cond_wait_intr_def cond_timed_wait_intr_def timed_wait_intr_done_def cond_signal_intr_def thread_start_def
      thread_create_def init_thread_def alloc_tid_def idle_hlt_def enlist_def sema_init_def set_sema_def
      set_remaining_def push_def intr_enable_def intr_disable_def Let_def res_simps
      split: if_splits list.splits dest!: intr_set_level_Inr\<close>)

lemma advance_ext:
  assumes "intr_handler_ext handler k = Inr k'" "\<And>k k'. handler k = Inr k' \<Longrightarrow> wakes k k'"
  shows "advance k k'"
proof -
  obtain k2 where k2: "wakes (entry k) k2"
    and k': "k' = k2\<lparr>in_external_intr := False\<rparr> \<or> thread_yield (k2\<lparr>in_external_intr := False\<rparr>) = Inr k'"
    using intr_handler_ext_cases [OF assms] .
  obtain ys where "cur k2 = cur k" "ready_list k2 = ready_list k @ ys"
    using advance_wakes [OF k2] by (auto simp: entry_def push_def intr_disable_def)
  then show ?thesis
    using k' advance_yield [of "k2\<lparr>in_external_intr := False\<rparr>" k'] by (auto simp: advance_def)
qed

lemma advance_kstep: "kstep k k' \<Longrightarrow> advance k k'"
proof (induction rule: kstep.induct)
  case (frame k f fs k')
  then show ?case using advance_run [OF frame(3)] by (simp add: advance_def set_todo_def)
next
  case (timer k k')
  then show ?case using advance_ext wakes_thread_tick by blast
next
  case (device k n k')
  then show ?case using advance_ext wakes_sema_up [of "SEMA n"] by blast
qed (auto intro: advance_run advance_same simp: set_todo_def)

lemma advance_position:
  assumes "advance k k'" "p < length (ready_list k)" "ready_list k ! p = t"
  shows "cur k' = t \<or> (\<exists>q \<le> p. q < length (ready_list k') \<and> ready_list k' ! q = t \<and> (cur k' \<noteq> cur k \<longrightarrow> q < p))"
  using assms(1) unfolding advance_def
proof (elim disjE conjE exE)
  fix ys assume c: "ready_list k @ ys = cur k' # ready_list k'"
  show ?thesis
  proof (cases p)
    case 0
    have "(ready_list k @ ys) ! 0 = t" using assms(2,3) 0 by (simp add: nth_append)
    then show ?thesis by (simp add: c)
  next
    case (Suc q)
    have "(ready_list k @ ys) ! p = t" using assms(2,3) by (simp add: nth_append)
    moreover have "p < length (ready_list k @ ys)" using assms(2) by simp
    ultimately have "q < length (ready_list k') \<and> ready_list k' ! q = t" unfolding c using Suc by simp
    then show ?thesis using Suc by (intro disjI2 exI [of _ q]) simp
  qed
qed (use assms(2,3) in \<open>auto simp: nth_append intro!: exI [of _ p]\<close>)

text \<open>The number of times another thread takes over in a run.\<close>

fun switches :: "kernel list \<Rightarrow> nat" where
  "switches (k # k' # ks) = (if cur k' = cur k then 0 else 1) + switches (k' # ks)"
| "switches ks = 0"

lemma queue_served:
  assumes "successively kstep (k # ks)" "p < length (ready_list k)" "ready_list k ! p = t" "p < switches (k # ks)"
  shows "\<exists>k' \<in> set ks. cur k' = t"
  using assms
proof (induction ks arbitrary: k p)
  case (Cons k' ks)
  have "kstep k k'" "successively kstep (k' # ks)" using Cons.prems(1) by simp_all
  from advance_position [OF advance_kstep [OF this(1)] Cons.prems(2,3)]
  show ?case
  proof (elim disjE exE conjE)
    fix q assume q: "q \<le> p" "q < length (ready_list k')" "ready_list k' ! q = t" "cur k' \<noteq> cur k \<longrightarrow> q < p"
    have "q < switches (k' # ks)" using Cons.prems(4) q(1,4) by (auto split: if_splits)
    then show ?case using Cons.IH [OF _ q(2,3)] \<open>successively kstep (k' # ks)\<close> by auto
  qed simp
qed simp

subsection \<open>Preemption\<close>

lemma sema_up_total:
  assumes "base_inv k r" "\<not> level k"
  shows "sema_up s k = Inr (wake s k)"
proof (cases "wtrs k s")
  case Nil
  then show ?thesis
    using assms(2) by (simp add: sema_up_def Let_def intr_disable_def intr_set_level_def set_sema_def wake_def)
next
  case (Cons t ts)
  have t: "status k t = THREAD_BLOCKED" "is_thread k t"
    using waiters_okD [of k t s] assms(1) Cons by (auto simp: base_inv_def threads_ok_def)
  then show ?thesis
    using assms(2) Cons
    by (simp add: sema_up_def thread_unblock_def is_thread_def Let_def intr_disable_def intr_set_level_def set_sema_def
        set_status_def wake_def)
qed

lemma wake_ticks: "thread_ticks (wake s k) = thread_ticks k"
  by (simp add: wake_def set_sema_def set_status_def split: list.splits)

lemma timed_tick_total:
  assumes "base_inv k r" "\<not> level k" "t \<in> set (timed_semaphores k)"
  shows "\<exists>k'. timed_tick t k = Inr k' \<and> set (timed_semaphores k) - {t} \<subseteq> set (timed_semaphores k')
    \<and> thread_ticks k' = thread_ticks k"
proof (cases "remaining k t > tick_nanoseconds")
  case False
  let ?k = "(set_remaining t 0 k)\<lparr>timed_semaphores := remove1 t (timed_semaphores k)\<rparr>"
  have "base_inv ?k r"
    by (rule base_inv_view [OF _ assms(1)]) (simp add: same_view_def set_remaining_def is_thread_def)
  then have "sema_up (WAITER t) ?k = Inr (wake (WAITER t) ?k)"
    using assms(2) by (intro sema_up_total) (auto simp: set_remaining_def)
  then show ?thesis
    using False assms(3) by (auto simp: timed_tick_def unlink_def res_simps wake_sel wake_ticks set_remaining_def
        intro: in_set_remove1 [THEN iffD2])
qed (simp add: timed_tick_def set_remaining_def)

lemma timed_ticks_total:
  assumes "base_inv k r" "\<not> level k" "distinct ts" "set ts \<subseteq> set (timed_semaphores k)"
  shows "\<exists>k'. rfold timed_tick ts k = Inr k' \<and> thread_ticks k' = thread_ticks k \<and> wakes k k'"
  using assms
proof (induction ts arbitrary: k)
  case (Cons t ts)
  obtain k1 where k1: "timed_tick t k = Inr k1" "set (timed_semaphores k) - {t} \<subseteq> set (timed_semaphores k1)"
      "thread_ticks k1 = thread_ticks k"
    using timed_tick_total [OF Cons.prems(1,2), of t] Cons.prems(4) by auto
  note w = wakes_timed_tick [OF k1(1)]
  have "set ts \<subseteq> set (timed_semaphores k1)" using Cons.prems(3,4) k1(2) by auto
  then obtain k2 where "rfold timed_tick ts k1 = Inr k2" "thread_ticks k2 = thread_ticks k1" "wakes k1 k2"
    using Cons.IH [OF wakes_base [OF w Cons.prems(1)]] Cons.prems(2,3) wakes_sel [OF w] by auto
  then show ?case using k1(1,3) wakes.trans [OF w] by auto
qed (simp add: wakes_refl)

lemma thread_tick_total:
  assumes "base_inv k r" "\<not> level k" "in_external_intr k" "distinct (timed_semaphores k)"
  shows "\<exists>k'. thread_tick k = Inr k'
    \<and> (TIME_SLICE \<le> thread_ticks k + 1 \<longrightarrow> yield_on_return k')"
proof -
  let ?k = "k\<lparr>monitor_ticks := monitor_ticks k + 1\<rparr>"
  have b: "base_inv ?k r" by (rule base_inv_view [OF _ assms(1)]) (simp add: same_view_def is_thread_def)
  obtain k1 where k1: "rfold timed_tick (timed_semaphores k) ?k = Inr k1" "thread_ticks k1 = thread_ticks k" "wakes ?k k1"
    using timed_ticks_total [OF b _ assms(4)] assms(2) by auto
  have "in_external_intr k1" using wakes_sel [OF k1(3)] assms(3) by simp
  then show ?thesis
    using k1(1,2) by (auto simp: thread_tick_def timed_semaphores_tick_def Let_def intr_yield_on_return_def
        intr_context_def)
qed

lemma yield_total:
  assumes inv: "sched_inv k" and q: "ready_list k = t # ts"
  shows "\<exists>k'. thread_yield k = Inr k' \<and> cur k' = t \<and> thread_ticks k' = 0 \<and> status k' (cur k) = THREAD_READY
    \<and> ready_list k' = ts @ (if cur k = idle_thread k then [] else [cur k])"
proof -
  have c: "is_thread k (cur k)" "status k (cur k) = THREAD_RUNNING" "\<not> in_external_intr k"
    using inv by (auto simp: sched_inv_def base_inv_def threads_ok_def)
  have t: "is_thread k t" "status k t = THREAD_READY"
    using inv q queue_okD [of k t] by (auto simp: sched_inv_def base_inv_def threads_ok_def)
  then have "t \<noteq> cur k" using c by auto
  then show ?thesis
    using c t q by (auto simp: thread_yield_def thread_current_def running_thread_def Let_def intr_context_def
        intr_disable_def push_def set_status_def schedule_def next_thread_to_run_def schedule_tail_def is_thread_def res_simps)
qed

lemma tick_preempts:
  assumes inv: "sched_inv k" and lv: "level k" and d: "distinct (timed_semaphores k)"
    and ticks: "TIME_SLICE \<le> thread_ticks k + 1" and q: "ready_list k = t # ts"
  shows "\<exists>k'. intr_handler_ext thread_tick k = Inr k' \<and> cur k' = t \<and> thread_ticks k' = 0
    \<and> status k' (cur k) = THREAD_READY \<and> (\<exists>us. ready_list k' = ts @ us \<and> (cur k \<noteq> idle_thread k \<longrightarrow> cur k \<in> set us))"
proof -
  obtain k2 where k2: "thread_tick (entry k) = Inr k2" "yield_on_return k2"
    using thread_tick_total [OF entry_inv [OF inv lv]] d ticks by (auto simp: entry_def push_def intr_disable_def)
  note w = wakes_thread_tick [OF k2(1)]
  let ?k3 = "k2\<lparr>in_external_intr := False\<rparr>"
  obtain ys where "ready_list k2 = ready_list k @ ys"
    using advance_wakes [OF w] by (auto simp: entry_def push_def intr_disable_def)
  then have "ready_list ?k3 = t # (ts @ ys)" using q by simp
  then obtain k' where k': "thread_yield ?k3 = Inr k'" "cur k' = t" "thread_ticks k' = 0"
      "status k' (cur k) = THREAD_READY" "ready_list k' = ts @ ys @ (if cur k = idle_thread k then [] else [cur k])"
    using yield_total [OF handled_inv [OF inv lv w]] handled_sel [OF w] by auto
  have "\<not> in_external_intr k" using inv by (simp add: sched_inv_def)
  then have "intr_handler_ext thread_tick k = Inr k'"
    using k2 k'(1) handled_sel(6,7) [OF w]
    by (simp add: intr_handler_ext_def Let_def entry_def intr_context_def push_def intr_disable_def)
  then show ?thesis using k'(2-) by auto
qed

subsection \<open>Three runs\<close>

text \<open>The events by which the code of a thread creates another one, and takes a lock.\<close>

definition create_events :: "nat \<Rightarrow> event list" where
  "create_events t = CALL (THREAD_CREATE ''worker'' PRI_DEFAULT CLIENT t) #
     [FRAME, FRAME, FRAME, FRAME, FRAME, FRAME, FRAME, FRAME]"

definition acquire_events :: "nat \<Rightarrow> event list" where
  "acquire_events l = [CALL (LOCK_ACQUIRE l), FRAME, FRAME, FRAME]"

definition release_events :: "nat \<Rightarrow> event list" where
  "release_events l = [CALL (LOCK_RELEASE l), FRAME]"

lemmas run_simps = boot_simps run_frames.simps create_events_def acquire_events_def release_events_def before_boot_def
  intr_handler_ext_def thread_tick_def timed_semaphores_tick_def timed_tick_def tick_nanoseconds_def
  unlink_def enlist_def set_remaining_def cond_timed_wait_def cond_signal_def signal_timed_def TIME_SLICE_def
  intr_yield_on_return_def thread_yield_def timed_wait_done_def

definition preempt_events :: "event list" where
  "preempt_events = create_events 3 @ [TIMER, FRAME, TIMER, FRAME, TIMER, FRAME]"

lemma time_slice_gt_1: "\<not> 4 \<le> (1 :: u32)"
  by (simp add: word_le_nat_alt)

lemma preempt_run:
  "\<exists>k. rbind (boot 1 2 (\<lambda>n. 0)) (rfold happen preempt_events) = Inr k \<and> level k
     \<and> timed_semaphores k = [] \<and> thread_ticks k = 3 \<and> cur k = 1 \<and> ready_list k = [3] \<and> idle_thread k = 2"
  by (simp add: boot_result preempt_events_def run_simps time_slice_gt_1)

text \<open>
  The initial thread 1 creates thread 3 and lets it run.  Thread 3 takes lock 1 and waits
  on condition 0 for one tick.  Thread 1 takes the lock; the tick times the waiter out and
  makes it ready; then thread 1 signals the condition, gives up the lock and yields.
  Thread 3 runs until it has the lock again.
\<close>

definition race_events :: "event list" where
  "race_events = create_events 3 @ [CALL THREAD_YIELD, FRAME] @ acquire_events 1
     @ [CALL (COND_TIMED_WAIT 0 1 10000000), FRAME, FRAME, FRAME, FRAME, FRAME]
     @ acquire_events 1 @ [TIMER, FRAME, CALL (COND_SIGNAL 0 1), FRAME, FRAME]
     @ release_events 1 @ [CALL THREAD_YIELD, FRAME, FRAME, FRAME, FRAME, FRAME]"

lemma race_run:
  "\<exists>k. rbind (boot 1 2 (\<lambda>n. 0)) (rfold happen race_events) = Inr k
     \<and> cur k = 3 \<and> todo k 3 = [TIMED_WAIT_DONE 0 True, BODY, THREAD_EXIT] \<and> remaining k 3 = 0 \<and> cond_waiters k 0 = []
     \<and> lock_holder k 1 = 3"
  by (simp add: boot_result race_events_def run_simps tid_lock_def time_slice_gt_1)

lemma run_reachable:
  "m \<noteq> 0 \<Longrightarrow> i \<noteq> 0 \<Longrightarrow> m \<noteq> i \<Longrightarrow> rbind (boot m i v) (rfold happen es) = Inr k \<Longrightarrow> reachable k"
  by (auto simp: rbind_Inr intro: happen_reachable reachable.boot)

text \<open>Threads 3 and 4 sleep on semaphore 1; the initial thread raises it once.\<close>

definition wake_events :: "event list" where
  "wake_events = create_events 3 @ create_events 4
     @ [CALL THREAD_YIELD, FRAME, CALL (SEMA_DOWN (SEMA 1)), FRAME, FRAME, CALL (SEMA_DOWN (SEMA 1)), FRAME,
        FRAME, CALL (SEMA_UP (SEMA 1))]"

lemma wake_run:
  "\<exists>k. rbind (boot 1 2 (\<lambda>n. 0)) (rfold happen wake_events) = Inr k
     \<and> val k (SEMA 1) = 1 \<and> wtrs k (SEMA 1) = [4] \<and> ready_list k = [3]"
  by (simp add: boot_result wake_events_def run_simps)

subsection \<open>Properties\<close>



text \<open>A thread has the right to enter: it is recorded as the holder, or about to be, or about to raise the semaphore.\<close>

definition in_lock :: "nat \<Rightarrow> nat \<Rightarrow> kernel \<Rightarrow> bool" where
  "in_lock l t k \<longleftrightarrow> t \<noteq> 0 \<and> lock_holder k l = t \<or> 0 < tok l (todo k t)"

text \<open>
  C3. Mutual exclusion: in every state the kernel reaches, at most one thread is between
  the return of the semaphore of a lock in \<open>lock_acquire\<close> or \<open>lock_try_acquire\<close> and the
  raising of that semaphore in \<open>lock_release\<close>, however the threads and the interrupts
  are interleaved; and while there is one, the value of the semaphore is 0.
\<close>

theorem lock_mutual_exclusion:
  assumes "reachable k" "in_lock l t k" "in_lock l u k"
  shows "t = u \<and> val k (LOCK l) = 0"
proof -
  have st: "lock_state (val k (LOCK l)) (lock_holder k l) (\<lambda>t. tok l (todo k t))"
    using reachable_inv [OF assms(1)] by (simp add: kernel_inv_def lock_inv_def)
  have one: "val k (LOCK l) = 0 \<and> lock_holder k l = 0 \<and> (\<forall>w. w \<noteq> v \<longrightarrow> tok l (todo k w) = 0)"
    if "0 < tok l (todo k v)" for v
    using lock_state_right [OF st, of v] that by auto
  have uniq: "w = v" if "0 < tok l (todo k v)" "in_lock l w k" for v w
  proof (rule ccontr)
    assume "w \<noteq> v"
    then have "tok l (todo k w) = 0" "lock_holder k l = 0" using one [OF that(1)] by blast+
    then show False using that(2) by (auto simp: in_lock_def)
  qed
  consider "0 < tok l (todo k t)" | "0 < tok l (todo k u)" | "lock_holder k l = t" "lock_holder k l = u" "t \<noteq> 0"
    using assms(2,3) unfolding in_lock_def by blast
  then show ?thesis
  proof cases
    case 1
    then show ?thesis using uniq [OF 1 assms(3)] one [OF 1] by simp
  next
    case 2
    then show ?thesis using uniq [OF 2 assms(2)] one [OF 2] by simp
  next
    case 3
    then show ?thesis using st unfolding lock_state_def by argo
  qed
qed

theorem lock_mutual_exclusion_witness:
  "\<exists>k. rbind (boot 1 2 (\<lambda>n. 0)) (rfold happen race_events) = Inr k \<and> in_lock 1 3 k \<and> val k (LOCK 1) = 0"
proof -
  obtain k where k: "rbind (boot 1 2 (\<lambda>n. 0)) (rfold happen race_events) = Inr k" "lock_holder k 1 = 3"
    using race_run by blast
  have "reachable k" by (rule run_reachable [OF _ _ _ k(1)]) simp_all
  moreover have "in_lock 1 3 k" using k(2) by (simp add: in_lock_def)
  ultimately show ?thesis using lock_mutual_exclusion [of k 1 3 3] k(1) by blast
qed

text \<open>
  C4. No lost wake-up: in every state the kernel reaches, if threads sleep on a semaphore
  then there are at least as many threads that have been woken for it and are running or on
  the run queue as the semaphore has units; so no unit stays available while all the threads
  that want one sleep.
\<close>

theorem no_lost_wakeup:
  assumes "reachable k" "wtrs k s \<noteq> []"
  shows "\<exists>T \<subseteq> set (cur k # ready_list k). unat (val k s) \<le> card T
    \<and> (\<forall>t. t \<in> T \<longrightarrow> waits_on k s t \<and> t \<notin> set (wtrs k s))"
proof (intro exI conjI allI impI)
  have inv: "kernel_inv k" by (rule reachable_inv [OF assms(1)])
  then have b: "base_inv k (Some (cur k))" by (simp add: kernel_inv_def sched_inv_def)
  note p = base_invD [OF b]
  show "woken k s \<subseteq> set (cur k # ready_list k)"
  proof
    fix t assume "t \<in> woken k s"
    then have t: "t \<in> set (all_list k)" "waits_on k s t" "t \<notin> set (wtrs k s)" by (simp_all add: woken_def)
    have "t \<notin> set (wtrs k s')" for s'
      using t(2,3) waiters_okD [OF p(3), of t s'] by (cases "s' = s") (auto simp: waits_on_def)
    then have "status k t \<noteq> THREAD_BLOCKED"
      using p(4) t(1,2) idle_not_waiting [OF p(5) t(2)] by (auto simp: blocked_ok_def waits_on_def)
    then have "status k t = THREAD_RUNNING \<or> status k t = THREAD_READY"
      using p(1) t(1) by (cases "status k t") (auto simp: threads_ok_def)
    then show "t \<in> set (cur k # ready_list k)"
      using p(1) t(1) queue_okD [OF p(2), of t] idle_not_waiting [OF p(5) t(2)] by (auto simp: threads_ok_def)
  qed
  show "unat (val k s) \<le> card (woken k s)" using inv assms(2) by (simp add: kernel_inv_def unit_inv_def)
qed (auto simp: woken_def)

theorem no_lost_wakeup_witness:
  "\<exists>k. rbind (boot 1 2 (\<lambda>n. 0)) (rfold happen wake_events) = Inr k \<and> wtrs k (SEMA 1) = [4]
     \<and> (\<exists>t. t \<in> set (cur k # ready_list k) \<and> waits_on k (SEMA 1) t)"
proof -
  obtain k where k: "rbind (boot 1 2 (\<lambda>n. 0)) (rfold happen wake_events) = Inr k"
      "val k (SEMA 1) = 1" "wtrs k (SEMA 1) = [4]"
    using wake_run by blast
  have r: "reachable k" by (rule run_reachable [OF _ _ _ k(1)]) simp_all
  obtain T where T: "T \<subseteq> set (cur k # ready_list k)" "1 \<le> card T" "\<And>t. t \<in> T \<Longrightarrow> waits_on k (SEMA 1) t"
    using no_lost_wakeup [OF r, of "SEMA 1"] k(2,3) by auto
  then obtain t where "t \<in> T" by (metis card.empty equals0I not_one_le_zero)
  then show ?thesis using T k by blast
qed

text \<open>
  C6. The scheduler is fair: in every run of the kernel, a thread at position \<open>p\<close> of the
  run queue gets the processor before other threads have taken over more than \<open>p\<close> times.
\<close>

theorem round_robin:
  assumes "successively kstep (k # ks)" "p < length (ready_list k)" "p < switches (k # ks)"
  shows "\<exists>k' \<in> set ks. cur k' = ready_list k ! p"
  using queue_served [OF assms(1,2) refl assms(3)] .

theorem round_robin_witness:
  "\<exists>k k'. rbind (boot 1 2 (\<lambda>n. 0)) (rfold happen preempt_events) = Inr k \<and> kstep k k' \<and> cur k' = 3"
proof -
  obtain k where k: "rbind (boot 1 2 (\<lambda>n. 0)) (rfold happen preempt_events) = Inr k" "level k"
      "timed_semaphores k = []" "thread_ticks k = 3" "cur k = 1" "ready_list k = [3]"
    using preempt_run by blast
  have "reachable k" by (rule run_reachable [OF _ _ _ k(1)]) simp_all
  then have "sched_inv k" using reachable_inv by (simp add: kernel_inv_def)
  then obtain k' where k': "intr_handler_ext thread_tick k = Inr k'" "cur k' = 3"
    using tick_preempts [of k 3 "[]"] k(2-) by (auto simp: TIME_SLICE_def)
  have s: "kstep k k'" using k(2) k'(1) by (rule kstep.timer)
  have "\<exists>x \<in> set [k']. cur x = ready_list k ! 0"
    by (rule round_robin) (simp_all add: s k k')
  then show ?thesis using k s by auto
qed

text \<open>
  C7. A thread cannot keep the processor: when the timer interrupts it with the time slice
  of four ticks used up and another thread ready, the handler completes, the first thread
  of the run queue takes over with a new time slice, and the interrupted thread is made
  ready and put behind the others.
\<close>

theorem timer_preempts:
  assumes "reachable k" "level k" "distinct (timed_semaphores k)" "TIME_SLICE \<le> thread_ticks k + 1"
    "ready_list k = t # ts"
  shows "\<exists>k'. intr_handler_ext thread_tick k = Inr k' \<and> cur k' = t \<and> thread_ticks k' = 0
    \<and> status k' (cur k) = THREAD_READY
    \<and> (\<exists>us. ready_list k' = ts @ us \<and> (cur k \<in> set us \<or> cur k = idle_thread k))"
proof -
  have "sched_inv k" using reachable_inv [OF assms(1)] by (simp add: kernel_inv_def)
  from tick_preempts [OF this assms(2-)] show ?thesis by blast
qed

theorem timer_preempts_witness:
  "\<exists>k k'. rbind (boot 1 2 (\<lambda>n. 0)) (rfold happen preempt_events) = Inr k
     \<and> intr_handler_ext thread_tick k = Inr k' \<and> cur k = 1 \<and> cur k' = 3"
proof -
  obtain k where k: "rbind (boot 1 2 (\<lambda>n. 0)) (rfold happen preempt_events) = Inr k" "level k"
      "timed_semaphores k = []" "thread_ticks k = 3" "cur k = 1" "ready_list k = [3]"
    using preempt_run by blast
  have "reachable k" by (rule run_reachable [OF _ _ _ k(1)]) simp_all
  from timer_preempts [OF this k(2) _ _ k(6)] k show ?thesis by (auto simp: TIME_SLICE_def)
qed


end
