(* ===== verification/Linked_List.thy ===== *)
theory Linked_List
  imports Prelude
begin

text \<open>
  \<^verbatim>\<open>lib/list.c\<close>: doubly linked lists with a head and a tail element.  The links of all
  list elements are two maps from addresses to addresses; the elements of a list live
  inside the structures that are on it, so an element is its address.  Every routine is
  modelled with its assertions and with its assignments in the order of the source, and
  is shown to refine an operation on the sequence of the elements.
\<close>

subsection \<open>Links\<close>

record links =
  l_prev :: "nat \<Rightarrow> nat"
  l_next :: "nat \<Rightarrow> nat"

definition set_prev :: "nat \<Rightarrow> nat \<Rightarrow> links \<Rightarrow> links" where
  "set_prev e v h = h\<lparr>l_prev := (l_prev h)(e := v)\<rparr>"

definition set_next :: "nat \<Rightarrow> nat \<Rightarrow> links \<Rightarrow> links" where
  "set_next e v h = h\<lparr>l_next := (l_next h)(e := v)\<rparr>"

text \<open>A \<open>struct list\<close> is its head followed by its tail, of eight bytes each.\<close>

definition head_of :: "nat \<Rightarrow> nat" where
  "head_of list = list"

definition tail_of :: "nat \<Rightarrow> nat" where
  "tail_of list = list + 8"

definition is_head :: "nat \<Rightarrow> links \<Rightarrow> bool" where
  "is_head elem h = (elem \<noteq> 0 \<and> l_prev h elem = 0 \<and> l_next h elem \<noteq> 0)"

definition is_interior :: "nat \<Rightarrow> links \<Rightarrow> bool" where
  "is_interior elem h = (elem \<noteq> 0 \<and> l_prev h elem \<noteq> 0 \<and> l_next h elem \<noteq> 0)"

definition is_tail :: "nat \<Rightarrow> links \<Rightarrow> bool" where
  "is_tail elem h = (elem \<noteq> 0 \<and> l_prev h elem \<noteq> 0 \<and> l_next h elem = 0)"

definition list_init :: "nat \<Rightarrow> links \<Rightarrow> links res" where
  "list_init list h =
     assert_then (list \<noteq> 0)
       (let h = set_prev (head_of list) 0 h;
            h = set_next (head_of list) (tail_of list) h;
            h = set_prev (tail_of list) (head_of list) h
        in Inr (set_next (tail_of list) 0 h))"

definition list_begin :: "nat \<Rightarrow> links \<Rightarrow> nat res" where
  "list_begin list h = assert_then (list \<noteq> 0) (Inr (l_next h (head_of list)))"

definition list_next :: "nat \<Rightarrow> links \<Rightarrow> nat res" where
  "list_next elem h = assert_then (is_head elem h \<or> is_interior elem h) (Inr (l_next h elem))"

definition list_end :: "nat \<Rightarrow> nat res" where
  "list_end list = assert_then (list \<noteq> 0) (Inr (tail_of list))"

definition list_rbegin :: "nat \<Rightarrow> links \<Rightarrow> nat res" where
  "list_rbegin list h = assert_then (list \<noteq> 0) (Inr (l_prev h (tail_of list)))"

definition list_prev :: "nat \<Rightarrow> links \<Rightarrow> nat res" where
  "list_prev elem h = assert_then (is_interior elem h \<or> is_tail elem h) (Inr (l_prev h elem))"

definition list_rend :: "nat \<Rightarrow> nat res" where
  "list_rend list = assert_then (list \<noteq> 0) (Inr (head_of list))"

definition list_head :: "nat \<Rightarrow> nat res" where
  "list_head list = assert_then (list \<noteq> 0) (Inr (head_of list))"

definition list_tail :: "nat \<Rightarrow> nat res" where
  "list_tail list = assert_then (list \<noteq> 0) (Inr (tail_of list))"

subsection \<open>Insertion and removal\<close>

definition list_insert :: "nat \<Rightarrow> nat \<Rightarrow> links \<Rightarrow> links res" where
  "list_insert before elem h =
     assert_then (is_interior before h \<or> is_tail before h)
       (assert_then (elem \<noteq> 0)
         (let h = set_prev elem (l_prev h before) h;
              h = set_next elem before h;
              h = set_next (l_prev h before) elem h
          in Inr (set_prev before elem h)))"

definition list_splice :: "nat \<Rightarrow> nat \<Rightarrow> nat \<Rightarrow> links \<Rightarrow> links res" where
  "list_splice before first last_e h =
     assert_then (is_interior before h \<or> is_tail before h)
       (if first = last_e then Inr h
        else rbind (list_prev last_e h) (\<lambda>last_e.
          assert_then (is_interior first h) (assert_then (is_interior last_e h)
            (let h = set_next (l_prev h first) (l_next h last_e) h;
                 h = set_prev (l_next h last_e) (l_prev h first) h;
                 h = set_prev first (l_prev h before) h;
                 h = set_next last_e before h;
                 h = set_next (l_prev h before) first h
             in Inr (set_prev before last_e h)))))"

definition list_push_front :: "nat \<Rightarrow> nat \<Rightarrow> links \<Rightarrow> links res" where
  "list_push_front list elem h = rbind (list_begin list h) (\<lambda>b. list_insert b elem h)"

definition list_push_back :: "nat \<Rightarrow> nat \<Rightarrow> links \<Rightarrow> links res" where
  "list_push_back list elem h = rbind (list_end list) (\<lambda>e. list_insert e elem h)"

definition list_remove :: "nat \<Rightarrow> links \<Rightarrow> (nat \<times> links) res" where
  "list_remove elem h =
     assert_then (is_interior elem h)
       (let h = set_next (l_prev h elem) (l_next h elem) h;
            h = set_prev (l_next h elem) (l_prev h elem) h
        in Inr (l_next h elem, h))"

definition list_empty :: "nat \<Rightarrow> links \<Rightarrow> bool res" where
  "list_empty list h = rbind (list_begin list h) (\<lambda>b. rbind (list_end list) (\<lambda>e. Inr (b = e)))"

definition list_front :: "nat \<Rightarrow> links \<Rightarrow> nat res" where
  "list_front list h =
     rbind (list_empty list h) (\<lambda>b. assert_then (\<not> b) (Inr (l_next h (head_of list))))"

definition list_back :: "nat \<Rightarrow> links \<Rightarrow> nat res" where
  "list_back list h =
     rbind (list_empty list h) (\<lambda>b. assert_then (\<not> b) (Inr (l_prev h (tail_of list))))"

definition list_pop_front :: "nat \<Rightarrow> links \<Rightarrow> (nat \<times> links) res" where
  "list_pop_front list h =
     rbind (list_front list h) (\<lambda>front.
       if front = 0 then Inl PANIC
       else rbind (list_remove front h) (\<lambda>(n, h). Inr (front, h)))"

definition list_pop_back :: "nat \<Rightarrow> links \<Rightarrow> (nat \<times> links) res" where
  "list_pop_back list h =
     rbind (list_back list h) (\<lambda>back. rbind (list_remove back h) (\<lambda>(n, h). Inr (back, h)))"

subsection \<open>Loops\<close>

text \<open>
  The loops follow links, so on links that do not form a list they need not end; each
  takes a bound on its number of rounds.  The comparison \<open>lt\<close> is the function pointer
  \<open>list_less_func\<close> with its auxiliary argument; it reads the structures the elements are
  part of, not the links.
\<close>

fun list_size_loop :: "nat \<Rightarrow> nat \<Rightarrow> nat \<Rightarrow> u32 \<Rightarrow> links \<Rightarrow> u32 res" where
  "list_size_loop 0 e end_e cnt h = Inl OUT_OF_FUEL"
| "list_size_loop (Suc n) e end_e cnt h =
     (if e \<noteq> end_e then rbind (list_next e h) (\<lambda>e. list_size_loop n e end_e (cnt + 1) h) else Inr cnt)"

definition list_size :: "nat \<Rightarrow> nat \<Rightarrow> links \<Rightarrow> u32 res" where
  "list_size n list h =
     rbind (list_begin list h) (\<lambda>e. rbind (list_end list) (\<lambda>end_e. list_size_loop n e end_e 0 h))"

fun is_sorted_loop :: "nat \<Rightarrow> nat \<Rightarrow> nat \<Rightarrow> (nat \<Rightarrow> nat \<Rightarrow> bool) \<Rightarrow> links \<Rightarrow> bool res" where
  "is_sorted_loop 0 a b lt h = Inl OUT_OF_FUEL"
| "is_sorted_loop (Suc n) a b lt h =
     rbind (list_next a h) (\<lambda>a.
       if a \<noteq> b
       then rbind (list_prev a h) (\<lambda>p. if lt a p then Inr False else is_sorted_loop n a b lt h)
       else Inr True)"

definition is_sorted :: "nat \<Rightarrow> nat \<Rightarrow> nat \<Rightarrow> (nat \<Rightarrow> nat \<Rightarrow> bool) \<Rightarrow> links \<Rightarrow> bool res" where
  "is_sorted n a b lt h = (if a \<noteq> b then is_sorted_loop n a b lt h else Inr True)"

fun find_end_of_run_loop :: "nat \<Rightarrow> nat \<Rightarrow> nat \<Rightarrow> (nat \<Rightarrow> nat \<Rightarrow> bool) \<Rightarrow> links \<Rightarrow> nat res" where
  "find_end_of_run_loop 0 a b lt h = Inl OUT_OF_FUEL"
| "find_end_of_run_loop (Suc n) a b lt h =
     rbind (list_next a h) (\<lambda>a.
       if a \<noteq> b
       then rbind (list_prev a h) (\<lambda>p. if \<not> lt a p then find_end_of_run_loop n a b lt h else Inr a)
       else Inr a)"

definition find_end_of_run :: "nat \<Rightarrow> nat \<Rightarrow> nat \<Rightarrow> (nat \<Rightarrow> nat \<Rightarrow> bool) \<Rightarrow> links \<Rightarrow> nat res" where
  "find_end_of_run n a b lt h =
     assert_then (a \<noteq> 0) (assert_then (b \<noteq> 0) (assert_then (a \<noteq> b) (find_end_of_run_loop n a b lt h)))"

fun inplace_merge_loop :: "nat \<Rightarrow> nat \<Rightarrow> nat \<Rightarrow> nat \<Rightarrow> (nat \<Rightarrow> nat \<Rightarrow> bool) \<Rightarrow> links \<Rightarrow> links res" where
  "inplace_merge_loop 0 a0 a1b0 b1 lt h = Inl OUT_OF_FUEL"
| "inplace_merge_loop (Suc n) a0 a1b0 b1 lt h =
     (if a0 \<noteq> a1b0 \<and> a1b0 \<noteq> b1
      then if \<not> lt a1b0 a0
           then rbind (list_next a0 h) (\<lambda>a0. inplace_merge_loop n a0 a1b0 b1 lt h)
           else rbind (list_next a1b0 h) (\<lambda>a1b0.
             rbind (list_prev a1b0 h) (\<lambda>p.
             rbind (list_splice a0 p a1b0 h) (\<lambda>h.
               inplace_merge_loop n a0 a1b0 b1 lt h)))
      else Inr h)"

definition inplace_merge :: "nat \<Rightarrow> nat \<Rightarrow> nat \<Rightarrow> nat \<Rightarrow> (nat \<Rightarrow> nat \<Rightarrow> bool) \<Rightarrow> links \<Rightarrow> links res" where
  "inplace_merge n a0 a1b0 b1 lt h =
     assert_then (a0 \<noteq> 0) (assert_then (a1b0 \<noteq> 0) (assert_then (b1 \<noteq> 0)
       (rbind (is_sorted n a0 a1b0 lt h) (\<lambda>s. assert_then s
         (rbind (is_sorted n a1b0 b1 lt h) (\<lambda>s. assert_then s
           (inplace_merge_loop n a0 a1b0 b1 lt h)))))))"

text \<open>One pass over the list; the result has the number of runs that the pass wrote.\<close>

fun list_sort_pass :: "nat \<Rightarrow> nat \<Rightarrow> nat \<Rightarrow> u32 \<Rightarrow> (nat \<Rightarrow> nat \<Rightarrow> bool) \<Rightarrow> links \<Rightarrow> (u32 \<times> links) res" where
  "list_sort_pass 0 a0 end_e cnt lt h = Inl OUT_OF_FUEL"
| "list_sort_pass (Suc n) a0 end_e cnt lt h =
     (if a0 \<noteq> end_e
      then rbind (find_end_of_run (Suc n) a0 end_e lt h) (\<lambda>a1b0.
        if a1b0 = end_e then Inr (cnt + 1, h)
        else rbind (find_end_of_run (Suc n) a1b0 end_e lt h) (\<lambda>b1.
          rbind (inplace_merge (Suc n) a0 a1b0 b1 lt h) (\<lambda>h.
            list_sort_pass n b1 end_e (cnt + 1) lt h)))
      else Inr (cnt, h))"

fun list_sort_loop :: "nat \<Rightarrow> nat \<Rightarrow> nat \<Rightarrow> (nat \<Rightarrow> nat \<Rightarrow> bool) \<Rightarrow> links \<Rightarrow> links res" where
  "list_sort_loop 0 n list lt h = Inl OUT_OF_FUEL"
| "list_sort_loop (Suc m) n list lt h =
     rbind (list_begin list h) (\<lambda>a0. rbind (list_end list) (\<lambda>end_e.
       rbind (list_sort_pass n a0 end_e 0 lt h) (\<lambda>(cnt, h).
         if cnt > 1 then list_sort_loop m n list lt h else Inr h)))"

definition list_sort :: "nat \<Rightarrow> nat \<Rightarrow> (nat \<Rightarrow> nat \<Rightarrow> bool) \<Rightarrow> links \<Rightarrow> links res" where
  "list_sort n list lt h =
     assert_then (list \<noteq> 0)
       (rbind (list_sort_loop n n list lt h) (\<lambda>h.
          rbind (list_begin list h) (\<lambda>b. rbind (list_end list) (\<lambda>e.
            rbind (is_sorted n b e lt h) (\<lambda>s. assert_then s (Inr h))))))"

fun insert_ordered_loop :: "nat \<Rightarrow> nat \<Rightarrow> nat \<Rightarrow> nat \<Rightarrow> (nat \<Rightarrow> nat \<Rightarrow> bool) \<Rightarrow> links \<Rightarrow> nat res" where
  "insert_ordered_loop 0 e end_e elem lt h = Inl OUT_OF_FUEL"
| "insert_ordered_loop (Suc n) e end_e elem lt h =
     (if e \<noteq> end_e
      then if lt elem e then Inr e else rbind (list_next e h) (\<lambda>e. insert_ordered_loop n e end_e elem lt h)
      else Inr e)"

definition list_insert_ordered :: "nat \<Rightarrow> nat \<Rightarrow> nat \<Rightarrow> (nat \<Rightarrow> nat \<Rightarrow> bool) \<Rightarrow> links \<Rightarrow> links res" where
  "list_insert_ordered n list elem lt h =
     assert_then (list \<noteq> 0) (assert_then (elem \<noteq> 0)
       (rbind (list_begin list h) (\<lambda>e. rbind (list_end list) (\<lambda>end_e.
          rbind (insert_ordered_loop n e end_e elem lt h) (\<lambda>e. list_insert e elem h)))))"

fun list_unique_loop ::
  "nat \<Rightarrow> nat \<Rightarrow> nat \<Rightarrow> nat \<Rightarrow> (nat \<Rightarrow> nat \<Rightarrow> bool) \<Rightarrow> links \<Rightarrow> links res" where
  "list_unique_loop 0 elem end_e duplicates lt h = Inl OUT_OF_FUEL"
| "list_unique_loop (Suc n) elem end_e duplicates lt h =
     rbind (list_next elem h) (\<lambda>nx.
       if nx \<noteq> end_e
       then if \<not> lt elem nx \<and> \<not> lt nx elem
            then rbind (list_remove nx h) (\<lambda>(r, h).
              rbind (if duplicates \<noteq> 0 then list_push_back duplicates nx h else Inr h) (\<lambda>h.
                list_unique_loop n elem end_e duplicates lt h))
            else list_unique_loop n nx end_e duplicates lt h
       else Inr h)"

definition list_unique :: "nat \<Rightarrow> nat \<Rightarrow> nat \<Rightarrow> (nat \<Rightarrow> nat \<Rightarrow> bool) \<Rightarrow> links \<Rightarrow> links res" where
  "list_unique n list duplicates lt h =
     assert_then (list \<noteq> 0)
       (rbind (list_empty list h) (\<lambda>b.
          if b then Inr h
          else rbind (list_begin list h) (\<lambda>elem. rbind (list_end list) (\<lambda>end_e.
            list_unique_loop n elem end_e duplicates lt h))))"

fun list_max_loop :: "nat \<Rightarrow> nat \<Rightarrow> nat \<Rightarrow> nat \<Rightarrow> (nat \<Rightarrow> nat \<Rightarrow> bool) \<Rightarrow> links \<Rightarrow> nat res" where
  "list_max_loop 0 mx e end_e lt h = Inl OUT_OF_FUEL"
| "list_max_loop (Suc n) mx e end_e lt h =
     (if e \<noteq> end_e
      then let mx = (if lt mx e then e else mx) in
        rbind (list_next e h) (\<lambda>e. list_max_loop n mx e end_e lt h)
      else Inr mx)"

definition list_max :: "nat \<Rightarrow> nat \<Rightarrow> (nat \<Rightarrow> nat \<Rightarrow> bool) \<Rightarrow> links \<Rightarrow> nat res" where
  "list_max n list lt h =
     rbind (list_begin list h) (\<lambda>mx. rbind (list_end list) (\<lambda>end_e.
       if mx \<noteq> end_e then rbind (list_next mx h) (\<lambda>e. list_max_loop n mx e end_e lt h) else Inr mx))"

fun list_min_loop :: "nat \<Rightarrow> nat \<Rightarrow> nat \<Rightarrow> nat \<Rightarrow> (nat \<Rightarrow> nat \<Rightarrow> bool) \<Rightarrow> links \<Rightarrow> nat res" where
  "list_min_loop 0 mn e end_e lt h = Inl OUT_OF_FUEL"
| "list_min_loop (Suc n) mn e end_e lt h =
     (if e \<noteq> end_e
      then let mn = (if lt e mn then e else mn) in
        rbind (list_next e h) (\<lambda>e. list_min_loop n mn e end_e lt h)
      else Inr mn)"

definition list_min :: "nat \<Rightarrow> nat \<Rightarrow> (nat \<Rightarrow> nat \<Rightarrow> bool) \<Rightarrow> links \<Rightarrow> nat res" where
  "list_min n list lt h =
     rbind (list_begin list h) (\<lambda>mn. rbind (list_end list) (\<lambda>end_e.
       if mn \<noteq> end_e then rbind (list_next mn h) (\<lambda>e. list_min_loop n mn e end_e lt h) else Inr mn))"

subsection \<open>Lists of elements\<close>

text \<open>Consecutive nodes are linked both ways.\<close>

definition seg :: "links \<Rightarrow> nat list \<Rightarrow> bool" where
  "seg h ns = successively (\<lambda>a b. l_next h a = b \<and> l_prev h b = a) ns"

definition nodes :: "nat \<Rightarrow> nat list \<Rightarrow> nat list" where
  "nodes list xs = head_of list # xs @ [tail_of list]"

definition list_at :: "links \<Rightarrow> nat \<Rightarrow> nat list \<Rightarrow> bool" where
  "list_at h list xs \<longleftrightarrow> distinct (nodes list xs) \<and> 0 \<notin> set (nodes list xs) \<and> seg h (nodes list xs)
     \<and> l_prev h (head_of list) = 0 \<and> l_next h (tail_of list) = 0"

text \<open>Links outside a set of nodes are unchanged.\<close>

definition same_links :: "nat set \<Rightarrow> links \<Rightarrow> links \<Rightarrow> bool" where
  "same_links A h h' \<longleftrightarrow> (\<forall>x. x \<notin> A \<longrightarrow> l_prev h' x = l_prev h x \<and> l_next h' x = l_next h x)"

lemmas link_simps = set_prev_def set_next_def

lemma seg_simps [simp]: "seg h []" "seg h [x]" "seg h (x # y # ns) \<longleftrightarrow> l_next h x = y \<and> l_prev h y = x \<and> seg h (y # ns)"
  by (auto simp: seg_def)

lemma seg_append:
  "as \<noteq> [] \<Longrightarrow> bs \<noteq> [] \<Longrightarrow>
   seg h (as @ bs) \<longleftrightarrow> seg h as \<and> seg h bs \<and> l_next h (last as) = hd bs \<and> l_prev h (hd bs) = last as"
  by (auto simp: seg_def successively_append_iff)

lemma seg_cong:
  assumes "\<And>x. x \<in> set (butlast ns) \<Longrightarrow> l_next h' x = l_next h x" "\<And>x. x \<in> set (tl ns) \<Longrightarrow> l_prev h' x = l_prev h x"
  shows "seg h' ns = seg h ns"
  using assms
proof (induction ns rule: induct_list012)
  case (3 x y ns)
  have "seg h' (y # ns) = seg h (y # ns)"
    using "3.prems" by (intro "3.IH"(2)) (auto split: if_splits)
  then show ?case using "3.prems" by auto
qed auto

lemma nodes_append: "nodes list (xs @ ys) = (head_of list # xs) @ (ys @ [tail_of list])"
  by (simp add: nodes_def)

lemma set_nodes: "set (nodes list xs) = {head_of list, tail_of list} \<union> set xs"
  by (auto simp: nodes_def)

lemma list_at_frame:
  assumes "list_at h list xs" "same_links A h h'" "A \<inter> set (nodes list xs) = {}"
  shows "list_at h' list xs"
proof -
  have e: "l_prev h' x = l_prev h x \<and> l_next h' x = l_next h x" if "x \<in> set (nodes list xs)" for x
    using assms(2,3) that by (auto simp: same_links_def)
  have "seg h' (nodes list xs) = seg h (nodes list xs)"
    using e by (intro seg_cong) (auto dest: in_set_butlastD simp: nodes_def)
  then show ?thesis using assms(1) e by (simp add: list_at_def set_nodes)
qed

lemma same_links_refl [simp]: "same_links A h h"
  by (simp add: same_links_def)

lemma same_links_trans: "same_links A h h' \<Longrightarrow> same_links A h' h'' \<Longrightarrow> same_links A h h''"
  by (simp add: same_links_def)

lemma same_links_mono: "same_links A h h' \<Longrightarrow> A \<subseteq> B \<Longrightarrow> same_links B h h'"
  by (auto simp: same_links_def)

text \<open>The nodes at a cut of the list.\<close>

lemma list_at_cut:
  assumes "list_at h list (as @ bs)"
  shows "l_next h (last (head_of list # as)) = hd (bs @ [tail_of list])"
    "l_prev h (hd (bs @ [tail_of list])) = last (head_of list # as)"
    "seg h (head_of list # as)" "seg h (bs @ [tail_of list])"
    "last (head_of list # as) \<noteq> 0" "hd (bs @ [tail_of list]) \<noteq> 0" "list \<noteq> 0"
proof -
  have n: "seg h ((head_of list # as) @ (bs @ [tail_of list]))" "0 \<notin> set (head_of list # as)" "0 \<notin> set (bs @ [tail_of list])"
    using assms by (auto simp: list_at_def nodes_append)
  show "l_next h (last (head_of list # as)) = hd (bs @ [tail_of list])"
    "l_prev h (hd (bs @ [tail_of list])) = last (head_of list # as)"
    "seg h (head_of list # as)" "seg h (bs @ [tail_of list])"
    using seg_append [of "head_of list # as" "bs @ [tail_of list]" h] n(1) by blast+
  show "last (head_of list # as) \<noteq> 0" "hd (bs @ [tail_of list]) \<noteq> 0"
    using n(2,3) by (metis last_in_set list.distinct(1), metis append_is_Nil_conv hd_in_set list.distinct(1))
  show "list \<noteq> 0" using n(2) by (simp add: head_of_def)
qed

lemma linked_kinds:
  "is_interior e h \<or> is_tail e h \<longleftrightarrow> e \<noteq> 0 \<and> l_prev h e \<noteq> 0"
  "is_head e h \<or> is_interior e h \<longleftrightarrow> e \<noteq> 0 \<and> l_next h e \<noteq> 0"
  by (auto simp: is_interior_def is_tail_def is_head_def)

lemma list_at_cut_is:
  assumes "list_at h list (as @ bs)"
  shows "is_interior (hd (bs @ [tail_of list])) h \<or> is_tail (hd (bs @ [tail_of list])) h"
    "is_head (last (head_of list # as)) h \<or> is_interior (last (head_of list # as)) h"
  unfolding linked_kinds using list_at_cut [OF assms] by presburger+

lemma list_at_interior:
  assumes "list_at h list (as @ x # bs)"
  shows "is_interior x h"
  using list_at_cut [of h list as "x # bs"] list_at_cut [of h list "as @ [x]" bs] assms
  by (simp add: is_interior_def)

lemma list_at_mem_interior: "list_at h list xs \<Longrightarrow> x \<in> set xs \<Longrightarrow> is_interior x h"
  by (metis list_at_interior split_list)

subsection \<open>Refinement of insertion and removal\<close>

lemma seg_keep:
  assumes "distinct ns" "\<And>x. x \<in> set ns \<Longrightarrow> x \<noteq> last ns \<Longrightarrow> l_next h' x = l_next h x"
    "\<And>x. x \<in> set ns \<Longrightarrow> x \<noteq> hd ns \<Longrightarrow> l_prev h' x = l_prev h x"
  shows "seg h' ns = seg h ns"
proof (cases "ns = []")
  case False
  have l: "last ns \<notin> set (butlast ns)"
    using assms(1) False by (metis append_butlast_last_id distinct_append disjoint_iff list.set_intros(1))
  have "hd ns \<notin> set (tl ns)" using assms(1) False by (metis distinct.simps(2) list.collapse)
  then show ?thesis
    using l assms(2,3) False by (intro seg_cong) (auto dest: in_set_butlastD list.set_sel(2))
qed simp

text \<open>Two pieces of a list are joined when the last node of one and the first of the other are linked.\<close>

lemma list_at_join:
  assumes d: "distinct (nodes list (as @ bs))" "0 \<notin> set (nodes list (as @ bs))"
    and s: "seg h (head_of list # as)" "seg h (bs @ [tail_of list])"
    and l: "l_next h (last (head_of list # as)) = hd (bs @ [tail_of list])"
      "l_prev h (hd (bs @ [tail_of list])) = last (head_of list # as)"
    and e: "l_prev h (head_of list) = 0" "l_next h (tail_of list) = 0"
  shows "list_at h list (as @ bs)"
proof -
  have "seg h ((head_of list # as) @ (bs @ [tail_of list]))"
    using s l by (subst seg_append) auto
  then show ?thesis using d e by (simp add: list_at_def nodes_append)
qed

lemma list_at_ends:
  assumes "list_at h list xs"
  shows "l_prev h (head_of list) = 0" "l_next h (tail_of list) = 0" "distinct xs" "0 \<notin> set xs"
    "head_of list \<notin> set xs" "tail_of list \<notin> set xs" "head_of list \<noteq> tail_of list" "list \<noteq> 0"
  using assms by (auto simp: list_at_def nodes_def head_of_def tail_of_def)

lemma hd_last_in:
  "hd (bs @ [t]) \<in> set bs \<union> {t}" "last (a # as) \<in> set as \<union> {a}"
  by (cases bs; simp) auto

lemma list_at_pieces:
  assumes "list_at h list (as @ bs)"
  shows "distinct (head_of list # as)" "distinct (bs @ [tail_of list])"
    "set (head_of list # as) \<inter> set (bs @ [tail_of list]) = {}"
    "set (nodes list (as @ bs)) = set (head_of list # as) \<union> set (bs @ [tail_of list])"
  using assms by (auto simp: list_at_def nodes_def)

lemma list_insert_spec:
  assumes l: "list_at h list (as @ bs)" and e: "e \<notin> set (nodes list (as @ bs))" "e \<noteq> 0"
  shows "\<exists>h'. list_insert (hd (bs @ [tail_of list])) e h = Inr h' \<and> list_at h' list (as @ e # bs)
    \<and> same_links (insert e (set (nodes list (as @ bs)))) h h'"
proof -
  define A B where "A = head_of list # as" and "B = bs @ [tail_of list]"
  define b p where "b = hd B" and "p = last A"
  note c = list_at_cut [OF l, folded A_def B_def, folded b_def p_def]
  note q = list_at_pieces [OF l, folded A_def B_def]
  note d = list_at_ends [OF l]
  have ne0: "A \<noteq> []" "B \<noteq> []" by (simp_all add: A_def B_def)
  then have b: "b \<in> set B" and p: "p \<in> set A" by (simp_all add: b_def p_def)
  have t: "tail_of list \<in> set B" "head_of list \<in> set A" by (simp_all add: A_def B_def)
  have ne: "b \<noteq> e" "p \<noteq> e" "b \<noteq> p" "b \<noteq> head_of list" "p \<noteq> tail_of list" "e \<notin> set A" "e \<notin> set B"
      "e \<noteq> head_of list" "e \<noteq> tail_of list"
    using b p q(3) t e(1) unfolding q(4) by auto
  define h' where "h' = set_prev b e (set_next p e (set_next e b (set_prev e p h)))"
  have "is_interior b h \<or> is_tail b h" using c(2,5,6) by (simp add: linked_kinds)
  then have r: "list_insert b e h = Inr h'"
    using e(2) c(2) ne(1) unfolding h'_def list_insert_def Let_def by (simp add: link_simps)
  have v: "l_next h' x = (if x = p then e else if x = e then b else l_next h x)"
    "l_prev h' x = (if x = b then e else if x = e then p else l_prev h x)" for x
    using ne by (auto simp: h'_def link_simps)
  have "list_at h' list ((as @ [e]) @ bs)"
  proof (rule list_at_join)
    show "distinct (nodes list ((as @ [e]) @ bs))" "0 \<notin> set (nodes list ((as @ [e]) @ bs))"
      using l e by (auto simp: list_at_def nodes_def)
    have "seg h' A = seg h A"
      using b ne q(3) by (intro seg_keep [OF q(1)]) (auto simp: v p_def)
    then have "seg h' (A @ [e])"
      using ne ne0 c(3) by (subst seg_append) (auto simp: v p_def [symmetric])
    then show "seg h' (head_of list # as @ [e])" by (simp add: A_def)
    have "seg h' B = seg h B"
      using p ne q(3) by (intro seg_keep [OF q(2)]) (auto simp: v b_def)
    then show "seg h' (bs @ [tail_of list])" using c(4) by (simp add: B_def)
  qed (use ne d in \<open>auto simp: v B_def [symmetric] b_def [symmetric]\<close>)
  moreover have "same_links (insert e (set (nodes list (as @ bs)))) h h'"
    using b p unfolding q(4) same_links_def v by auto
  ultimately show ?thesis using r by (simp add: b_def B_def)
qed

lemma list_remove_spec:
  assumes l: "list_at h list (as @ e # bs)"
  shows "\<exists>h'. list_remove e h = Inr (hd (bs @ [tail_of list]), h') \<and> list_at h' list (as @ bs)
    \<and> same_links (set (nodes list (as @ bs))) h h'"
proof -
  define A B where "A = head_of list # as" and "B = bs @ [tail_of list]"
  define n p where "n = hd B" and "p = last A"
  have l2: "list_at h list ((as @ [e]) @ bs)" using l by simp
  have ne0: "A \<noteq> []" "B \<noteq> []" by (simp_all add: A_def B_def)
  then have n: "n \<in> set B" and p: "p \<in> set A" by (simp_all add: n_def p_def)
  have t: "tail_of list \<in> set B" "head_of list \<in> set A" by (simp_all add: A_def B_def)
  have c1: "l_next h p = e" "l_prev h e = p" "seg h A" using list_at_cut [OF l] by (simp_all add: A_def p_def)
  have c2: "l_next h e = n" "l_prev h n = e" "seg h B"
    using list_at_cut(1,2,4) [OF l2] by (simp_all add: B_def n_def)
  have q: "distinct A" "distinct B" "set A \<inter> set B = {}" "e \<notin> set A" "e \<notin> set B" "0 \<notin> set A" "0 \<notin> set B"
    using l by (auto simp: list_at_def nodes_def A_def B_def)
  have ne: "n \<noteq> e" "p \<noteq> e" "n \<noteq> p" "n \<noteq> head_of list" "p \<noteq> tail_of list" "n \<noteq> 0" "p \<noteq> 0"
    using n p t q by auto
  define h' where "h' = set_prev n p (set_next p n h)"
  have v: "l_next h' x = (if x = p then n else l_next h x)" "l_prev h' x = (if x = n then p else l_prev h x)" for x
    by (auto simp: h'_def link_simps)
  have r: "list_remove e h = Inr (n, h')"
    using list_at_interior [OF l] c1 c2 ne unfolding h'_def list_remove_def Let_def by (simp add: link_simps)
  have "list_at h' list (as @ bs)"
  proof (rule list_at_join)
    show "distinct (nodes list (as @ bs))" "0 \<notin> set (nodes list (as @ bs))"
      using l by (auto simp: list_at_def nodes_def)
    have "seg h' A = seg h A" using n q(3) by (intro seg_keep [OF q(1)]) (auto simp: v p_def)
    then show "seg h' (head_of list # as)" using c1(3) by (simp add: A_def)
    have "seg h' B = seg h B" using p q(3) by (intro seg_keep [OF q(2)]) (auto simp: v n_def)
    then show "seg h' (bs @ [tail_of list])" using c2(3) by (simp add: B_def)
  qed (use ne list_at_ends [OF l] in \<open>auto simp: v A_def [symmetric] B_def [symmetric] n_def [symmetric] p_def [symmetric]\<close>)
  moreover have "same_links (set (nodes list (as @ bs))) h h'"
    using n p by (auto simp: same_links_def v nodes_append A_def [symmetric] B_def [symmetric])
  ultimately show ?thesis using r by (simp add: n_def B_def)
qed

text \<open>Moving a range of a list to an earlier place of the same list, as the sort does.\<close>

lemma list_splice_forward:
  assumes l: "list_at h list (as @ bs @ cs @ ds)" and bc: "bs \<noteq> []" "cs \<noteq> []"
  shows "\<exists>h'. list_splice (hd bs) (hd cs) (hd (ds @ [tail_of list])) h = Inr h' \<and> list_at h' list (as @ cs @ bs @ ds)
    \<and> same_links (set (nodes list (as @ bs @ cs @ ds))) h h'"
proof -
  define A D where "A = head_of list # as" and "D = ds @ [tail_of list]"
  define p b lb f lc d where "p = last A" and "b = hd bs" and "lb = last bs" and "f = hd cs" and "lc = last cs" and "d = hd D"
  note defs = p_def b_def lb_def f_def lc_def d_def
  have ne0: "A \<noteq> []" "D \<noteq> []" by (simp_all add: A_def D_def)
  have mem: "p \<in> set A" "b \<in> set bs" "lb \<in> set bs" "f \<in> set cs" "lc \<in> set cs" "d \<in> set D"
    using ne0 bc by (simp_all add: defs)
  have nd: "nodes list (as @ bs @ cs @ ds) = A @ bs @ cs @ D" "nodes list (as @ cs @ bs @ ds) = A @ cs @ bs @ D"
    by (simp_all add: nodes_def A_def D_def)
  have sg: "seg h A" "seg h bs" "seg h cs" "seg h D" "l_next h p = b" "l_prev h b = p" "l_next h lb = f" "l_prev h f = lb"
      "l_next h lc = d" "l_prev h d = lc"
    using l bc ne0 unfolding list_at_def nd by (simp_all add: seg_append defs)
  have q: "distinct A" "distinct bs" "distinct cs" "distinct D" "set A \<inter> set bs = {}" "set A \<inter> set cs = {}" "set A \<inter> set D = {}"
      "set bs \<inter> set cs = {}" "set bs \<inter> set D = {}" "set cs \<inter> set D = {}"
      "0 \<notin> set A" "0 \<notin> set bs" "0 \<notin> set cs" "0 \<notin> set D"
    using l unfolding list_at_def nd by auto
  have nz: "p \<noteq> 0" "b \<noteq> 0" "lb \<noteq> 0" "f \<noteq> 0" "lc \<noteq> 0" "d \<noteq> 0" using mem q(11-14) by metis+
  have ne: "p \<noteq> lb" "p \<noteq> lc" "lb \<noteq> lc" "b \<noteq> f" "b \<noteq> d" "f \<noteq> d" using mem q(5-10) by auto
  define h' where "h' = set_prev b lc (set_next p f (set_next lc b (set_prev f p (set_prev d lb (set_next lb d h)))))"
  have v: "l_next h' x = (if x = p then f else if x = lc then b else if x = lb then d else l_next h x)"
    "l_prev h' x = (if x = b then lc else if x = f then p else if x = d then lb else l_prev h x)" for x
    using ne by (auto simp: h'_def link_simps)
  have "is_interior f h" "is_interior lc h" using list_at_mem_interior [OF l] mem by simp_all
  moreover have "is_interior b h \<or> is_tail b h" "is_interior d h \<or> is_tail d h" using sg(6,10) nz by (simp_all add: linked_kinds)
  ultimately have r: "list_splice b f d h = Inr h'"
    using sg(5-) ne unfolding h'_def list_splice_def Let_def list_prev_def by (simp add: link_simps)
  have "seg h' A = seg h A" "seg h' bs = seg h bs" "seg h' cs = seg h cs" "seg h' D = seg h D"
    using mem q(5-10) by (intro seg_keep q; auto simp: v defs [symmetric])+
  then have "seg h' (A @ cs @ bs @ D)"
    using sg(1-4) bc ne0 ne by (simp add: seg_append v defs [symmetric])
  moreover have "head_of list \<in> set A" "tail_of list \<in> set D" by (simp_all add: A_def D_def)
  then have "l_prev h' (head_of list) = 0" "l_next h' (tail_of list) = 0"
    using mem q(5-10) list_at_ends [OF l] by (auto simp: v)
  ultimately have "list_at h' list (as @ cs @ bs @ ds)"
    using l unfolding list_at_def nd by auto
  moreover have "same_links (set (nodes list (as @ bs @ cs @ ds))) h h'"
    using mem unfolding nd by (auto simp: same_links_def v)
  ultimately show ?thesis using r by (simp add: b_def f_def d_def D_def)
qed

text \<open>Moving a range of one list into another.\<close>

lemma list_splice_across:
  assumes l: "list_at h list (as @ bs)" and l': "list_at h list' (cs @ fs @ ds)" and f: "fs \<noteq> []"
    and dj: "set (nodes list (as @ bs)) \<inter> set (nodes list' (cs @ fs @ ds)) = {}"
  shows "\<exists>h'. list_splice (hd (bs @ [tail_of list])) (hd fs) (hd (ds @ [tail_of list'])) h = Inr h'
    \<and> list_at h' list (as @ fs @ bs) \<and> list_at h' list' (cs @ ds)"
proof -
  define A B C D where "A = head_of list # as" and "B = bs @ [tail_of list]"
    and "C = head_of list' # cs" and "D = ds @ [tail_of list']"
  define p b lc f lf d where "p = last A" and "b = hd B" and "lc = last C" and "f = hd fs" and "lf = last fs" and "d = hd D"
  note defs = p_def b_def lc_def f_def lf_def d_def
  have ne0: "A \<noteq> []" "B \<noteq> []" "C \<noteq> []" "D \<noteq> []" by (simp_all add: A_def B_def C_def D_def)
  have mem: "p \<in> set A" "b \<in> set B" "lc \<in> set C" "f \<in> set fs" "lf \<in> set fs" "d \<in> set D"
    using ne0 f by (simp_all add: defs)
  have nd: "nodes list (as @ bs) = A @ B" "nodes list' (cs @ fs @ ds) = C @ fs @ D"
      "nodes list (as @ fs @ bs) = A @ fs @ B" "nodes list' (cs @ ds) = C @ D"
    by (simp_all add: nodes_def A_def B_def C_def D_def)
  have sg: "seg h A" "seg h B" "seg h C" "seg h fs" "seg h D" "l_next h p = b" "l_prev h b = p" "l_next h lc = f" "l_prev h f = lc"
      "l_next h lf = d" "l_prev h d = lf"
    using l l' f ne0 unfolding list_at_def nd by (simp_all add: seg_append defs)
  have q: "distinct A" "distinct B" "distinct C" "distinct fs" "distinct D" "set A \<inter> set B = {}" "set C \<inter> set fs = {}"
      "set C \<inter> set D = {}" "set fs \<inter> set D = {}" "(set A \<union> set B) \<inter> (set C \<union> set fs \<union> set D) = {}"
      "0 \<notin> set A" "0 \<notin> set B" "0 \<notin> set C" "0 \<notin> set fs" "0 \<notin> set D"
    using l l' dj unfolding list_at_def nd by auto
  have nz: "p \<noteq> 0" "b \<noteq> 0" "lf \<noteq> 0" "f \<noteq> 0" "lc \<noteq> 0" "d \<noteq> 0" using mem q(11-15) by metis+
  have ne: "p \<noteq> lc" "p \<noteq> lf" "lc \<noteq> lf" "b \<noteq> f" "b \<noteq> d" "f \<noteq> d" using mem q(6-10) by auto
  define h' where "h' = set_prev b lf (set_next p f (set_next lf b (set_prev f p (set_prev d lc (set_next lc d h)))))"
  have v: "l_next h' x = (if x = p then f else if x = lf then b else if x = lc then d else l_next h x)"
    "l_prev h' x = (if x = b then lf else if x = f then p else if x = d then lc else l_prev h x)" for x
    using ne by (auto simp: h'_def link_simps)
  have "is_interior f h" "is_interior lf h" using list_at_mem_interior [OF l'] mem by simp_all
  moreover have "is_interior b h \<or> is_tail b h" "is_interior d h \<or> is_tail d h" using sg(7,11) nz by (simp_all add: linked_kinds)
  ultimately have r: "list_splice b f d h = Inr h'"
    using sg(6-) ne unfolding h'_def list_splice_def Let_def list_prev_def by (simp add: link_simps)
  have "seg h' A = seg h A" "seg h' B = seg h B" "seg h' C = seg h C" "seg h' fs = seg h fs" "seg h' D = seg h D"
    using mem q(6-10) by (intro seg_keep q; auto simp: v defs [symmetric])+
  then have "seg h' (A @ fs @ B)" "seg h' (C @ D)"
    using sg(1-5) f ne0 ne by (simp_all add: seg_append v defs [symmetric])
  moreover have "head_of list \<in> set A" "tail_of list \<in> set B" "head_of list' \<in> set C" "tail_of list' \<in> set D"
    by (simp_all add: A_def B_def C_def D_def)
  then have "l_prev h' (head_of list) = 0" "l_next h' (tail_of list) = 0" "l_prev h' (head_of list') = 0" "l_next h' (tail_of list') = 0"
    using mem q(6-10) list_at_ends(1,2) [OF l] list_at_ends(1,2) [OF l'] by (auto simp: v)
  ultimately have "list_at h' list (as @ fs @ bs)" "list_at h' list' (cs @ ds)"
    using q unfolding list_at_def nd by auto
  then show ?thesis using r by (simp add: b_def f_def d_def D_def B_def)
qed

subsection \<open>Iteration\<close>

lemma list_at_walk:
  assumes "list_at h list (as @ bs)"
  shows "list_next (last (head_of list # as)) h = Inr (hd (bs @ [tail_of list]))"
    "list_prev (hd (bs @ [tail_of list])) h = Inr (last (head_of list # as))"
  using list_at_cut [OF assms] list_at_cut_is [OF assms] by (simp_all add: list_next_def list_prev_def)

lemma list_next_at: "list_at h list (as @ e # bs) \<Longrightarrow> list_next e h = Inr (hd (bs @ [tail_of list]))"
  using list_at_walk(1) [of h list "as @ [e]" bs] by simp

lemma list_prev_at: "list_at h list (as @ e # f # bs) \<Longrightarrow> list_prev f h = Inr e"
  using list_at_walk(2) [of h list "as @ [e]" "f # bs"] by simp

lemma list_begin_at: "list_at h list xs \<Longrightarrow> list_begin list h = Inr (hd (xs @ [tail_of list]))"
  using list_at_cut(1,7) [of h list "[]" xs] by (simp add: list_begin_def)

lemma list_rbegin_at: "list_at h list xs \<Longrightarrow> list_rbegin list h = Inr (last (head_of list # xs))"
  using list_at_cut(2,7) [of h list xs "[]"] by (simp add: list_rbegin_def)

lemma list_end_at: "list_at h list xs \<Longrightarrow> list_end list = Inr (tail_of list)"
  using list_at_ends(8) [of h list xs] by (simp add: list_end_def)

lemma hd_tail_iff:
  "list_at h list (as @ bs) \<Longrightarrow> hd (bs @ [tail_of list]) = tail_of list \<longleftrightarrow> bs = []"
  using list_at_ends(6) [of h list "as @ bs"] by (cases bs) auto

lemma list_empty_at: "list_at h list xs \<Longrightarrow> list_empty list h = Inr (xs = [])"
  using hd_tail_iff [of h list "[]" xs] by (simp add: list_empty_def list_begin_at list_end_at)

subsection \<open>Double-ended queues\<close>

lemma list_init_at:
  assumes "list \<noteq> 0"
  shows "\<exists>h'. list_init list h = Inr h' \<and> list_at h' list [] \<and> same_links {head_of list, tail_of list} h h'"
  using assms by (auto simp: list_init_def list_at_def nodes_def head_of_def tail_of_def link_simps same_links_def)

lemma list_push_back_at:
  assumes "list_at h list xs" "e \<notin> set (nodes list xs)" "e \<noteq> 0"
  shows "\<exists>h'. list_push_back list e h = Inr h' \<and> list_at h' list (xs @ [e]) \<and> same_links (insert e (set (nodes list xs))) h h'"
  using list_insert_spec [of h list xs "[]" e] assms by (simp add: list_push_back_def list_end_at)

lemma list_push_front_at:
  assumes "list_at h list xs" "e \<notin> set (nodes list xs)" "e \<noteq> 0"
  shows "\<exists>h'. list_push_front list e h = Inr h' \<and> list_at h' list (e # xs) \<and> same_links (insert e (set (nodes list xs))) h h'"
  using list_insert_spec [of h list "[]" xs e] assms by (simp add: list_push_front_def list_begin_at)

lemma list_front_at: "list_at h list (x # xs) \<Longrightarrow> list_front list h = Inr x"
  using list_at_cut(1) [of h list "[]" "x # xs"] by (simp add: list_front_def list_empty_at)

lemma list_back_at: "list_at h list (xs @ [x]) \<Longrightarrow> list_back list h = Inr x"
  using list_at_cut(2) [of h list "xs @ [x]" "[]"] by (simp add: list_back_def list_empty_at)

lemma list_pop_front_at:
  assumes "list_at h list (x # xs)"
  shows "\<exists>h'. list_pop_front list h = Inr (x, h') \<and> list_at h' list xs \<and> same_links (set (nodes list xs)) h h'"
proof -
  have "x \<noteq> 0" using list_at_ends(4) [OF assms] by auto
  then show ?thesis
    using list_remove_spec [of h list "[]" x xs] assms by (auto simp: list_pop_front_def list_front_at)
qed

lemma list_pop_back_at:
  assumes "list_at h list (xs @ [x])"
  shows "\<exists>h'. list_pop_back list h = Inr (x, h') \<and> list_at h' list xs \<and> same_links (set (nodes list xs)) h h'"
  using list_remove_spec [of h list xs x "[]"] assms by (auto simp: list_pop_back_def list_back_at)

lemma list_pop_front_empty: "list_at h list [] \<Longrightarrow> list_pop_front list h = Inl ASSERT_FAIL"
  by (simp add: list_pop_front_def list_front_def list_empty_at)

subsection \<open>Operations on sequences\<close>

text \<open>The operations on one list, what they do to the sequence of its elements, and what they do to the links.\<close>

datatype list_op = PushFront nat | PushBack nat | PopFront | PopBack | Remove nat | InsertBefore nat nat

fun seq_op :: "nat \<Rightarrow> list_op \<Rightarrow> nat list \<Rightarrow> nat list option" where
  "seq_op list (PushFront e) xs = (if e \<in> set (nodes list xs) \<or> e = 0 then None else Some (e # xs))"
| "seq_op list (PushBack e) xs = (if e \<in> set (nodes list xs) \<or> e = 0 then None else Some (xs @ [e]))"
| "seq_op list PopFront xs = (if xs = [] then None else Some (tl xs))"
| "seq_op list PopBack xs = (if xs = [] then None else Some (butlast xs))"
| "seq_op list (Remove e) xs = (if e \<in> set xs then Some (remove1 e xs) else None)"
| "seq_op list (InsertBefore b e) xs =
     (if e \<in> set (nodes list xs) \<or> e = 0 \<or> b \<notin> set xs then None
      else Some (takeWhile (\<lambda>x. x \<noteq> b) xs @ e # dropWhile (\<lambda>x. x \<noteq> b) xs))"

fun seq_ops :: "nat \<Rightarrow> list_op list \<Rightarrow> nat list \<Rightarrow> nat list option" where
  "seq_ops list [] xs = Some xs"
| "seq_ops list (p # ps) xs = (case seq_op list p xs of None \<Rightarrow> None | Some ys \<Rightarrow> seq_ops list ps ys)"

fun link_op :: "nat \<Rightarrow> list_op \<Rightarrow> links \<Rightarrow> links res" where
  "link_op list (PushFront e) h = list_push_front list e h"
| "link_op list (PushBack e) h = list_push_back list e h"
| "link_op list PopFront h = rbind (list_pop_front list h) (\<lambda>(x, h). Inr h)"
| "link_op list PopBack h = rbind (list_pop_back list h) (\<lambda>(x, h). Inr h)"
| "link_op list (Remove e) h = rbind (list_remove e h) (\<lambda>(x, h). Inr h)"
| "link_op list (InsertBefore b e) h = list_insert b e h"

text \<open>The elements an operation brings in.\<close>

fun op_elem :: "list_op \<Rightarrow> nat set" where
  "op_elem (PushFront e) = {e}"
| "op_elem (PushBack e) = {e}"
| "op_elem (InsertBefore b e) = {e}"
| "op_elem p = {}"

lemma link_op_refines:
  assumes l: "list_at h list xs" and p: "seq_op list p xs = Some ys"
  shows "\<exists>h'. link_op list p h = Inr h' \<and> list_at h' list ys
    \<and> same_links (set (nodes list xs) \<union> op_elem p) h h' \<and> set (nodes list ys) \<subseteq> set (nodes list xs) \<union> op_elem p"
proof -
  have fin: ?thesis if "link_op list p h = Inr h' \<and> list_at h' list ys \<and> same_links B h h'"
      "B \<subseteq> set (nodes list xs) \<union> op_elem p" "set ys \<subseteq> set xs \<union> op_elem p" for h' B
    using that same_links_mono [of B h h'] by (intro exI [of _ h']) (auto simp: set_nodes)
  show ?thesis
  proof (cases p)
    case (PushFront e)
    then have e: "e \<notin> set (nodes list xs)" "e \<noteq> 0" "ys = e # xs" using p by (auto split: if_splits)
    from list_push_front_at [OF l e(1,2)] obtain h' where
      "list_push_front list e h = Inr h' \<and> list_at h' list ys \<and> same_links (insert e (set (nodes list xs))) h h'"
      unfolding e(3) by blast
    then show ?thesis using PushFront e(3) by (intro fin) auto
  next
    case (PushBack e)
    then have e: "e \<notin> set (nodes list xs)" "e \<noteq> 0" "ys = xs @ [e]" using p by (auto split: if_splits)
    from list_push_back_at [OF l e(1,2)] obtain h' where
      "list_push_back list e h = Inr h' \<and> list_at h' list ys \<and> same_links (insert e (set (nodes list xs))) h h'"
      unfolding e(3) by blast
    then show ?thesis using PushBack e(3) by (intro fin) auto
  next
    case PopFront
    then obtain x where x: "xs = x # ys" using p by (cases xs) (auto split: if_splits)
    from list_pop_front_at [OF l [unfolded x]] obtain h' where
      "list_pop_front list h = Inr (x, h') \<and> list_at h' list ys \<and> same_links (set (nodes list ys)) h h'" by blast
    then show ?thesis using PopFront x by (intro fin) (auto simp: set_nodes)
  next
    case PopBack
    then obtain x where x: "xs = ys @ [x]" using p by (cases xs rule: rev_cases) (auto split: if_splits)
    from list_pop_back_at [OF l [unfolded x]] obtain h' where
      "list_pop_back list h = Inr (x, h') \<and> list_at h' list ys \<and> same_links (set (nodes list ys)) h h'" by blast
    then show ?thesis using PopBack x by (intro fin) (auto simp: set_nodes)
  next
    case (Remove e)
    then have "e \<in> set xs" using p by (auto split: if_splits)
    then obtain as bs where x: "xs = as @ e # bs" "e \<notin> set as" by (meson split_list_first)
    then have ys: "ys = as @ bs" using p Remove by (simp add: remove1_append)
    from list_remove_spec [OF l [unfolded x(1)]] obtain h' n where
      "list_remove e h = Inr (n, h') \<and> list_at h' list ys \<and> same_links (set (nodes list ys)) h h'"
      unfolding ys by blast
    then show ?thesis using Remove x ys by (intro fin) (auto simp: set_nodes)
  next
    case (InsertBefore b e)
    then have b: "b \<in> set xs" "e \<notin> set (nodes list xs)" "e \<noteq> 0" using p by (auto split: if_splits)
    then obtain as bs where x: "xs = as @ b # bs" "b \<notin> set as" by (meson split_list_first)
    have "takeWhile (\<lambda>x. x \<noteq> b) xs = as" "dropWhile (\<lambda>x. x \<noteq> b) xs = b # bs"
      unfolding x(1) using x(2) by (induction as) auto
    then have ys: "ys = as @ e # b # bs" using p InsertBefore b by simp
    from list_insert_spec [OF l [unfolded x(1)] b(2,3) [unfolded x(1)]] obtain h' where
      "list_insert b e h = Inr h' \<and> list_at h' list ys \<and> same_links (insert e (set (nodes list xs))) h h'"
      unfolding ys x(1) by auto
    then show ?thesis using InsertBefore x ys by (intro fin) auto
  qed
qed

lemma link_ops_refine:
  assumes "list_at h list xs" "seq_ops list ps xs = Some ys"
  shows "\<exists>h'. rfold (link_op list) ps h = Inr h' \<and> list_at h' list ys
    \<and> same_links (set (nodes list xs) \<union> \<Union> (op_elem ` set ps)) h h'"
  using assms
proof (induction ps arbitrary: h xs)
  case (Cons p ps)
  obtain zs where z: "seq_op list p xs = Some zs" "seq_ops list ps zs = Some ys"
    using Cons.prems(2) by (auto split: option.splits)
  obtain h1 where h1: "link_op list p h = Inr h1" "list_at h1 list zs" "same_links (set (nodes list xs) \<union> op_elem p) h h1"
      "set (nodes list zs) \<subseteq> set (nodes list xs) \<union> op_elem p"
    using link_op_refines [OF Cons.prems(1) z(1)] by blast
  obtain h2 where h2: "rfold (link_op list) ps h1 = Inr h2" "list_at h2 list ys"
      "same_links (set (nodes list zs) \<union> \<Union> (op_elem ` set ps)) h1 h2"
    using Cons.IH [OF h1(2) z(2)] by blast
  let ?A = "set (nodes list xs) \<union> \<Union> (op_elem ` set (p # ps))"
  have "same_links ?A h h1" by (rule same_links_mono [OF h1(3)]) auto
  moreover have "same_links ?A h1 h2" by (rule same_links_mono [OF h2(3)]) (use h1(4) in auto)
  ultimately have "same_links ?A h h2" by (rule same_links_trans)
  then show ?case using h1(1) h2(1,2) by simp
qed simp

interpretation linked: fifo "\<lambda>h. list_at h list" "\<lambda>x xs. x \<notin> set (nodes list xs) \<and> x \<noteq> 0"
  "list_push_back list" "list_pop_front list" for list
proof
  show "\<exists>h'. list_push_back list x h = Inr h' \<and> list_at h' list (xs @ [x])"
    if "list_at h list xs" "x \<notin> set (nodes list xs) \<and> x \<noteq> 0" for h xs x
    using list_push_back_at [of h list xs x] that by blast
  show "\<exists>h'. list_pop_front list h = Inr (x, h') \<and> list_at h' list xs" if "list_at h list (x # xs)" for h x xs
    using list_pop_front_at [OF that] by blast
qed

text \<open>
  C23. The linked list refines a sequence: any series of insertions at the front, at the back
  or before an element and of removals at the front, at the back or of an element, each
  allowed on the sequence, passes all assertions of the code and leaves the links of the
  list that represents the resulting sequence; a list that shares no element with it is
  unchanged.
\<close>

theorem linked_list_refines:
  assumes "list_at h list xs" "seq_ops list ps xs = Some ys"
    and "list_at h list' zs" "set (nodes list' zs) \<inter> (set (nodes list xs) \<union> \<Union> (op_elem ` set ps)) = {}"
  shows "\<exists>h'. rfold (link_op list) ps h = Inr h' \<and> list_at h' list ys \<and> list_at h' list' zs"
  using link_ops_refine [OF assms(1,2)] list_at_frame [OF assms(3)] assms(4) by blast

definition two_lists :: "links res" where
  "two_lists = rbind (list_init 100 \<lparr>l_prev = (\<lambda>x. 0), l_next = (\<lambda>x. 0)\<rparr>) (\<lambda>h. rbind (list_init 200 h) (list_push_back 200 7))"

lemma two_lists_at: "\<exists>h. two_lists = Inr h \<and> list_at h 100 [] \<and> list_at h 200 [7]"
  by (simp add: two_lists_def list_init_def list_push_back_def list_end_def list_insert_def is_interior_def is_tail_def
      list_at_def nodes_def head_of_def tail_of_def link_simps)

theorem linked_list_refines_witness:
  "\<exists>h h'. two_lists = Inr h \<and> rfold (link_op 100) [PushBack 1, PushBack 2, InsertBefore 2 3, PopFront] h = Inr h'
     \<and> list_at h' 100 [3, 2] \<and> list_at h' 200 [7]"
proof -
  obtain h where h: "two_lists = Inr h" "list_at h 100 []" "list_at h 200 [7]" using two_lists_at by blast
  have "seq_ops 100 [PushBack 1, PushBack 2, InsertBefore 2 3, PopFront] [] = Some [3, 2]"
    by (simp add: nodes_def head_of_def tail_of_def)
  from linked_list_refines [OF h(2) this h(3)] h(1) show ?thesis
    by (auto simp: nodes_def head_of_def tail_of_def)
qed

end
