(* ===== verification/List_Sort.thy ===== *)
theory List_Sort
  imports Linked_List
begin

text \<open>
  The ordered routines of \<^verbatim>\<open>lib/list.c\<close>: the natural merge sort that relinks the
  elements in place, insertion in order, removal of duplicates, and maximum and minimum,
  each shown to end and to do on the links what a function does on sequences.
\<close>

subsection \<open>Order\<close>

definition asc :: "('a \<Rightarrow> 'a \<Rightarrow> bool) \<Rightarrow> 'a list \<Rightarrow> bool" where
  "asc lt xs = successively (\<lambda>a b. \<not> lt b a) xs"

lemma asc_simps [simp]: "asc lt []" "asc lt [x]" "asc lt (x # y # xs) \<longleftrightarrow> \<not> lt y x \<and> asc lt (y # xs)"
  by (auto simp: asc_def)

lemma asc_sorted: "weak_order lt \<Longrightarrow> asc lt xs \<longleftrightarrow> sorted_wrt (\<lambda>a b. \<not> lt b a) xs"
proof (induction xs rule: induct_list012)
  case (3 x y zs)
  have "\<not> lt z x" if "\<not> lt y x" "\<not> lt z y" for z using weak_orderD(2) [OF "3.prems"] that by blast
  then show ?case using 3 by auto
qed auto

subsection \<open>Runs\<close>

fun runs :: "('a \<Rightarrow> 'a \<Rightarrow> bool) \<Rightarrow> 'a list \<Rightarrow> 'a list list" where
  "runs lt [] = []"
| "runs lt [x] = [[x]]"
| "runs lt (x # y # zs) =
     (if lt y x then [x] # runs lt (y # zs)
      else case runs lt (y # zs) of [] \<Rightarrow> [[x]] | r # rs \<Rightarrow> (x # r) # rs)"

lemma runs_Cons: "\<exists>r rs. runs lt (x # xs) = (x # r) # rs"
proof (induction xs arbitrary: x)
  case (Cons y ys)
  obtain r rs where "runs lt (y # ys) = (y # r) # rs" using Cons by blast
  then show ?case by simp
qed simp

lemma concat_runs [simp]: "concat (runs lt xs) = xs"
proof (induction xs rule: induct_list012)
  case (3 x y zs)
  obtain r rs where "runs lt (y # zs) = (y # r) # rs" using runs_Cons [of lt y zs] by blast
  then show ?case using "3.IH"(2) by simp
qed auto

lemma runs_asc: "r \<in> set (runs lt xs) \<Longrightarrow> asc lt r \<and> r \<noteq> []"
proof (induction xs arbitrary: r rule: induct_list012)
  case (3 x y zs)
  obtain q rs where q: "runs lt (y # zs) = (y # q) # rs" using runs_Cons [of lt y zs] by blast
  have "asc lt r \<and> r \<noteq> []" if "r \<in> set ((y # q) # rs)" for r using "3.IH"(2) q that by metis
  then show ?case using "3.prems" q by (auto split: if_splits)
qed auto

lemma runs_tl: "runs lt xs = r # rs \<Longrightarrow> runs lt (concat rs) = rs"
proof (induction xs arbitrary: r rs rule: induct_list012)
  case (3 x y zs)
  obtain q qs where q: "runs lt (y # zs) = (y # q) # qs" using runs_Cons [of lt y zs] by blast
  have c: "concat ((y # q) # qs) = y # zs" using concat_runs [of lt "y # zs"] q by simp
  show ?case
  proof (cases "lt y x")
    case True
    then have "rs = (y # q) # qs" using "3.prems" q by simp
    then show ?thesis using q c by simp
  next
    case False
    then have "rs = qs" using "3.prems" q by simp
    then show ?thesis using "3.IH"(2) [OF q] by simp
  qed
qed auto

lemma runs_single: "asc lt xs \<Longrightarrow> length (runs lt xs) \<le> 1"
proof (induction xs rule: induct_list012)
  case (3 x y zs)
  then show ?case using runs_Cons [of lt y zs] by auto
qed auto

lemma runs_le_1: "length (runs lt xs) \<le> 1 \<Longrightarrow> asc lt xs"
proof -
  assume "length (runs lt xs) \<le> 1"
  then consider "runs lt xs = []" | r where "runs lt xs = [r]" by (cases "runs lt xs") auto
  then show ?thesis
  proof cases
    case 1
    then have "xs = []" using concat_runs [of lt xs] by simp
    then show ?thesis by simp
  next
    case 2
    then have "r = xs" using concat_runs [of lt xs] by simp
    then show ?thesis using runs_asc [of r lt xs] 2 by simp
  qed
qed

lemma runs_length: "length (runs lt xs) \<le> length xs"
proof (induction xs rule: induct_list012)
  case (3 x y zs)
  then show ?case using runs_Cons [of lt y zs] by auto
qed auto

lemma runs_append: "length (runs lt (xs @ ys)) \<le> length (runs lt xs) + length (runs lt ys)"
proof (induction xs rule: induct_list012)
  case (2 x)
  show ?case
  proof (cases ys)
    case (Cons y zs)
    then show ?thesis using runs_Cons [of lt y zs] by auto
  qed simp
next
  case (3 x y zs)
  obtain q qs where q: "runs lt (y # zs) = (y # q) # qs" using runs_Cons [of lt y zs] by blast
  obtain p ps where p: "runs lt (y # zs @ ys) = (y # p) # ps" using runs_Cons [of lt y "zs @ ys"] by blast
  show ?case using "3.IH"(2) q p by simp
qed simp

lemma runs_concat: "(\<And>r. r \<in> set rs \<Longrightarrow> asc lt r) \<Longrightarrow> length (runs lt (concat rs)) \<le> length rs"
proof (induction rs)
  case (Cons r rs)
  have "length (runs lt r) \<le> 1" using Cons.prems by (intro runs_single) simp
  then show ?case using Cons runs_append [of lt r "concat rs"] by fastforce
qed simp

subsection \<open>Merging\<close>

fun merge_runs :: "('a \<Rightarrow> 'a \<Rightarrow> bool) \<Rightarrow> 'a list \<Rightarrow> 'a list \<Rightarrow> 'a list" where
  "merge_runs lt [] bs = bs"
| "merge_runs lt as [] = as"
| "merge_runs lt (a # as) (b # bs) =
     (if lt b a then b # merge_runs lt (a # as) bs else a # merge_runs lt as (b # bs))"

lemma merge_runs_Nil [simp]: "merge_runs lt as [] = as"
  by (cases as) auto

lemma mset_merge_runs [simp]: "mset (merge_runs lt as bs) = mset as + mset bs"
  by (induction lt as bs rule: merge_runs.induct) auto

lemma set_merge_runs: "set (merge_runs lt as bs) = set as \<union> set bs"
  by (induction lt as bs rule: merge_runs.induct) auto

lemma merge_runs_asc:
  assumes w: "weak_order lt" and "asc lt as" "asc lt bs"
  shows "asc lt (merge_runs lt as bs)"
  using assms unfolding asc_sorted [OF w]
proof (induction lt as bs rule: merge_runs.induct)
  case (3 lt a as b bs)
  note t = weak_orderD [OF "3.prems"(1)]
  have as: "\<not> lt z a" if "z \<in> set as" for z using "3.prems"(2) that by simp
  have bs: "\<not> lt z b" if "z \<in> set bs" for z using "3.prems"(3) that by simp
  show ?case
  proof (cases "lt b a")
    case True
    then have "\<not> lt a b" by (rule t(1))
    then have "\<not> lt z b" if "z \<in> set (a # as) \<union> set bs" for z using that as bs t(2) [of z a b] by auto
    then show ?thesis using "3.IH"(1) "3.prems" True by (auto simp: set_merge_runs)
  next
    case False
    then have "\<not> lt z a" if "z \<in> set as \<union> set (b # bs)" for z using that as bs t(2) [of z b a] by auto
    then show ?thesis using "3.IH"(2) "3.prems" False by (auto simp: set_merge_runs)
  qed
qed auto

text \<open>Elements that are equivalent keep their order.\<close>

definition equiv_to :: "('a \<Rightarrow> 'a \<Rightarrow> bool) \<Rightarrow> 'a \<Rightarrow> 'a \<Rightarrow> bool" where
  "equiv_to lt c x \<longleftrightarrow> \<not> lt c x \<and> \<not> lt x c"

lemma merge_runs_stable:
  assumes w: "weak_order lt" and "asc lt as" "asc lt bs"
  shows "filter (equiv_to lt c) (merge_runs lt as bs) = filter (equiv_to lt c) as @ filter (equiv_to lt c) bs"
  using assms unfolding asc_sorted [OF w]
proof (induction lt as bs rule: merge_runs.induct)
  case (3 lt a as b bs)
  note t = weak_orderD [OF "3.prems"(1)]
  have as: "\<not> lt z a" if "z \<in> set (a # as)" for z using "3.prems"(2) that t(1) [of a a] by auto
  show ?case
  proof (cases "lt b a")
    case True
    have "\<not> equiv_to lt c z" if "equiv_to lt c b" "z \<in> set (a # as)" for z
    proof
      assume "equiv_to lt c z"
      then have "\<not> lt c a" using as [OF that(2)] t(2) [of c z a] by (simp add: equiv_to_def)
      then have "\<not> lt b a" using that(1) t(2) [of b c a] by (simp add: equiv_to_def)
      then show False using True by simp
    qed
    then have "filter (equiv_to lt c) (a # as) = []" if "equiv_to lt c b" using that by (auto simp: filter_empty_conv)
    then show ?thesis using "3.IH"(1) "3.prems" True by auto
  next
    case False
    then show ?thesis using "3.IH"(2) "3.prems" by auto
  qed
qed auto

text \<open>One pass merges the runs two by two.\<close>

fun merge_pairs :: "('a \<Rightarrow> 'a \<Rightarrow> bool) \<Rightarrow> 'a list list \<Rightarrow> 'a list list" where
  "merge_pairs lt [] = []"
| "merge_pairs lt [r] = [r]"
| "merge_pairs lt (r # q # rs) = merge_runs lt r q # merge_pairs lt rs"

lemma length_merge_pairs [simp]: "length (merge_pairs lt rs) = (length rs + 1) div 2"
  by (induction lt rs rule: merge_pairs.induct) auto

lemma mset_merge_pairs: "mset (concat (merge_pairs lt rs)) = mset (concat rs)"
  by (induction lt rs rule: merge_pairs.induct) auto

lemma merge_pairs_asc:
  assumes "weak_order lt" "\<forall>r \<in> set rs. asc lt r"
  shows "\<forall>r \<in> set (merge_pairs lt rs). asc lt r"
  using assms by (induction lt rs rule: merge_pairs.induct) (auto simp: merge_runs_asc)

lemma merge_pairs_stable:
  assumes "weak_order lt" "\<forall>r \<in> set rs. asc lt r"
  shows "filter (equiv_to lt c) (concat (merge_pairs lt rs)) = filter (equiv_to lt c) (concat rs)"
  using assms by (induction lt rs rule: merge_pairs.induct) (auto simp: merge_runs_stable)

definition pass :: "('a \<Rightarrow> 'a \<Rightarrow> bool) \<Rightarrow> 'a list \<Rightarrow> 'a list" where
  "pass lt xs = concat (merge_pairs lt (runs lt xs))"

lemma pass_facts:
  assumes "weak_order lt"
  shows "mset (pass lt xs) = mset xs" "length (runs lt (pass lt xs)) \<le> (length (runs lt xs) + 1) div 2"
    "filter (equiv_to lt c) (pass lt xs) = filter (equiv_to lt c) xs"
proof -
  have a: "\<forall>r \<in> set (runs lt xs). asc lt r" using runs_asc by blast
  show "mset (pass lt xs) = mset xs" by (simp add: pass_def mset_merge_pairs)
  show "length (runs lt (pass lt xs)) \<le> (length (runs lt xs) + 1) div 2"
    using runs_concat [of "merge_pairs lt (runs lt xs)" lt] merge_pairs_asc [OF assms a] by (simp add: pass_def)
  show "filter (equiv_to lt c) (pass lt xs) = filter (equiv_to lt c) xs"
    using merge_pairs_stable [OF assms a] by (simp add: pass_def)
qed

subsection \<open>The sort on links\<close>

lemma is_sorted_loop_at:
  "list_at h list (as @ x # xs @ bs) \<Longrightarrow> length xs < n \<Longrightarrow>
   is_sorted_loop n x (hd (bs @ [tail_of list])) lt h = Inr (asc lt (x # xs))"
proof (induction n arbitrary: as x xs)
  case (Suc n)
  have nx: "list_next x h = Inr (hd (xs @ bs @ [tail_of list]))" using list_next_at [OF Suc.prems(1)] by simp
  show ?case
  proof (cases xs)
    case Nil
    then show ?thesis using nx by simp
  next
    case (Cons y ys)
    have l: "list_at h list ((as @ [x]) @ y # ys @ bs)" using Suc.prems(1) Cons by simp
    have "list_prev y h = Inr x" using Suc.prems(1) Cons by (intro list_prev_at [of h list as x y "ys @ bs"]) simp
    moreover have "y \<noteq> hd (bs @ [tail_of list])"
    proof -
      have "hd (bs @ [tail_of list]) \<in> set (bs @ [tail_of list])" by (rule hd_in_set) simp
      then show ?thesis using list_at_pieces(3) [of h list "as @ [x, y] @ ys" bs] Suc.prems(1) Cons by auto
    qed
    ultimately show ?thesis using nx Cons Suc.IH [OF l] Suc.prems(2) by simp
  qed
qed simp

lemma is_sorted_at:
  assumes "list_at h list (as @ xs @ bs)" "length xs \<le> n"
  shows "is_sorted n (hd (xs @ bs @ [tail_of list])) (hd (bs @ [tail_of list])) lt h = Inr (asc lt xs)"
proof (cases xs)
  case (Cons x ys)
  have "hd (bs @ [tail_of list]) \<in> set (bs @ [tail_of list])" by (rule hd_in_set) simp
  then have "x \<noteq> hd (bs @ [tail_of list])"
    using list_at_pieces(3) [of h list "as @ x # ys" bs] assms(1) Cons by auto
  then show ?thesis
    using is_sorted_loop_at [of h list as x ys bs n lt] assms Cons by (simp add: is_sorted_def)
qed (simp add: is_sorted_def)

lemma find_end_of_run_loop_at:
  "list_at h list (as @ x # xs) \<Longrightarrow> length xs < n \<Longrightarrow>
   find_end_of_run_loop n x (tail_of list) lt h = Inr (hd (concat (tl (runs lt (x # xs))) @ [tail_of list]))"
proof (induction n arbitrary: as x xs)
  case (Suc n)
  have nx: "list_next x h = Inr (hd (xs @ [tail_of list]))" using list_next_at [OF Suc.prems(1)] by simp
  show ?case
  proof (cases xs)
    case Nil
    then show ?thesis using nx by simp
  next
    case (Cons y ys)
    have l: "list_at h list ((as @ [x]) @ y # ys)" using Suc.prems(1) Cons by simp
    have "list_prev y h = Inr x" using Suc.prems(1) Cons by (intro list_prev_at [of h list as x y ys]) simp
    moreover have "y \<noteq> tail_of list" using list_at_ends(6) [OF l] by auto
    moreover obtain r rs where r: "runs lt (y # ys) = (y # r) # rs" using runs_Cons [of lt y ys] by blast
    moreover have "concat (runs lt (y # ys)) = y # ys" by (rule concat_runs)
    ultimately show ?thesis using nx Cons Suc.IH [OF l] Suc.prems(2) by (auto simp: split: list.splits)
  qed
qed simp

lemma cut_neq:
  assumes "list_at h list (as @ xs @ bs)" "xs \<noteq> []"
  shows "hd xs \<noteq> hd (bs @ [tail_of list])"
proof -
  have "hd (bs @ [tail_of list]) \<in> set (bs @ [tail_of list])" by (rule hd_in_set) simp
  moreover have "hd xs \<in> set (head_of list # as @ xs)" using hd_in_set [OF assms(2)] by simp
  moreover have "set (head_of list # as @ xs) \<inter> set (bs @ [tail_of list]) = {}"
    using list_at_pieces(3) [of h list "as @ xs" bs] assms(1) by simp
  ultimately show ?thesis by (metis disjoint_iff)
qed

lemma cut_nonzero: "list_at h list (as @ bs) \<Longrightarrow> hd (bs @ [tail_of list]) \<noteq> 0"
  by (rule list_at_cut(6))

lemma inplace_merge_loop_at:
  "list_at h list (as @ ps @ qs @ bs) \<Longrightarrow> length ps + length qs < n \<Longrightarrow>
   \<exists>h'. inplace_merge_loop n (hd (ps @ qs @ bs @ [tail_of list])) (hd (qs @ bs @ [tail_of list])) (hd (bs @ [tail_of list])) lt h
        = Inr h' \<and> list_at h' list (as @ merge_runs lt ps qs @ bs)
        \<and> same_links (set (nodes list (as @ ps @ qs @ bs))) h h'"
proof (induction n arbitrary: as ps qs h)
  case (Suc n)
  consider "ps = []" | "qs = []" | p ps' q qs' where "ps = p # ps'" "qs = q # qs'"
    by (cases ps; cases qs) auto
  then show ?case
  proof cases
    case 3
    have ne: "p \<noteq> q" "q \<noteq> hd (bs @ [tail_of list])"
      using cut_neq [of h list as ps "qs @ bs"] cut_neq [of h list "as @ ps" qs bs] Suc.prems(1) 3 by auto
    show ?thesis
    proof (cases "lt q p")
      case False
      have "list_next p h = Inr (hd (ps' @ qs @ bs @ [tail_of list]))"
        using list_next_at [of h list as p "ps' @ qs @ bs"] Suc.prems(1) 3 by simp
      moreover have "\<exists>h'. inplace_merge_loop n (hd (ps' @ qs @ bs @ [tail_of list])) (hd (qs @ bs @ [tail_of list]))
          (hd (bs @ [tail_of list])) lt h = Inr h' \<and> list_at h' list ((as @ [p]) @ merge_runs lt ps' qs @ bs)
          \<and> same_links (set (nodes list ((as @ [p]) @ ps' @ qs @ bs))) h h'"
        using Suc.prems 3 by (intro Suc.IH) auto
      ultimately show ?thesis using 3 ne False by auto
    next
      case True
      let ?c = "hd (qs' @ bs @ [tail_of list])"
      have "list_next q h = Inr ?c"
        using list_next_at [of h list "as @ ps" q "qs' @ bs"] Suc.prems(1) 3 by simp
      moreover have "list_prev ?c h = Inr q"
        using list_at_walk(2) [of h list "as @ ps @ [q]" "qs' @ bs"] Suc.prems(1) 3 by simp
      moreover obtain h1 where h1: "list_splice p q ?c h = Inr h1" "list_at h1 list (as @ [q] @ ps @ qs' @ bs)"
          "same_links (set (nodes list (as @ ps @ qs @ bs))) h h1"
        using list_splice_forward [of h list as ps "[q]" "qs' @ bs"] Suc.prems(1) 3 by auto
      moreover obtain h2 where h2: "inplace_merge_loop n (hd (ps @ qs' @ bs @ [tail_of list])) ?c (hd (bs @ [tail_of list])) lt h1
          = Inr h2" "list_at h2 list ((as @ [q]) @ merge_runs lt ps qs' @ bs)"
          "same_links (set (nodes list ((as @ [q]) @ ps @ qs' @ bs))) h1 h2"
        using Suc.IH [of h1 "as @ [q]" ps qs'] Suc.prems(2) 3 h1(2) by auto
      moreover have "set (nodes list ((as @ [q]) @ ps @ qs' @ bs)) = set (nodes list (as @ ps @ qs @ bs))"
        using 3 by (auto simp: set_nodes)
      ultimately show ?thesis using 3 ne True same_links_trans [OF h1(3)] by auto
    qed
  qed (use Suc.prems(1) in auto)
qed simp

lemma inplace_merge_at:
  assumes l: "list_at h list (as @ ps @ qs @ bs)" and "length ps + length qs < n" "asc lt ps" "asc lt qs"
  shows "\<exists>h'. inplace_merge n (hd (ps @ qs @ bs @ [tail_of list])) (hd (qs @ bs @ [tail_of list])) (hd (bs @ [tail_of list])) lt h
    = Inr h' \<and> list_at h' list (as @ merge_runs lt ps qs @ bs)
        \<and> same_links (set (nodes list (as @ ps @ qs @ bs))) h h'"
proof -
  have "hd (ps @ qs @ bs @ [tail_of list]) \<noteq> 0" "hd (qs @ bs @ [tail_of list]) \<noteq> 0" "hd (bs @ [tail_of list]) \<noteq> 0"
    using cut_nonzero [of h list as "ps @ qs @ bs"] cut_nonzero [of h list "as @ ps" "qs @ bs"]
      cut_nonzero [of h list "as @ ps @ qs" bs] l by simp_all
  moreover have "is_sorted n (hd (ps @ qs @ bs @ [tail_of list])) (hd (qs @ bs @ [tail_of list])) lt h = Inr True"
    using is_sorted_at [of h list as ps "qs @ bs" n lt] assms by simp
  moreover have "is_sorted n (hd (qs @ bs @ [tail_of list])) (hd (bs @ [tail_of list])) lt h = Inr True"
    using is_sorted_at [of h list "as @ ps" qs bs n lt] assms by simp
  ultimately show ?thesis
    using inplace_merge_loop_at [OF l assms(2)] by (simp add: inplace_merge_def)
qed

lemma find_end_of_run_at:
  assumes l: "list_at h list (as @ x # xs)" and n: "length xs < n" and r: "runs lt (x # xs) = r # rs"
  shows "find_end_of_run n x (tail_of list) lt h = Inr (hd (concat rs @ [tail_of list]))"
proof -
  have "x \<noteq> 0" "tail_of list \<noteq> 0" "x \<noteq> tail_of list"
    using cut_nonzero [OF l] cut_nonzero [of h list "as @ x # xs" "[]"] list_at_ends(6) [OF l] l by auto
  then show ?thesis
    using find_end_of_run_loop_at [OF l n, of lt] r by (simp add: find_end_of_run_def)
qed

lemma list_sort_pass_at:
  assumes "weak_order lt"
  shows "list_at h list (as @ xs) \<Longrightarrow> length xs < n \<Longrightarrow>
   \<exists>h'. list_sort_pass n (hd (xs @ [tail_of list])) (tail_of list) cnt lt h
        = Inr (cnt + of_nat ((length (runs lt xs) + 1) div 2), h') \<and> list_at h' list (as @ pass lt xs)
        \<and> same_links (set (nodes list (as @ xs))) h h'"
proof (induction n arbitrary: as xs cnt h)
  case (Suc n)
  consider "runs lt xs = []" | r where "runs lt xs = [r]" | r q rs where "runs lt xs = r # q # rs"
    by (metis list.exhaust)
  then show ?case
  proof cases
    case 1
    then have "xs = []" using concat_runs [of lt xs] by simp
    then show ?thesis using Suc.prems(1) by (simp add: pass_def)
  next
    case (2 r)
    then obtain x ys where x: "xs = x # ys" by (cases xs) auto
    have "x \<noteq> tail_of list" using list_at_ends(6) [OF Suc.prems(1)] x by auto
    moreover have "find_end_of_run (Suc n) x (tail_of list) lt h = Inr (tail_of list)"
      using find_end_of_run_at [of h list as x ys "Suc n" lt r "[]"] Suc.prems 2 x by simp
    moreover have "pass lt xs = xs" using 2 concat_runs [of lt xs] by (simp add: pass_def)
    ultimately show ?thesis using Suc.prems(1) x 2 by simp
  next
    case (3 r q rs)
    have c: "r @ q @ concat rs = xs" using concat_runs [of lt xs] 3 by simp
    have a: "asc lt r" "r \<noteq> []" "asc lt q" "q \<noteq> []" using runs_asc [of _ lt xs] 3 by auto
    have rt: "runs lt (concat (q # rs)) = q # rs" "runs lt (concat rs) = rs"
      using runs_tl [OF 3] runs_tl [of lt "concat (q # rs)" q rs] by simp_all
    obtain x r' y q' where x: "r = x # r'" "q = y # q'" using a by (cases r; cases q) auto
    have l: "list_at h list (as @ r @ q @ concat rs)" using Suc.prems(1) c by simp
    have ne: "x \<noteq> tail_of list" "y \<noteq> tail_of list" using list_at_ends(6) [OF l] x by auto
    have len: "length r + length q + length (concat rs) < Suc n" using Suc.prems(2) c by (metis length_append add.assoc)
    have f1: "find_end_of_run (Suc n) x (tail_of list) lt h = Inr y"
      using find_end_of_run_at [of h list as x "r' @ q @ concat rs" "Suc n" lt r "q # rs"] l len x 3 c by simp
    have f2: "find_end_of_run (Suc n) y (tail_of list) lt h = Inr (hd (concat rs @ [tail_of list]))"
      using find_end_of_run_at [of h list "as @ r" y "q' @ concat rs" "Suc n" lt q rs] l len x rt by simp
    obtain h1 where h1: "inplace_merge (Suc n) x y (hd (concat rs @ [tail_of list])) lt h = Inr h1"
        "list_at h1 list ((as @ merge_runs lt r q) @ concat rs)" "same_links (set (nodes list (as @ r @ q @ concat rs))) h h1"
      using inplace_merge_at [OF l _ a(1,3), of "Suc n"] len x by auto
    have "length (concat rs) < n" using len a(2) by (cases r) auto
    from Suc.IH [OF h1(2) this, of "cnt + 1"]
    obtain h2 where "list_sort_pass n (hd (concat rs @ [tail_of list])) (tail_of list) (cnt + 1) lt h1
        = Inr (cnt + 1 + of_nat ((length rs + 1) div 2), h2)" "list_at h2 list (as @ merge_runs lt r q @ pass lt (concat rs))"
        "same_links (set (nodes list ((as @ merge_runs lt r q) @ concat rs))) h1 h2"
      by (auto simp: rt)
    moreover have "set (nodes list ((as @ merge_runs lt r q) @ concat rs)) = set (nodes list (as @ xs))"
        "set (nodes list (as @ r @ q @ concat rs)) = set (nodes list (as @ xs))"
      unfolding set_nodes c [symmetric] by (auto simp: set_merge_runs)
    ultimately show ?thesis
      using f1 f2 h1(1) ne 3 x rt c same_links_trans [OF h1(3)] by (auto simp: pass_def add.assoc)
  qed
qed simp

lemma list_sort_loop_at:
  assumes w: "weak_order lt"
  shows "list_at h list xs \<Longrightarrow> length xs < n \<Longrightarrow> length xs < 2 ^ 32 \<Longrightarrow> length (runs lt xs) \<le> m \<Longrightarrow> 0 < m \<Longrightarrow>
   \<exists>h' ys. list_sort_loop m n list lt h = Inr h' \<and> list_at h' list ys \<and> mset ys = mset xs \<and> asc lt ys
     \<and> (\<forall>c. filter (equiv_to lt c) ys = filter (equiv_to lt c) xs) \<and> same_links (set (nodes list xs)) h h'"
proof (induction m arbitrary: h xs)
  case (Suc m)
  let ?k = "(length (runs lt xs) + 1) div 2" and ?ys = "pass lt xs"
  obtain h1 where h1: "list_sort_pass n (hd (xs @ [tail_of list])) (tail_of list) 0 lt h = Inr (of_nat ?k, h1)"
      "list_at h1 list ?ys" "same_links (set (nodes list xs)) h h1"
    using list_sort_pass_at [OF w, of h list "[]" xs n 0] Suc.prems(1,2) by auto
  note f = pass_facts [OF w, where xs = xs]
  have ln: "length ?ys = length xs" using f(1) by (rule mset_eq_length)
  have ns: "set (nodes list ?ys) = set (nodes list xs)" using mset_eq_setD [OF f(1)] by (simp add: set_nodes)
  have "?k \<le> length xs" using runs_length [of lt xs] by linarith
  then have "unat (of_nat ?k :: u32) = ?k" using Suc.prems(3) by (simp add: unsigned_of_nat take_bit_nat_eq_self)
  then have k: "(of_nat ?k :: u32) > 1 \<longleftrightarrow> ?k > 1" by (metis unat_1 word_less_nat_alt)
  have go: "list_sort_loop (Suc m) n list lt h = (if ?k > 1 then list_sort_loop m n list lt h1 else Inr h1)"
    using Suc.prems(1) h1(1) k by (simp add: list_begin_at list_end_at)
  show ?case
  proof (cases "?k > 1")
    case True
    have "length (runs lt ?ys) \<le> m" "0 < m" using f(2) True Suc.prems(4) by linarith+
    from Suc.IH [OF h1(2) _ _ this] Suc.prems(2,3) ln
    obtain h2 ys where h2: "list_sort_loop m n list lt h1 = Inr h2" "list_at h2 list ys" "mset ys = mset ?ys" "asc lt ys"
        "\<forall>c. filter (equiv_to lt c) ys = filter (equiv_to lt c) ?ys" "same_links (set (nodes list ?ys)) h1 h2"
      by auto
    have "same_links (set (nodes list xs)) h h2" using same_links_trans [OF h1(3)] h2(6) by (simp add: ns)
    then show ?thesis using go True h2(1-5) f(1,3) by (intro exI [of _ h2] exI [of _ ys]) simp
  next
    case False
    then have "asc lt ?ys" using f(2) by (intro runs_le_1) linarith
    then show ?thesis using go False h1(2,3) f(1,3) by (intro exI [of _ h1] exI [of _ ?ys]) simp
  qed
qed simp

subsection \<open>The other loops\<close>

lemma list_size_loop_at:
  "list_at h list (as @ xs) \<Longrightarrow> length xs < n \<Longrightarrow>
   list_size_loop n (hd (xs @ [tail_of list])) (tail_of list) cnt h = Inr (cnt + of_nat (length xs))"
proof (induction n arbitrary: as xs cnt)
  case (Suc n)
  show ?case
  proof (cases xs)
    case (Cons x ys)
    have "x \<noteq> tail_of list" using list_at_ends(6) [OF Suc.prems(1)] Cons by auto
    moreover have "list_next x h = Inr (hd (ys @ [tail_of list]))" using list_next_at [of h list as x ys] Suc.prems(1) Cons by simp
    ultimately show ?thesis
      using Suc.IH [of "as @ [x]" ys "cnt + 1"] Suc.prems Cons by (simp add: add.assoc)
  qed simp
qed simp

lemma list_size_at: "list_at h list xs \<Longrightarrow> length xs < n \<Longrightarrow> list_size n list h = Inr (of_nat (length xs))"
  using list_size_loop_at [of h list "[]" xs n 0] by (simp add: list_size_def list_begin_at list_end_at)

lemma insert_ordered_loop_at:
  "list_at h list (as @ xs) \<Longrightarrow> length xs < n \<Longrightarrow>
   insert_ordered_loop n (hd (xs @ [tail_of list])) (tail_of list) e lt h
     = Inr (hd (dropWhile (\<lambda>x. \<not> lt e x) xs @ [tail_of list]))"
proof (induction n arbitrary: as xs)
  case (Suc n)
  show ?case
  proof (cases xs)
    case (Cons x ys)
    have "x \<noteq> tail_of list" using list_at_ends(6) [OF Suc.prems(1)] Cons by auto
    moreover have "list_next x h = Inr (hd (ys @ [tail_of list]))" using list_next_at [of h list as x ys] Suc.prems(1) Cons by simp
    ultimately show ?thesis using Suc.IH [of "as @ [x]" ys] Suc.prems Cons by simp
  qed simp
qed simp

lemma list_insert_ordered_at:
  assumes "list_at h list xs" "length xs < n" "e \<notin> set (nodes list xs)" "e \<noteq> 0"
  shows "\<exists>h'. list_insert_ordered n list e lt h = Inr h'
    \<and> list_at h' list (takeWhile (\<lambda>x. \<not> lt e x) xs @ e # dropWhile (\<lambda>x. \<not> lt e x) xs)"
  using list_insert_spec [of h list "takeWhile (\<lambda>x. \<not> lt e x) xs" "dropWhile (\<lambda>x. \<not> lt e x) xs" e]
    insert_ordered_loop_at [of h list "[]" xs n e lt] list_at_ends(8) [OF assms(1)] assms
  by (auto simp: list_insert_ordered_def list_begin_at list_end_at)

text \<open>Inserted in order into an ascending sequence, the element keeps it ascending.\<close>

lemma insert_ordered_asc:
  assumes w: "weak_order lt" and a: "asc lt xs"
  shows "asc lt (takeWhile (\<lambda>x. \<not> lt e x) xs @ e # dropWhile (\<lambda>x. \<not> lt e x) xs)"
proof -
  note t = weak_orderD [OF w]
  define tw dw where "tw = takeWhile (\<lambda>x. \<not> lt e x) xs" and "dw = dropWhile (\<lambda>x. \<not> lt e x) xs"
  have "xs = tw @ dw" by (simp add: tw_def dw_def)
  then have s: "sorted_wrt (\<lambda>a b. \<not> lt b a) tw" "sorted_wrt (\<lambda>a b. \<not> lt b a) dw" "\<And>x y. x \<in> set tw \<Longrightarrow> y \<in> set dw \<Longrightarrow> \<not> lt y x"
    using a by (auto simp: asc_sorted [OF w] sorted_wrt_append)
  have d: "\<not> lt y e" if y: "y \<in> set dw" for y
  proof -
    obtain z zs where z: "dw = z # zs" using y by (cases dw) auto
    have "lt e z" using z by (auto simp: dw_def dropWhile_eq_Cons_conv)
    moreover have "y = z \<or> \<not> lt y z" using s(2) z y by auto
    ultimately show ?thesis using t(1) [of e z] t(2) [of y z e] by auto
  qed
  have "\<not> lt e y" if "y \<in> set tw" for y using that by (auto simp: tw_def dest: set_takeWhileD)
  then have "asc lt (tw @ e # dw)" using s d by (auto simp: asc_sorted [OF w] sorted_wrt_append)
  then show ?thesis by (simp add: tw_def dw_def)
qed

text \<open>The extreme elements: of equals the first.\<close>

definition max_elem :: "('a \<Rightarrow> 'a \<Rightarrow> bool) \<Rightarrow> 'a \<Rightarrow> 'a list \<Rightarrow> 'a" where
  "max_elem lt x xs = fold (\<lambda>y m. if lt m y then y else m) xs x"

lemma list_max_loop_at:
  "list_at h list (as @ xs) \<Longrightarrow> length xs < n \<Longrightarrow>
   list_max_loop n m (hd (xs @ [tail_of list])) (tail_of list) lt h = Inr (max_elem lt m xs)"
proof (induction n arbitrary: as xs m)
  case (Suc n)
  show ?case
  proof (cases xs)
    case (Cons x ys)
    have "x \<noteq> tail_of list" using list_at_ends(6) [OF Suc.prems(1)] Cons by auto
    moreover have "list_next x h = Inr (hd (ys @ [tail_of list]))" using list_next_at [of h list as x ys] Suc.prems(1) Cons by simp
    ultimately show ?thesis using Suc.IH [of "as @ [x]" ys] Suc.prems Cons by (simp add: max_elem_def)
  qed (simp add: max_elem_def)
qed simp

lemma list_min_loop_max: "list_min_loop n m e t lt h = list_max_loop n m e t (\<lambda>a b. lt b a) h"
proof (induction n arbitrary: m e)
  case (Suc n)
  then show ?case by (cases "list_next e h") (auto simp: Let_def)
qed simp

lemma list_max_at:
  assumes "list_at h list (x # xs)" "length xs < n"
  shows "list_max n list lt h = Inr (max_elem lt x xs)" "list_min n list lt h = Inr (max_elem (\<lambda>a b. lt b a) x xs)"
proof -
  have "x \<noteq> tail_of list" using list_at_ends(6) [OF assms(1)] by auto
  then show "list_max n list lt h = Inr (max_elem lt x xs)" "list_min n list lt h = Inr (max_elem (\<lambda>a b. lt b a) x xs)"
    using list_next_at [of h list "[]" x xs] list_max_loop_at [of h list "[x]" xs n x] assms
    by (simp_all add: list_max_def list_min_def list_begin_at list_end_at list_min_loop_max)
qed

lemma list_max_empty:
  assumes "list_at h list []"
  shows "list_max n list lt h = Inr (tail_of list)" "list_min n list lt h = Inr (tail_of list)"
  using assms by (simp_all add: list_max_def list_min_def list_begin_at list_end_at)

lemma max_elem_max:
  assumes w: "weak_order lt"
  shows "max_elem lt x xs \<in> set (x # xs) \<and> (\<forall>y \<in> set (x # xs). \<not> lt (max_elem lt x xs) y)"
proof (induction xs arbitrary: x)
  case Nil
  then show ?case using weak_orderD(1) [OF w, of x x] by (auto simp: max_elem_def)
next
  case (Cons y ys)
  define m where "m = (if lt x y then y else x)"
  define M where "M = max_elem lt m ys"
  have e: "max_elem lt x (y # ys) = M" by (simp add: max_elem_def m_def M_def)
  have i: "M \<in> set (m # ys)" "\<And>z. z \<in> set (m # ys) \<Longrightarrow> \<not> lt M z"
    using Cons [of m] unfolding M_def by blast+
  have "\<not> lt m x" "\<not> lt m y" using weak_orderD(1) [OF w] by (auto simp: m_def)
  moreover have "\<not> lt M m" by (rule i(2)) simp
  ultimately have "\<not> lt M x" "\<not> lt M y" using weak_orderD(2) [OF w, of M m] by blast+
  then show ?case unfolding e using i by (auto simp: m_def split: if_splits)
qed

text \<open>The elements that stay when neighbours that are equivalent are removed, and those removed.\<close>

fun uniq :: "('a \<Rightarrow> 'a \<Rightarrow> bool) \<Rightarrow> 'a \<Rightarrow> 'a list \<Rightarrow> 'a list" where
  "uniq lt x [] = [x]"
| "uniq lt x (y # ys) = (if equiv_to lt x y then uniq lt x ys else x # uniq lt y ys)"

fun dups :: "('a \<Rightarrow> 'a \<Rightarrow> bool) \<Rightarrow> 'a \<Rightarrow> 'a list \<Rightarrow> 'a list" where
  "dups lt x [] = []"
| "dups lt x (y # ys) = (if equiv_to lt x y then y # dups lt x ys else dups lt y ys)"

lemma list_unique_loop_at:
  "list_at h list (as @ x # xs) \<Longrightarrow> length xs < n \<Longrightarrow>
   d \<noteq> 0 \<longrightarrow> list_at h d zs \<and> set (nodes d zs) \<inter> set (nodes list (as @ x # xs)) = {} \<Longrightarrow>
   \<exists>h'. list_unique_loop n x (tail_of list) d lt h = Inr h' \<and> list_at h' list (as @ uniq lt x xs)
     \<and> (d \<noteq> 0 \<longrightarrow> list_at h' d (zs @ dups lt x xs))"
proof (induction n arbitrary: as x xs zs h)
  case (Suc n)
  have nx: "list_next x h = Inr (hd (xs @ [tail_of list]))" using list_next_at [OF Suc.prems(1)] .
  show ?case
  proof (cases xs)
    case Nil
    then show ?thesis using nx Suc.prems(1,3) by auto
  next
    case (Cons y ys)
    have ny: "y \<noteq> tail_of list" using list_at_ends(6) [OF Suc.prems(1)] Cons by auto
    show ?thesis
    proof (cases "equiv_to lt x y")
      case True
      obtain h1 r where h1: "list_remove y h = Inr (r, h1)" "list_at h1 list (as @ x # ys)"
          "same_links (set (nodes list (as @ x # ys))) h h1"
        using list_remove_spec [of h list "as @ [x]" y ys] Suc.prems(1) Cons by auto
      have dj: "set (nodes d zs) \<inter> set (nodes list (as @ x # y # ys)) = {}" "list_at h d zs" if "d \<noteq> 0"
        using Suc.prems(3) Cons that by auto
      have y0: "y \<noteq> 0" "y \<notin> set (nodes list (as @ x # ys))"
        using Suc.prems(1) Cons by (auto simp: list_at_def nodes_def)
      obtain h2 where h2: "(if d \<noteq> 0 then list_push_back d y h1 else Inr h1) = Inr h2" "list_at h2 list (as @ x # ys)"
          "d \<noteq> 0 \<longrightarrow> list_at h2 d (zs @ [y]) \<and> set (nodes d (zs @ [y])) \<inter> set (nodes list (as @ x # ys)) = {}"
      proof (cases "d = 0")
        case True
        then show ?thesis using that h1(2) by simp
      next
        case False
        have ld: "list_at h1 d zs" using dj [OF False] h1(3) by (intro list_at_frame [OF dj(2) [OF False] h1(3)]) (auto simp: set_nodes)
        have yd: "y \<notin> set (nodes d zs)" using dj(1) [OF False] by (auto simp: set_nodes)
        obtain h2 where h2: "list_push_back d y h1 = Inr h2" "list_at h2 d (zs @ [y])" "same_links (insert y (set (nodes d zs))) h1 h2"
          using list_push_back_at [OF ld yd y0(1)] by blast
        have "list_at h2 list (as @ x # ys)"
          using dj(1) [OF False] y0(2) by (intro list_at_frame [OF h1(2) h2(3)]) (auto simp: set_nodes)
        then show ?thesis using that h2(1,2) dj(1) [OF False] y0(2) False by (auto simp: set_nodes)
      qed
      have "length ys < n" using Suc.prems(2) Cons by simp
      from Suc.IH [OF h2(2) this h2(3)] show ?thesis
        using nx Cons ny h1(1) h2(1) True by (auto simp: equiv_to_def)
    next
      case False
      have "list_at h list ((as @ [x]) @ y # ys)" "length ys < n" using Suc.prems(1,2) Cons by auto
      from Suc.IH [OF this, of zs] Suc.prems(3) Cons show ?thesis
        using nx ny False by (auto simp: equiv_to_def)
    qed
  qed
qed simp

subsection \<open>Properties\<close>

text \<open>
  C22. \<open>list_sort\<close> ends and sorts: for every comparison that is a strict weak order, with
  bounds on the rounds of its loops that exceed the length of the list, no assertion fails,
  and the links afterwards represent a permutation of the elements in nondecreasing order
  in which equivalent elements have kept their order; no other link changes.
\<close>

theorem list_sort_correct:
  assumes "weak_order lt" "list_at h list xs" "length xs < n" "length xs < 2 ^ 32"
  shows "\<exists>h' ys. list_sort n list lt h = Inr h' \<and> list_at h' list ys \<and> mset ys = mset xs
    \<and> sorted_wrt (\<lambda>a b. \<not> lt b a) ys \<and> (\<forall>c. filter (equiv_to lt c) ys = filter (equiv_to lt c) xs)
    \<and> same_links (set (nodes list xs)) h h'"
proof -
  have "length (runs lt xs) \<le> n" "0 < n" using runs_length [of lt xs] assms(3) by linarith+
  from list_sort_loop_at [OF assms this]
  obtain h' ys where h': "list_sort_loop n n list lt h = Inr h'" "list_at h' list ys" "mset ys = mset xs" "asc lt ys"
      "\<forall>c. filter (equiv_to lt c) ys = filter (equiv_to lt c) xs" "same_links (set (nodes list xs)) h h'"
    by auto
  have "length ys \<le> n" using mset_eq_length [OF h'(3)] assms(3) by simp
  then have "is_sorted n (hd (ys @ [tail_of list])) (tail_of list) lt h' = Inr True"
    using is_sorted_at [of h' list "[]" ys "[]" n lt] h'(2,4) by simp
  then have "list_sort n list lt h = Inr h'"
    using h'(1,2) list_at_ends(8) [OF h'(2)] by (simp add: list_sort_def list_begin_at list_end_at)
  then show ?thesis using h'(2-) asc_sorted [OF assms(1)] by blast
qed

definition list_example :: "links res" where
  "list_example = rbind (list_init 100 \<lparr>l_prev = (\<lambda>x. 0), l_next = (\<lambda>x. 0)\<rparr>) (rfold (list_push_back 100) [5, 3, 9, 1])"

lemma list_example_at: "\<exists>h. list_example = Inr h \<and> list_at h 100 [5, 3, 9, 1]"
  by (simp add: list_example_def list_init_def list_push_back_def list_end_def list_insert_def is_interior_def is_tail_def
      list_at_def nodes_def head_of_def tail_of_def link_simps)

theorem list_sort_correct_witness:
  "\<exists>h h' ys. list_example = Inr h \<and> list_sort 5 100 (<) h = Inr h' \<and> list_at h' 100 ys \<and> mset ys = {#5, 3, 9, 1#} \<and> sorted ys"
proof -
  obtain h where h: "list_example = Inr h" "list_at h 100 [5, 3, 9, 1]" using list_example_at by blast
  have "weak_order ((<) :: nat \<Rightarrow> nat \<Rightarrow> bool)" by (auto simp: weak_order_def)
  from list_sort_correct [OF this h(2), of 5] h(1) show ?thesis
    by (auto simp: sorted_wrt_iff_nth_less not_less sorted_iff_nth_mono_less intro!: exI)
qed

end
