(* ===== verification/Hash.thy ===== *)
theory Hash
  imports Linked_List Cstring
begin

text \<open>
  \<^verbatim>\<open>lib/hash.c\<close>: chained hash tables over the lists of theory \<open>Linked_List\<close>, with the
  change of the number of buckets, and the table of translated blocks
  \<^verbatim>\<open>peep/jumptable2.c\<close> that uses them.  A table is shown to represent a set of elements
  of which no two are equal.
\<close>

subsection \<open>Families of lists\<close>

text \<open>Lists at several addresses that share no node; a family maps the addresses to the sequences.\<close>

definition fam :: "links \<Rightarrow> (nat \<rightharpoonup> nat list) \<Rightarrow> bool" where
  "fam l F \<longleftrightarrow> (\<forall>a xs. F a = Some xs \<longrightarrow> list_at l a xs)
     \<and> (\<forall>a b xs ys. F a = Some xs \<longrightarrow> F b = Some ys \<longrightarrow> a \<noteq> b \<longrightarrow> set (nodes a xs) \<inter> set (nodes b ys) = {})"

definition fam_nodes :: "(nat \<rightharpoonup> nat list) \<Rightarrow> nat set" where
  "fam_nodes F = (\<Union>a \<in> dom F. set (nodes a (the (F a))))"

lemma fam_at: "fam l F \<Longrightarrow> F a = Some xs \<Longrightarrow> list_at l a xs"
  by (simp add: fam_def)

lemma fam_disjoint:
  "fam l F \<Longrightarrow> F a = Some xs \<Longrightarrow> F b = Some ys \<Longrightarrow> a \<noteq> b \<Longrightarrow> set (nodes a xs) \<inter> set (nodes b ys) = {}"
  unfolding fam_def by blast

lemma fam_nodes_mem: "F a = Some xs \<Longrightarrow> set (nodes a xs) \<subseteq> fam_nodes F"
  by (force simp: fam_nodes_def)

lemma fam_nodesE:
  assumes "x \<in> fam_nodes F"
  obtains a xs where "F a = Some xs" "x \<in> set (nodes a xs)"
  using assms by (auto simp: fam_nodes_def)

text \<open>One list of the family changes.\<close>

lemma fam_update:
  assumes f: "fam l F" and l: "list_at l' a ys" and s: "same_links A l l'"
    and n: "set (nodes a ys) \<subseteq> A" and d: "\<And>b xs. b \<noteq> a \<Longrightarrow> F b = Some xs \<Longrightarrow> A \<inter> set (nodes b xs) = {}"
  shows "fam l' (F(a \<mapsto> ys))"
  unfolding fam_def
proof (intro conjI allI impI)
  fix b xs assume b: "(F(a \<mapsto> ys)) b = Some xs"
  show "list_at l' b xs"
  proof (cases "b = a")
    case False
    then show ?thesis using b fam_at [OF f, of b xs] d [of b xs] by (intro list_at_frame [OF _ s]) auto
  qed (use b l in simp)
next
  fix b c xs zs assume b: "(F(a \<mapsto> ys)) b = Some xs" and c: "(F(a \<mapsto> ys)) c = Some zs" and ne: "b \<noteq> c"
  consider "b = a" | "c = a" | "b \<noteq> a" "c \<noteq> a" by blast
  then show "set (nodes b xs) \<inter> set (nodes c zs) = {}"
  proof cases
    case 1
    then show ?thesis using b c ne d [of c zs] n by auto
  next
    case 2
    then show ?thesis using b c ne d [of b xs] n by auto
  next
    case 3
    then show ?thesis using b c ne fam_disjoint [OF f] by simp
  qed
qed

lemma fam_push_front:
  assumes f: "fam l F" and a: "F a = Some xs" and e: "e \<notin> fam_nodes F" "e \<noteq> 0"
  shows "\<exists>l'. list_push_front a e l = Inr l' \<and> fam l' (F(a \<mapsto> e # xs))"
proof -
  have ea: "e \<notin> set (nodes b ys)" if "F b = Some ys" for b ys using fam_nodes_mem [of F b ys] that e(1) by blast
  obtain l' where l': "list_push_front a e l = Inr l'" "list_at l' a (e # xs)" "same_links (insert e (set (nodes a xs))) l l'"
    using list_push_front_at [OF fam_at [OF f a] ea [OF a] e(2)] by blast
  have "fam l' (F(a \<mapsto> e # xs))"
  proof (rule fam_update [OF f l'(2,3)])
    show "set (nodes a (e # xs)) \<subseteq> insert e (set (nodes a xs))" by (auto simp: set_nodes)
    show "insert e (set (nodes a xs)) \<inter> set (nodes b ys) = {}" if "b \<noteq> a" "F b = Some ys" for b ys
      using fam_disjoint [OF f a that(2)] ea [OF that(2)] that(1) by auto
  qed
  then show ?thesis using l'(1) by blast
qed

lemma fam_remove:
  assumes f: "fam l F" and a: "F a = Some (as @ e # bs)"
  shows "\<exists>l'. list_remove e l = Inr (hd (bs @ [tail_of a]), l') \<and> fam l' (F(a \<mapsto> as @ bs))
    \<and> e \<notin> fam_nodes (F(a \<mapsto> as @ bs)) \<and> e \<noteq> 0"
proof -
  note la = fam_at [OF f a]
  obtain l' where l': "list_remove e l = Inr (hd (bs @ [tail_of a]), l')" "list_at l' a (as @ bs)"
      "same_links (set (nodes a (as @ bs))) l l'"
    using list_remove_spec [OF la] by blast
  have sub: "set (nodes a (as @ bs)) \<subseteq> set (nodes a (as @ e # bs))" by (auto simp: set_nodes)
  have dj: "set (nodes a (as @ e # bs)) \<inter> set (nodes b ys) = {}" if "b \<noteq> a" "F b = Some ys" for b ys
    using fam_disjoint [OF f a that(2)] that(1) by auto
  have "fam l' (F(a \<mapsto> as @ bs))"
    by (rule fam_update [OF f l'(2,3)]) (use dj sub in blast)+
  moreover have "e \<notin> set (nodes a (as @ bs))" "e \<noteq> 0"
    using list_at_ends [OF la] by (auto simp: set_nodes)
  moreover have "e \<in> set (nodes a (as @ e # bs))" by (simp add: set_nodes)
  ultimately show ?thesis
    using l'(1) dj by (fastforce elim!: fam_nodesE split: if_splits)
qed

lemma fam_init:
  assumes f: "fam l F" and a: "a \<noteq> 0" "head_of a \<notin> fam_nodes (F(a := None))" "tail_of a \<notin> fam_nodes (F(a := None))"
  shows "\<exists>l'. list_init a l = Inr l' \<and> fam l' (F(a \<mapsto> []))"
proof -
  obtain l' where l': "list_init a l = Inr l'" "list_at l' a []" "same_links {head_of a, tail_of a} l l'"
    using list_init_at [OF a(1)] by blast
  have "fam l' (F(a \<mapsto> []))"
  proof (rule fam_update [OF f l'(2,3)])
    show "{head_of a, tail_of a} \<inter> set (nodes b xs) = {}" if "b \<noteq> a" "F b = Some xs" for b xs
      using fam_nodes_mem [of "F(a := None)" b xs] that a(2,3) by auto
  qed (simp add: set_nodes)
  then show ?thesis using l'(1) by blast
qed

subsection \<open>Hash tables\<close>

text \<open>
  The hash function \<open>hf\<close> and the comparison \<open>eq\<close> of a table are its function pointers
  with their auxiliary argument; they read the structures the elements are part of.  A
  bucket is a \<open>struct list\<close> of sixteen bytes.  A routine that may allocate takes
  \<open>malloc\<close> as a function from the size to the address, 0 if the allocation fails.
\<close>

record hash =
  elem_cnt :: u32
  bucket_cnt :: u32
  buckets :: nat
  min_bucket_count :: u32

definition bucket_at :: "nat \<Rightarrow> u32 \<Rightarrow> nat" where
  "bucket_at b i = b + 16 * unat i"

definition find_bucket :: "(nat \<Rightarrow> u32) \<Rightarrow> hash \<Rightarrow> nat \<Rightarrow> nat" where
  "find_bucket hf t e =
     (let bucket_idx = hf e AND (bucket_cnt t - 1) in bucket_at (buckets t) bucket_idx)"

fun find_elem_loop :: "nat \<Rightarrow> (nat \<Rightarrow> nat \<Rightarrow> bool) \<Rightarrow> nat \<Rightarrow> nat \<Rightarrow> nat \<Rightarrow> links \<Rightarrow> nat res" where
  "find_elem_loop 0 eq i end_e e l = Inl OUT_OF_FUEL"
| "find_elem_loop (Suc n) eq i end_e e l =
     (if i \<noteq> end_e
      then if eq i e then Inr i else rbind (list_next i l) (\<lambda>i. find_elem_loop n eq i end_e e l)
      else Inr 0)"

definition find_elem :: "nat \<Rightarrow> (nat \<Rightarrow> nat \<Rightarrow> bool) \<Rightarrow> nat \<Rightarrow> nat \<Rightarrow> links \<Rightarrow> nat res" where
  "find_elem n eq bucket e l =
     rbind (list_begin bucket l) (\<lambda>i. rbind (list_end bucket) (\<lambda>end_e. find_elem_loop n eq i end_e e l))"

definition turn_off_least_1bit :: "u32 \<Rightarrow> u32" where
  "turn_off_least_1bit x = x AND (x - 1)"

definition is_power_of_2 :: "u32 \<Rightarrow> bool" where
  "is_power_of_2 x = (x \<noteq> 0 \<and> turn_off_least_1bit x = 0)"

definition BEST_ELEMS_PER_BUCKET :: u32 where
  "BEST_ELEMS_PER_BUCKET = 2"

fun power_loop :: "nat \<Rightarrow> u32 \<Rightarrow> u32 res" where
  "power_loop 0 x = Inl OUT_OF_FUEL"
| "power_loop (Suc n) x = (if \<not> is_power_of_2 x then power_loop n (turn_off_least_1bit x) else Inr x)"

definition new_bucket_cnt :: "nat \<Rightarrow> hash \<Rightarrow> u32 res" where
  "new_bucket_cnt n t =
     (let c = elem_cnt t div BEST_ELEMS_PER_BUCKET;
          c = (if c < min_bucket_count t then min_bucket_count t else c)
      in power_loop n c)"

text \<open>Moves the elements of one old bucket to their new buckets.\<close>

fun move_bucket :: "nat \<Rightarrow> (nat \<Rightarrow> u32) \<Rightarrow> hash \<Rightarrow> nat \<Rightarrow> nat \<Rightarrow> links \<Rightarrow> links res" where
  "move_bucket 0 hf t elem end_e l = Inl OUT_OF_FUEL"
| "move_bucket (Suc n) hf t elem end_e l =
     (if elem \<noteq> end_e
      then let new_bucket = find_bucket hf t elem in
        rbind (list_next elem l) (\<lambda>nx.
        rbind (list_remove elem l) (\<lambda>(r, l).
        rbind (list_push_front new_bucket elem l) (\<lambda>l.
          move_bucket n hf t nx end_e l)))
      else Inr l)"

definition rehash :: "nat \<Rightarrow> (nat \<Rightarrow> u32) \<Rightarrow> (nat \<Rightarrow> nat) \<Rightarrow> hash \<Rightarrow> links \<Rightarrow> (hash \<times> links) res" where
  "rehash n hf malloc t l =
     (let old_buckets = buckets t; old_bucket_cnt = bucket_cnt t in
      rbind (new_bucket_cnt n t) (\<lambda>c.
        let new_buckets = malloc (unat (16 * c)) in
        if c = old_bucket_cnt then Inr (t, l)
        else if new_buckets = 0 then Inr (t, l)
        else rbind (rfold (\<lambda>i. list_init (new_buckets + 16 * i)) [0..<unat c] l) (\<lambda>l.
          let t = t\<lparr>buckets := new_buckets, bucket_cnt := c\<rparr> in
          rbind (rfold (\<lambda>i l.
                   rbind (list_begin (old_buckets + 16 * i) l) (\<lambda>elem.
                   rbind (list_end (old_buckets + 16 * i)) (\<lambda>end_e. move_bucket n hf t elem end_e l)))
                 [0..<unat old_bucket_cnt] l)
            (\<lambda>l. Inr (t, l)))))"

definition insert_elem :: "nat \<Rightarrow> nat \<Rightarrow> hash \<Rightarrow> links \<Rightarrow> (hash \<times> links) res" where
  "insert_elem bucket e t l =
     rbind (list_push_front bucket e l) (\<lambda>l. Inr (t\<lparr>elem_cnt := elem_cnt t + 1\<rparr>, l))"

definition remove_elem :: "nat \<Rightarrow> hash \<Rightarrow> links \<Rightarrow> (hash \<times> links) res" where
  "remove_elem e t l =
     rbind (list_remove e l) (\<lambda>(r, l). Inr (t\<lparr>elem_cnt := elem_cnt t - 1\<rparr>, l))"

text \<open>\<open>hash_clear\<close> returns the elements it gives to the destructor, in order.\<close>

fun clear_bucket :: "nat \<Rightarrow> nat \<Rightarrow> links \<Rightarrow> (nat list \<times> links) res" where
  "clear_bucket 0 bucket l = Inl OUT_OF_FUEL"
| "clear_bucket (Suc n) bucket l =
     rbind (list_empty bucket l) (\<lambda>b.
       if \<not> b
       then rbind (list_pop_front bucket l) (\<lambda>(e, l).
         rbind (clear_bucket n bucket l) (\<lambda>(es, l). Inr (e # es, l)))
       else Inr ([], l))"

definition hash_clear :: "nat \<Rightarrow> bool \<Rightarrow> hash \<Rightarrow> links \<Rightarrow> (nat list \<times> hash \<times> links) res" where
  "hash_clear n destructor t l =
     rbind (rfold (\<lambda>i (es, l).
              rbind (if destructor then clear_bucket n (buckets t + 16 * i) l else Inr ([], l)) (\<lambda>(fs, l).
              rbind (list_init (buckets t + 16 * i) l) (\<lambda>l. Inr (es @ fs, l))))
            [0..<unat (bucket_cnt t)] ([], l))
       (\<lambda>(es, l). Inr (es, t\<lparr>elem_cnt := 0\<rparr>, l))"

definition hash_init_size :: "nat \<Rightarrow> u32 \<Rightarrow> (nat \<Rightarrow> nat) \<Rightarrow> links \<Rightarrow> (bool \<times> hash \<times> links) res" where
  "hash_init_size n sz malloc l =
     (let t = \<lparr>elem_cnt = 0, bucket_cnt = sz, buckets = malloc (unat (16 * sz)), min_bucket_count = sz\<rparr> in
      if buckets t \<noteq> 0 then rbind (hash_clear n False t l) (\<lambda>(es, t, l). Inr (True, t, l))
      else Inr (False, t, l))"

definition hash_init :: "nat \<Rightarrow> (nat \<Rightarrow> nat) \<Rightarrow> links \<Rightarrow> (bool \<times> hash \<times> links) res" where
  "hash_init n malloc l = hash_init_size n 4 malloc l"

definition hash_destroy :: "nat \<Rightarrow> bool \<Rightarrow> hash \<Rightarrow> links \<Rightarrow> (nat list \<times> hash \<times> links) res" where
  "hash_destroy n destructor t l = (if destructor then hash_clear n True t l else Inr ([], t, l))"

definition hash_insert ::
  "nat \<Rightarrow> (nat \<Rightarrow> u32) \<Rightarrow> (nat \<Rightarrow> nat \<Rightarrow> bool) \<Rightarrow> (nat \<Rightarrow> nat) \<Rightarrow> nat \<Rightarrow> hash \<Rightarrow> links \<Rightarrow> (nat \<times> hash \<times> links) res" where
  "hash_insert n hf eq malloc e t l =
     (let bucket = find_bucket hf t e in
      rbind (find_elem n eq bucket e l) (\<lambda>old.
      rbind (if old = 0 then insert_elem bucket e t l else Inr (t, l)) (\<lambda>(t, l).
      rbind (rehash n hf malloc t l) (\<lambda>(t, l). Inr (old, t, l)))))"

definition hash_replace ::
  "nat \<Rightarrow> (nat \<Rightarrow> u32) \<Rightarrow> (nat \<Rightarrow> nat \<Rightarrow> bool) \<Rightarrow> (nat \<Rightarrow> nat) \<Rightarrow> nat \<Rightarrow> hash \<Rightarrow> links \<Rightarrow> (nat \<times> hash \<times> links) res" where
  "hash_replace n hf eq malloc e t l =
     (let bucket = find_bucket hf t e in
      rbind (find_elem n eq bucket e l) (\<lambda>old.
      rbind (if old \<noteq> 0 then remove_elem old t l else Inr (t, l)) (\<lambda>(t, l).
      rbind (insert_elem bucket e t l) (\<lambda>(t, l).
      rbind (rehash n hf malloc t l) (\<lambda>(t, l). Inr (old, t, l))))))"

definition hash_find :: "nat \<Rightarrow> (nat \<Rightarrow> u32) \<Rightarrow> (nat \<Rightarrow> nat \<Rightarrow> bool) \<Rightarrow> nat \<Rightarrow> hash \<Rightarrow> links \<Rightarrow> nat res" where
  "hash_find n hf eq e t l = find_elem n eq (find_bucket hf t e) e l"

definition hash_find_bucket :: "(nat \<Rightarrow> u32) \<Rightarrow> nat \<Rightarrow> hash \<Rightarrow> nat" where
  "hash_find_bucket hf e t = find_bucket hf t e"

definition hash_find_bucket_with_hash :: "u32 \<Rightarrow> hash \<Rightarrow> nat" where
  "hash_find_bucket_with_hash hashval t = bucket_at (buckets t) (hashval AND (bucket_cnt t - 1))"

definition hash_delete ::
  "nat \<Rightarrow> (nat \<Rightarrow> u32) \<Rightarrow> (nat \<Rightarrow> nat \<Rightarrow> bool) \<Rightarrow> (nat \<Rightarrow> nat) \<Rightarrow> nat \<Rightarrow> hash \<Rightarrow> links \<Rightarrow> (nat \<times> hash \<times> links) res" where
  "hash_delete n hf eq malloc e t l =
     rbind (find_elem n eq (find_bucket hf t e) e l) (\<lambda>found.
       if found \<noteq> 0
       then rbind (remove_elem found t l) (\<lambda>(t, l).
         rbind (rehash n hf malloc t l) (\<lambda>(t, l). Inr (found, t, l)))
       else Inr (found, t, l))"

text \<open>\<open>hash_apply\<close> returns the elements it gives to the action, in order; the action leaves the links alone.\<close>

fun apply_loop :: "nat \<Rightarrow> nat \<Rightarrow> nat \<Rightarrow> links \<Rightarrow> nat list res" where
  "apply_loop 0 elem end_e l = Inl OUT_OF_FUEL"
| "apply_loop (Suc n) elem end_e l =
     (if elem \<noteq> end_e
      then rbind (list_next elem l) (\<lambda>nx. rbind (apply_loop n nx end_e l) (\<lambda>es. Inr (elem # es)))
      else Inr [])"

definition hash_apply :: "nat \<Rightarrow> hash \<Rightarrow> links \<Rightarrow> nat list res" where
  "hash_apply n t l =
     rfold (\<lambda>i es.
         rbind (list_begin (buckets t + 16 * i) l) (\<lambda>elem.
         rbind (list_end (buckets t + 16 * i)) (\<lambda>end_e.
         rbind (apply_loop n elem end_e l) (\<lambda>fs. Inr (es @ fs)))))
       [0..<unat (bucket_cnt t)] []"

record hash_iterator =
  it_bucket :: nat
  it_elem :: nat

definition hash_first :: "hash \<Rightarrow> hash_iterator res" where
  "hash_first t = rbind (list_head (buckets t)) (\<lambda>e. Inr \<lparr>it_bucket = buckets t, it_elem = e\<rparr>)"

fun next_loop :: "nat \<Rightarrow> hash \<Rightarrow> hash_iterator \<Rightarrow> links \<Rightarrow> hash_iterator res" where
  "next_loop 0 t i l = Inl OUT_OF_FUEL"
| "next_loop (Suc n) t i l =
     rbind (list_end (it_bucket i)) (\<lambda>end_e.
       if it_elem i = end_e
       then let i = i\<lparr>it_bucket := it_bucket i + 16\<rparr> in
         if it_bucket i \<ge> buckets t + 16 * unat (bucket_cnt t) then Inr (i\<lparr>it_elem := 0\<rparr>)
         else rbind (list_begin (it_bucket i) l) (\<lambda>b. next_loop n t (i\<lparr>it_elem := b\<rparr>) l)
       else Inr i)"

definition hash_next :: "nat \<Rightarrow> hash \<Rightarrow> hash_iterator \<Rightarrow> links \<Rightarrow> (nat \<times> hash_iterator) res" where
  "hash_next n t i l =
     rbind (list_next (it_elem i) l) (\<lambda>e.
     rbind (next_loop n t (i\<lparr>it_elem := e\<rparr>) l) (\<lambda>i. Inr (it_elem i, i)))"

definition hash_cur :: "hash_iterator \<Rightarrow> nat" where
  "hash_cur i = it_elem i"

definition hash_size :: "hash \<Rightarrow> u32" where
  "hash_size t = elem_cnt t"

definition hash_empty :: "hash \<Rightarrow> bool" where
  "hash_empty t = (elem_cnt t = 0)"

subsection \<open>Sample hash functions\<close>

definition FNV_32_PRIME :: u32 where
  "FNV_32_PRIME = 16777619"

definition FNV_32_BASIS :: u32 where
  "FNV_32_BASIS = 2166136261"

definition fnv :: "u8 \<Rightarrow> u32 \<Rightarrow> u32" where
  "fnv b hash = (hash * FNV_32_PRIME) XOR ucast b"

definition hash_bytes :: "cmem \<Rightarrow> nat \<Rightarrow> nat \<Rightarrow> u32 res" where
  "hash_bytes m buf sz =
     assert_then (buf \<noteq> 0)
       (rfold (\<lambda>i hash. rbind (ld8 m (buf + i)) (\<lambda>b. Inr (fnv b hash))) [0..<sz] FNV_32_BASIS)"

fun hash_string_loop :: "nat \<Rightarrow> cmem \<Rightarrow> nat \<Rightarrow> u32 \<Rightarrow> u32 res" where
  "hash_string_loop 0 m s hash = Inl OUT_OF_FUEL"
| "hash_string_loop (Suc n) m s hash =
     rbind (ld8 m s) (\<lambda>c. if c \<noteq> 0 then hash_string_loop n m (s + 1) (fnv c hash) else Inr hash)"

definition hash_string :: "nat \<Rightarrow> cmem \<Rightarrow> nat \<Rightarrow> u32 res" where
  "hash_string n m s = assert_then (s \<noteq> 0) (hash_string_loop n m s FNV_32_BASIS)"

text \<open>\<open>hash_int\<close> hashes the four bytes of its argument, the low one first.\<close>

definition hash_int :: "u32 \<Rightarrow> u32" where
  "hash_int i = fold fnv (map (\<lambda>k. ucast (drop_bit (8 * k) i)) [0..<4]) FNV_32_BASIS"

subsection \<open>Arrays of buckets\<close>

text \<open>The family of the buckets in an array at address \<open>b\<close>.\<close>

definition arr :: "nat \<Rightarrow> nat list list \<Rightarrow> nat \<rightharpoonup> nat list" where
  "arr b bs a = (if b \<le> a \<and> (a - b) mod 16 = 0 \<and> (a - b) div 16 < length bs then Some (bs ! ((a - b) div 16)) else None)"

definition region :: "nat \<Rightarrow> nat \<Rightarrow> nat set" where
  "region b c = {b..<b + 16 * c}"

lemma arr_at [simp]: "i < length bs \<Longrightarrow> arr b bs (b + 16 * i) = Some (bs ! i)"
  by (simp add: arr_def)

lemma arrE:
  assumes "arr b bs a = Some xs"
  obtains i where "i < length bs" "a = b + 16 * i" "xs = bs ! i"
proof -
  have a: "b \<le> a" "(a - b) mod 16 = 0" "(a - b) div 16 < length bs" "xs = bs ! ((a - b) div 16)"
    using assms by (auto simp: arr_def split: if_splits)
  then have "a = b + 16 * ((a - b) div 16)" by auto
  then show ?thesis using that a by blast
qed

lemma arr_update: "i < length bs \<Longrightarrow> (arr b bs)(b + 16 * i \<mapsto> xs) = arr b (bs[i := xs])"
proof
  fix a assume i: "i < length bs"
  show "((arr b bs)(b + 16 * i \<mapsto> xs)) a = arr b (bs[i := xs]) a"
  proof (cases "a = b + 16 * i")
    case False
    then have "i \<noteq> (a - b) div 16" if "b \<le> a" "(a - b) mod 16 = 0" using that by auto
    then show ?thesis using False by (auto simp: arr_def)
  qed (simp add: i)
qed

lemma arr_snoc: "arr b (bs @ [xs]) = (arr b bs)(b + 16 * length bs \<mapsto> xs)"
proof
  fix a
  show "arr b (bs @ [xs]) a = ((arr b bs)(b + 16 * length bs \<mapsto> xs)) a"
  proof (cases "a = b + 16 * length bs")
    case False
    then have "(a - b) div 16 \<noteq> length bs" if "b \<le> a" "(a - b) mod 16 = 0" using that by auto
    then show ?thesis using False by (auto simp: arr_def nth_append)
  qed (simp add: arr_def)
qed

lemma arr_Nil [simp]: "arr b [] = Map.empty"
  by (auto simp: arr_def)

lemma dom_arr: "dom (arr b bs) \<subseteq> region b (length bs)"
  by (auto simp: region_def elim!: arrE)

lemma fam_sub: "fam l F \<Longrightarrow> G \<subseteq>\<^sub>m F \<Longrightarrow> fam l G"
  unfolding fam_def map_le_def by (metis domI)

lemma fam_nodes_cases:
  assumes "x \<in> fam_nodes (F ++ G)"
  shows "x \<in> fam_nodes F \<or> x \<in> fam_nodes G"
  using assms by (auto elim!: fam_nodesE dest: fam_nodes_mem simp: map_add_Some_iff)

text \<open>New buckets in memory that no list uses.\<close>

lemma init_buckets:
  assumes f: "fam l F" and nb: "nb \<noteq> 0" and r: "region nb c \<inter> fam_nodes F = {}" and k: "k \<le> c"
  shows "\<exists>l'. rfold (\<lambda>i. list_init (nb + 16 * i)) [0..<k] l = Inr l' \<and> fam l' (F ++ arr nb (replicate k []))"
  using k
proof (induction k)
  case 0
  then show ?case using f by simp
next
  case (Suc k)
  then obtain l1 where l1: "rfold (\<lambda>i. list_init (nb + 16 * i)) [0..<k] l = Inr l1" "fam l1 (F ++ arr nb (replicate k []))"
    by auto
  let ?a = "nb + 16 * k"
  have "x \<notin> fam_nodes ((F ++ arr nb (replicate k []))(?a := None))" if "x \<in> {head_of ?a, tail_of ?a}" for x
  proof
    assume x: "x \<in> fam_nodes ((F ++ arr nb (replicate k []))(?a := None))"
    have xr: "x \<in> region nb c" using that Suc.prems by (auto simp: region_def head_of_def tail_of_def)
    obtain b ys where b: "b \<noteq> ?a" "(F ++ arr nb (replicate k [])) b = Some ys" "x \<in> set (nodes b ys)"
      using x by (auto elim!: fam_nodesE split: if_splits)
    then consider "F b = Some ys" | "arr nb (replicate k []) b = Some ys" by (auto simp: map_add_Some_iff)
    then show False
    proof cases
      case 1
      then show False using fam_nodes_mem [of F b ys] b(3) xr r by auto
    next
      case 2
      then obtain i where "i < k" "b = nb + 16 * i" "ys = []" by (auto elim!: arrE)
      then show False using b(3) that by (auto simp: set_nodes head_of_def tail_of_def) presburger+
    qed
  qed
  then obtain l2 where l2: "list_init ?a l1 = Inr l2" "fam l2 ((F ++ arr nb (replicate k []))(?a \<mapsto> []))"
    using fam_init [OF l1(2), of ?a] nb by auto
  have "(F ++ arr nb (replicate k []))(?a \<mapsto> []) = F ++ arr nb (replicate (Suc k) [])"
    using arr_snoc [of nb "replicate k []" "[]"] by (simp add: replicate_append_same)
  then show ?case using l1(1) l2 by (simp add: rfold_append)
qed

subsection \<open>The number of buckets\<close>

lemma turn_off_less:
  assumes "x \<noteq> 0"
  shows "turn_off_least_1bit x < x"
proof -
  have "x AND (x - 1) \<le> x" "x AND (x - 1) \<le> x - 1" by (simp_all add: word_and_le1 word_and_le2)
  moreover have "x - 1 < x"
    using unat_gt_0 [of x] assms by (simp add: word_less_nat_alt unat_minus_one)
  ultimately show ?thesis by (simp add: turn_off_least_1bit_def)
qed

lemma turn_off_bits:
  assumes "x \<noteq> 0"
  shows "{i. bit (turn_off_least_1bit x) i} \<subset> {i. bit x i}"
proof -
  have "{i. bit (turn_off_least_1bit x) i} \<subseteq> {i. bit x i}" by (auto simp: turn_off_least_1bit_def bit_simps)
  moreover have "turn_off_least_1bit x \<noteq> x" using turn_off_less [OF assms] by auto
  then have "{i. bit (turn_off_least_1bit x) i} \<noteq> {i. bit x i}" by (metis bit_eqI mem_Collect_eq)
  ultimately show ?thesis by blast
qed

lemma finite_bits: "finite {i. bit (x :: u32) i}"
  by (rule finite_subset [of _ "{..<32}"]) (auto dest: bit_imp_le_length)

lemma card_bits: "card {i. bit (x :: u32) i} \<le> 32"
proof -
  have "{i. bit x i} \<subseteq> {..<32}" by (auto dest: bit_imp_le_length)
  from card_mono [OF _ this] show ?thesis by simp
qed

lemma power_loop_ok:
  "x \<noteq> 0 \<Longrightarrow> card {i. bit x i} < n \<Longrightarrow> \<exists>c. power_loop n x = Inr c \<and> is_power_of_2 c \<and> c \<le> x"
proof (induction n arbitrary: x)
  case (Suc n)
  show ?case
  proof (cases "is_power_of_2 x")
    case False
    let ?y = "turn_off_least_1bit x"
    have "?y \<noteq> 0" using False Suc.prems(1) by (simp add: is_power_of_2_def)
    moreover have "card {i. bit ?y i} < n"
      using psubset_card_mono [OF finite_bits turn_off_bits [OF Suc.prems(1)]] Suc.prems(2) by simp
    ultimately obtain c where "power_loop n ?y = Inr c" "is_power_of_2 c" "c \<le> ?y" using Suc.IH by blast
    then show ?thesis using False turn_off_less [OF Suc.prems(1)] by auto
  qed auto
qed simp

lemma new_bucket_cnt_ok:
  assumes "min_bucket_count t \<noteq> 0" "32 < n" "min_bucket_count t < 2 ^ 28" "elem_cnt t < 2 ^ 29"
  shows "\<exists>c. new_bucket_cnt n t = Inr c \<and> c \<noteq> 0 \<and> c < 2 ^ 28"
proof -
  let ?c = "elem_cnt t div BEST_ELEMS_PER_BUCKET"
  let ?d = "if ?c < min_bucket_count t then min_bucket_count t else ?c"
  have "?d \<noteq> 0" using assms(1) by (auto simp: not_less)
  then obtain c where "power_loop n ?d = Inr c" "is_power_of_2 c" "c \<le> ?d"
    using power_loop_ok [of ?d n] card_bits [of ?d] assms(2) by fastforce
  moreover have "unat ?c < 2 ^ 28"
    using assms(4) by (simp add: BEST_ELEMS_PER_BUCKET_def unat_div word_less_nat_alt)
  then have "?d < 2 ^ 28" using assms(3) by (simp add: word_less_nat_alt)
  ultimately show ?thesis by (auto simp: new_bucket_cnt_def Let_def is_power_of_2_def)
qed

subsection \<open>Tables\<close>

definition idx :: "(nat \<Rightarrow> u32) \<Rightarrow> u32 \<Rightarrow> nat \<Rightarrow> nat" where
  "idx hf c e = unat (hf e AND (c - 1))"

lemma idx_less: "c \<noteq> 0 \<Longrightarrow> idx hf c e < unat c"
proof -
  assume c: "c \<noteq> 0"
  have "hf e AND (c - 1) \<le> c - 1" by (rule word_and_le1)
  then have "unat (hf e AND (c - 1)) \<le> unat c - 1" using c by (simp add: word_le_nat_alt unat_minus_one)
  moreover have "0 < unat c" using c by (simp add: unat_gt_0)
  ultimately show ?thesis by (simp add: idx_def)
qed

lemma find_bucket_idx: "find_bucket hf t e = buckets t + 16 * idx hf (bucket_cnt t) e"
  by (simp add: find_bucket_def bucket_at_def idx_def)

definition place :: "(nat \<Rightarrow> u32) \<Rightarrow> u32 \<Rightarrow> nat \<Rightarrow> nat list list \<Rightarrow> nat list list" where
  "place hf c e bs = bs[idx hf c e := e # bs ! idx hf c e]"

definition sorted_by :: "(nat \<Rightarrow> u32) \<Rightarrow> u32 \<Rightarrow> nat list list \<Rightarrow> bool" where
  "sorted_by hf c bs \<longleftrightarrow> length bs = unat c \<and> (\<forall>i < length bs. \<forall>e \<in> set (bs ! i). idx hf c e = i)"

lemma mset_concat_update:
  assumes "i < length bs"
  shows "mset (concat (bs[i := xs])) + mset (bs ! i) = mset (concat bs) + mset xs"
proof -
  have "bs = take i bs @ bs ! i # drop (Suc i) bs" using assms by (rule id_take_nth_drop)
  then have "mset (concat bs) = mset (concat (take i bs)) + mset (bs ! i) + mset (concat (drop (Suc i) bs))"
    by (metis concat.simps(2) concat_append mset_append union_assoc)
  moreover have "mset (concat (bs[i := xs])) = mset (concat (take i bs)) + mset xs + mset (concat (drop (Suc i) bs))"
    using assms by (simp add: upd_conv_take_nth_drop)
  ultimately show ?thesis by simp
qed

lemma place_facts:
  assumes "sorted_by hf c bs" "c \<noteq> 0"
  shows "sorted_by hf c (place hf c e bs)" "mset (concat (place hf c e bs)) = add_mset e (mset (concat bs))"
proof -
  have i: "idx hf c e < length bs" using assms idx_less [of c hf e] by (simp add: sorted_by_def)
  show "sorted_by hf c (place hf c e bs)"
    using assms i by (auto simp: sorted_by_def place_def nth_list_update)
  show "mset (concat (place hf c e bs)) = add_mset e (mset (concat bs))"
    using mset_concat_update [OF i, of "e # bs ! idx hf c e"] by (simp add: place_def)
qed

lemma fold_place_facts:
  assumes "c \<noteq> 0"
  shows "sorted_by hf c bs \<Longrightarrow> sorted_by hf c (fold (place hf c) xs bs) \<and> mset (concat (fold (place hf c) xs bs)) = mset xs + mset (concat bs)"
proof (induction xs arbitrary: bs)
  case (Cons x xs)
  then show ?case using place_facts [OF Cons.prems assms, of x] Cons.IH [of "place hf c x bs"] by simp
qed simp

text \<open>
  The links of a table with buckets \<open>bs\<close>.  The bounds keep the number of bytes of the buckets
  in a machine word: an element and a bucket have eight and sixteen bytes.
\<close>

definition table_at :: "(nat \<Rightarrow> u32) \<Rightarrow> links \<Rightarrow> hash \<Rightarrow> nat list list \<Rightarrow> bool" where
  "table_at hf l t bs \<longleftrightarrow> fam l (arr (buckets t) bs) \<and> sorted_by hf (bucket_cnt t) bs \<and> bucket_cnt t \<noteq> 0
     \<and> min_bucket_count t \<noteq> 0 \<and> elem_cnt t = of_nat (length (concat bs))
     \<and> bucket_cnt t < 2 ^ 28 \<and> min_bucket_count t < 2 ^ 28 \<and> length (concat bs) < 2 ^ 29"

lemma map_add_upd_left: "a \<notin> dom g \<Longrightarrow> (f ++ g)(a \<mapsto> x) = f(a \<mapsto> x) ++ g"
  by (auto simp: map_add_def fun_eq_iff split: option.splits)

lemma move_bucket_at:
  assumes "c \<noteq> 0" "buckets t = nb" "bucket_cnt t = c" "a \<notin> region nb (unat c)"
  shows "fam l (M(a \<mapsto> xs) ++ arr nb nbs) \<Longrightarrow> sorted_by hf c nbs \<Longrightarrow> length xs < n \<Longrightarrow>
    \<exists>l'. move_bucket n hf t (hd (xs @ [tail_of a])) (tail_of a) l = Inr l'
      \<and> fam l' (M(a \<mapsto> []) ++ arr nb (fold (place hf c) xs nbs))"
proof (induction n arbitrary: xs l nbs)
  case (Suc n)
  have a: "a \<notin> dom (arr nb nbs)" using dom_arr [of nb nbs] assms(4) Suc.prems(2) by (auto simp: sorted_by_def)
  have Fa: "(M(a \<mapsto> xs) ++ arr nb nbs) a = Some xs" using a by (simp add: map_add_dom_app_simps(3))
  note la = fam_at [OF Suc.prems(1) Fa]
  show ?case
  proof (cases xs)
    case Nil
    then show ?thesis using Suc.prems(1) by simp
  next
    case (Cons x ys)
    let ?i = "idx hf c x"
    have i: "?i < length nbs" using Suc.prems(2) idx_less [OF assms(1)] by (simp add: sorted_by_def)
    have xt: "x \<noteq> tail_of a" using list_at_ends(6) [OF la] Cons by auto
    have nx: "list_next x l = Inr (hd (ys @ [tail_of a]))" using list_next_at [of l a "[]" x ys] la Cons by simp
    obtain l1 r where l1: "list_remove x l = Inr (r, l1)" "fam l1 (M(a \<mapsto> ys) ++ arr nb nbs)"
        "x \<notin> fam_nodes (M(a \<mapsto> ys) ++ arr nb nbs)" "x \<noteq> 0"
    proof -
      have "(M(a \<mapsto> xs) ++ arr nb nbs) a = Some ([] @ x # ys)" using Fa Cons by simp
      from fam_remove [OF Suc.prems(1) this] show ?thesis
        using that unfolding map_add_upd_left [OF a] fun_upd_upd append_Nil by blast
    qed
    obtain l2 where l2: "list_push_front (nb + 16 * ?i) x l1 = Inr l2" "fam l2 (M(a \<mapsto> ys) ++ arr nb (place hf c x nbs))"
    proof -
      have "(M(a \<mapsto> ys) ++ arr nb nbs) (nb + 16 * ?i) = Some (nbs ! ?i)" using i by (simp add: map_add_find_right)
      from fam_push_front [OF l1(2) this l1(3,4)] show ?thesis
        using that unfolding map_add_upd [symmetric] arr_update [OF i] place_def by blast
    qed
    have "length ys < n" using Suc.prems(3) Cons by simp
    then obtain l3 where "move_bucket n hf t (hd (ys @ [tail_of a])) (tail_of a) l2 = Inr l3"
        "fam l3 (M(a \<mapsto> []) ++ arr nb (fold (place hf c) ys (place hf c x nbs)))"
      using Suc.IH [OF l2(2) place_facts(1) [OF Suc.prems(2) assms(1)]] by blast
    then show ?thesis
      using Cons xt nx l1(1) l2(1) assms(2,3) by (simp add: find_bucket_idx del: fun_upd_apply)
  qed
qed simp

lemma fam_nodes_arr: "fam_nodes (arr b bs) \<subseteq> region b (length bs) \<union> set (concat bs)"
proof
  fix x assume "x \<in> fam_nodes (arr b bs)"
  then obtain i where "i < length bs" "x \<in> set (nodes (b + 16 * i) (bs ! i))" by (auto elim!: fam_nodesE arrE)
  then show "x \<in> region b (length bs) \<union> set (concat bs)"
    by (auto simp: set_nodes head_of_def tail_of_def region_def)
qed

text \<open>Memory given out by \<open>malloc\<close> is not in use.\<close>

definition malloc_fresh :: "(nat \<Rightarrow> nat) \<Rightarrow> nat set \<Rightarrow> bool" where
  "malloc_fresh malloc A \<longleftrightarrow> (\<forall>sz. malloc sz = 0 \<or> {malloc sz..<malloc sz + sz} \<inter> A = {})"

lemma buckets_size: "(c :: u32) < 2 ^ 28 \<Longrightarrow> unat (16 * c) = 16 * unat c"
  by (simp add: unat_word_ariths word_less_nat_alt)

lemma malloc_freshD:
  "malloc_fresh malloc A \<Longrightarrow> (c :: u32) < 2 ^ 28 \<Longrightarrow> malloc (unat (16 * c)) \<noteq> 0 \<Longrightarrow> region (malloc (unat (16 * c))) (unat c) \<inter> A = {}"
  using buckets_size [of c] unfolding malloc_fresh_def region_def by (metis (no_types))

lemma length_le_concat: "i < length bs \<Longrightarrow> length (bs ! i) \<le> length (concat bs)"
proof (induction bs arbitrary: i)
  case (Cons b bs)
  then show ?case by (cases i) (auto simp: trans_le_add2)
qed simp

lemma move_buckets_at:
  assumes c: "c \<noteq> 0" and t: "buckets t = nb" "bucket_cnt t = c" and n: "length (concat bs) < n"
    and rg: "region nb (unat c) \<inter> region ob (length bs) = {}"
    and f: "fam l (arr ob bs ++ arr nb e0)" and s0: "sorted_by hf c e0"
  shows "\<exists>l'. rfold (\<lambda>i l. rbind (list_begin (ob + 16 * i) l) (\<lambda>elem.
        rbind (list_end (ob + 16 * i)) (\<lambda>end_e. move_bucket n hf t elem end_e l))) [0..<length bs] l = Inr l'
    \<and> fam l' (arr nb (fold (place hf c) (concat bs) e0))"
proof -
  define body where "body = (\<lambda>i l. rbind (list_begin (ob + 16 * i) l) (\<lambda>elem.
      rbind (list_end (ob + 16 * i)) (\<lambda>end_e. move_bucket n hf t elem end_e l)))"
  define P where "P = (\<lambda>i l. fam l (arr ob (replicate i [] @ drop i bs) ++ arr nb (fold (place hf c) (concat (take i bs)) e0)))"
  have step: "\<exists>l'. body i l = Inr l' \<and> P (Suc i) l'" if ii: "i < length bs" and Pi: "P i l" for i l
  proof -
    let ?a = "ob + 16 * i" and ?M = "arr ob (replicate i [] @ drop i bs)"
    let ?nbs = "fold (place hf c) (concat (take i bs)) e0"
    have M: "?M ?a = Some (bs ! i)" using ii by (simp add: nth_append)
    then have Ma: "?M(?a \<mapsto> bs ! i) = ?M" by (simp add: fun_upd_idem)
    have a: "?a \<notin> region nb (unat c)" using rg ii by (auto simp: region_def)
    have sb: "sorted_by hf c ?nbs" using fold_place_facts [OF c s0] by blast
    have dn: "?a \<notin> dom (arr nb ?nbs)" using dom_arr [of nb ?nbs] a sb by (auto simp: sorted_by_def)
    have la: "list_at l ?a (bs ! i)" using fam_at [of l "?M ++ arr nb ?nbs" ?a "bs ! i"] Pi M dn
      by (simp add: P_def map_add_dom_app_simps(3))
    have len: "length (bs ! i) < n" using length_le_concat [OF ii] n by simp
    obtain l' where l': "move_bucket n hf t (hd (bs ! i @ [tail_of ?a])) (tail_of ?a) l = Inr l'"
        "fam l' (?M(?a \<mapsto> []) ++ arr nb (fold (place hf c) (bs ! i) ?nbs))"
      using move_bucket_at [OF c t a, of l ?M "bs ! i" ?nbs hf n] sb len Pi by (auto simp: Ma P_def)
    have "?M(?a \<mapsto> []) = arr ob (replicate (Suc i) [] @ drop (Suc i) bs)"
      using ii arr_update [of i "replicate i [] @ drop i bs" ob "[]"]
      by (simp add: list_update_append Cons_nth_drop_Suc [symmetric] replicate_append_same [symmetric])
    moreover have "concat (take (Suc i) bs) = concat (take i bs) @ bs ! i"
      using ii by (simp add: take_Suc_conv_app_nth)
    ultimately show ?thesis
      using l' la by (simp add: body_def list_begin_at list_end_at P_def)
  qed
  obtain l' where l': "rfold body [0..<length bs] l = Inr l'" "P (length bs) l'"
    using rfold_upt_total [of P 0 l "length bs" body] step f by (auto simp: P_def)
  have "fam l' (arr nb (fold (place hf c) (concat bs) e0))"
    by (rule fam_sub [OF l'(2) [unfolded P_def]]) simp
  then show ?thesis using l'(1) by (simp add: body_def)
qed

lemma rehash_at:
  assumes t: "table_at hf l t bs" and n: "length (concat bs) < n" "32 < n"
    and fr: "malloc_fresh malloc (region (buckets t) (unat (bucket_cnt t)) \<union> set (concat bs))"
  shows "\<exists>t' l' bs'. rehash n hf malloc t l = Inr (t', l') \<and> table_at hf l' t' bs' \<and> mset (concat bs') = mset (concat bs)
    \<and> elem_cnt t' = elem_cnt t"
proof -
  let ?ob = "buckets t" and ?oc = "bucket_cnt t"
  have ta: "fam l (arr ?ob bs)" "sorted_by hf ?oc bs" "min_bucket_count t \<noteq> 0" "elem_cnt t = of_nat (length (concat bs))"
      "min_bucket_count t < 2 ^ 28" "length (concat bs) < 2 ^ 29"
    using t by (simp_all add: table_at_def)
  have "elem_cnt t < 2 ^ 29" using ta(4,6) by (simp add: word_less_nat_alt unsigned_of_nat take_bit_nat_eq_self)
  note ok = new_bucket_cnt_ok [OF ta(3) n(2) ta(5) this]
  have lb: "length bs = unat ?oc" using ta(2) by (simp add: sorted_by_def)
  obtain c where c: "new_bucket_cnt n t = Inr c" "c \<noteq> 0" "c < 2 ^ 28" using ok by blast
  define nb where "nb = malloc (unat (16 * c))"
  show ?thesis
  proof (cases "c = ?oc \<or> nb = 0")
    case True
    then have "rehash n hf malloc t l = Inr (t, l)" using c(1) by (auto simp: rehash_def Let_def nb_def)
    then show ?thesis using t by blast
  next
    case False
    have rg: "region nb (unat c) \<inter> (region ?ob (unat ?oc) \<union> set (concat bs)) = {}"
      using malloc_freshD [OF fr c(3)] False unfolding nb_def by argo
    then have "region nb (unat c) \<inter> fam_nodes (arr ?ob bs) = {}" using fam_nodes_arr [of ?ob bs] lb by auto
    then obtain l1 where l1: "rfold (\<lambda>i. list_init (nb + 16 * i)) [0..<unat c] l = Inr l1"
        "fam l1 (arr ?ob bs ++ arr nb (replicate (unat c) []))"
      using init_buckets [OF ta(1), of nb "unat c" "unat c"] False by auto
    define t' where "t' = t\<lparr>buckets := nb, bucket_cnt := c\<rparr>"
    have s0: "sorted_by hf c (replicate (unat c) [])" by (simp add: sorted_by_def)
    define nbs where "nbs = fold (place hf c) (concat bs) (replicate (unat c) [])"
    obtain l2 where l2: "rfold (\<lambda>i l. rbind (list_begin (?ob + 16 * i) l) (\<lambda>elem.
        rbind (list_end (?ob + 16 * i)) (\<lambda>end_e. move_bucket n hf t' elem end_e l))) [0..<length bs] l1 = Inr l2"
        "fam l2 (arr nb nbs)"
      using move_buckets_at [OF c(2) _ _ n(1) _ l1(2) s0, of t'] rg lb by (auto simp: t'_def nbs_def)
    have f: "sorted_by hf c nbs" "mset (concat nbs) = mset (concat bs)"
      using fold_place_facts [OF c(2) s0, of "concat bs"] by (auto simp: nbs_def)
    have "table_at hf l2 t' nbs"
      using f l2(2) c(2,3) ta(3-6) mset_eq_length [OF f(2)] by (simp add: table_at_def t'_def)
    moreover have "rehash n hf malloc t l = Inr (t', l2)"
      using c(1) False l1(1) l2(1) lb unfolding t'_def by (simp add: rehash_def Let_def nb_def [symmetric])
    ultimately show ?thesis using f(2) by (intro exI [of _ t'] exI [of _ l2] exI [of _ nbs]) (simp add: t'_def)
  qed
qed

subsection \<open>Sets of elements\<close>

text \<open>What the users of a table promise of its two functions.\<close>

locale hash_eq =
  fixes hf :: "nat \<Rightarrow> u32" and eq :: "nat \<Rightarrow> nat \<Rightarrow> bool"
  assumes eq_sym: "eq a b \<Longrightarrow> eq b a" and eq_hash: "eq a b \<Longrightarrow> hf a = hf b"

text \<open>With a transitive equality at most one element of a table is equal to a given one.\<close>

locale hash_fun = hash_eq +
  assumes eq_trans: "eq a b \<Longrightarrow> eq b c \<Longrightarrow> eq a c"

text \<open>The table holds the elements of \<open>S\<close>, of which no two are equal.\<close>

definition holds_set :: "(nat \<Rightarrow> u32) \<Rightarrow> (nat \<Rightarrow> nat \<Rightarrow> bool) \<Rightarrow> links \<Rightarrow> hash \<Rightarrow> nat set \<Rightarrow> bool" where
  "holds_set hf eq l t S \<longleftrightarrow> (\<exists>bs. table_at hf l t bs \<and> S = set (concat bs) \<and> distinct (concat bs))
     \<and> (\<forall>a \<in> S. \<forall>b \<in> S. eq a b \<longrightarrow> a = b)"

definition in_use :: "hash \<Rightarrow> nat set \<Rightarrow> nat set" where
  "in_use t S = region (buckets t) (unat (bucket_cnt t)) \<union> S"

lemma find_elem_loop_at:
  "list_at l b (as @ xs) \<Longrightarrow> length xs < n \<Longrightarrow>
   find_elem_loop n eq (hd (xs @ [tail_of b])) (tail_of b) e l
     = Inr (case List.find (\<lambda>x. eq x e) xs of None \<Rightarrow> 0 | Some x \<Rightarrow> x)"
proof (induction n arbitrary: as xs)
  case (Suc n)
  show ?case
  proof (cases xs)
    case (Cons x ys)
    have "x \<noteq> tail_of b" using list_at_ends(6) [OF Suc.prems(1)] Cons by auto
    moreover have "list_next x l = Inr (hd (ys @ [tail_of b]))" using list_next_at [of l b as x ys] Suc.prems(1) Cons by simp
    ultimately show ?thesis using Suc.IH [of "as @ [x]" ys] Suc.prems Cons by simp
  qed simp
qed simp

lemma find_elem_at:
  "list_at l b xs \<Longrightarrow> length xs < n \<Longrightarrow> find_elem n eq b e l = Inr (case List.find (\<lambda>x. eq x e) xs of None \<Rightarrow> 0 | Some x \<Rightarrow> x)"
  using find_elem_loop_at [of l b "[]" xs n eq e] by (simp add: find_elem_def list_begin_at list_end_at)

lemma table_bucket:
  assumes "table_at hf l t bs"
  shows "idx hf (bucket_cnt t) e < length bs" "list_at l (find_bucket hf t e) (bs ! idx hf (bucket_cnt t) e)"
proof -
  show i: "idx hf (bucket_cnt t) e < length bs"
    using assms idx_less [of "bucket_cnt t" hf e] by (simp add: table_at_def sorted_by_def)
  show "list_at l (find_bucket hf t e) (bs ! idx hf (bucket_cnt t) e)"
    using assms i by (intro fam_at [of l "arr (buckets t) bs"]) (simp_all add: table_at_def find_bucket_idx)
qed

lemma insert_elem_at:
  assumes t: "table_at hf l t bs" and e: "e \<notin> in_use t (set (concat bs))" "e \<noteq> 0"
    and n: "Suc (length (concat bs)) < 2 ^ 29"
  shows "\<exists>t' l'. insert_elem (find_bucket hf t e) e t l = Inr (t', l') \<and> table_at hf l' t' (place hf (bucket_cnt t) e bs)
    \<and> buckets t' = buckets t \<and> bucket_cnt t' = bucket_cnt t"
proof -
  let ?c = "bucket_cnt t"
  have ta: "fam l (arr (buckets t) bs)" "sorted_by hf ?c bs" "?c \<noteq> 0" "min_bucket_count t \<noteq> 0"
      "elem_cnt t = of_nat (length (concat bs))" "?c < 2 ^ 28" "min_bucket_count t < 2 ^ 28" "length (concat bs) < 2 ^ 29"
    using t by (simp_all add: table_at_def)
  note i = table_bucket(1) [OF t, of e]
  have "e \<notin> fam_nodes (arr (buckets t) bs)"
    using e(1) fam_nodes_arr [of "buckets t" bs] ta(2) by (auto simp: in_use_def sorted_by_def)
  from fam_push_front [OF ta(1) arr_at [OF i] this e(2)] obtain l' where
    l': "list_push_front (find_bucket hf t e) e l = Inr l'" "fam l' (arr (buckets t) (place hf ?c e bs))"
    by (auto simp: arr_update [OF i] place_def find_bucket_idx)
  note pf = place_facts [OF ta(2,3), of e]
  have "size (concat (place hf ?c e bs)) = Suc (size (concat bs))"
    using arg_cong [OF pf(2), of size] by simp
  then have "table_at hf l' (t\<lparr>elem_cnt := elem_cnt t + 1\<rparr>) (place hf ?c e bs)"
    using l'(2) ta(3-7) n pf(1) by (simp add: table_at_def)
  then show ?thesis using l'(1) by (simp add: insert_elem_def)
qed

lemma remove_elem_at:
  assumes t: "table_at hf l t bs" and i: "i < length bs" and r: "r \<in> set (bs ! i)"
  shows "\<exists>t' l' bs'. remove_elem r t l = Inr (t', l') \<and> table_at hf l' t' bs' \<and> add_mset r (mset (concat bs')) = mset (concat bs)
    \<and> buckets t' = buckets t \<and> bucket_cnt t' = bucket_cnt t"
proof -
  let ?c = "bucket_cnt t"
  have ta: "fam l (arr (buckets t) bs)" "sorted_by hf ?c bs" "?c \<noteq> 0" "min_bucket_count t \<noteq> 0"
      "elem_cnt t = of_nat (length (concat bs))" "?c < 2 ^ 28" "min_bucket_count t < 2 ^ 28" "length (concat bs) < 2 ^ 29"
    using t by (simp_all add: table_at_def)
  obtain as cs where b: "bs ! i = as @ r # cs" using r by (meson split_list)
  define bs' where "bs' = bs[i := as @ cs]"
  have "arr (buckets t) bs (buckets t + 16 * i) = Some (as @ r # cs)" using i b by simp
  from fam_remove [OF ta(1) this] obtain x l' where
    l': "list_remove r l = Inr (x, l')" "fam l' (arr (buckets t) bs')"
    by (auto simp: arr_update [OF i] bs'_def)
  have m: "add_mset r (mset (concat bs')) = mset (concat bs)"
    using mset_concat_update [OF i, of "as @ cs"] b by (simp add: bs'_def)
  have "sorted_by hf ?c bs'" using ta(2) i b by (auto simp: sorted_by_def bs'_def nth_list_update)
  moreover have "size (concat bs) = Suc (size (concat bs'))" using arg_cong [OF m, of size] by simp
  ultimately have "table_at hf l' (t\<lparr>elem_cnt := elem_cnt t - 1\<rparr>) bs'"
    using l'(2) ta(3-8) by (simp add: table_at_def)
  then show ?thesis
    using l'(1) m by (intro exI [of _ "t\<lparr>elem_cnt := elem_cnt t - 1\<rparr>"] exI [of _ l'] exI [of _ bs']) (simp add: remove_elem_def)
qed

lemma holds_setI:
  assumes "table_at hf l t bs" "mset (concat bs) = mset_set S" "finite S" "\<And>a b. a \<in> S \<Longrightarrow> b \<in> S \<Longrightarrow> eq a b \<Longrightarrow> a = b"
  shows "holds_set hf eq l t S"
proof -
  have "S = set (concat bs)" using assms(2,3) by (metis finite_set_mset_mset_set set_mset_mset)
  moreover have "distinct (concat bs)" using assms(2) by (metis distinct_count_atmost_1 count_mset_set' One_nat_def assms(3) calculation count_mset_set(1,3))
  ultimately show ?thesis using assms(1,4) unfolding holds_set_def by blast
qed

lemma holds_setE:
  assumes "holds_set hf eq l t S"
  obtains bs where "table_at hf l t bs" "mset (concat bs) = mset_set S" "S = set (concat bs)" "length (concat bs) = card S" "finite S"
  using assms by (auto simp: holds_set_def mset_set_set distinct_card simp del: set_concat)

lemma holds_set_equal: "holds_set hf eq l t S \<Longrightarrow> a \<in> S \<Longrightarrow> b \<in> S \<Longrightarrow> eq a b \<Longrightarrow> a = b"
  by (simp add: holds_set_def)

lemma member_not_null:
  assumes "holds_set hf eq l t S" "r \<in> S"
  shows "r \<noteq> 0"
proof -
  obtain bs where bs: "table_at hf l t bs" "S = set (concat bs)" using assms(1) by (rule holds_setE)
  obtain i where i: "i < length bs" "r \<in> set (bs ! i)" using assms(2) bs(2) by (metis in_set_conv_nth set_concat UN_E)
  have "list_at l (buckets t + 16 * i) (bs ! i)" using bs(1) i(1) by (intro fam_at [of l "arr (buckets t) bs"]) (simp_all add: table_at_def)
  then show ?thesis using list_at_ends(4) i(2) by metis
qed

text \<open>Rehashing changes the buckets and keeps the set.\<close>

lemma rehash_holds:
  assumes t: "table_at hf l t bs" "mset (concat bs) = mset_set S" "finite S"
    and eq: "\<And>a b. a \<in> S \<Longrightarrow> b \<in> S \<Longrightarrow> eq a b \<Longrightarrow> a = b"
    and n: "card S < n" "32 < n" and fr: "malloc_fresh malloc (in_use t S)"
  shows "\<exists>t' l'. rehash n hf malloc t l = Inr (t', l') \<and> holds_set hf eq l' t' S"
proof -
  have S: "set (concat bs) = S" "length (concat bs) = card S"
    using t(2,3) by (metis finite_set_mset_mset_set set_mset_mset) (metis size_mset size_mset_set t(2))
  obtain t' l' bs' where r: "rehash n hf malloc t l = Inr (t', l')" "table_at hf l' t' bs'" "mset (concat bs') = mset (concat bs)"
    using rehash_at [OF t(1) _ n(2), of malloc] n(1) fr S unfolding in_use_def by metis
  have "holds_set hf eq l' t' S" by (rule holds_setI [OF r(2) _ t(3) eq]) (simp_all add: r(3) t(2) del: set_concat)
  then show ?thesis using r(1) by blast
qed

lemma malloc_fresh_mono: "malloc_fresh malloc A \<Longrightarrow> B \<subseteq> A \<Longrightarrow> malloc_fresh malloc B"
  unfolding malloc_fresh_def by blast

context hash_eq
begin

text \<open>An element equal to \<open>e\<close> can only be in the bucket of \<open>e\<close>.\<close>

lemma equal_in_bucket:
  assumes t: "table_at hf l t bs" and x: "x \<in> set (concat bs)" "eq x e"
  shows "x \<in> set (bs ! idx hf (bucket_cnt t) e)"
proof -
  obtain i where i: "i < length bs" "x \<in> set (bs ! i)" using x(1) by (metis in_set_conv_nth set_concat UN_E)
  then have "idx hf (bucket_cnt t) x = i" using t by (simp add: table_at_def sorted_by_def)
  moreover have "idx hf (bucket_cnt t) x = idx hf (bucket_cnt t) e" using eq_hash [OF x(2)] by (simp add: idx_def)
  ultimately show ?thesis using i(2) by simp
qed

lemma find_correct:
  assumes t: "table_at hf l t bs" and n: "length (concat bs) < n"
  shows "\<exists>r. find_elem n eq (find_bucket hf t e) e l = Inr r
    \<and> (if \<exists>x \<in> set (concat bs). eq x e then r \<in> set (bs ! idx hf (bucket_cnt t) e) \<and> eq r e else r = 0)"
proof -
  let ?b = "bs ! idx hf (bucket_cnt t) e"
  note b = table_bucket [OF t, of e]
  have len: "length ?b < n" using length_le_concat [OF b(1)] n by simp
  show ?thesis
  proof (cases "List.find (\<lambda>x. eq x e) ?b")
    case None
    then have "\<not> eq x e" if "x \<in> set ?b" for x using that by (auto simp: find_None_iff)
    then have "\<not> (\<exists>x \<in> set (concat bs). eq x e)" using equal_in_bucket [OF t] by blast
    then show ?thesis using find_elem_at [OF b(2) len, of eq e] None by simp
  next
    case (Some r)
    then have r: "r \<in> set ?b" "eq r e" by (auto simp: find_Some_iff)
    then have "\<exists>x \<in> set (concat bs). eq x e" using b(1) by auto
    then show ?thesis using find_elem_at [OF b(2) len, of eq e] Some r by simp
  qed
qed

lemma find_in_set:
  assumes h: "holds_set hf eq l t S" and n: "card S < n"
  shows "\<exists>r. find_elem n eq (find_bucket hf t e) e l = Inr r \<and> (if \<exists>x \<in> S. eq x e then r \<in> S \<and> eq r e else r = 0)"
proof -
  obtain bs where bs: "table_at hf l t bs" "S = set (concat bs)" "length (concat bs) = card S" using h by (rule holds_setE)
  from find_correct [OF bs(1), of n e] bs(3) n obtain r where
    r: "find_elem n eq (find_bucket hf t e) e l = Inr r"
      "if \<exists>x \<in> S. eq x e then r \<in> set (bs ! idx hf (bucket_cnt t) e) \<and> eq r e else r = 0"
    unfolding bs(2) by auto
  then show ?thesis using table_bucket(1) [OF bs(1), of e] bs(2) by (auto split: if_splits)
qed

lemma hash_find_set:
  "holds_set hf eq l t S \<Longrightarrow> card S < n \<Longrightarrow>
   \<exists>r. hash_find n hf eq e t l = Inr r \<and> (if \<exists>x \<in> S. eq x e then r \<in> S \<and> eq r e else r = 0)"
  unfolding hash_find_def by (rule find_in_set)

text \<open>Adding an element that is equal to none of the table, and removing one.\<close>

lemma insert_elem_set:
  assumes h: "holds_set hf eq l t S" and e: "e \<notin> in_use t S" "e \<noteq> 0" "\<not> (\<exists>x \<in> S. eq x e)"
    and n: "Suc (card S) < n" "32 < n" "Suc (card S) < 2 ^ 29" and fr: "malloc_fresh malloc (in_use t (insert e S))"
  shows "\<exists>t1 l1 t' l'. insert_elem (find_bucket hf t e) e t l = Inr (t1, l1) \<and> rehash n hf malloc t1 l1 = Inr (t', l')
    \<and> holds_set hf eq l' t' (insert e S)"
proof -
  obtain bs where bs: "table_at hf l t bs" "mset (concat bs) = mset_set S" "S = set (concat bs)" "finite S"
      "length (concat bs) = card S"
    using h by (rule holds_setE)
  obtain t1 l1 where i: "insert_elem (find_bucket hf t e) e t l = Inr (t1, l1)"
      "table_at hf l1 t1 (place hf (bucket_cnt t) e bs)" "buckets t1 = buckets t" "bucket_cnt t1 = bucket_cnt t"
    using insert_elem_at [OF bs(1), of e] e(1,2) bs(3,5) n(3) by auto
  have eS: "e \<notin> S" using e(1) by (simp add: in_use_def)
  have "mset (concat (place hf (bucket_cnt t) e bs)) = mset_set (insert e S)"
    using place_facts(2) [of hf "bucket_cnt t" bs e] bs(1,2,4) eS by (simp add: table_at_def)
  moreover have "a = b" if "a \<in> insert e S" "b \<in> insert e S" "eq a b" for a b
    using that holds_set_equal [OF h] e(3) eq_sym by blast
  moreover have "malloc_fresh malloc (in_use t1 (insert e S))" using fr i(3,4) by (simp add: in_use_def)
  ultimately show ?thesis
    using rehash_holds [OF i(2), of "insert e S" eq n malloc] i(1) n bs(4) eS by auto
qed

lemma remove_elem_set:
  assumes h: "holds_set hf eq l t S" and r: "r \<in> S"
  shows "\<exists>t1 l1. remove_elem r t l = Inr (t1, l1) \<and> holds_set hf eq l1 t1 (S - {r})
    \<and> buckets t1 = buckets t \<and> bucket_cnt t1 = bucket_cnt t"
proof -
  obtain bs where bs: "table_at hf l t bs" "mset (concat bs) = mset_set S" "S = set (concat bs)" "finite S"
    using h by (rule holds_setE)
  obtain i where i: "i < length bs" "r \<in> set (bs ! i)" using r bs(3) by (metis in_set_conv_nth set_concat UN_E)
  obtain t1 l1 bs1 where d: "remove_elem r t l = Inr (t1, l1)" "table_at hf l1 t1 bs1"
      "add_mset r (mset (concat bs1)) = mset (concat bs)" "buckets t1 = buckets t" "bucket_cnt t1 = bucket_cnt t"
    using remove_elem_at [OF bs(1) i] by blast
  have "mset (concat bs1) = mset_set (S - {r})"
    using d(3) bs(2,4) r by (metis add_mset_add_mset_same_iff mset_set.remove)
  then have "holds_set hf eq l1 t1 (S - {r})"
    by (rule holds_setI [OF d(2)]) (use bs(4) holds_set_equal [OF h] in auto)
  then show ?thesis using d by blast
qed

lemma rehash_set:
  assumes "holds_set hf eq l t S" "card S < n" "32 < n" "malloc_fresh malloc (in_use t S)"
  shows "\<exists>t' l'. rehash n hf malloc t l = Inr (t', l') \<and> holds_set hf eq l' t' S"
proof -
  obtain bs where bs: "table_at hf l t bs" "mset (concat bs) = mset_set S" "finite S" using assms(1) by (rule holds_setE)
  show ?thesis by (rule rehash_holds [OF bs holds_set_equal [OF assms(1)] assms(2-4)])
qed

lemma hash_insert_set:
  assumes h: "holds_set hf eq l t S" and e: "(\<exists>x \<in> S. eq x e) \<or> e \<notin> in_use t S" "e \<noteq> 0"
    and n: "Suc (card S) < n" "32 < n" "Suc (card S) < 2 ^ 29" and fr: "malloc_fresh malloc (in_use t (insert e S))"
  shows "\<exists>r t' l'. hash_insert n hf eq malloc e t l = Inr (r, t', l')
    \<and> (if \<exists>x \<in> S. eq x e then r \<in> S \<and> eq r e \<and> holds_set hf eq l' t' S else r = 0 \<and> holds_set hf eq l' t' (insert e S))"
proof -
  obtain r where r: "find_elem n eq (find_bucket hf t e) e l = Inr r" "if \<exists>x \<in> S. eq x e then r \<in> S \<and> eq r e else r = 0"
    using find_in_set [OF h, of n e] n(1) by auto
  show ?thesis
  proof (cases "\<exists>x \<in> S. eq x e")
    case True
    have "r \<noteq> 0" using True r(2) member_not_null [OF h] by auto
    moreover have "malloc_fresh malloc (in_use t S)" by (rule malloc_fresh_mono [OF fr]) (auto simp: in_use_def)
    then obtain t' l' where "rehash n hf malloc t l = Inr (t', l')" "holds_set hf eq l' t' S"
      using rehash_set [OF h _ n(2)] n(1) by fastforce
    ultimately show ?thesis using True r by (auto simp: hash_insert_def)
  next
    case False
    then have "e \<notin> in_use t S" using e(1) by blast
    then show ?thesis using insert_elem_set [OF h _ e(2) False n fr] False r by (auto simp: hash_insert_def)
  qed
qed

lemma hash_delete_one:
  assumes h: "holds_set hf eq l t S" and n: "card S < n" "32 < n" and fr: "malloc_fresh malloc (in_use t S)"
  shows "\<exists>r t' l'. hash_delete n hf eq malloc e t l = Inr (r, t', l')
    \<and> (if \<exists>x \<in> S. eq x e then r \<in> S \<and> eq r e \<and> holds_set hf eq l' t' (S - {r}) else r = 0 \<and> holds_set hf eq l' t' S)"
proof -
  obtain r where r: "find_elem n eq (find_bucket hf t e) e l = Inr r" "if \<exists>x \<in> S. eq x e then r \<in> S \<and> eq r e else r = 0"
    using find_in_set [OF h, of n e] n(1) by auto
  show ?thesis
  proof (cases "\<exists>x \<in> S. eq x e")
    case True
    then have rS: "r \<in> S" "eq r e" "r \<noteq> 0" using r(2) member_not_null [OF h] by auto
    obtain t1 l1 where d: "remove_elem r t l = Inr (t1, l1)" "holds_set hf eq l1 t1 (S - {r})"
        "buckets t1 = buckets t" "bucket_cnt t1 = bucket_cnt t"
      using remove_elem_set [OF h rS(1)] by blast
    have "malloc_fresh malloc (in_use t1 (S - {r}))" by (rule malloc_fresh_mono [OF fr]) (auto simp: in_use_def d(3,4))
    moreover have "card (S - {r}) < n" using n(1) by (meson card_Diff1_le le_less_trans)
    ultimately obtain t' l' where "rehash n hf malloc t1 l1 = Inr (t', l')" "holds_set hf eq l' t' (S - {r})"
      using rehash_set [OF d(2) _ n(2)] by blast
    then show ?thesis using True r(1) rS d(1) by (auto simp: hash_delete_def)
  next
    case False
    then show ?thesis using r h by (auto simp: hash_delete_def)
  qed
qed

end

context hash_fun
begin

lemma equal_removed: "holds_set hf eq l t S \<Longrightarrow> r \<in> S \<Longrightarrow> eq r e \<Longrightarrow> S - {r} = {x \<in> S. \<not> eq x e}"
  using holds_set_equal [of hf eq l t S] eq_sym eq_trans by blast

lemma hash_delete_set:
  assumes h: "holds_set hf eq l t S" and n: "card S < n" "32 < n" and fr: "malloc_fresh malloc (in_use t S)"
  shows "\<exists>r t' l'. hash_delete n hf eq malloc e t l = Inr (r, t', l') \<and> holds_set hf eq l' t' {x \<in> S. \<not> eq x e}
    \<and> (if \<exists>x \<in> S. eq x e then r \<in> S \<and> eq r e else r = 0)"
proof -
  obtain r t' l' where d: "hash_delete n hf eq malloc e t l = Inr (r, t', l')"
      "if \<exists>x \<in> S. eq x e then r \<in> S \<and> eq r e \<and> holds_set hf eq l' t' (S - {r}) else r = 0 \<and> holds_set hf eq l' t' S"
    using hash_delete_one [OF assms] by blast
  show ?thesis
  proof (cases "\<exists>x \<in> S. eq x e")
    case True
    then show ?thesis using d equal_removed [OF h, of r e] by auto
  next
    case False
    then have "{x \<in> S. \<not> eq x e} = S" by blast
    then show ?thesis using d False by auto
  qed
qed

lemma hash_replace_set:
  assumes h: "holds_set hf eq l t S" and e: "e \<notin> in_use t S" "e \<noteq> 0"
    and n: "Suc (card S) < n" "32 < n" "Suc (card S) < 2 ^ 29" and fr: "malloc_fresh malloc (in_use t (insert e S))"
  shows "\<exists>r t' l'. hash_replace n hf eq malloc e t l = Inr (r, t', l') \<and> holds_set hf eq l' t' (insert e {x \<in> S. \<not> eq x e})
    \<and> (if \<exists>x \<in> S. eq x e then r \<in> S \<and> eq r e else r = 0)"
proof -
  obtain r where r: "find_elem n eq (find_bucket hf t e) e l = Inr r" "if \<exists>x \<in> S. eq x e then r \<in> S \<and> eq r e else r = 0"
    using find_in_set [OF h, of n e] n(1) by auto
  let ?S = "{x \<in> S. \<not> eq x e}"
  obtain t1 l1 where d: "(if r \<noteq> 0 then remove_elem r t l else Inr (t, l)) = Inr (t1, l1)" "holds_set hf eq l1 t1 ?S"
      "buckets t1 = buckets t" "bucket_cnt t1 = bucket_cnt t"
  proof (cases "\<exists>x \<in> S. eq x e")
    case True
    then have rS: "r \<in> S" "eq r e" "r \<noteq> 0" using r(2) member_not_null [OF h] by auto
    then show ?thesis using that remove_elem_set [OF h rS(1)] equal_removed [OF h rS(1,2)] by auto
  next
    case False
    then have "?S = S" by blast
    then show ?thesis using that h False r(2) by auto
  qed
  have fin: "finite S" using h by (rule holds_setE)
  have "e \<notin> in_use t1 ?S" using e(1) by (auto simp: in_use_def d(3,4))
  moreover have "Suc (card ?S) < n" using n(1) card_mono [OF fin, of ?S] by simp
  moreover have "malloc_fresh malloc (in_use t1 (insert e ?S))"
    by (rule malloc_fresh_mono [OF fr]) (auto simp: in_use_def d(3,4))
  moreover have "find_bucket hf t1 e = find_bucket hf t e" by (simp add: find_bucket_def d(3,4))
  moreover have "Suc (card ?S) < 2 ^ 29" using n(3) card_mono [OF fin, of ?S] by simp
  ultimately show ?thesis using insert_elem_set [OF d(2) _ e(2) _ _ n(2), of malloc] r d(1)
    by (fastforce simp: hash_replace_def)
qed

end

text \<open>The buckets of a table only move to memory that \<open>malloc\<close> gave out.\<close>

definition moved :: "(nat \<Rightarrow> nat) \<Rightarrow> hash \<Rightarrow> hash \<Rightarrow> bool" where
  "moved malloc t t' \<longleftrightarrow> buckets t' = buckets t \<and> bucket_cnt t' = bucket_cnt t
     \<or> buckets t' = malloc (unat (16 * bucket_cnt t')) \<and> buckets t' \<noteq> 0"

lemma rehash_moved: "rehash n hf malloc t l = Inr (t', l') \<Longrightarrow> moved malloc t t'"
  by (auto simp: rehash_def Let_def moved_def rbind_Inr split: if_splits)

lemma insert_elem_buckets:
  "insert_elem b e t l = Inr (t', l') \<Longrightarrow> buckets t' = buckets t \<and> bucket_cnt t' = bucket_cnt t"
  by (auto simp: insert_elem_def rbind_Inr)

lemma remove_elem_buckets:
  "remove_elem e t l = Inr (t', l') \<Longrightarrow> buckets t' = buckets t \<and> bucket_cnt t' = bucket_cnt t"
  by (auto simp: remove_elem_def rbind_Inr)

lemma moved_cong: "moved malloc t1 t' \<Longrightarrow> buckets t1 = buckets t \<and> bucket_cnt t1 = bucket_cnt t \<Longrightarrow> moved malloc t t'"
  by (simp add: moved_def)

lemma hash_insert_moved: "hash_insert n hf eq malloc e t l = Inr (r, t', l') \<Longrightarrow> moved malloc t t'"
  by (auto simp: hash_insert_def Let_def rbind_Inr split: if_splits
      dest!: rehash_moved insert_elem_buckets intro: moved_cong)

lemma hash_delete_moved: "hash_delete n hf eq malloc e t l = Inr (r, t', l') \<Longrightarrow> moved malloc t t'"
  by (auto simp: hash_delete_def rbind_Inr split: if_splits
      dest!: rehash_moved remove_elem_buckets intro: moved_cong) (simp add: moved_def)

subsection \<open>Initialisation, clearing and traversal\<close>

lemma hash_clear_init:
  "hash_clear n False t l = rbind (rfold (\<lambda>i. list_init (buckets t + 16 * i)) [0..<unat (bucket_cnt t)] l)
     (\<lambda>l. Inr ([], t\<lparr>elem_cnt := 0\<rparr>, l))"
proof -
  have "rfold (\<lambda>i (es, l). rbind (if False then clear_bucket n (buckets t + 16 * i) l else Inr ([], l)) (\<lambda>(fs, l).
            rbind (list_init (buckets t + 16 * i) l) (\<lambda>l. Inr (es @ fs, l)))) is ([], l)
      = rbind (rfold (\<lambda>i. list_init (buckets t + 16 * i)) is l) (\<lambda>l. Inr ([], l))" for "is" l
  proof (induction "is" arbitrary: l)
    case (Cons i "is")
    show ?case using Cons [of "projr (list_init (buckets t + 16 * i) l)"] by (cases "list_init (buckets t + 16 * i) l") simp_all
  qed simp
  then show ?thesis unfolding hash_clear_def by (simp add: rbind_assoc)
qed

lemma empty_table:
  assumes "fam l (arr (buckets t) (replicate (unat (bucket_cnt t)) []))" "bucket_cnt t \<noteq> 0" "min_bucket_count t \<noteq> 0" "elem_cnt t = 0"
    "bucket_cnt t < 2 ^ 28" "min_bucket_count t < 2 ^ 28"
  shows "holds_set hf eq l t {}"
proof -
  have "concat (replicate (unat (bucket_cnt t)) []) = []" by simp
  moreover from this have "table_at hf l t (replicate (unat (bucket_cnt t)) [])"
    using assms by (simp only: table_at_def list.size of_nat_0) (simp add: sorted_by_def)
  ultimately show ?thesis by (intro holds_setI) auto
qed

lemma hash_init_size_set:
  assumes "sz \<noteq> 0" "sz < 2 ^ 28" "malloc (unat (16 * sz)) \<noteq> 0"
  shows "\<exists>t l'. hash_init_size n sz malloc l = Inr (True, t, l') \<and> holds_set hf eq l' t {}
    \<and> buckets t = malloc (unat (16 * sz)) \<and> bucket_cnt t = sz"
proof -
  have "fam l Map.empty" by (simp add: fam_def)
  from init_buckets [OF this assms(3), of "unat sz" "unat sz"]
  obtain l' where l': "rfold (\<lambda>i. list_init (malloc (unat (16 * sz)) + 16 * i)) [0..<unat sz] l = Inr l'"
      "fam l' (arr (malloc (unat (16 * sz))) (replicate (unat sz) []))"
    by (auto simp: fam_nodes_def)
  show ?thesis
    using assms l' empty_table [of l' "\<lparr>elem_cnt = 0, bucket_cnt = sz, buckets = malloc (unat (16 * sz)), min_bucket_count = sz\<rparr>" hf eq]
    by (simp add: hash_init_size_def hash_clear_init Let_def)
qed

lemma hash_clear_set:
  assumes h: "holds_set hf eq l t S"
  shows "\<exists>l'. hash_clear n False t l = Inr ([], t\<lparr>elem_cnt := 0\<rparr>, l') \<and> holds_set hf' eq' l' (t\<lparr>elem_cnt := 0\<rparr>) {}"
proof -
  obtain bs where bs: "table_at hf l t bs" using h by (rule holds_setE)
  then have ta: "fam l (arr (buckets t) bs)" "length bs = unat (bucket_cnt t)" "bucket_cnt t \<noteq> 0" "min_bucket_count t \<noteq> 0"
      "bucket_cnt t < 2 ^ 28" "min_bucket_count t < 2 ^ 28"
    by (simp_all add: table_at_def sorted_by_def)
  define P where "P = (\<lambda>i l. fam l (arr (buckets t) (replicate i [] @ drop i bs)))"
  have step: "\<exists>l'. list_init (buckets t + 16 * i) l = Inr l' \<and> P (Suc i) l'" if i: "i < length bs" and Pi: "P i l" for i l
  proof -
    let ?F = "arr (buckets t) (replicate i [] @ drop i bs)" and ?a = "buckets t + 16 * i"
    have Fa: "?F ?a = Some (bs ! i)" using i by (simp add: nth_append)
    have f: "fam l ?F" using Pi by (simp add: P_def)
    have na: "x \<notin> fam_nodes (?F(?a := None))" if "x \<in> {head_of ?a, tail_of ?a}" for x
    proof
      assume "x \<in> fam_nodes (?F(?a := None))"
      then obtain b xs where b: "(?F(?a := None)) b = Some xs" "x \<in> set (nodes b xs)" by (rule fam_nodesE)
      then have "b \<noteq> ?a" "?F b = Some xs" by (auto split: if_splits)
      then show False using fam_disjoint [OF f Fa, of b xs] b(2) that by (auto simp: set_nodes)
    qed
    have "?a \<noteq> 0" using list_at_ends(8) [OF fam_at [OF f Fa]] .
    then obtain l' where l': "list_init ?a l = Inr l'" "fam l' (?F(?a \<mapsto> []))"
      using fam_init [OF f, of ?a] na by blast
    have "?F(?a \<mapsto> []) = arr (buckets t) (replicate (Suc i) [] @ drop (Suc i) bs)"
      using i arr_update [of i "replicate i [] @ drop i bs" "buckets t" "[]"]
      by (simp add: list_update_append Cons_nth_drop_Suc [symmetric] replicate_append_same [symmetric])
    then show ?thesis using l' by (simp add: P_def)
  qed
  obtain l' where l': "rfold (\<lambda>i. list_init (buckets t + 16 * i)) [0..<length bs] l = Inr l'" "P (length bs) l'"
    using rfold_upt_total [of P 0 l "length bs" "\<lambda>i. list_init (buckets t + 16 * i)"] step ta(1) by (auto simp: P_def)
  then show ?thesis using empty_table [of l' "t\<lparr>elem_cnt := 0\<rparr>" hf' eq'] ta by (simp add: hash_clear_init P_def)
qed

text \<open>\<open>hash_apply\<close> calls its action on every element once.\<close>

lemma apply_loop_at:
  "list_at l b (as @ xs) \<Longrightarrow> length xs < n \<Longrightarrow> apply_loop n (hd (xs @ [tail_of b])) (tail_of b) l = Inr xs"
proof (induction n arbitrary: as xs)
  case (Suc n)
  show ?case
  proof (cases xs)
    case (Cons x ys)
    have "x \<noteq> tail_of b" using list_at_ends(6) [OF Suc.prems(1)] Cons by auto
    moreover have "list_next x l = Inr (hd (ys @ [tail_of b]))" using list_next_at [of l b as x ys] Suc.prems(1) Cons by simp
    ultimately show ?thesis using Suc.IH [of "as @ [x]" ys] Suc.prems Cons by simp
  qed simp
qed simp

lemma hash_apply_set:
  assumes h: "holds_set hf eq l t S" and n: "card S < n"
  shows "\<exists>es. hash_apply n t l = Inr es \<and> distinct es \<and> set es = S"
proof -
  obtain bs where bs: "table_at hf l t bs" "S = set (concat bs)" "distinct (concat bs)"
    using h by (auto simp: holds_set_def)
  have len: "length (concat bs) < n" using n bs(2,3) by (metis distinct_card)
  have lb: "length bs = unat (bucket_cnt t)" and f: "fam l (arr (buckets t) bs)"
    using bs(1) by (simp_all add: table_at_def sorted_by_def)
  have "\<exists>es. hash_apply n t l = Inr es \<and> es = concat (take (length bs) bs)"
    unfolding hash_apply_def lb [symmetric]
  proof (rule rfold_upt_total [where P = "\<lambda>i es. es = concat (take i bs)"], goal_cases)
    case (3 i es)
    note la = fam_at [OF f arr_at [OF 3(2)]]
    have "length (bs ! i) < n" using length_le_concat [OF 3(2)] len by simp
    then show ?case
      using apply_loop_at [of l _ "[]", simplified, OF la] list_begin_at [OF la] list_end_at [OF la] 3
      by (simp add: take_Suc_conv_app_nth)
  qed simp_all
  then show ?thesis using bs by auto
qed

text \<open>An iterator of the table with the buckets \<open>bs\<close> that has the elements \<open>xs\<close> before it.\<close>

definition iter_at :: "hash \<Rightarrow> nat list list \<Rightarrow> hash_iterator \<Rightarrow> nat list \<Rightarrow> bool" where
  "iter_at t bs i xs \<longleftrightarrow> (\<exists>k as rest. k < length bs \<and> it_bucket i = buckets t + 16 * k \<and> bs ! k = as @ rest
     \<and> it_elem i = last (head_of (it_bucket i) # as) \<and> xs = rest @ concat (drop (Suc k) bs))"

lemma next_loop_at:
  assumes t: "table_at hf l t bs"
  shows "k < length bs \<Longrightarrow> it_bucket i = buckets t + 16 * k \<Longrightarrow> bs ! k = as @ rest
    \<Longrightarrow> it_elem i = hd (rest @ [tail_of (it_bucket i)]) \<Longrightarrow> length bs - k < n
    \<Longrightarrow> \<exists>i'. next_loop n t i l = Inr i' \<and> (case rest @ concat (drop (Suc k) bs) of [] \<Rightarrow> it_elem i' = 0
      | x # xs \<Rightarrow> it_elem i' = x \<and> iter_at t bs i' xs)"
proof (induction n arbitrary: k i as rest)
  case (Suc n)
  have f: "fam l (arr (buckets t) bs)" and lb: "length bs = unat (bucket_cnt t)"
    using t by (simp_all add: table_at_def sorted_by_def)
  note la = fam_at [OF f arr_at [OF Suc.prems(1)], folded Suc.prems(2)]
  show ?case
  proof (cases rest)
    case (Cons x r)
    have "x \<noteq> tail_of (it_bucket i)" using list_at_ends(6) [OF la] Suc.prems(3) Cons by auto
    then have "next_loop (Suc n) t i l = Inr i" using Cons Suc.prems(4) list_end_at [OF la] by simp
    moreover have "iter_at t bs i (r @ concat (drop (Suc k) bs))"
      unfolding iter_at_def using Cons Suc.prems by (intro exI [of _ k] exI [of _ "as @ [x]"] exI [of _ r]) simp
    ultimately show ?thesis using Cons Suc.prems(4) by simp
  next
    case Nil
    show ?thesis
    proof (cases "Suc k < length bs")
      case True
      let ?i = "i\<lparr>it_bucket := it_bucket i + 16\<rparr>"
      have b: "it_bucket i + 16 = buckets t + 16 * Suc k" using Suc.prems(2) by simp
      note la' = fam_at [OF f arr_at [OF True], folded b]
      have n: "length bs - Suc k < n" using Suc.prems(5) True by simp
      obtain i' where i': "next_loop n t (?i\<lparr>it_elem := hd (bs ! Suc k @ [tail_of (it_bucket i + 16)])\<rparr>) l = Inr i'"
          "case bs ! Suc k @ concat (drop (Suc (Suc k)) bs) of [] \<Rightarrow> it_elem i' = 0 | x # xs \<Rightarrow> it_elem i' = x \<and> iter_at t bs i' xs"
        using Suc.IH [OF True, of "?i\<lparr>it_elem := hd (bs ! Suc k @ [tail_of (it_bucket i + 16)])\<rparr>" "[]" "bs ! Suc k"] b n
        by auto
      have "next_loop (Suc n) t i l = Inr i'"
        using Nil Suc.prems(2,4) list_end_at [OF la] list_begin_at [OF la'] i'(1) True lb by (simp add: Let_def)
      moreover have "drop (Suc k) bs = bs ! Suc k # drop (Suc (Suc k)) bs" using True by (simp add: Cons_nth_drop_Suc)
      ultimately show ?thesis using i'(2) Nil by simp
    next
      case False
      then show ?thesis using Nil Suc.prems(2,4) list_end_at [OF la] lb by (simp add: Let_def)
    qed
  qed
qed simp

lemma hash_first_at:
  assumes "table_at hf l t bs"
  shows "\<exists>i. hash_first t = Inr i \<and> iter_at t bs i (concat bs)"
proof -
  have "length bs > 0" and f: "fam l (arr (buckets t) bs)"
    using assms by (auto simp: table_at_def sorted_by_def unat_gt_0)
  moreover from this have "buckets t \<noteq> 0" using list_at_ends(8) [OF fam_at [OF f arr_at [of 0]]] by simp
  moreover have "concat bs = bs ! 0 @ concat (drop 1 bs)" using calculation(1) by (cases bs) simp_all
  ultimately show ?thesis
    by (auto simp: hash_first_def list_head_def iter_at_def intro!: exI [of _ 0] exI [of _ "[]"])
qed

text \<open>\<open>hash_next\<close> returns the next element before the iterator, and NULL behind the last one.\<close>

lemma hash_next_at:
  assumes t: "table_at hf l t bs" and i: "iter_at t bs i xs" and n: "length bs < n"
  shows "\<exists>i'. hash_next n t i l = Inr (hd (xs @ [0]), i') \<and> hash_cur i' = hd (xs @ [0]) \<and> (xs \<noteq> [] \<longrightarrow> iter_at t bs i' (tl xs))"
proof -
  obtain k as rest where k: "k < length bs" "it_bucket i = buckets t + 16 * k" "bs ! k = as @ rest"
      "it_elem i = last (head_of (it_bucket i) # as)" "xs = rest @ concat (drop (Suc k) bs)"
    using i unfolding iter_at_def by blast
  have f: "fam l (arr (buckets t) bs)" using t by (simp add: table_at_def)
  note la = fam_at [OF f arr_at [OF k(1)], folded k(2), unfolded k(3)]
  have nx: "list_next (it_elem i) l = Inr (hd (rest @ [tail_of (it_bucket i)]))" using list_at_walk(1) [OF la] k(4) by simp
  let ?i = "i\<lparr>it_elem := hd (rest @ [tail_of (it_bucket i)])\<rparr>"
  have "\<exists>i'. next_loop n t ?i l = Inr i' \<and> (case xs of [] \<Rightarrow> it_elem i' = 0 | x # xs \<Rightarrow> it_elem i' = x \<and> iter_at t bs i' xs)"
    unfolding k(5) by (rule next_loop_at [OF t k(1) _ k(3)]) (use k(2) n in simp_all)
  then show ?thesis using nx by (cases xs) (auto simp: hash_next_def hash_cur_def)
qed

end
