(* ===== verification/Jumptable.thy ===== *)
theory Jumptable
  imports Hash
begin

text \<open>
  The indirect jump table of the translator (\<open>peep/jumptable2.c\<close>): the hash table that
  maps the pair of virtual address and program counter of an indirect jump to its
  translation block.

  A translation block is its address; \<open>tbs\<close> gives the two fields of the blocks that
  the table reads.  The offset \<open>off\<close> of the member \<open>jumptable2_elem\<close> in \<open>tb_t\<close> depends on
  the build (\<open>NDEBUG\<close>) and is a parameter.  The table is used through the contract
  \<open>hash_fun\<close> of \<open>Hash\<close>, and the theory shows that it is a finite map.
\<close>

subsection \<open>The jump table\<close>

record tb_t =
  tb_eip :: u32
  tb_eip_virt :: u32

definition tb_entry :: "nat \<Rightarrow> nat \<Rightarrow> nat" where
  "tb_entry off e = e - off"

definition jumptable2_hash :: "nat \<Rightarrow> (nat \<Rightarrow> tb_t) \<Rightarrow> nat \<Rightarrow> u32" where
  "jumptable2_hash off tbs e = (let entry = tb_entry off e in tb_eip_virt (tbs entry))"

definition jumptable2_equal :: "nat \<Rightarrow> (nat \<Rightarrow> tb_t) \<Rightarrow> nat \<Rightarrow> nat \<Rightarrow> bool" where
  "jumptable2_equal off tbs a b =
     (let ea = tb_entry off a; eb = tb_entry off b
      in tb_eip_virt (tbs ea) = tb_eip_virt (tbs eb) \<and> tb_eip (tbs ea) = tb_eip (tbs eb))"

text \<open>The result of \<open>hash_init\<close> is ignored.\<close>

definition jumptable2_init :: "nat \<Rightarrow> (nat \<Rightarrow> nat) \<Rightarrow> links \<Rightarrow> (hash \<times> links) res" where
  "jumptable2_init n malloc l = rbind (hash_init n malloc l) (\<lambda>(ok, t, l). Inr (t, l))"

definition jumptable2_clear :: "nat \<Rightarrow> hash \<Rightarrow> links \<Rightarrow> (hash \<times> links) res" where
  "jumptable2_clear n t l = rbind (hash_clear n False t l) (\<lambda>(es, t, l). Inr (t, l))"

definition jumptable2_add ::
  "nat \<Rightarrow> nat \<Rightarrow> (nat \<Rightarrow> tb_t) \<Rightarrow> (nat \<Rightarrow> nat) \<Rightarrow> nat \<Rightarrow> hash \<Rightarrow> links \<Rightarrow> (hash \<times> links) res" where
  "jumptable2_add n off tbs malloc tb t l =
     rbind (hash_insert n (jumptable2_hash off tbs) (jumptable2_equal off tbs) malloc (tb + off) t l)
       (\<lambda>(ret, t, l). assert_then (ret = 0) (Inr (t, l)))"

text \<open>The key of a lookup is a block on the stack, at the address \<open>needle\<close>.\<close>

definition jumptable2_find ::
  "nat \<Rightarrow> nat \<Rightarrow> (nat \<Rightarrow> tb_t) \<Rightarrow> nat \<Rightarrow> u32 \<Rightarrow> u32 \<Rightarrow> hash \<Rightarrow> links \<Rightarrow> nat res" where
  "jumptable2_find n off tbs needle virt ip t l =
     (let tbs = tbs(needle := \<lparr>tb_eip = ip, tb_eip_virt = virt\<rparr>) in
      rbind (hash_find n (jumptable2_hash off tbs) (jumptable2_equal off tbs) (needle + off) t l)
        (\<lambda>e. Inr (if e = 0 then 0 else tb_entry off e)))"

definition jumptable2_remove ::
  "nat \<Rightarrow> nat \<Rightarrow> (nat \<Rightarrow> tb_t) \<Rightarrow> (nat \<Rightarrow> nat) \<Rightarrow> nat \<Rightarrow> hash \<Rightarrow> links \<Rightarrow> (hash \<times> links) res" where
  "jumptable2_remove n off tbs malloc tb t l =
     rbind (hash_delete n (jumptable2_hash off tbs) (jumptable2_equal off tbs) malloc (tb + off) t l)
       (\<lambda>(ret, t, l). Inr (t, l))"

interpretation jt: hash_fun "jumptable2_hash off tbs" "jumptable2_equal off tbs" for off tbs
  by unfold_locales (auto simp: jumptable2_hash_def jumptable2_equal_def Let_def)

subsection \<open>Finite maps\<close>

definition key :: "(nat \<Rightarrow> tb_t) \<Rightarrow> nat \<Rightarrow> u32 \<times> u32" where
  "key tbs tb = (tb_eip_virt (tbs tb), tb_eip (tbs tb))"

definition elems :: "nat \<Rightarrow> ((u32 \<times> u32) \<rightharpoonup> nat) \<Rightarrow> nat set" where
  "elems off M = (\<lambda>tb. tb + off) ` ran M"

text \<open>
  The table holds the map \<open>M\<close>.  \<open>U\<close> is the set of the addresses where elements of blocks
  live: no bucket is among them.
\<close>

definition holds_map :: "nat set \<Rightarrow> nat \<Rightarrow> (nat \<Rightarrow> tb_t) \<Rightarrow> ((u32 \<times> u32) \<rightharpoonup> nat) \<Rightarrow> hash \<Rightarrow> links \<Rightarrow> bool" where
  "holds_map U off tbs M t l \<longleftrightarrow>
     holds_set (jumptable2_hash off tbs) (jumptable2_equal off tbs) l t (elems off M)
     \<and> (\<forall>k tb. M k = Some tb \<longrightarrow> key tbs tb = k) \<and> elems off M \<subseteq> U
     \<and> region (buckets t) (unat (bucket_cnt t)) \<inter> U = {}"

datatype jt_op = Add nat | Find nat u32 u32 | Remove nat | Clear

fun map_op :: "(nat \<Rightarrow> tb_t) \<Rightarrow> jt_op \<Rightarrow> ((u32 \<times> u32) \<rightharpoonup> nat) \<Rightarrow> (nat \<times> ((u32 \<times> u32) \<rightharpoonup> nat)) res" where
  "map_op tbs (Add tb) M = assert_then (M (key tbs tb) = None) (Inr (0, M(key tbs tb \<mapsto> tb)))"
| "map_op tbs (Find needle virt ip) M = Inr (case M (virt, ip) of None \<Rightarrow> 0 | Some tb \<Rightarrow> tb, M)"
| "map_op tbs (Remove tb) M = Inr (0, M(key tbs tb := None))"
| "map_op tbs Clear M = Inr (0, Map.empty)"

fun run_op :: "nat \<Rightarrow> nat \<Rightarrow> (nat \<Rightarrow> tb_t) \<Rightarrow> (nat \<Rightarrow> nat) \<Rightarrow> jt_op \<Rightarrow> hash \<Rightarrow> links \<Rightarrow> (nat \<times> hash \<times> links) res" where
  "run_op n off tbs malloc (Add tb) t l = rbind (jumptable2_add n off tbs malloc tb t l) (\<lambda>(t, l). Inr (0, t, l))"
| "run_op n off tbs malloc (Find needle virt ip) t l = rbind (jumptable2_find n off tbs needle virt ip t l) (\<lambda>r. Inr (r, t, l))"
| "run_op n off tbs malloc (Remove tb) t l = rbind (jumptable2_remove n off tbs malloc tb t l) (\<lambda>(t, l). Inr (0, t, l))"
| "run_op n off tbs malloc Clear t l = rbind (jumptable2_clear n t l) (\<lambda>(t, l). Inr (0, t, l))"

text \<open>A sequence of operations, with their results; \<open>alloc\<close> is the allocator in the state of a table.\<close>

fun map_ops :: "(nat \<Rightarrow> tb_t) \<Rightarrow> jt_op list \<Rightarrow> ((u32 \<times> u32) \<rightharpoonup> nat) \<Rightarrow> (nat list \<times> ((u32 \<times> u32) \<rightharpoonup> nat)) res" where
  "map_ops tbs [] M = Inr ([], M)"
| "map_ops tbs (p # ps) M = rbind (map_op tbs p M) (\<lambda>(r, M). rbind (map_ops tbs ps M) (\<lambda>(rs, M). Inr (r # rs, M)))"

fun jt_ops ::
  "nat \<Rightarrow> nat \<Rightarrow> (nat \<Rightarrow> tb_t) \<Rightarrow> (hash \<Rightarrow> nat \<Rightarrow> nat) \<Rightarrow> jt_op list \<Rightarrow> hash \<Rightarrow> links \<Rightarrow> (nat list \<times> hash \<times> links) res" where
  "jt_ops n off tbs alloc [] t l = Inr ([], t, l)"
| "jt_ops n off tbs alloc (p # ps) t l =
     rbind (run_op n off tbs (alloc t) p t l) (\<lambda>(r, t, l). rbind (jt_ops n off tbs alloc ps t l) (\<lambda>(rs, t, l). Inr (r # rs, t, l)))"

fun op_in :: "nat set \<Rightarrow> nat \<Rightarrow> jt_op \<Rightarrow> bool" where
  "op_in U off (Add tb) \<longleftrightarrow> tb + off \<in> U"
| "op_in U off (Find needle virt ip) \<longleftrightarrow> needle + off \<notin> U"
| "op_in U off (Remove tb) \<longleftrightarrow> True"
| "op_in U off Clear \<longleftrightarrow> True"

lemma equal_key [simp]: "jumptable2_equal off tbs (a + off) (b + off) \<longleftrightarrow> key tbs a = key tbs b"
  by (simp add: jumptable2_equal_def tb_entry_def key_def)

lemma holds_set_cong:
  assumes "holds_set hf eq l t S" "\<And>x. x \<in> S \<Longrightarrow> hf' x = hf x" "\<And>x y. x \<in> S \<Longrightarrow> y \<in> S \<Longrightarrow> eq' x y = eq x y"
  shows "holds_set hf' eq' l t S"
proof -
  obtain bs where bs: "table_at hf l t bs" "mset (concat bs) = mset_set S" "S = set (concat bs)" "finite S"
    using assms(1) by (rule holds_setE)
  have "hf' x = hf x" if "i < length bs" "x \<in> set (bs ! i)" for i x using assms(2) [of x] bs(3) nth_mem [OF that(1)] that(2) by auto
  then have "table_at hf' l t bs" using bs(1) by (simp add: table_at_def sorted_by_def idx_def)
  then show ?thesis using bs(2,4) holds_set_equal [OF assms(1)] assms(3) by (intro holds_setI) auto
qed

lemma elems_iff: "x \<in> elems off M \<longleftrightarrow> (\<exists>k tb. M k = Some tb \<and> x = tb + off)"
  unfolding elems_def ran_def by blast

lemmas in_elems = elems_iff [THEN iffD1]

lemma elems_mem: "M k = Some tb \<Longrightarrow> tb + off \<in> elems off M"
  by (simp add: elems_def ranI)

lemma moved_region:
  assumes "moved malloc t t'" "malloc_fresh malloc U" "region (buckets t) (unat (bucket_cnt t)) \<inter> U = {}" "holds_set hf eq l t' S"
  shows "region (buckets t') (unat (bucket_cnt t')) \<inter> U = {}"
proof -
  obtain bs where "table_at hf l t' bs" using assms(4) by (rule holds_setE)
  then have "bucket_cnt t' < 2 ^ 28" by (simp add: table_at_def)
  from malloc_freshD [OF assms(2) this] show ?thesis using assms(1,3) unfolding moved_def by metis
qed

lemma equal_in_map:
  assumes "\<And>k tb. M k = Some tb \<Longrightarrow> key tbs tb = k"
  shows "(\<exists>x \<in> elems off M. jumptable2_equal off tbs x (tb + off)) \<longleftrightarrow> M (key tbs tb) \<noteq> None"
proof
  assume "\<exists>x \<in> elems off M. jumptable2_equal off tbs x (tb + off)"
  then obtain k tb' where "M k = Some tb'" "key tbs tb' = key tbs tb" by (auto dest!: in_elems)
  then show "M (key tbs tb) \<noteq> None" using assms [of k tb'] by simp
next
  assume "M (key tbs tb) \<noteq> None"
  then obtain tb' where t: "M (key tbs tb) = Some tb'" by blast
  then have "tb' + off \<in> elems off M" by (rule elems_mem)
  moreover have "jumptable2_equal off tbs (tb' + off) (tb + off)" using assms [OF t] by simp
  ultimately show "\<exists>x \<in> elems off M. jumptable2_equal off tbs x (tb + off)" by blast
qed

lemma elems_remove:
  assumes K: "\<And>k tb. M k = Some tb \<Longrightarrow> key tbs tb = k"
  shows "{x \<in> elems off M. \<not> jumptable2_equal off tbs x (tb + off)} = elems off (M(key tbs tb := None))"
proof (rule set_eqI)
  fix x
  have N: "(M(key tbs tb := None)) k = Some y \<longleftrightarrow> M k = Some y \<and> key tbs y \<noteq> key tbs tb" for k y
    using K [of k y] by auto
  have "x \<in> elems off M \<and> \<not> jumptable2_equal off tbs x (tb + off)
      \<longleftrightarrow> (\<exists>k y. M k = Some y \<and> key tbs y \<noteq> key tbs tb \<and> x = y + off)"
    unfolding elems_iff [of x] by force
  then show "x \<in> {x \<in> elems off M. \<not> jumptable2_equal off tbs x (tb + off)} \<longleftrightarrow> x \<in> elems off (M(key tbs tb := None))"
    unfolding mem_Collect_eq elems_iff [of x off "M(key tbs tb := None)"] N by simp
qed

text \<open>The four operations on the map.\<close>

lemma add_map:
  assumes h: "holds_map U off tbs M t l" and fr: "malloc_fresh malloc (in_use t U)"
    and U: "finite U" "0 \<notin> U" "tb + off \<in> U" and n: "Suc (card U) < n" "32 < n" "Suc (card U) < 2 ^ 29"
  shows "if M (key tbs tb) = None
    then \<exists>t' l'. jumptable2_add n off tbs malloc tb t l = Inr (t', l') \<and> holds_map U off tbs (M(key tbs tb \<mapsto> tb)) t' l'
    else jumptable2_add n off tbs malloc tb t l = Inl ASSERT_FAIL"
proof -
  let ?hf = "jumptable2_hash off tbs" and ?eq = "jumptable2_equal off tbs" and ?S = "elems off M" and ?e = "tb + off"
  have hs: "holds_set ?hf ?eq l t ?S" "?S \<subseteq> U" "region (buckets t) (unat (bucket_cnt t)) \<inter> U = {}"
    and K: "\<And>k tb. M k = Some tb \<Longrightarrow> key tbs tb = k" using h by (auto simp: holds_map_def)
  note ex = equal_in_map [of M tbs off tb, OF K]
  have "?e \<notin> ?S" if "M (key tbs tb) = None" using that ex by fastforce
  then have e: "(\<exists>x \<in> ?S. ?eq x ?e) \<or> ?e \<notin> in_use t ?S" using ex hs(3) U(3) by (auto simp: in_use_def)
  have c: "Suc (card ?S) < n" "Suc (card ?S) < 2 ^ 29" using card_mono [OF U(1) hs(2)] n(1,3) by simp_all
  have f: "malloc_fresh malloc (in_use t (insert ?e ?S))"
    by (rule malloc_fresh_mono [OF fr]) (use hs(2) U(3) in \<open>auto simp: in_use_def\<close>)
  obtain r t' l' where r: "hash_insert n ?hf ?eq malloc ?e t l = Inr (r, t', l')"
      "if \<exists>x \<in> ?S. ?eq x ?e then r \<in> ?S \<and> ?eq r ?e \<and> holds_set ?hf ?eq l' t' ?S else r = 0 \<and> holds_set ?hf ?eq l' t' (insert ?e ?S)"
    using jt.hash_insert_set [OF hs(1) e _ c(1) n(2) c(2) f] U(2,3) by metis
  show ?thesis
  proof (cases "M (key tbs tb)")
    case None
    then have r2: "r = 0" "holds_set ?hf ?eq l' t' (insert ?e ?S)" using r(2) ex by auto
    have el: "elems off (M(key tbs tb \<mapsto> tb)) = insert ?e ?S" using None by (simp add: elems_def)
    have "malloc_fresh malloc U" by (rule malloc_fresh_mono [OF fr]) (simp add: in_use_def)
    then have "region (buckets t') (unat (bucket_cnt t')) \<inter> U = {}"
      by (rule moved_region [OF hash_insert_moved [OF r(1)] _ hs(3) r2(2)])
    then have "holds_map U off tbs (M(key tbs tb \<mapsto> tb)) t' l'" using r2(2) hs(2) U(3) K el by (auto simp: holds_map_def)
    then show ?thesis using None r(1) r2(1) by (simp add: jumptable2_add_def)
  next
    case (Some tb')
    then have "r \<in> ?S" using r(2) ex by simp
    then have "r \<noteq> 0" using member_not_null [OF hs(1)] by simp
    then show ?thesis using Some r(1) by (simp add: jumptable2_add_def)
  qed
qed

lemma find_map:
  assumes h: "holds_map U off tbs M t l" and U: "finite U" "needle + off \<notin> U" "0 \<notin> U" and n: "card U < n"
  shows "jumptable2_find n off tbs needle virt ip t l = Inr (case M (virt, ip) of None \<Rightarrow> 0 | Some tb \<Rightarrow> tb)"
proof -
  define tbs' where "tbs' = tbs(needle := \<lparr>tb_eip = ip, tb_eip_virt = virt\<rparr>)"
  let ?hf = "jumptable2_hash off tbs'" and ?eq = "jumptable2_equal off tbs'" and ?S = "elems off M" and ?e = "needle + off"
  have hs: "holds_set (jumptable2_hash off tbs) (jumptable2_equal off tbs) l t ?S" "?S \<subseteq> U"
    and K: "\<And>k tb. M k = Some tb \<Longrightarrow> key tbs tb = k" using h by (auto simp: holds_map_def)
  have same: "tbs' tb = tbs tb" if "M k = Some tb" for k tb
    using elems_mem [of M k tb off] that hs(2) U(2) by (auto simp: tbs'_def)
  have "holds_set ?hf ?eq l t ?S"
    by (rule holds_set_cong [OF hs(1)])
      (auto simp: jumptable2_hash_def tb_entry_def key_def same dest!: in_elems)
  moreover have "card ?S < n" using card_mono [OF U(1) hs(2)] n by simp
  ultimately obtain r where r: "hash_find n ?hf ?eq ?e t l = Inr r" "if \<exists>x \<in> ?S. ?eq x ?e then r \<in> ?S \<and> ?eq r ?e else r = 0"
    using jt.hash_find_set by blast
  have eq: "?eq (tb + off) ?e \<longleftrightarrow> k = (virt, ip)" if "M k = Some tb" for k tb
    using K [OF that] same [OF that] by (auto simp: key_def tbs'_def)
  have find: "jumptable2_find n off tbs needle virt ip t l = Inr (if r = 0 then 0 else tb_entry off r)"
    using r(1) by (simp add: jumptable2_find_def tbs'_def [symmetric])
  show ?thesis
  proof (cases "M (virt, ip)")
    case None
    then have "\<not> ?eq x ?e" if "x \<in> ?S" for x using in_elems [OF that] eq by fastforce
    then show ?thesis using r(2) None find by auto
  next
    case (Some tb)
    then have "tb + off \<in> ?S" "?eq (tb + off) ?e" using eq [OF Some] elems_mem [of M "(virt, ip)" tb off] Some by blast+
    then have "r \<in> ?S" "?eq r ?e" using r(2) by (auto split: if_splits)
    moreover from this obtain k tb' where "M k = Some tb'" "r = tb' + off" using in_elems by blast
    moreover from calculation have "tb' = tb" using eq Some by simp
    ultimately show ?thesis using find Some hs(2) U(3) by (auto simp: tb_entry_def)
  qed
qed

lemma remove_map:
  assumes h: "holds_map U off tbs M t l" and fr: "malloc_fresh malloc (in_use t U)"
    and U: "finite U" and n: "card U < n" "32 < n"
  shows "\<exists>t' l'. jumptable2_remove n off tbs malloc tb t l = Inr (t', l') \<and> holds_map U off tbs (M(key tbs tb := None)) t' l'"
proof -
  let ?hf = "jumptable2_hash off tbs" and ?eq = "jumptable2_equal off tbs" and ?S = "elems off M" and ?e = "tb + off"
  have hs: "holds_set ?hf ?eq l t ?S" "?S \<subseteq> U" "region (buckets t) (unat (bucket_cnt t)) \<inter> U = {}"
    and K: "\<And>k tb. M k = Some tb \<Longrightarrow> key tbs tb = k" using h by (auto simp: holds_map_def)
  have c: "card ?S < n" using card_mono [OF U hs(2)] n(1) by simp
  have f: "malloc_fresh malloc (in_use t ?S)" by (rule malloc_fresh_mono [OF fr]) (use hs(2) in \<open>auto simp: in_use_def\<close>)
  obtain r t' l' where r: "hash_delete n ?hf ?eq malloc ?e t l = Inr (r, t', l')" "holds_set ?hf ?eq l' t' {x \<in> ?S. \<not> ?eq x ?e}"
    using jt.hash_delete_set [OF hs(1) c n(2) f] by blast
  have "{x \<in> ?S. \<not> ?eq x ?e} = elems off (M(key tbs tb := None))"
    by (rule elems_remove [OF K])
  moreover have "malloc_fresh malloc U" by (rule malloc_fresh_mono [OF fr]) (simp add: in_use_def)
  then have "region (buckets t') (unat (bucket_cnt t')) \<inter> U = {}"
    by (rule moved_region [OF hash_delete_moved [OF r(1)] _ hs(3) r(2)])
  ultimately have "holds_map U off tbs (M(key tbs tb := None)) t' l'" using r(2) hs(2) K by (auto simp: holds_map_def)
  then show ?thesis using r(1) by (simp add: jumptable2_remove_def)
qed

lemma clear_map:
  assumes "holds_map U off tbs M t l"
  shows "\<exists>t' l'. jumptable2_clear n t l = Inr (t', l') \<and> holds_map U off tbs Map.empty t' l'"
proof -
  have "holds_set (jumptable2_hash off tbs) (jumptable2_equal off tbs) l t (elems off M)" using assms by (simp add: holds_map_def)
  from hash_clear_set [OF this, of n "jumptable2_hash off tbs" "jumptable2_equal off tbs"] assms show ?thesis
    by (auto simp: jumptable2_clear_def holds_map_def elems_def)
qed

lemma init_map:
  assumes "malloc 64 \<noteq> 0" "region (malloc 64) 4 \<inter> U = {}"
  shows "\<exists>t l'. jumptable2_init n malloc l = Inr (t, l') \<and> holds_map U off tbs Map.empty t l'"
  using hash_init_size_set [of 4 malloc n l "jumptable2_hash off tbs" "jumptable2_equal off tbs"] assms
  by (auto simp: jumptable2_init_def hash_init_def holds_map_def elems_def)

lemma run_op_refines:
  assumes h: "holds_map U off tbs M t l" and fr: "malloc_fresh malloc (in_use t U)"
    and U: "finite U" "0 \<notin> U" "op_in U off p" and n: "Suc (card U) < n" "32 < n" "Suc (card U) < 2 ^ 29"
  shows "case map_op tbs p M of Inl e \<Rightarrow> run_op n off tbs malloc p t l = Inl e
    | Inr (r, M') \<Rightarrow> \<exists>t' l'. run_op n off tbs malloc p t l = Inr (r, t', l') \<and> holds_map U off tbs M' t' l'"
proof (cases p)
  case (Add tb)
  then show ?thesis using add_map [OF h fr U(1,2) _ n, of tb] U(3) by (auto split: if_splits)
next
  case (Find needle virt ip)
  then show ?thesis using find_map [OF h U(1) _ U(2), of needle n virt ip] U(3) n(1) h by simp
next
  case (Remove tb)
  then show ?thesis using remove_map [OF h fr U(1) _ n(2), of tb] n(1) by auto
next
  case Clear
  then show ?thesis using clear_map [OF h, of n] by auto
qed

lemma jt_ops_refine:
  assumes al: "\<And>t. malloc_fresh (alloc t) (in_use t U)" and U: "finite U" "0 \<notin> U" and n: "Suc (card U) < n" "32 < n" "Suc (card U) < 2 ^ 29"
  shows "holds_map U off tbs M t l \<Longrightarrow> list_all (op_in U off) ps \<Longrightarrow>
    case map_ops tbs ps M of Inl e \<Rightarrow> jt_ops n off tbs alloc ps t l = Inl e
    | Inr (rs, M') \<Rightarrow> \<exists>t' l'. jt_ops n off tbs alloc ps t l = Inr (rs, t', l') \<and> holds_map U off tbs M' t' l'"
proof (induction ps arbitrary: M t l)
  case (Cons p ps)
  note step = run_op_refines [OF Cons.prems(1) al U, of p n] 
  show ?case
  proof (cases "map_op tbs p M")
    case (Inl e)
    then show ?thesis using step Cons.prems(2) n by simp
  next
    case (Inr q)
    obtain r M1 where q: "q = (r, M1)" by fastforce
    then obtain t1 l1 where s: "run_op n off tbs (alloc t) p t l = Inr (r, t1, l1)" "holds_map U off tbs M1 t1 l1"
      using step Inr Cons.prems(2) n by auto
    show ?thesis using Cons.IH [OF s(2)] Cons.prems(2) Inr q s(1) by (auto split: sum.splits)
  qed
qed simp

text \<open>
  C21. The jump table is a finite map from pairs of virtual address and program counter to
  translation blocks.  After \<open>jumptable2_init\<close>, every sequence of additions, lookups,
  removals and clearings ends, returns what the same sequence on the map returns (a lookup
  the block last added under its pair and not removed since, or NULL), and leaves a table that holds the resulting map, however
  often the table is rehashed; it fails only where the map operation fails, by the
  assertion of \<open>jumptable2_add\<close> on a pair that is present.  The memory that \<open>malloc\<close> gives out
  is not in use.
\<close>

theorem jumptable2_refines_map:
  assumes "\<forall>t. malloc_fresh (alloc t) (in_use t U)" and "malloc 64 \<noteq> 0" "region (malloc 64) 4 \<inter> U = {}"
    and "finite U" "0 \<notin> U" "list_all (op_in U off) ps" and "Suc (card U) < n" "32 < n" "Suc (card U) < 2 ^ 29"
  shows "\<exists>t l1. jumptable2_init n malloc l = Inr (t, l1)
    \<and> (case map_ops tbs ps Map.empty of Inl e \<Rightarrow> jt_ops n off tbs alloc ps t l1 = Inl e
       | Inr (rs, M) \<Rightarrow> \<exists>t' l'. jt_ops n off tbs alloc ps t l1 = Inr (rs, t', l') \<and> holds_map U off tbs M t' l')"
proof -
  obtain t l1 where i: "jumptable2_init n malloc l = Inr (t, l1)" "holds_map U off tbs Map.empty t l1"
    using init_map [of malloc U n l off tbs] assms(2,3) by blast
  then show ?thesis
    using jt_ops_refine [OF _ assms(4,5,7-9) i(2) assms(6), of alloc] assms(1) by blast
qed

definition two_blocks :: "nat \<Rightarrow> tb_t" where
  "two_blocks tb = (if tb = 100 then \<lparr>tb_eip = 5, tb_eip_virt = 7\<rparr> else \<lparr>tb_eip = 6, tb_eip_virt = 7\<rparr>)"

text \<open>An allocator that gives out the memory after the buckets in use.\<close>

definition bump :: "hash \<Rightarrow> nat \<Rightarrow> nat" where
  "bump t k = 1000 + buckets t + 16 * unat (bucket_cnt t)"

lemma bump_fresh: "malloc_fresh (bump t) (in_use t {108, 208})"
  by (auto simp: malloc_fresh_def in_use_def region_def bump_def)

theorem jumptable2_refines_map_witness:
  "\<exists>t l1 t' l'. jumptable2_init 40 (\<lambda>k. 1000) \<lparr>l_prev = \<lambda>x. 0, l_next = \<lambda>x. 0\<rparr> = Inr (t, l1)
    \<and> jt_ops 40 8 two_blocks bump [Add 100, Add 200, Find 900 7 6, Remove 200, Find 900 7 6, Find 900 7 5] t l1
      = Inr ([0, 0, 200, 0, 0, 100], t', l')"
  using jumptable2_refines_map [of bump "{108, 208}" "\<lambda>k. 1000" 8
      "[Add 100, Add 200, Find 900 7 6, Remove 200, Find 900 7 6, Find 900 7 5]" 40
      "\<lparr>l_prev = \<lambda>x. 0, l_next = \<lambda>x. 0\<rparr>" two_blocks]
  by (auto simp: bump_fresh region_def key_def two_blocks_def)

end
