(* ===== verification/Rbtree.thy ===== *)
theory Rbtree
  imports Prelude
begin

text \<open>
  \<^verbatim>\<open>lib/rbtree.c\<close>: red-black trees of elements with parent links and a shared sentinel,
  and the representation of an abstract tree, or of a subtree in its context, by the
  links.  The element of a structure is its address; the comparison \<open>lt\<close> is the function pointer of the tree with
  its auxiliary argument.  The loops follow links and take fuel.
\<close>

subsection \<open>Elements and trees\<close>

datatype color = BLACK | RED

record rbtree_elem =
  e_left :: nat
  e_right :: nat
  e_parent :: nat
  e_color :: color

record rbtree =
  elem :: "nat \<Rightarrow> rbtree_elem"
  tree_root :: nat

text \<open>The address of the sentinel; no element and no null pointer has it.\<close>

definition nil :: nat where
  "nil = 4"

abbreviation lft :: "rbtree \<Rightarrow> nat \<Rightarrow> nat" where "lft s a \<equiv> e_left (elem s a)"
abbreviation rgt :: "rbtree \<Rightarrow> nat \<Rightarrow> nat" where "rgt s a \<equiv> e_right (elem s a)"
abbreviation par :: "rbtree \<Rightarrow> nat \<Rightarrow> nat" where "par s a \<equiv> e_parent (elem s a)"
abbreviation col :: "rbtree \<Rightarrow> nat \<Rightarrow> color" where "col s a \<equiv> e_color (elem s a)"

definition set_left :: "nat \<Rightarrow> nat \<Rightarrow> rbtree \<Rightarrow> rbtree" where
  "set_left a v s = s\<lparr>elem := (elem s)(a := (elem s a)\<lparr>e_left := v\<rparr>)\<rparr>"

definition set_right :: "nat \<Rightarrow> nat \<Rightarrow> rbtree \<Rightarrow> rbtree" where
  "set_right a v s = s\<lparr>elem := (elem s)(a := (elem s a)\<lparr>e_right := v\<rparr>)\<rparr>"

definition set_parent :: "nat \<Rightarrow> nat \<Rightarrow> rbtree \<Rightarrow> rbtree" where
  "set_parent a v s = s\<lparr>elem := (elem s)(a := (elem s a)\<lparr>e_parent := v\<rparr>)\<rparr>"

definition set_color :: "nat \<Rightarrow> color \<Rightarrow> rbtree \<Rightarrow> rbtree" where
  "set_color a v s = s\<lparr>elem := (elem s)(a := (elem s a)\<lparr>e_color := v\<rparr>)\<rparr>"

definition rbtree_init :: "rbtree \<Rightarrow> rbtree" where
  "rbtree_init s =
     (let s = set_color nil BLACK s; s = set_parent nil nil s; s = set_right nil nil s; s = set_left nil nil s
      in s\<lparr>tree_root := nil\<rparr>)"

subsection \<open>Rotations\<close>

definition leftrotate :: "nat \<Rightarrow> rbtree \<Rightarrow> rbtree res" where
  "leftrotate node s =
     (let rchild = rgt s node; parent = par s node;
          s = set_right node (lft s rchild) s;
          s = (if lft s rchild \<noteq> nil then set_parent (lft s rchild) node s else s);
          s = set_parent rchild parent s in
      rbind (if parent = nil then assert_then (tree_root s = node) (Inr (s\<lparr>tree_root := rchild\<rparr>))
             else if node = lft s parent then Inr (set_left parent rchild s)
             else Inr (set_right parent rchild s))
        (\<lambda>s. Inr (set_parent node rchild (set_left rchild node s))))"

definition rightrotate :: "nat \<Rightarrow> rbtree \<Rightarrow> rbtree res" where
  "rightrotate node s =
     (let lchild = lft s node; parent = par s node;
          s = set_left node (rgt s lchild) s;
          s = (if rgt s lchild \<noteq> nil then set_parent (rgt s lchild) node s else s);
          s = set_parent lchild parent s in
      rbind (if parent = nil then assert_then (tree_root s = node) (Inr (s\<lparr>tree_root := lchild\<rparr>))
             else if node = lft s parent then Inr (set_left parent lchild s)
             else Inr (set_right parent lchild s))
        (\<lambda>s. Inr (set_parent node lchild (set_right lchild node s))))"

subsection \<open>Insertion\<close>

fun rb_insert_loop :: "nat \<Rightarrow> nat \<Rightarrow> nat \<Rightarrow> rbtree \<Rightarrow> rbtree res" where
  "rb_insert_loop 0 root node s = Inl OUT_OF_FUEL"
| "rb_insert_loop (Suc n) root node s =
     (if node \<noteq> root \<and> col s (par s node) = RED
      then let parent = par s node in
        if parent = lft s (par s parent)
        then let uncle = rgt s (par s parent) in
          if uncle \<noteq> nil \<and> col s uncle = RED
          then let s = set_color parent BLACK s; s = set_color uncle BLACK s; s = set_color (par s parent) RED s
            in rb_insert_loop n root (par s parent) s
          else rbind (if node = rgt s parent
                      then let node = parent in rbind (leftrotate node s) (\<lambda>s. Inr (node, par s node, s))
                      else Inr (node, parent, s))
            (\<lambda>(node, parent, s).
               let s = set_color parent BLACK s; s = set_color (par s parent) RED s in
               rbind (rightrotate (par s parent) s) (rb_insert_loop n root node))
        else let uncle = lft s (par s parent) in
          if uncle \<noteq> nil \<and> col s uncle = RED
          then let s = set_color parent BLACK s; s = set_color uncle BLACK s; s = set_color (par s parent) RED s
            in rb_insert_loop n root (par s parent) s
          else rbind (if node = lft s parent
                      then let node = parent in rbind (rightrotate node s) (\<lambda>s. Inr (node, par s node, s))
                      else Inr (node, parent, s))
            (\<lambda>(node, parent, s).
               let s = set_color parent BLACK s; s = set_color (par s parent) RED s in
               rbind (leftrotate (par s parent) s) (rb_insert_loop n root node))
      else Inr s)"

definition rb_insert :: "nat \<Rightarrow> nat \<Rightarrow> rbtree \<Rightarrow> rbtree res" where
  "rb_insert n node s =
     (let root = tree_root s; s = set_color node RED s in
      rbind (rb_insert_loop n root node s) (\<lambda>s. Inr (set_color (tree_root s) BLACK s)))"

fun node_insert_loop :: "nat \<Rightarrow> (nat \<Rightarrow> nat \<Rightarrow> bool) \<Rightarrow> nat \<Rightarrow> nat \<Rightarrow> rbtree \<Rightarrow> rbtree res" where
  "node_insert_loop 0 lt root new_node s = Inl OUT_OF_FUEL"
| "node_insert_loop (Suc n) lt root new_node s =
     assert_then (root \<noteq> nil)
       (if lt root new_node
        then if rgt s root = nil then Inr (set_parent new_node root (set_right root new_node s))
          else node_insert_loop n lt (rgt s root) new_node s
        else if lft s root = nil then Inr (set_parent new_node root (set_left root new_node s))
          else node_insert_loop n lt (lft s root) new_node s)"

definition node_insert :: "nat \<Rightarrow> (nat \<Rightarrow> nat \<Rightarrow> bool) \<Rightarrow> nat \<Rightarrow> rbtree \<Rightarrow> rbtree res" where
  "node_insert n lt new_node s =
     (let root = tree_root s in
      rbind (if root = nil then Inr (s\<lparr>tree_root := new_node\<rparr>) else node_insert_loop n lt root new_node s)
        (rb_insert n new_node))"

definition rbtree_insert :: "nat \<Rightarrow> (nat \<Rightarrow> nat \<Rightarrow> bool) \<Rightarrow> nat \<Rightarrow> rbtree \<Rightarrow> rbtree res" where
  "rbtree_insert n lt e s =
     (let s = set_parent e nil s; s = set_right e nil s; s = set_left e nil s; s = set_color e RED s
      in node_insert n lt e s)"

subsection \<open>Traversal\<close>

fun maximum :: "nat \<Rightarrow> nat \<Rightarrow> rbtree \<Rightarrow> nat res" where
  "maximum 0 root s = Inl OUT_OF_FUEL"
| "maximum (Suc n) root s = (if rgt s root \<noteq> nil then maximum n (rgt s root) s else Inr root)"

fun minimum :: "nat \<Rightarrow> nat \<Rightarrow> rbtree \<Rightarrow> nat res" where
  "minimum 0 root s = Inl OUT_OF_FUEL"
| "minimum (Suc n) root s = (if lft s root \<noteq> nil then minimum n (lft s root) s else Inr root)"

fun successor_loop :: "nat \<Rightarrow> nat \<Rightarrow> nat \<Rightarrow> rbtree \<Rightarrow> nat res" where
  "successor_loop 0 node parent s = Inl OUT_OF_FUEL"
| "successor_loop (Suc n) node parent s =
     (if parent \<noteq> nil \<and> node = rgt s parent then successor_loop n parent (par s parent) s else Inr parent)"

definition successor :: "nat \<Rightarrow> nat \<Rightarrow> rbtree \<Rightarrow> nat res" where
  "successor n node s =
     (let right = rgt s node in if right \<noteq> nil then minimum n right s else successor_loop n node (par s node) s)"

fun predecessor_loop :: "nat \<Rightarrow> nat \<Rightarrow> nat \<Rightarrow> rbtree \<Rightarrow> nat res" where
  "predecessor_loop 0 node parent s = Inl OUT_OF_FUEL"
| "predecessor_loop (Suc n) node parent s =
     (if parent \<noteq> nil \<and> node = lft s parent then predecessor_loop n parent (par s parent) s else Inr parent)"

definition predecessor :: "nat \<Rightarrow> nat \<Rightarrow> rbtree \<Rightarrow> nat res" where
  "predecessor n node s =
     (let left = lft s node in if left \<noteq> nil then maximum n left s else predecessor_loop n node (par s node) s)"

definition rbtree_begin :: "nat \<Rightarrow> rbtree \<Rightarrow> nat res" where
  "rbtree_begin n s = rbind (minimum n (tree_root s) s) (\<lambda>m. Inr (if m = nil then 0 else m))"

definition rbtree_rbegin :: "nat \<Rightarrow> rbtree \<Rightarrow> nat res" where
  "rbtree_rbegin n s = rbind (maximum n (tree_root s) s) (\<lambda>m. Inr (if m = nil then 0 else m))"

definition rbtree_end :: "rbtree \<Rightarrow> nat" where
  "rbtree_end s = 0"

definition rbtree_rend :: "rbtree \<Rightarrow> nat" where
  "rbtree_rend s = 0"

definition rbtree_next :: "nat \<Rightarrow> nat \<Rightarrow> rbtree \<Rightarrow> nat res" where
  "rbtree_next n e s = rbind (successor n e s) (\<lambda>m. Inr (if m = nil then 0 else m))"

definition rbtree_prev :: "nat \<Rightarrow> nat \<Rightarrow> rbtree \<Rightarrow> nat res" where
  "rbtree_prev n e s = assert_then (e \<noteq> 0) (rbind (predecessor n e s) (\<lambda>m. Inr (if m = nil then 0 else m)))"

subsection \<open>Search\<close>

fun find_first_equal_loop :: "nat \<Rightarrow> nat \<Rightarrow> (nat \<Rightarrow> nat \<Rightarrow> bool) \<Rightarrow> nat \<Rightarrow> nat \<Rightarrow> rbtree \<Rightarrow> nat res" where
  "find_first_equal_loop 0 n lt e root s = Inl OUT_OF_FUEL"
| "find_first_equal_loop (Suc k) n lt e root s =
     rbind (predecessor n root s) (\<lambda>pred.
       if pred = nil \<or> lt pred e then Inr root
       else assert_then (\<not> lt pred e \<and> \<not> lt e pred) (find_first_equal_loop k n lt e pred s))"

definition find_first_equal_entry :: "nat \<Rightarrow> (nat \<Rightarrow> nat \<Rightarrow> bool) \<Rightarrow> nat \<Rightarrow> nat \<Rightarrow> rbtree \<Rightarrow> nat res" where
  "find_first_equal_entry n lt e root s =
     rbind (find_first_equal_loop n n lt e root s) (\<lambda>root.
       assert_then (root \<noteq> nil) (assert_then (\<not> lt e root \<and> \<not> lt root e) (Inr root)))"

fun rbtree_find_loop :: "nat \<Rightarrow> nat \<Rightarrow> (nat \<Rightarrow> nat \<Rightarrow> bool) \<Rightarrow> nat \<Rightarrow> nat \<Rightarrow> rbtree \<Rightarrow> nat res" where
  "rbtree_find_loop 0 n lt e root s = Inl OUT_OF_FUEL"
| "rbtree_find_loop (Suc k) n lt e root s =
     (if root \<noteq> nil
      then if lt root e then rbtree_find_loop k n lt e (rgt s root) s
        else if lt e root then rbtree_find_loop k n lt e (lft s root) s
        else find_first_equal_entry n lt e root s
      else Inr 0)"

definition rbtree_find :: "nat \<Rightarrow> (nat \<Rightarrow> nat \<Rightarrow> bool) \<Rightarrow> nat \<Rightarrow> rbtree \<Rightarrow> nat res" where
  "rbtree_find n lt e s = rbtree_find_loop n n lt e (tree_root s) s"

fun find_first_loop :: "nat \<Rightarrow> nat \<Rightarrow> (nat \<Rightarrow> nat \<Rightarrow> bool) \<Rightarrow> nat \<Rightarrow> nat \<Rightarrow> nat \<Rightarrow> rbtree \<Rightarrow> nat res" where
  "find_first_loop 0 n lt e root ret s = Inl OUT_OF_FUEL"
| "find_first_loop (Suc k) n lt e root ret s =
     (if root \<noteq> nil
      then if lt root e then find_first_loop k n lt e (rgt s root) ret s
        else let ret = root in
          if lt e root then find_first_loop k n lt e (lft s root) ret s
          else find_first_equal_entry n lt e root s
      else assert_then (ret = rbtree_end s \<or> lt e ret) (Inr ret))"

definition rbtree_find_first :: "nat \<Rightarrow> (nat \<Rightarrow> nat \<Rightarrow> bool) \<Rightarrow> nat \<Rightarrow> rbtree \<Rightarrow> nat res" where
  "rbtree_find_first n lt e s = find_first_loop n n lt e (tree_root s) (rbtree_end s) s"

subsection \<open>Deletion\<close>

fun rb_delete_fixup_loop :: "nat \<Rightarrow> nat \<Rightarrow> nat \<Rightarrow> nat \<Rightarrow> rbtree \<Rightarrow> (nat \<times> rbtree) res" where
  "rb_delete_fixup_loop 0 root node parent s = Inl OUT_OF_FUEL"
| "rb_delete_fixup_loop (Suc n) root node parent s =
     (if node \<noteq> root \<and> col s node = BLACK
      then if node = lft s parent
        then let sibling = rgt s parent in
          rbind (if col s sibling = RED
                 then let s = set_color sibling BLACK s; s = set_color parent RED s in
                   rbind (leftrotate parent s) (\<lambda>s. let parent = par s node in Inr (parent, rgt s parent, s))
                 else Inr (parent, sibling, s))
            (\<lambda>(parent, sibling, s).
               if col s (lft s sibling) = BLACK \<and> col s (rgt s sibling) = BLACK
               then let s = set_color sibling RED s; node = parent; parent = par s node
                 in rb_delete_fixup_loop n root node parent s
               else rbind (if col s (rgt s sibling) = BLACK
                      then let s = set_color (lft s sibling) BLACK s; s = set_color sibling RED s in
                        rbind (rightrotate sibling s) (\<lambda>s. let parent = par s node in Inr (parent, rgt s parent, s))
                      else Inr (parent, sibling, s))
                 (\<lambda>(parent, sibling, s).
                    let s = set_color sibling (col s parent) s; s = set_color parent BLACK s;
                        s = set_color (rgt s sibling) BLACK s in
                    rbind (leftrotate parent s) (rb_delete_fixup_loop n root root parent)))
        else let sibling = lft s parent in
          rbind (if col s sibling = RED
                 then let s = set_color sibling BLACK s; s = set_color parent RED s in
                   rbind (rightrotate parent s) (\<lambda>s. let parent = par s node in Inr (parent, lft s parent, s))
                 else Inr (parent, sibling, s))
            (\<lambda>(parent, sibling, s).
               if col s (lft s sibling) = BLACK \<and> col s (rgt s sibling) = BLACK
               then let s = set_color sibling RED s; node = parent; parent = par s node
                 in rb_delete_fixup_loop n root node parent s
               else rbind (if col s (lft s sibling) = BLACK
                      then let s = set_color (rgt s sibling) BLACK s; s = set_color sibling RED s in
                        rbind (leftrotate sibling s) (\<lambda>s. let parent = par s node in Inr (parent, lft s parent, s))
                      else Inr (parent, sibling, s))
                 (\<lambda>(parent, sibling, s).
                    let s = set_color sibling (col s parent) s; s = set_color parent BLACK s;
                        s = set_color (lft s sibling) BLACK s in
                    rbind (rightrotate parent s) (rb_delete_fixup_loop n root root parent)))
      else Inr (node, s))"

definition rb_delete_fixup :: "nat \<Rightarrow> nat \<Rightarrow> rbtree \<Rightarrow> rbtree res" where
  "rb_delete_fixup n node s =
     rbind (rb_delete_fixup_loop n (tree_root s) node (par s node) s) (\<lambda>(node, s). Inr (set_color node BLACK s))"

definition rbtree_elem_replace :: "nat \<Rightarrow> nat \<Rightarrow> rbtree \<Rightarrow> rbtree res" where
  "rbtree_elem_replace b a s =
     (let s = set_left b (lft s a) s; s = set_right b (rgt s a) s; s = set_parent b (par s a) s;
          s = set_color b (col s a) s;
          s = (if par s a \<noteq> nil
               then let s = (if lft s (par s a) = a then set_left (par s b) b s else s)
                 in if rgt s (par s a) = a then set_right (par s b) b s else s
               else s) in
      rbind (if lft s a \<noteq> nil then assert_then (par s (lft s a) = a) (Inr (set_parent (lft s b) b s)) else Inr s) (\<lambda>s.
      rbind (if rgt s a \<noteq> nil then assert_then (par s (rgt s a) = a) (Inr (set_parent (rgt s b) b s)) else Inr s) (\<lambda>s.
        Inr (if tree_root s = a then s\<lparr>tree_root := b\<rparr> else s))))"

definition node_delete :: "nat \<Rightarrow> nat \<Rightarrow> rbtree \<Rightarrow> rbtree res" where
  "node_delete n node s =
     rbind (if lft s node = nil \<or> rgt s node = nil then Inr node else successor n node s) (\<lambda>delnode.
       let child_delnode = (if lft s delnode \<noteq> nil then lft s delnode else rgt s delnode);
           parent = par s delnode;
           s = set_parent child_delnode parent s;
           s = (if parent = nil then s\<lparr>tree_root := child_delnode\<rparr>
                else if delnode = lft s parent then set_left parent child_delnode s
                else set_right parent child_delnode s) in
       rbind (if col s delnode = BLACK then rb_delete_fixup n child_delnode s else Inr s) (\<lambda>s.
         if delnode \<noteq> node
         then rbind (rbtree_elem_replace delnode node s) (\<lambda>s.
           Inr (set_parent node nil (set_left node nil (set_right node nil s))))
         else Inr s))"

definition rbtree_delete :: "nat \<Rightarrow> nat \<Rightarrow> rbtree \<Rightarrow> rbtree res" where
  "rbtree_delete n e s = node_delete n e s"

subsection \<open>Inspection\<close>

fun height_of :: "nat \<Rightarrow> nat \<Rightarrow> rbtree \<Rightarrow> u32 res" where
  "height_of 0 root s = Inl OUT_OF_FUEL"
| "height_of (Suc n) root s =
     (if root = nil then Inr 0
      else rbind (height_of n (lft s root) s) (\<lambda>l. rbind (height_of n (rgt s root) s) (\<lambda>r. Inr (max l r + 1))))"

definition rbtree_height :: "nat \<Rightarrow> rbtree \<Rightarrow> u32 res" where
  "rbtree_height n s = height_of n (tree_root s) s"

text \<open>The elements given to the printing function, in order.\<close>

fun inorder_of :: "nat \<Rightarrow> nat \<Rightarrow> rbtree \<Rightarrow> nat list res" where
  "inorder_of 0 root s = Inl OUT_OF_FUEL"
| "inorder_of (Suc n) root s =
     (if root = nil then Inr []
      else rbind (inorder_of n (lft s root) s) (\<lambda>ls. rbind (inorder_of n (rgt s root) s) (\<lambda>rs. Inr (ls @ root # rs))))"

definition rbtree_inorder :: "nat \<Rightarrow> rbtree \<Rightarrow> nat list res" where
  "rbtree_inorder n s = inorder_of n (tree_root s) s"

fun inorder_check :: "nat \<Rightarrow> (nat \<Rightarrow> nat \<Rightarrow> bool) \<Rightarrow> nat \<Rightarrow> rbtree \<Rightarrow> int res" where
  "inorder_check 0 lt root s = Inl OUT_OF_FUEL"
| "inorder_check (Suc n) lt root s =
     (if root = nil then Inr 0
      else rbind (inorder_check n lt (lft s root) s) (\<lambda>left_bh.
        assert_then (par s root \<noteq> nil \<and> lft s (par s root) = root \<longrightarrow> \<not> lt (par s root) root)
        (assert_then (par s root \<noteq> nil \<and> rgt s (par s root) = root \<longrightarrow> \<not> lt root (par s root))
        (assert_then (lft s root \<noteq> nil \<longrightarrow> \<not> lt root (lft s root))
        (assert_then (rgt s root \<noteq> nil \<longrightarrow> \<not> lt (rgt s root) root)
        (rbind (inorder_check n lt (rgt s root) s) (\<lambda>right_bh.
           assert_then (left_bh = right_bh) (Inr (if col s root = BLACK then left_bh + 1 else left_bh)))))))))"

definition rbtree_inorder_check :: "nat \<Rightarrow> (nat \<Rightarrow> nat \<Rightarrow> bool) \<Rightarrow> rbtree \<Rightarrow> rbtree res" where
  "rbtree_inorder_check n lt s = rbind (inorder_check n lt (tree_root s) s) (\<lambda>bh. Inr s)"

end
