(* ===== verification/Rbtree_Shape.thy ===== *)
theory Rbtree_Shape
  imports Rbtree
begin

text \<open>
  What the links of theory \<open>Rbtree\<close> represent: a coloured tree of addresses, or a subtree
  together with the context it is in, so that a loop that walks up the parent links moves
  the focus.  Rotations, colourings and replacements of the subtree in focus are shown
  once, for both directions.
\<close>

subsection \<open>Trees and contexts\<close>

datatype tree = Lf | Nd tree nat color tree

fun addr :: "tree \<Rightarrow> nat" where
  "addr Lf = nil"
| "addr (Nd l a c r) = a"

fun inorder :: "tree \<Rightarrow> nat list" where
  "inorder Lf = []"
| "inorder (Nd l a c r) = inorder l @ a # inorder r"

fun tree_color :: "tree \<Rightarrow> color" where
  "tree_color Lf = BLACK"
| "tree_color (Nd l a c r) = c"

fun paint :: "color \<Rightarrow> tree \<Rightarrow> tree" where
  "paint c Lf = Lf"
| "paint c (Nd l a c' r) = Nd l a c r"

datatype dir = LEFT | RIGHT

fun opp :: "dir \<Rightarrow> dir" where
  "opp LEFT = RIGHT"
| "opp RIGHT = LEFT"

text \<open>A node whose child on side \<open>d\<close> is \<open>t\<close> and whose other child is \<open>u\<close>.\<close>

fun mk :: "dir \<Rightarrow> tree \<Rightarrow> nat \<Rightarrow> color \<Rightarrow> tree \<Rightarrow> tree" where
  "mk LEFT t a c u = Nd t a c u"
| "mk RIGHT t a c u = Nd u a c t"

text \<open>A frame is a node around the focus: the side of the focus, its address and colour, and its other child.\<close>

datatype frame = Frame dir nat color tree

fun plug :: "tree \<Rightarrow> frame list \<Rightarrow> tree" where
  "plug t [] = t"
| "plug t (Frame d a c u # k) = plug (mk d t a c u) k"

fun up :: "frame list \<Rightarrow> nat" where
  "up [] = nil"
| "up (Frame d a c u # k) = a"

fun ctx_nodes :: "frame list \<Rightarrow> nat list" where
  "ctx_nodes [] = []"
| "ctx_nodes (Frame d a c u # k) = a # inorder u @ ctx_nodes k"

subsection \<open>Representation\<close>

fun cell :: "dir \<Rightarrow> nat \<Rightarrow> nat \<Rightarrow> nat \<Rightarrow> color \<Rightarrow> rbtree_elem" where
  "cell LEFT x y p c = \<lparr>e_left = x, e_right = y, e_parent = p, e_color = c\<rparr>"
| "cell RIGHT x y p c = \<lparr>e_left = y, e_right = x, e_parent = p, e_color = c\<rparr>"

fun shape :: "rbtree \<Rightarrow> nat \<Rightarrow> tree \<Rightarrow> bool" where
  "shape s p Lf \<longleftrightarrow> True"
| "shape s p (Nd l a c r) \<longleftrightarrow> elem s a = cell LEFT (addr l) (addr r) p c \<and> shape s a l \<and> shape s a r"

fun ctx_at :: "rbtree \<Rightarrow> nat \<Rightarrow> frame list \<Rightarrow> bool" where
  "ctx_at s q [] \<longleftrightarrow> tree_root s = q"
| "ctx_at s q (Frame d a c u # k) \<longleftrightarrow> elem s a = cell d q (addr u) (up k) c \<and> shape s a u \<and> ctx_at s a k"

definition sentinel :: "rbtree \<Rightarrow> bool" where
  "sentinel s \<longleftrightarrow> lft s nil = nil \<and> rgt s nil = nil \<and> col s nil = BLACK"

definition focus :: "rbtree \<Rightarrow> tree \<Rightarrow> frame list \<Rightarrow> bool" where
  "focus s t k \<longleftrightarrow> shape s (up k) t \<and> ctx_at s (addr t) k \<and> distinct (inorder t @ ctx_nodes k)
     \<and> nil \<notin> set (inorder t @ ctx_nodes k) \<and> sentinel s"

lemma addr_mk [simp]: "addr (mk d t a c u) = a"
  by (cases d) simp_all

lemma color_mk [simp]: "tree_color (mk d t a c u) = c"
  by (cases d) simp_all

lemma paint_mk [simp]: "paint c' (mk d t a c u) = mk d t a c' u"
  by (cases d) simp_all

lemma addr_paint [simp]: "addr (paint c t) = addr t"
  by (cases t) simp_all

lemma inorder_paint [simp]: "inorder (paint c t) = inorder t"
  by (cases t) simp_all

lemma set_inorder_mk [simp]: "set (inorder (mk d t a c u)) = insert a (set (inorder t) \<union> set (inorder u))"
  by (cases d) auto

lemma distinct_mk [simp]:
  "distinct (inorder (mk d t a c u)) \<longleftrightarrow> distinct (inorder t) \<and> distinct (inorder u) \<and> a \<notin> set (inorder t) \<and> a \<notin> set (inorder u)
     \<and> set (inorder t) \<inter> set (inorder u) = {}"
  by (cases d) auto

lemma shape_mk [simp]:
  "shape s p (mk d t a c u) \<longleftrightarrow> elem s a = cell d (addr t) (addr u) p c \<and> shape s a t \<and> shape s a u"
  by (cases d) auto

lemma cell_opp: "cell (opp d) x y p c = cell d y x p c"
  by (cases d) simp_all

lemma mk_opp: "mk (opp d) t a c u = mk d u a c t"
  by (cases d) simp_all

lemma mk_inject [simp]: "mk d t a c u = mk d t' a' c' u' \<longleftrightarrow> t = t' \<and> a = a' \<and> c = c' \<and> u = u'"
  by (cases d) auto

lemma mk_not_Lf [simp]: "mk d t a c u \<noteq> Lf"
  by (cases d) simp_all

lemma tree_mkE:
  obtains "t = Lf" | l a c r where "t = mk d l a c r"
  by (cases t; cases d) (auto dest: spec)

lemma opp_opp [simp]: "opp (opp d) = d"
  by (cases d) simp_all

lemma addr_nil: "nil \<notin> set (inorder t) \<Longrightarrow> addr t = nil \<longleftrightarrow> t = Lf"
  by (cases t) auto

lemma addr_in: "t \<noteq> Lf \<Longrightarrow> addr t \<in> set (inorder t)"
  by (cases t) auto

lemma up_in: "k \<noteq> [] \<Longrightarrow> up k \<in> set (ctx_nodes k)"
  by (cases k rule: up.cases) auto

text \<open>Moving the focus does not change what is represented.\<close>

lemma focus_mk: "focus s (mk d t a c u) k \<longleftrightarrow> focus s t (Frame d a c u # k)"
  by (auto simp: focus_def)

lemma focus_plug: "focus s t k \<longleftrightarrow> focus s (plug t k) []"
  by (induction t k rule: plug.induct) (simp_all add: focus_mk)

lemma inorder_plug_cong: "inorder t = inorder t' \<Longrightarrow> inorder (plug t k) = inorder (plug t' k)"
proof (induction k arbitrary: t t')
  case (Cons f k)
  obtain d a c u where f: "f = Frame d a c u" by (cases f)
  have "inorder (mk d t a c u) = inorder (mk d t' a c u)" using Cons.prems by (cases d) simp_all
  from Cons.IH [OF this] show ?case using f by simp
qed simp

lemma set_inorder_plug: "set (inorder (plug t k)) = set (inorder t) \<union> set (ctx_nodes k)"
  by (induction t k rule: plug.induct) auto

lemma plug_append: "plug t (k @ k') = plug (plug t k) k'"
  by (induction t k rule: plug.induct) simp_all

subsection \<open>Updates\<close>

lemma shape_cong: "(\<And>x. x \<in> set (inorder t) \<Longrightarrow> elem s' x = elem s x) \<Longrightarrow> shape s' p t = shape s p t"
  by (induction t arbitrary: p) auto

lemma ctx_cong:
  "(\<And>x. x \<in> set (ctx_nodes k) \<Longrightarrow> elem s' x = elem s x) \<Longrightarrow> tree_root s' = tree_root s \<Longrightarrow> ctx_at s' q k = ctx_at s q k"
proof (induction k arbitrary: q)
  case (Cons f k)
  obtain d a c u where f: "f = Frame d a c u" by (cases f)
  have "shape s' a u = shape s a u" using Cons.prems(1) f by (intro shape_cong) auto
  then show ?case using Cons f by auto
qed simp

lemma elem_set [simp]:
  "elem (set_left a v s) = (elem s)(a := (elem s a)\<lparr>e_left := v\<rparr>)"
  "elem (set_right a v s) = (elem s)(a := (elem s a)\<lparr>e_right := v\<rparr>)"
  "elem (set_parent a v s) = (elem s)(a := (elem s a)\<lparr>e_parent := v\<rparr>)"
  "elem (set_color a w s) = (elem s)(a := (elem s a)\<lparr>e_color := w\<rparr>)"
  "tree_root (set_left a v s) = tree_root s" "tree_root (set_right a v s) = tree_root s"
  "tree_root (set_parent a v s) = tree_root s" "tree_root (set_color a w s) = tree_root s"
  by (simp_all add: set_left_def set_right_def set_parent_def set_color_def)

fun child :: "rbtree \<Rightarrow> dir \<Rightarrow> nat \<Rightarrow> nat" where
  "child s LEFT a = lft s a"
| "child s RIGHT a = rgt s a"

fun set_child :: "dir \<Rightarrow> nat \<Rightarrow> nat \<Rightarrow> rbtree \<Rightarrow> rbtree" where
  "set_child LEFT a v s = set_left a v s"
| "set_child RIGHT a v s = set_right a v s"

lemma tree_root_set_child [simp]: "tree_root (set_child d a v s) = tree_root s"
  by (cases d) simp_all

lemma cell_sel [simp]:
  "e_parent (cell d x y p c) = p" "e_color (cell d x y p c) = c"
  by (cases d; simp)+

lemma child_cell:
  "elem s a = cell d x y p c \<Longrightarrow> child s d a = x" "elem s a = cell d x y p c \<Longrightarrow> child s (opp d) a = y"
  by (cases d; simp)+

lemma elem_set_child [simp]: "b \<noteq> a \<Longrightarrow> elem (set_child d a v s) b = elem s b"
  by (cases d) simp_all

lemma elem_set_child_same:
  "elem s a = cell d x y p c \<Longrightarrow> elem (set_child d a v s) a = cell d v y p c"
  "elem s a = cell d x y p c \<Longrightarrow> elem (set_child (opp d) a v s) a = cell d x v p c"
  by (cases d; simp)+

lemma cell_upd [simp]:
  "(cell d x y p c)\<lparr>e_parent := q\<rparr> = cell d x y q c" "(cell d x y p c)\<lparr>e_color := e\<rparr> = cell d x y p e"
  by (cases d; simp)+

text \<open>The link to the focus from above: the root of the tree, or the child link of the innermost frame.\<close>

fun redirect :: "nat \<Rightarrow> frame list \<Rightarrow> rbtree \<Rightarrow> rbtree" where
  "redirect q [] s = s\<lparr>tree_root := q\<rparr>"
| "redirect q (Frame d a c u # k) s = set_child d a q s"

lemma elem_redirect [simp]: "b \<notin> set (ctx_nodes k) \<Longrightarrow> elem (redirect q k s) b = elem s b"
  by (cases k rule: up.cases) auto

lemma ctx_redirect:
  assumes "ctx_at s p k" "distinct (ctx_nodes k)"
  shows "ctx_at (redirect q k s) q k"
proof (cases k rule: up.cases)
  case (2 d a c u k')
  have "shape (set_child d a q s) a u = shape s a u" using assms(2) 2 by (intro shape_cong elem_set_child) auto
  moreover have "ctx_at (set_child d a q s) a k' = ctx_at s a k'" using assms(2) 2 by (intro ctx_cong elem_set_child) auto
  ultimately show ?thesis using assms(1) 2 elem_set_child_same(1) by auto
qed simp

lemma redirect_code:
  assumes "ctx_at s a k" "a \<noteq> nil" "a \<notin> set (ctx_nodes k)" "nil \<notin> set (ctx_nodes k)"
  shows "(if up k = nil then s\<lparr>tree_root := q\<rparr> else if a = lft s (up k) then set_left (up k) q s else set_right (up k) q s)
    = redirect q k s"
proof (cases k rule: up.cases)
  case (2 d b c u k')
  then have b: "elem s b = cell d a (addr u) (up k') c" "b \<noteq> nil" "a \<noteq> addr u"
    using assms addr_in [of u] by (cases u; auto)+
  then show ?thesis using 2 by (cases d) auto
qed simp

text \<open>A new parent for the root of a subtree.\<close>

definition adopt :: "nat \<Rightarrow> nat \<Rightarrow> rbtree \<Rightarrow> rbtree" where
  "adopt y p s = (if y \<noteq> nil then set_parent y p s else s)"

lemma tree_root_adopt [simp]: "tree_root (adopt y p s) = tree_root s"
  by (simp add: adopt_def)

lemma elem_adopt [simp]: "b \<noteq> y \<Longrightarrow> elem (adopt y p s) b = elem s b"
  by (simp add: adopt_def)

lemma elem_adopt_nil [simp]: "elem (adopt y p s) nil = elem s nil"
  by (simp add: adopt_def)

lemma shape_adopt:
  assumes "shape s p t" "distinct (inorder t)" "nil \<notin> set (inorder t)"
  shows "shape (adopt (addr t) q s) q t"
proof (cases t)
  case (Nd l a c r)
  have "shape (set_parent a q s) a l = shape s a l" "shape (set_parent a q s) a r = shape s a r"
    using assms(2) Nd by (intro shape_cong; auto)+
  then show ?thesis using assms Nd by (auto simp: adopt_def)
qed simp

subsection \<open>Rotations\<close>

fun rotate :: "dir \<Rightarrow> nat \<Rightarrow> rbtree \<Rightarrow> rbtree res" where
  "rotate LEFT a s = leftrotate a s"
| "rotate RIGHT a s = rightrotate a s"

lemma inorder_rotate: "inorder (mk d x a c (mk d y b e z)) = inorder (mk d (mk d x a c y) b e z)"
  by (cases d) simp_all

text \<open>The state a rotation leaves.\<close>

definition rotated :: "dir \<Rightarrow> nat \<Rightarrow> nat \<Rightarrow> nat \<Rightarrow> frame list \<Rightarrow> rbtree \<Rightarrow> rbtree" where
  "rotated d a b y k s =
     set_parent a b (set_child d b a (redirect b k (set_parent b (up k) (adopt y a (set_child (opp d) a y s)))))"

lemma rotation_facts:
  assumes f: "focus s (mk d x a c (mk d y b e z)) k"
  shows "elem s a = cell d (addr x) b (up k) c" "elem s b = cell d (addr y) (addr z) a e"
    "shape s a x" "shape s b y" "shape s b z" "ctx_at s a k" "sentinel s"
    "distinct (a # b # inorder x @ inorder y @ inorder z @ ctx_nodes k)"
    "nil \<notin> set (a # b # inorder x @ inorder y @ inorder z @ ctx_nodes k)"
  using f by (simp_all add: focus_def) blast+

lemma addr_notin: "nil \<notin> A \<Longrightarrow> set (inorder y) \<inter> A = {} \<Longrightarrow> addr y \<notin> A"
  by (cases y) auto

lemma rotate_code:
  assumes f: "focus s (mk d x a c (mk d y b e z)) k"
  shows "rotate d a s = Inr (rotated d a b (addr y) k s)"
proof -
  define s3 where "s3 = set_parent b (up k) (adopt (addr y) a (set_child (opp d) a (addr y) s))"
  note F = rotation_facts [OF f]
  have ne: "a \<noteq> b" "a \<noteq> nil" "a \<notin> set (ctx_nodes k)" "nil \<notin> set (ctx_nodes k)" "b \<noteq> nil" "b \<notin> set (ctx_nodes k)"
    using F(8,9) by auto
  have yk: "addr y \<notin> set (ctx_nodes k)" using F(8,9) by (intro addr_notin) auto
  have same3: "elem s3 v = elem s v" if "v \<noteq> a" "v \<noteq> b" "v \<noteq> addr y" for v using that by (simp add: s3_def)
  have "ctx_at s3 a k = ctx_at s a k"
    by (intro ctx_cong same3) (use yk ne in \<open>auto simp: s3_def\<close>)
  then have ctx3: "ctx_at s3 a k" using F(6) by simp
  have root: "tree_root s3 = a" if "up k = nil"
    using that ctx3 ne(4) up_in [of k] by (cases k) auto
  have rc: "(if up k = nil then assert_then (tree_root s3 = a) (Inr (s3\<lparr>tree_root := b\<rparr>))
      else if a = lft s3 (up k) then Inr (set_left (up k) b s3) else Inr (set_right (up k) b s3)) = Inr (redirect b k s3)"
    using redirect_code [OF ctx3 ne(2-4), of b] root by (auto split: if_splits)
  have rot: "rotated d a b (addr y) k s = set_parent a b (set_child d b a (redirect b k s3))"
    by (simp add: rotated_def s3_def)
  show ?thesis
  proof (cases d)
    case LEFT
    have v: "rgt s a = b" "par s a = up k" "lft s b = addr y" "lft (set_right a (addr y) s) b = addr y"
      using F(1,2) ne(1) LEFT by simp_all
    have "s3 = set_parent b (up k) (adopt (addr y) a (set_right a (addr y) s))" by (simp add: s3_def LEFT)
    then have "leftrotate a s = rbind (Inr (redirect b k s3)) (\<lambda>s. Inr (set_parent a b (set_left b a s)))"
      unfolding leftrotate_def Let_def v adopt_def [symmetric] rc [symmetric] by (simp only:)
    then show ?thesis unfolding rot using LEFT by simp
  next
    case RIGHT
    have v: "lft s a = b" "par s a = up k" "rgt s b = addr y" "rgt (set_left a (addr y) s) b = addr y"
      using F(1,2) ne(1) RIGHT by simp_all
    have "s3 = set_parent b (up k) (adopt (addr y) a (set_left a (addr y) s))" by (simp add: s3_def RIGHT)
    then have "rightrotate a s = rbind (Inr (redirect b k s3)) (\<lambda>s. Inr (set_parent a b (set_right b a s)))"
      unfolding rightrotate_def Let_def v adopt_def [symmetric] rc [symmetric] by (simp only:)
    then show ?thesis unfolding rot using RIGHT by simp
  qed
qed

lemma rotated_nil: "nil \<noteq> a \<Longrightarrow> nil \<noteq> b \<Longrightarrow> nil \<notin> set (ctx_nodes k) \<Longrightarrow> elem (rotated d a b y k s) nil = elem s nil"
  by (simp add: rotated_def)

lemma rotated_focus:
  assumes f: "focus s (mk d x a c (mk d y b e z)) k"
  shows "focus (rotated d a b (addr y) k s) (mk d (mk d x a c y) b e z) k"
proof -
  define s1 where "s1 = set_child (opp d) a (addr y) s"
  define s2 where "s2 = adopt (addr y) a s1"
  define s3 where "s3 = redirect b k (set_parent b (up k) s2)"
  let ?s = "rotated d a b (addr y) k s"
  have s': "?s = set_parent a b (set_child d b a s3)" by (simp add: rotated_def s1_def s2_def s3_def)
  note F = rotation_facts [OF f]
  have ay: "addr y \<notin> {a, b} \<union> set (ctx_nodes k) \<union> set (inorder x) \<union> set (inorder z)"
    using F(8,9) by (intro addr_notin) auto
  have ab: "a \<noteq> b" "a \<notin> set (ctx_nodes k)" "b \<notin> set (ctx_nodes k)" using F(8) by auto
  have dis: "distinct (inorder y)" "distinct (ctx_nodes k)" "nil \<notin> set (inorder y)" using F(8,9) by auto
  have same: "elem ?s v = elem s v" if "v \<noteq> a" "v \<noteq> b" "v \<noteq> addr y" "v \<notin> set (ctx_nodes k)" for v
    using that by (simp add: s' s3_def s2_def s1_def)
  have same2: "elem (set_parent b (up k) s2) v = elem s v" if "v \<noteq> a" "v \<noteq> b" "v \<noteq> addr y" for v
    using that by (simp add: s2_def s1_def)
  have same3: "elem ?s v = elem s2 v" if "v \<noteq> a" "v \<noteq> b" "v \<notin> set (ctx_nodes k)" for v
    using that by (simp add: s' s3_def)
  have same4: "elem ?s v = elem s3 v" if "v \<noteq> a" "v \<noteq> b" for v using that by (simp add: s')
  have "shape ?s a x = shape s a x" "shape ?s b z = shape s b z"
    using F(8) ay by (intro shape_cong same; auto)+
  moreover have "shape ?s a y"
  proof -
    have "shape s1 b y = shape s b y" unfolding s1_def using F(8) by (intro shape_cong elem_set_child) auto
    then have "shape s2 a y" unfolding s2_def using F(4) dis by (intro shape_adopt) auto
    moreover have "shape ?s a y = shape s2 a y" using F(8) by (intro shape_cong same3) auto
    ultimately show ?thesis by simp
  qed
  moreover have "ctx_at ?s b k"
  proof -
    have "ctx_at (set_parent b (up k) s2) a k = ctx_at s a k"
      by (intro ctx_cong same2) (use ay ab in \<open>auto simp: s2_def s1_def\<close>)
    then have "ctx_at s3 b k" unfolding s3_def using F(6) dis(2) by (intro ctx_redirect) auto
    moreover have "ctx_at ?s b k = ctx_at s3 b k" by (intro ctx_cong same4) (use ab in \<open>auto simp: s'\<close>)
    ultimately show ?thesis by simp
  qed
  moreover have "elem ?s a = cell d (addr x) (addr y) b c"
    using F(1,2) ab ay elem_set_child_same(2) [OF F(1), of "addr y"] by (simp add: s' s3_def s2_def s1_def)
  moreover have "elem ?s b = cell d a (addr z) (up k) e"
  proof -
    have "elem s3 b = cell d (addr y) (addr z) (up k) e" using F(1,2) ab ay by (simp add: s3_def s2_def s1_def)
    then show ?thesis using elem_set_child_same(1) ab by (simp add: s')
  qed
  moreover have "elem ?s nil = elem s nil"
    using F(9) by (intro rotated_nil) auto
  ultimately show ?thesis using F(3,5,7-9) by (simp add: focus_def sentinel_def) blast
qed

subsection \<open>Reading and colouring around the focus\<close>

lemma focus_swap: "focus s t (Frame d a c u # k) \<longleftrightarrow> focus s u (Frame (opp d) a c t # k)"
  by (simp add: focus_mk [symmetric] mk_opp)

lemma focus_not_nil:
  assumes "focus s t k"
  shows "nil \<notin> set (inorder t)" "addr t = nil \<longleftrightarrow> t = Lf" "t \<noteq> Lf \<Longrightarrow> addr t \<noteq> nil" "up k = nil \<longleftrightarrow> k = []"
  using assms addr_nil [of t] up_in [of k] by (auto simp: focus_def)

lemma focus_color_read:
  assumes "focus s t k"
  shows "col s (addr t) = tree_color t"
  using assms by (cases t) (auto simp: focus_def sentinel_def)

lemma focus_parent_read: "focus s t k \<Longrightarrow> t \<noteq> Lf \<Longrightarrow> par s (addr t) = up k"
  by (cases t) (auto simp: focus_def)

lemma focus_frame_read:
  assumes "focus s t (Frame d a c u # k)"
  shows "child s d a = addr t" "child s (opp d) a = addr u" "par s a = up k" "col s a = c" "col s (addr u) = tree_color u"
    "a \<noteq> nil" "a \<noteq> addr u" "a \<noteq> addr t" "addr t = addr u \<longleftrightarrow> t = Lf \<and> u = Lf"
proof -
  have e: "elem s a = cell d (addr t) (addr u) (up k) c" using assms by (simp add: focus_def)
  show "child s d a = addr t" "child s (opp d) a = addr u" using child_cell [OF e] by simp_all
  show "par s a = up k" "col s a = c" using e by simp_all
  show "col s (addr u) = tree_color u" using assms [unfolded focus_swap [of s t]] by (rule focus_color_read)
  show "a \<noteq> nil" "a \<noteq> addr u" "a \<noteq> addr t" "addr t = addr u \<longleftrightarrow> t = Lf \<and> u = Lf"
    using assms by (cases t; cases u; auto simp: focus_def)+
qed

lemma focus_child_read: "focus s (mk d t a c u) k \<Longrightarrow> child s d a = addr t \<and> child s (opp d) a = addr u"
  by (simp add: focus_mk focus_frame_read)

lemma focus_left: "focus s t (Frame d a c u # k) \<Longrightarrow> t \<noteq> Lf \<Longrightarrow> addr t = lft s a \<longleftrightarrow> d = LEFT"
  using focus_frame_read(1,2,9) [of s t d a c u k] by (cases d) auto

lemma focus_color:
  assumes f: "focus s t k" and "t \<noteq> Lf"
  shows "focus (set_color (addr t) c s) (paint c t) k"
proof (cases t)
  case (Nd l a c' r)
  let ?s = "set_color a c s"
  have same: "elem ?s v = elem s v" if "v \<noteq> a" for v using that by simp
  have "shape ?s a l = shape s a l" "shape ?s a r = shape s a r" "ctx_at ?s a k = ctx_at s a k"
    using f Nd by (intro shape_cong ctx_cong same; auto simp: focus_def)+
  then show ?thesis using f Nd by (auto simp: focus_def sentinel_def)
qed (use assms in simp)

lemma focus_color_frame: "focus s t (Frame d a c u # k) \<Longrightarrow> focus (set_color a c' s) t (Frame d a c' u # k)"
  using focus_color [of s "mk d t a c u" k c'] by (simp add: focus_mk)

lemma focus_color_other: "focus s t (Frame d a c u # k) \<Longrightarrow> u \<noteq> Lf \<Longrightarrow> focus (set_color (addr u) c' s) t (Frame d a c (paint c' u) # k)"
  using focus_color [of s u "Frame (opp d) a c t # k" c'] focus_swap by (metis opp_opp)

text \<open>Only elements of a set change.\<close>

definition touched :: "nat set \<Rightarrow> rbtree \<Rightarrow> rbtree \<Rightarrow> bool" where
  "touched A s s' \<longleftrightarrow> (\<forall>v. v \<notin> A \<longrightarrow> elem s' v = elem s v)"

lemma touched_refl [simp]: "touched A s s"
  by (simp add: touched_def)

lemma touched_trans: "touched A s s' \<Longrightarrow> touched A s' s'' \<Longrightarrow> touched A s s''"
  by (simp add: touched_def)

lemma touched_color: "a \<in> A \<Longrightarrow> touched A s' s \<Longrightarrow> touched A s' (set_color a c s)"
  by (auto simp: touched_def)

lemma rotate_focus:
  assumes f: "focus s (mk d x a c (mk d y b e z)) k"
  obtains s' where "rotate d a s = Inr s'" "focus s' (mk d (mk d x a c y) b e z) k" "elem s' nil = elem s nil"
    "touched (set (inorder (plug (mk d x a c (mk d y b e z)) k))) s s'" "k \<noteq> [] \<Longrightarrow> tree_root s' = tree_root s"
proof -
  note F = rotation_facts [OF f]
  let ?s = "rotated d a b (addr y) k s" and ?A = "set (inorder (plug (mk d x a c (mk d y b e z)) k))"
  have "elem ?s v = elem s v" if "v \<notin> ?A" for v
  proof (cases "v = nil")
    case False
    then have "v \<noteq> addr y" using that addr_in [of y] by (cases y) (auto simp: set_inorder_plug)
    then show ?thesis using that by (auto simp: rotated_def set_inorder_plug)
  qed (use rotated_nil [of a b k] F(9) in auto)
  moreover have "elem ?s nil = elem s nil" using F(9) by (intro rotated_nil) auto
  moreover have "tree_root ?s = tree_root s" if "k \<noteq> []"
    using that by (cases k rule: up.cases) (simp_all add: rotated_def)
  ultimately show ?thesis using that [of ?s] rotate_code [OF f] rotated_focus [OF f] by (simp add: touched_def)
qed

end
