(* ===== verification/Rbtree_Insert.thy ===== *)
theory Rbtree_Insert
  imports Rbtree_Shape
begin

text \<open>
  The balance of red-black trees, as a predicate of a tree and of a context, and the correctness of
  the insertion of \<^verbatim>\<open>lib/rbtree.c\<close>: the rebalancing loop and the descent to the new place.
\<close>

subsection \<open>Balance\<close>

text \<open>Every path has \<open>h\<close> black nodes and no red node has a red child.\<close>

fun bal :: "tree \<Rightarrow> nat \<Rightarrow> bool" where
  "bal Lf h \<longleftrightarrow> h = 0"
| "bal (Nd l a RED r) h \<longleftrightarrow> tree_color l = BLACK \<and> tree_color r = BLACK \<and> bal l h \<and> bal r h"
| "bal (Nd l a BLACK r) h \<longleftrightarrow> (case h of 0 \<Rightarrow> False | Suc h' \<Rightarrow> bal l h' \<and> bal r h')"

text \<open>The colour above the focus; at the root the focus must be black as below a red node.\<close>

fun ctx_color :: "frame list \<Rightarrow> color" where
  "ctx_color [] = RED"
| "ctx_color (Frame d a c u # k) = c"

text \<open>The context completes a tree of black height \<open>h\<close> to a balanced one.\<close>

fun cbal :: "frame list \<Rightarrow> nat \<Rightarrow> bool" where
  "cbal [] h \<longleftrightarrow> True"
| "cbal (Frame d a RED u # k) h \<longleftrightarrow> tree_color u = BLACK \<and> ctx_color k = BLACK \<and> bal u h \<and> cbal k h"
| "cbal (Frame d a BLACK u # k) h \<longleftrightarrow> bal u h \<and> cbal k (Suc h)"

definition rb_tree :: "tree \<Rightarrow> bool" where
  "rb_tree t \<longleftrightarrow> (\<exists>h. bal t h) \<and> tree_color t = BLACK"

lemma not_BLACK [simp]: "c \<noteq> BLACK \<longleftrightarrow> c = RED"
  by (cases c) simp_all

lemma bal_mk [simp]:
  "bal (mk d t a RED u) h \<longleftrightarrow> tree_color t = BLACK \<and> tree_color u = BLACK \<and> bal t h \<and> bal u h"
  "bal (mk d t a BLACK u) h \<longleftrightarrow> (\<exists>h'. h = Suc h' \<and> bal t h' \<and> bal u h')"
  by (cases d; auto split: nat.splits)+

lemma bal_paint_BLACK: "bal t h \<Longrightarrow> \<exists>h'. bal (paint BLACK t) h'"
  by (cases t; cases "tree_color t") (auto split: nat.splits)

lemma bal_paint_RED_BLACK: "bal t h \<Longrightarrow> tree_color t = RED \<Longrightarrow> bal (paint BLACK t) (Suc h)"
  by (cases t) auto

lemma color_paint_BLACK [simp]: "tree_color (paint BLACK t) = BLACK"
  by (cases t) simp_all

lemma paint_same [simp]: "tree_color t = c \<Longrightarrow> paint c t = t"
  by (cases t) auto

lemma plug_bal:
  "bal t h \<Longrightarrow> cbal k h \<Longrightarrow> (tree_color t = RED \<Longrightarrow> ctx_color k = BLACK) \<Longrightarrow> rb_tree (plug t k)"
proof (induction k arbitrary: t h)
  case Nil
  then show ?case by (cases "tree_color t") (auto simp: rb_tree_def)
next
  case (Cons f k)
  obtain d a c u where f: "f = Frame d a c u" by (cases f)
  show ?case
  proof (cases c)
    case BLACK
    then show ?thesis using Cons.IH [of "mk d t a c u" "Suc h"] Cons.prems f by simp
  next
    case RED
    then have "tree_color t = BLACK" using Cons.prems(3) f by (cases "tree_color t") auto
    then show ?thesis using Cons.IH [of "mk d t a c u" h] Cons.prems f RED by simp
  qed
qed

lemma unplug_bal:
  "rb_tree (plug t k) \<Longrightarrow> \<exists>h. bal t h \<and> cbal k h \<and> (tree_color t = RED \<longrightarrow> ctx_color k = BLACK)"
proof (induction k arbitrary: t)
  case (Cons f k)
  obtain d a c u where f: "f = Frame d a c u" by (cases f)
  obtain h where h: "bal (mk d t a c u) h" "cbal k h" "c = RED \<Longrightarrow> ctx_color k = BLACK"
    using Cons.IH [of "mk d t a c u"] Cons.prems f by auto
  then show ?case using f by (cases c) auto
qed (auto simp: rb_tree_def)

subsection \<open>The rebalancing loop\<close>

text \<open>One round of the loop, for a parent on side \<open>d\<close> of the grandparent.\<close>

definition insert_case :: "dir \<Rightarrow> nat \<Rightarrow> nat \<Rightarrow> nat \<Rightarrow> rbtree \<Rightarrow> rbtree res" where
  "insert_case d n root node s =
     (let parent = par s node; uncle = child s (opp d) (par s parent) in
      if uncle \<noteq> nil \<and> col s uncle = RED
      then let s = set_color parent BLACK s; s = set_color uncle BLACK s; s = set_color (par s parent) RED s
        in rb_insert_loop n root (par s parent) s
      else rbind (if node = child s (opp d) parent
                  then let node = parent in rbind (rotate d node s) (\<lambda>s. Inr (node, par s node, s))
                  else Inr (node, parent, s))
        (\<lambda>(node, parent, s).
           let s = set_color parent BLACK s; s = set_color (par s parent) RED s in
           rbind (rotate (opp d) (par s parent) s) (rb_insert_loop n root node)))"

lemma rb_insert_loop_case:
  "rb_insert_loop (Suc n) root node s =
     (if node \<noteq> root \<and> col s (par s node) = RED
      then insert_case (if par s node = lft s (par s (par s node)) then LEFT else RIGHT) n root node s else Inr s)"
proof (cases "par s node = lft s (par s (par s node))")
  case True
  show ?thesis
    by (simp only: rb_insert_loop.simps(2) insert_case_def Let_def True [THEN eqTrueI] if_True child.simps opp.simps rotate.simps)
next
  case False
  show ?thesis
    by (simp only: rb_insert_loop.simps(2) insert_case_def Let_def False if_False child.simps opp.simps rotate.simps)
qed

declare rb_insert_loop.simps(2) [simp del]

text \<open>What the loop establishes from a red focus \<open>t\<close> in context \<open>k\<close>.\<close>

definition rebalanced :: "tree \<Rightarrow> frame list \<Rightarrow> rbtree \<Rightarrow> rbtree \<Rightarrow> bool" where
  "rebalanced t k s s' \<longleftrightarrow> (\<exists>t'. focus s' t' [] \<and> inorder t' = inorder (plug t k) \<and> rb_tree (paint BLACK t')
     \<and> touched (set (inorder (plug t k))) s s')"

lemma insert_rotate:
  assumes f: "focus s t (Frame d p RED u # Frame d g BLACK v # k)" and t: "tree_color t = RED"
    and b: "bal t h" "bal u h" "bal v h" "cbal k (Suc h)" and c: "tree_color u = BLACK" "tree_color v = BLACK"
  shows "\<exists>s'. (let s = set_color p BLACK s; s = set_color (par s p) RED s in
      rbind (rotate (opp d) (par s p) s) (rb_insert_loop (Suc n) root (addr t))) = Inr s'
    \<and> rebalanced t (Frame d p RED u # Frame d g BLACK v # k) s s'"
proof -
  let ?A = "set (inorder (plug t (Frame d p RED u # Frame d g BLACK v # k)))"
  define s1 where "s1 = set_color p BLACK s"
  have tl: "t \<noteq> Lf" using t by auto
  have f1: "focus s1 t (Frame d p BLACK u # Frame d g BLACK v # k)" unfolding s1_def by (rule focus_color_frame [OF f])
  have pg: "par s1 p = g" using focus_frame_read(3) [OF f1] by simp
  define s2 where "s2 = set_color g RED s1"
  have f2: "focus s2 (mk d t p BLACK u) (Frame d g RED v # k)"
    unfolding s2_def by (rule focus_color_frame) (use f1 in \<open>simp add: focus_mk\<close>)
  then have f3: "focus s2 (mk (opp d) v g RED (mk (opp d) u p BLACK t)) k" by (simp add: focus_mk [symmetric] mk_opp)
  have pg2: "par s2 p = g" using f2 focus_frame_read(3) [of s2 t d p] by (simp add: focus_mk)
  obtain s' where s': "rotate (opp d) g s2 = Inr s'" "focus s' (mk (opp d) (mk (opp d) v g RED u) p BLACK t) k"
      "touched (set (inorder (plug (mk (opp d) v g RED (mk (opp d) u p BLACK t)) k))) s2 s'"
    using rotate_focus [OF f3] by metis
  have A: "set (inorder (plug (mk (opp d) v g RED (mk (opp d) u p BLACK t)) k)) = ?A" by (auto simp: set_inorder_plug)
  have tch: "touched ?A s s'"
    using s'(3) A unfolding s2_def s1_def by (intro touched_trans [OF _ s'(3) [unfolded A s2_def s1_def]] touched_color)
      (auto simp: set_inorder_plug)
  have f4: "focus s' t (Frame d p BLACK (mk d u g RED v) # k)" using s'(2) by (simp add: mk_opp focus_mk [symmetric])
  have "par s' (addr t) = p" "col s' p = BLACK" using focus_parent_read [OF f4 tl] focus_frame_read(4) [OF f4] by simp_all
  then have ex: "rb_insert_loop (Suc n) root (addr t) s' = Inr s'" by (simp add: rb_insert_loop_case)
  let ?t = "plug t (Frame d p BLACK (mk d u g RED v) # k)"
  have "focus s' ?t []" using f4 focus_plug by blast
  moreover have "inorder (mk d t p BLACK (mk d u g RED v)) = inorder (mk d (mk d t p RED u) g BLACK v)"
    by (cases d) simp_all
  from inorder_plug_cong [OF this, of k] have "inorder ?t = inorder (plug t (Frame d p RED u # Frame d g BLACK v # k))"
    by simp
  moreover have "rb_tree ?t" by (rule plug_bal [of _ h]) (use b c t in auto)
  then have "rb_tree (paint BLACK ?t)" by (simp add: rb_tree_def)
  ultimately have "rebalanced t (Frame d p RED u # Frame d g BLACK v # k) s s'" using tch unfolding rebalanced_def by blast
  then show ?thesis using s'(1) ex pg pg2 unfolding s1_def [symmetric] Let_def by (simp add: s2_def [symmetric])
qed

lemma addr_plug: "k \<noteq> [] \<Longrightarrow> addr (plug t k) \<in> set (ctx_nodes k)"
proof (induction t k rule: plug.induct)
  case (2 t d a c u k)
  then show ?case by (cases "k = []") auto
qed simp

lemma addr_plug_frame: "k \<noteq> [] \<Longrightarrow> addr (plug t k) = addr (plug t' k)"
proof (induction k arbitrary: t t')
  case (Cons f k)
  obtain d a c u where "f = Frame d a c u" by (cases f)
  then show ?case using Cons.IH [of "mk d t a c u" "mk d t' a c u"] by (cases "k = []") auto
qed simp

lemma addr_plug_cong: "addr t = addr t' \<Longrightarrow> addr (plug t k) = addr (plug t' k)"
  using addr_plug_frame [of k t t'] by (cases "k = []") auto

lemma focus_not_root:
  assumes "focus s t k" "k \<noteq> []" "t \<noteq> Lf"
  shows "addr t \<noteq> addr (plug t k)"
  using addr_plug [OF assms(2), of t] addr_in [OF assms(3)] assms(1) by (auto simp: focus_def)

lemma rebalanced_step:
  assumes "rebalanced t' k' s' s''" "inorder (plug t' k') = inorder (plug t k)" "touched (set (inorder (plug t k))) s s'"
  shows "rebalanced t k s s''"
  using assms touched_trans unfolding rebalanced_def by metis

text \<open>A round at a red parent and a black grandparent.\<close>

lemma insert_round:
  assumes f: "focus s t (Frame d1 p RED u # Frame d g BLACK v # k)" and t: "tree_color t = RED"
    and b: "bal t h" "bal u h" "bal v h" "cbal k (Suc h)" and c: "tree_color u = BLACK"
    and IH: "\<And>s t. focus s t k \<Longrightarrow> tree_color t = RED \<Longrightarrow> bal t (Suc h) \<Longrightarrow> addr (plug t k) = root \<Longrightarrow>
      \<exists>s'. rb_insert_loop (Suc n) root (addr t) s = Inr s' \<and> rebalanced t k s s'"
    and root: "addr (plug t (Frame d1 p RED u # Frame d g BLACK v # k)) = root"
  shows "\<exists>s'. insert_case d (Suc n) root (addr t) s = Inr s' \<and> rebalanced t (Frame d1 p RED u # Frame d g BLACK v # k) s s'"
proof -
  let ?k = "Frame d1 p RED u # Frame d g BLACK v # k"
  have tl: "t \<noteq> Lf" using t by auto
  have fg: "focus s (mk d1 t p RED u) (Frame d g BLACK v # k)" using f by (simp add: focus_mk)
  have rd: "par s (addr t) = p" "par s p = g" "child s (opp d) g = addr v" "col s (addr v) = tree_color v" "addr v = nil \<longleftrightarrow> v = Lf"
    using focus_parent_read [OF f tl] focus_frame_read [OF f] focus_frame_read [OF fg] fg focus_swap [of s "mk d1 t p RED u" d]
      focus_not_nil(2) by simp_all
  show ?thesis
  proof (cases "tree_color v")
    case RED
    then have vl: "v \<noteq> Lf" by auto
    define s1 where "s1 = set_color p BLACK s"
    define s2 where "s2 = set_color (addr v) BLACK s1"
    define s3 where "s3 = set_color g RED s2"
    have f1: "focus s1 (mk d1 t p BLACK u) (Frame d g BLACK v # k)"
      using focus_color_frame [OF f, of BLACK] by (simp add: s1_def focus_mk)
    have f2: "focus s2 (mk d1 t p BLACK u) (Frame d g BLACK (paint BLACK v) # k)"
      unfolding s2_def by (rule focus_color_other [OF f1 vl])
    have f3: "focus s3 (mk d1 t p BLACK u) (Frame d g RED (paint BLACK v) # k)"
      unfolding s3_def by (rule focus_color_frame [OF f2])
    let ?t = "mk d (mk d1 t p BLACK u) g RED (paint BLACK v)"
    have f4: "focus s3 ?t k" using f3 by (simp add: focus_mk)
    have p2: "par s2 p = g" using focus_parent_read [OF f2] by simp
    have p3: "par s3 p = g" using focus_parent_read [OF f3] by simp
    have case_eq: "insert_case d (Suc n) root (addr t) s = rb_insert_loop (Suc n) root g s3"
      using rd RED vl p2 p3 unfolding insert_case_def Let_def by (simp add: s1_def [symmetric] s2_def [symmetric] s3_def [symmetric])
    have ino: "inorder ?t = inorder (mk d (mk d1 t p RED u) g BLACK v)" by (cases d; cases d1) simp_all
    note pl = inorder_plug_cong [OF ino, of k]
    have "touched (set (inorder (plug t ?k))) s s3"
      using addr_in [OF vl] unfolding s3_def s2_def s1_def by (intro touched_color touched_refl) (auto simp: set_inorder_plug)
    moreover have "addr (plug ?t k) = root" using root addr_plug_cong [of ?t "mk d (mk d1 t p RED u) g BLACK v" k] by simp
    moreover have "bal ?t (Suc h)" using b c bal_paint_RED_BLACK [OF b(3) RED] by simp
    ultimately show ?thesis using IH [OF f4] case_eq rebalanced_step [of ?t k s3 _ t ?k s] pl by simp metis
  next
    case BLACK
    show ?thesis
    proof (cases "d1 = d")
      case True
      have ne: "addr t \<noteq> child s (opp d) p" using focus_frame_read [OF f] tl True by auto
      show ?thesis
        using insert_rotate [OF f [unfolded True] t b c BLACK, of n root] rd BLACK ne True
        unfolding insert_case_def by (simp add: Let_def)
    next
      case False
      then have d1: "d1 = opp d" by (cases d; cases d1) simp_all
      obtain y a z where tm: "t = mk d y a RED z" using t by (cases t; cases d) auto
      have "focus s (mk d u p RED (mk d y a RED z)) (Frame d g BLACK v # k)" using fg d1 tm by (simp add: mk_opp)
      then obtain s1 where s1: "rotate d p s = Inr s1" "focus s1 (mk d (mk d u p RED y) a RED z) (Frame d g BLACK v # k)"
          "touched (set (inorder (plug (mk d u p RED (mk d y a RED z)) (Frame d g BLACK v # k)))) s s1"
        using rotate_focus by metis
      let ?t = "mk d u p RED y" and ?k' = "Frame d a RED z # Frame d g BLACK v # k"
      have f1: "focus s1 ?t ?k'" using s1(2) by (simp add: focus_mk)
      have p1: "par s1 p = a" using focus_parent_read [OF f1] by simp
      have eq: "addr t = child s (opp d) p" using focus_frame_read(1) [OF f] d1 by simp
      have bb: "bal ?t h" "bal z h" "tree_color z = BLACK" using b c tm by auto
      obtain s' where s': "insert_case d (Suc n) root (addr t) s = Inr s'" "rebalanced ?t ?k' s1 s'"
        using insert_rotate [OF f1 _ bb(1,2) b(3,4) bb(3) BLACK, of n root] rd BLACK eq s1(1) p1
        unfolding insert_case_def by (auto simp: Let_def)
      have "inorder (mk d (mk d ?t a RED z) g BLACK v) = inorder (mk d (mk d1 t p RED u) g BLACK v)"
        unfolding tm d1 by (cases d) simp_all
      from inorder_plug_cong [OF this, of k] have "inorder (plug ?t ?k') = inorder (plug t ?k)" by simp
      moreover have "touched (set (inorder (plug t ?k))) s s1" using s1(3) tm d1 by (simp add: mk_opp)
      ultimately show ?thesis using s' rebalanced_step by blast
    qed
  qed
qed

lemma rb_insert_loop_ok:
  "focus s t k \<Longrightarrow> tree_color t = RED \<Longrightarrow> bal t h \<Longrightarrow> cbal k h \<Longrightarrow> length k < n \<Longrightarrow> addr (plug t k) = root \<Longrightarrow>
   \<exists>s'. rb_insert_loop n root (addr t) s = Inr s' \<and> rebalanced t k s s'"
proof (induction n arbitrary: s t k h)
  case (Suc n)
  have tl: "t \<noteq> Lf" using Suc.prems(2) by auto
  have fin: "rebalanced t k s s" if "rb_tree (paint BLACK (plug t k))"
    using that focus_plug [of s t k] Suc.prems(1) by (auto simp: rebalanced_def)
  show ?case
  proof (cases k rule: ctx_color.cases)
    case 1
    then have "rb_tree (paint BLACK (plug t k))" using bal_paint_BLACK [OF Suc.prems(3)] by (simp add: rb_tree_def)
    then show ?thesis using 1 Suc.prems(6) fin by (simp add: rb_insert_loop_case)
  next
    case (2 d1 p c1 u k1)
    note rd = focus_parent_read [OF Suc.prems(1) tl] focus_frame_read(4) [OF Suc.prems(1) [unfolded 2]]
    have nr: "addr t \<noteq> root" using focus_not_root [OF Suc.prems(1) _ tl] Suc.prems(6) 2 by simp
    show ?thesis
    proof (cases c1)
      case BLACK
      then have "rb_tree (plug t k)" using plug_bal [OF Suc.prems(3,4)] 2 by simp
      then have "rb_tree (paint BLACK (plug t k))" by (simp add: rb_tree_def)
      then show ?thesis using rd 2 BLACK fin by (simp add: rb_insert_loop_case)
    next
      case RED
      then obtain d g v k2 where k1: "k1 = Frame d g BLACK v # k2" and b: "tree_color u = BLACK" "bal u h" "bal v h" "cbal k2 (Suc h)"
        using Suc.prems(4) 2 by (cases k1 rule: ctx_color.cases) auto
      have k: "k = Frame d1 p RED u # Frame d g BLACK v # k2" using 2 RED k1 by simp
      obtain n' where n: "n = Suc n'" "length k2 < n" using Suc.prems(5) k by (cases n) auto
      have fg: "focus s (mk d1 t p RED u) (Frame d g BLACK v # k2)" using Suc.prems(1) k by (simp add: focus_mk)
      have "p = lft s g \<longleftrightarrow> d = LEFT" using focus_left [OF fg] by simp
      moreover have "par s p = g" using focus_parent_read [OF fg] by simp
      ultimately have "rb_insert_loop (Suc n) root (addr t) s = insert_case d n root (addr t) s"
        using rd k nr RED by (cases d) (simp_all add: rb_insert_loop_case)
      moreover have "\<exists>s'. insert_case d (Suc n') root (addr t) s = Inr s' \<and> rebalanced t (Frame d1 p RED u # Frame d g BLACK v # k2) s s'"
        by (rule insert_round [OF Suc.prems(1) [unfolded k] Suc.prems(2,3) b(2,3,4,1)])
          (use Suc.IH [of _ _ k2 "Suc h"] n b(4) Suc.prems(6) k in auto)
      ultimately show ?thesis using n(1) k by simp
    qed
  qed
qed simp

lemma rb_insert_ok:
  assumes f: "focus s (Nd Lf x RED Lf) k" and b: "cbal k 0" "length k < n"
  shows "\<exists>s' t'. rb_insert n x s = Inr s' \<and> focus s' t' [] \<and> rb_tree t' \<and> inorder t' = inorder (plug (Nd Lf x RED Lf) k)
    \<and> touched (set (inorder (plug (Nd Lf x RED Lf) k))) s s'"
proof -
  let ?t = "Nd Lf x RED Lf"
  have root: "tree_root s = addr (plug ?t k)" using f focus_plug [of s ?t k] by (simp add: focus_def)
  have same: "set_color x RED s = s" using focus_color_read [OF f] by (simp add: set_color_def fun_upd_idem)
  obtain s1 t1 where s1: "rb_insert_loop n (tree_root s) x s = Inr s1" "focus s1 t1 []" "inorder t1 = inorder (plug ?t k)"
      "rb_tree (paint BLACK t1)" "touched (set (inorder (plug ?t k))) s s1"
    using rb_insert_loop_ok [OF f _ _ b, of "tree_root s"] root by (auto simp: rebalanced_def)
  have x: "x \<in> set (inorder t1)" using s1(3) by (simp add: set_inorder_plug)
  then have t1: "t1 \<noteq> Lf" by auto
  have "tree_root s1 = addr t1" using s1(2) by (simp add: focus_def)
  then have "focus (set_color (tree_root s1) BLACK s1) (paint BLACK t1) []" using focus_color [OF s1(2) t1] by simp
  moreover have "touched (set (inorder (plug ?t k))) s (set_color (tree_root s1) BLACK s1)"
    using s1(3,5) \<open>tree_root s1 = addr t1\<close> addr_in [OF t1] by (intro touched_color) auto
  ultimately show ?thesis using s1 same by (auto simp: rb_insert_def Let_def)
qed

subsection \<open>The place of a new element\<close>

fun slot :: "(nat \<Rightarrow> nat \<Rightarrow> bool) \<Rightarrow> nat \<Rightarrow> tree \<Rightarrow> frame list \<Rightarrow> frame list" where
  "slot lt x Lf k = k"
| "slot lt x (Nd l a c r) k = (if lt a x then slot lt x r (Frame RIGHT a c l # k) else slot lt x l (Frame LEFT a c r # k))"

lemma plug_slot: "plug Lf (slot lt x t k) = plug t k"
  by (induction t arbitrary: k) auto

lemma slot_length: "length (slot lt x t k) \<le> length k + length (inorder t)"
proof (induction t arbitrary: k)
  case (Nd l a c r)
  then show ?case using Nd.IH(1) [of "Frame LEFT a c r # k"] Nd.IH(2) [of "Frame RIGHT a c l # k"] by auto
qed simp

definition insort_before :: "(nat \<Rightarrow> nat \<Rightarrow> bool) \<Rightarrow> nat \<Rightarrow> nat list \<Rightarrow> nat list" where
  "insort_before lt x xs = takeWhile (\<lambda>a. lt a x) xs @ x # dropWhile (\<lambda>a. lt a x) xs"

lemma inorder_slot:
  assumes w: "weak_order_on A lt" and x: "x \<in> A"
  shows "sorted_wrt (\<lambda>a b. \<not> lt b a) (inorder t) \<Longrightarrow> set (inorder t) \<subseteq> A \<Longrightarrow> (\<And>u. inorder (plug u k) = pre @ inorder u @ post) \<Longrightarrow>
    inorder (plug (Nd Lf x c Lf) (slot lt x t k)) = pre @ insort_before lt x (inorder t) @ post"
proof (induction t arbitrary: k pre post)
  case (Nd l a c' r)
  note W = weak_order_onD [OF w]
  have A: "a \<in> A" "set (inorder l) \<subseteq> A" "set (inorder r) \<subseteq> A" using Nd.prems(2) by auto
  have so: "sorted_wrt (\<lambda>a b. \<not> lt b a) (inorder l)" "sorted_wrt (\<lambda>a b. \<not> lt b a) (inorder r)"
    "\<And>y. y \<in> set (inorder l) \<Longrightarrow> \<not> lt a y" "\<And>y. y \<in> set (inorder r) \<Longrightarrow> \<not> lt y a"
    using Nd.prems(1) by (auto simp: sorted_wrt_append)
  show ?case
  proof (cases "lt a x")
    case True
    have l: "lt y x" if "y \<in> set (inorder l)" for y using so(3) [OF that] W(2) [of a y x] True A x that by blast
    have "inorder (plug u (Frame RIGHT a c' l # k)) = (pre @ inorder l @ [a]) @ inorder u @ post" for u
      using Nd.prems(3) by simp
    from Nd.IH(2) [OF so(2) A(3) this] show ?thesis using True l
      by (simp add: insort_before_def takeWhile_append dropWhile_append)
  next
    case False
    have r: "\<not> lt y x" if "y \<in> set (inorder r)" for y using so(4) [OF that] W(2) [of y a x] False A x that by blast
    have "inorder (plug u (Frame LEFT a c' r # k)) = pre @ inorder u @ (a # inorder r @ post)" for u
      using Nd.prems(3) by simp
    from Nd.IH(1) [OF so(1) A(2) this] show ?thesis using False
      by (auto simp: insort_before_def takeWhile_append dropWhile_append)
  qed
qed (simp add: insort_before_def)

lemma node_insert_loop_at:
  "focus s t k \<Longrightarrow> t \<noteq> Lf \<Longrightarrow> length (inorder t) \<le> n \<Longrightarrow>
   node_insert_loop n lt (addr t) x s = Inr (set_parent x (up (slot lt x t k)) (redirect x (slot lt x t k) s))"
proof (induction n arbitrary: t k)
  case (Suc n)
  obtain l a c r where t: "t = Nd l a c r" using Suc.prems(2) by (cases t) auto
  have f: "focus s (mk LEFT l a c r) k" using Suc.prems(1) t by simp
  have fl: "focus s l (Frame LEFT a c r # k)" using f by (simp add: focus_mk [symmetric])
  have fr: "focus s r (Frame RIGHT a c l # k)" using f by (simp add: focus_mk [symmetric])
  have rd: "lft s a = addr l" "rgt s a = addr r" "a \<noteq> nil" "addr l = nil \<longleftrightarrow> l = Lf" "addr r = nil \<longleftrightarrow> r = Lf"
    using focus_frame_read [OF fl] focus_not_nil(2) [OF fl] focus_not_nil(2) [OF fr] by simp_all
  show ?case using Suc.IH [OF fl] Suc.IH [OF fr] Suc.prems(3) rd t by (cases "l = Lf"; cases "r = Lf") simp_all
next
  case 0
  then show ?case by (cases t) auto
qed

lemma graft:
  assumes f: "focus s Lf k" and x: "x \<notin> set (ctx_nodes k)" "x \<noteq> nil" "elem s x = cell LEFT nil nil nil RED"
  shows "focus (set_parent x (up k) (redirect x k s)) (Nd Lf x RED Lf) k"
proof -
  let ?s = "set_parent x (up k) (redirect x k s)"
  have k: "distinct (ctx_nodes k)" "nil \<notin> set (ctx_nodes k)" "ctx_at s nil k" "sentinel s" using f by (simp_all add: focus_def)
  have "ctx_at ?s x k = ctx_at (redirect x k s) x k" using x(1) by (intro ctx_cong) auto
  then have "ctx_at ?s x k" using ctx_redirect [OF k(3,1)] by simp
  moreover have "elem ?s nil = elem s nil" using x(2) k(2) by simp
  ultimately show ?thesis using x k by (simp add: focus_def sentinel_def)
qed

lemma rbtree_insert_ok:
  assumes f: "focus s t []" and b: "rb_tree t" and x: "x \<notin> set (inorder t)" "x \<noteq> nil" and n: "length (inorder t) < n"
  shows "\<exists>s' t'. rbtree_insert n lt x s = Inr s' \<and> focus s' t' [] \<and> rb_tree t'
    \<and> inorder t' = inorder (plug (Nd Lf x RED Lf) (slot lt x t [])) \<and> touched (insert x (set (inorder t))) s s'"
proof -
  let ?k = "slot lt x t []"
  define s1 where "s1 = set_color x RED (set_left x nil (set_right x nil (set_parent x nil s)))"
  have same: "elem s1 v = elem s v" if "v \<noteq> x" for v using that by (simp add: s1_def)
  have ex: "elem s1 x = cell LEFT nil nil nil RED" by (simp add: s1_def)
  have "shape s1 nil t = shape s nil t" by (intro shape_cong same) (use x(1) in auto)
  then have f1: "focus s1 t []" using f same [of nil] x(2) by (simp add: focus_def sentinel_def s1_def)
  then have fk: "focus s1 Lf ?k" using focus_plug [of s1 Lf ?k] plug_slot [of lt x t "[]"] by simp
  have kn: "set (ctx_nodes ?k) = set (inorder t)" using set_inorder_plug [of Lf ?k] plug_slot [of lt x t "[]"] by simp
  define s2 where "s2 = set_parent x (up ?k) (redirect x ?k s1)"
  have f2: "focus s2 (Nd Lf x RED Lf) ?k" unfolding s2_def by (rule graft [OF fk]) (use x kn ex in auto)
  have "rb_tree (plug Lf ?k)" using b by (simp add: plug_slot)
  then have cb: "cbal ?k 0" using unplug_bal by fastforce
  have len: "length ?k < n" using slot_length [of lt x t "[]"] n by simp
  let ?A = "set (inorder (plug (Nd Lf x RED Lf) ?k))"
  have A: "?A = insert x (set (inorder t))" using kn by (simp add: set_inorder_plug)
  obtain s' t' where s': "rb_insert n x s2 = Inr s'" "focus s' t' []" "rb_tree t'" "inorder t' = inorder (plug (Nd Lf x RED Lf) ?k)"
      "touched ?A s2 s'"
    using rb_insert_ok [OF f2 cb len] by blast
  have "touched ?A s s2" using A kn by (auto simp: touched_def s2_def s1_def)
  then have "touched (insert x (set (inorder t))) s s'" using s'(5) A touched_trans by metis
  moreover have "rbtree_insert n lt x s = node_insert n lt x s1" by (simp only: rbtree_insert_def Let_def s1_def)
  moreover have "node_insert n lt x s1 = Inr s'"
  proof (cases t)
    case Lf
    then have "s1\<lparr>tree_root := x\<rparr> = s2" using ex by (simp add: s2_def set_parent_def fun_upd_idem)
    then show ?thesis using s'(1) f1 Lf by (simp add: node_insert_def Let_def focus_def)
  next
    case (Nd l a c r)
    then have "tree_root s1 = addr t" "addr t \<noteq> nil" "t \<noteq> Lf" using f1 by (auto simp: focus_def)
    then show ?thesis using node_insert_loop_at [OF f1, of n lt x] s'(1) n
      by (simp add: node_insert_def Let_def s2_def)
  qed
  ultimately show ?thesis using s' by auto
qed

text \<open>With a lawful comparison the new element comes before the equal ones.\<close>

lemma rbtree_insert_sorted:
  assumes "focus s t []" "rb_tree t" "x \<notin> set (inorder t)" "x \<noteq> nil" "length (inorder t) < n"
    and "weak_order_on (insert x (set (inorder t))) lt" "sorted_wrt (\<lambda>a b. \<not> lt b a) (inorder t)"
  shows "\<exists>s' t'. rbtree_insert n lt x s = Inr s' \<and> focus s' t' [] \<and> rb_tree t' \<and> inorder t' = insort_before lt x (inorder t)
    \<and> touched (insert x (set (inorder t))) s s'"
  using rbtree_insert_ok [OF assms(1-5), of lt] inorder_slot [OF assms(6) insertI1 assms(7) subset_insertI, of "[]" "[]" "[]" RED] by auto

end
