(* ===== verification/Rbtree_Delete.thy ===== *)
theory Rbtree_Delete
  imports Rbtree_Insert
begin

text \<open>
  Correctness of the deletion of \<^verbatim>\<open>lib/rbtree.c\<close>: the rebalancing loop on a subtree that lacks a
  black node, and the exchange of the deleted element with its successor.
\<close>

subsection \<open>One round of the loop\<close>

text \<open>The two stages of a round, for a node on side \<open>d\<close> of its parent.\<close>

definition delete_end :: "dir \<Rightarrow> nat \<Rightarrow> nat \<Rightarrow> nat \<Rightarrow> nat \<Rightarrow> rbtree \<Rightarrow> (nat \<times> rbtree) res" where
  "delete_end d n root parent sibling s =
     (let s = set_color sibling (col s parent) s; s = set_color parent BLACK s;
          s = set_color (child s (opp d) sibling) BLACK s in
      rbind (rotate d parent s) (rb_delete_fixup_loop n root root parent))"

definition delete_black :: "dir \<Rightarrow> nat \<Rightarrow> nat \<Rightarrow> nat \<Rightarrow> nat \<Rightarrow> nat \<Rightarrow> rbtree \<Rightarrow> (nat \<times> rbtree) res" where
  "delete_black d n root node parent sibling s =
     (if col s (lft s sibling) = BLACK \<and> col s (rgt s sibling) = BLACK
      then let s = set_color sibling RED s; node = parent; parent = par s node
        in rb_delete_fixup_loop n root node parent s
      else rbind (if col s (child s (opp d) sibling) = BLACK
             then let s = set_color (child s d sibling) BLACK s; s = set_color sibling RED s in
               rbind (rotate (opp d) sibling s) (\<lambda>s. let parent = par s node in Inr (parent, child s (opp d) parent, s))
             else Inr (parent, sibling, s))
        (\<lambda>(parent, sibling, s). delete_end d n root parent sibling s))"

definition delete_case :: "dir \<Rightarrow> nat \<Rightarrow> nat \<Rightarrow> nat \<Rightarrow> nat \<Rightarrow> rbtree \<Rightarrow> (nat \<times> rbtree) res" where
  "delete_case d n root node parent s =
     (let sibling = child s (opp d) parent in
      rbind (if col s sibling = RED
             then let s = set_color sibling BLACK s; s = set_color parent RED s in
               rbind (rotate d parent s) (\<lambda>s. let parent = par s node in Inr (parent, child s (opp d) parent, s))
             else Inr (parent, sibling, s))
        (\<lambda>(parent, sibling, s). delete_black d n root node parent sibling s))"

lemma rb_delete_fixup_loop_case:
  "rb_delete_fixup_loop (Suc n) root node parent s =
     (if node \<noteq> root \<and> col s node = BLACK
      then delete_case (if node = lft s parent then LEFT else RIGHT) n root node parent s else Inr (node, s))"
proof (cases "node = lft s parent")
  case True
  show ?thesis
    by (simp only: rb_delete_fixup_loop.simps(2) delete_case_def delete_black_def delete_end_def Let_def
        True [THEN eqTrueI] if_True child.simps opp.simps rotate.simps)
next
  case False
  show ?thesis
    by (simp only: rb_delete_fixup_loop.simps(2) delete_case_def delete_black_def delete_end_def Let_def
        False if_False child.simps opp.simps rotate.simps)
qed

declare rb_delete_fixup_loop.simps(2) [simp del]

text \<open>What the loop and the final colouring establish.\<close>

definition refilled :: "tree \<Rightarrow> frame list \<Rightarrow> rbtree \<Rightarrow> (nat \<times> rbtree) res \<Rightarrow> bool" where
  "refilled x k s r \<longleftrightarrow> (\<exists>node s1 t'. r = Inr (node, s1) \<and> focus (set_color node BLACK s1) t' [] \<and> rb_tree t'
     \<and> inorder t' = inorder (plug x k) \<and> touched (insert nil (set (inorder (plug x k)))) s (set_color node BLACK s1))"

lemma refilled_step:
  assumes "refilled x' k' s' r" "inorder (plug x' k') = inorder (plug x k)" "touched (insert nil (set (inorder (plug x k)))) s s'"
  shows "refilled x k s r"
  using assms touched_trans unfolding refilled_def by metis

lemma touched_mono: "touched A s s' \<Longrightarrow> A \<subseteq> B \<Longrightarrow> touched B s s'"
  by (auto simp: touched_def)

lemma set_color_same: "col s a = c \<Longrightarrow> set_color a c s = s"
  by (simp add: set_color_def fun_upd_idem)

text \<open>The loop stops at a red node, which is painted black.\<close>

lemma refilled_red:
  assumes f: "focus s x k" and x: "tree_color x = RED" and b: "bal (paint BLACK x) h" "cbal k h"
  shows "refilled x k s (rb_delete_fixup_loop (Suc n) root (addr x) p s)"
proof -
  have xl: "x \<noteq> Lf" using x by auto
  have "rb_delete_fixup_loop (Suc n) root (addr x) p s = Inr (addr x, s)"
    using focus_color_read [OF f] x by (simp add: rb_delete_fixup_loop_case)
  moreover have "focus (set_color (addr x) BLACK s) (plug (paint BLACK x) k) []"
    using focus_color [OF f xl] focus_plug by blast
  moreover have "rb_tree (plug (paint BLACK x) k)" using plug_bal [OF b] by simp
  moreover have "inorder (plug (paint BLACK x) k) = inorder (plug x k)" by (rule inorder_plug_cong) simp
  moreover have "touched (insert nil (set (inorder (plug x k)))) s (set_color (addr x) BLACK s)"
    using addr_in [OF xl] by (intro touched_color) (auto simp: set_inorder_plug)
  ultimately show ?thesis unfolding refilled_def by blast
qed

lemma refilled_root:
  assumes f: "focus s x []" and b: "bal x h"
  shows "refilled x [] s (rb_delete_fixup_loop (Suc n) (addr x) (addr x) p s)"
proof -
  have "focus (set_color (addr x) BLACK s) (paint BLACK x) []"
  proof (cases "x = Lf")
    case True
    then show ?thesis using f focus_color_read [OF f] by (simp add: set_color_same)
  qed (rule focus_color [OF f])
  moreover have "rb_tree (paint BLACK x)" using bal_paint_BLACK [OF b] by (simp add: rb_tree_def)
  moreover have "touched (insert nil (set (inorder x))) s (set_color (addr x) BLACK s)"
    using addr_in [of x] by (intro touched_color) (cases x; auto)+
  ultimately show ?thesis unfolding refilled_def by (auto simp: rb_delete_fixup_loop_case)
qed

text \<open>The far child of the sibling is red: one rotation completes the work.\<close>

lemma delete_end_ok:
  assumes f: "focus s x (Frame d p c (mk d y w BLACK z) # k)" and z: "tree_color z = RED"
    and b: "bal x h" "bal y h" "bal z h" "cbal k (if c = RED then Suc h else Suc (Suc h))" "c = RED \<Longrightarrow> ctx_color k = BLACK"
    and r: "root = p \<or> k \<noteq> [] \<and> root = addr (plug Lf k)"
  shows "refilled x (Frame d p c (mk d y w BLACK z) # k) s (delete_end d (Suc n) root p w s)"
proof -
  let ?k = "Frame d p c (mk d y w BLACK z) # k"
  have zl: "z \<noteq> Lf" using z by auto
  define s1 where "s1 = set_color w c s"
  define s2 where "s2 = set_color p BLACK s1"
  define s3 where "s3 = set_color (addr z) BLACK s2"
  have f1: "focus s1 x (Frame d p c (mk d y w c z) # k)" using focus_color_other [OF f, of c] by (simp add: s1_def)
  have f2: "focus s2 x (Frame d p BLACK (mk d y w c z) # k)" unfolding s2_def by (rule focus_color_frame [OF f1])
  have "focus s2 z (Frame (opp d) w c y # Frame (opp d) p BLACK x # k)"
    using f2 [unfolded focus_swap [of s2 x]] by (simp add: focus_mk [symmetric] mk_opp)
  from focus_color [OF this zl, of BLACK]
  have f3: "focus s3 (mk d x p BLACK (mk d y w c (paint BLACK z))) k"
    by (simp add: s3_def focus_mk [symmetric] mk_opp)
  have cz: "child s2 (opp d) w = addr z"
    using f2 [unfolded focus_swap [of s2 x]] focus_child_read by blast
  obtain s' where s': "rotate d p s3 = Inr s'" "focus s' (mk d (mk d x p BLACK y) w c (paint BLACK z)) k"
      "touched (set (inorder (plug (mk d x p BLACK (mk d y w c (paint BLACK z))) k))) s3 s'"
    using rotate_focus [OF f3] by metis
  let ?t = "plug (mk d (mk d x p BLACK y) w c (paint BLACK z)) k"
  have bz: "bal (paint BLACK z) (Suc h)" by (rule bal_paint_RED_BLACK [OF b(3) z])
  have rb: "rb_tree ?t"
    by (cases c; rule plug_bal [of _ "if c = RED then Suc h else Suc (Suc h)"]) (use b bz in auto)
  have ft: "focus s' ?t []" using s'(2) focus_plug by blast
  have "col s' root = BLACK"
  proof (cases "root = p")
    case True
    have "focus s' (mk d x p BLACK y) (Frame d w c (paint BLACK z) # k)" using s'(2) by (simp add: focus_mk)
    from focus_color_read [OF this] show ?thesis using True by simp
  next
    case False
    then have "root = addr ?t" using r addr_plug_frame by metis
    then show ?thesis using focus_color_read [OF ft] rb by (simp add: rb_tree_def)
  qed
  then have same: "set_color root BLACK s' = s'" by (rule set_color_same)
  have wc: "set_color w (col s p) s = s1" using focus_frame_read(4) [OF f] by (simp add: s1_def)
  have code: "delete_end d (Suc n) root p w s = Inr (root, s')"
    using s'(1) cz unfolding delete_end_def Let_def wc s2_def [symmetric]
    by (simp add: s3_def [symmetric] rb_delete_fixup_loop_case)
  have A: "insert nil (set (inorder (plug x ?k))) \<supseteq> set (inorder (plug (mk d x p BLACK (mk d y w c (paint BLACK z))) k))"
    by (auto simp: set_inorder_plug)
  have "touched (insert nil (set (inorder (plug x ?k)))) s s3"
    using addr_in [OF zl] unfolding s3_def s2_def s1_def by (intro touched_color touched_refl) (auto simp: set_inorder_plug)
  from touched_trans [OF this touched_mono [OF s'(3) A]]
  have tch: "touched (insert nil (set (inorder (plug x ?k)))) s s'" .
  have "inorder (mk d (mk d x p BLACK y) w c (paint BLACK z)) = inorder (mk d x p c (mk d y w BLACK z))"
    by (cases d) simp_all
  from inorder_plug_cong [OF this, of k] have "inorder ?t = inorder (plug x ?k)" by simp
  then show ?thesis unfolding refilled_def using code ft rb tch same by (intro exI [of _ root] exI [of _ s'] exI [of _ ?t]) simp
qed

lemma focus_parent_read':
  "focus s x k \<Longrightarrow> (x = Lf \<Longrightarrow> par s nil = up k) \<Longrightarrow> par s (addr x) = up k"
  using focus_parent_read by (cases "x = Lf") auto

text \<open>The near child of the sibling is red and the far one black: a rotation reduces this to the case before.\<close>

lemma delete_inner_ok:
  assumes f: "focus s x (Frame d p c (mk d y w BLACK z) # k)" and x: "x = Lf \<Longrightarrow> par s nil = p"
    and yz: "tree_color y = RED" "tree_color z = BLACK"
    and b: "bal x h" "bal y h" "bal z h" "cbal k (if c = RED then Suc h else Suc (Suc h))" "c = RED \<Longrightarrow> ctx_color k = BLACK"
    and r: "root = p \<or> k \<noteq> [] \<and> root = addr (plug Lf k)"
  shows "refilled x (Frame d p c (mk d y w BLACK z) # k) s
    (rbind (let s = set_color (child s d w) BLACK s; s = set_color w RED s in
        rbind (rotate (opp d) w s) (\<lambda>s. let parent = par s (addr x) in Inr (parent, child s (opp d) parent, s)))
      (\<lambda>(parent, sibling, s). delete_end d (Suc n) root parent sibling s))"
proof -
  let ?k = "Frame d p c (mk d y w BLACK z) # k"
  obtain y1 v y2 where y: "y = mk d y1 v RED y2" using yz(1) by (cases y; cases d) auto
  define s1 where "s1 = set_color v BLACK s"
  define s2 where "s2 = set_color w RED s1"
  have fw: "focus s (mk d y w BLACK z) (Frame (opp d) p c x # k)" using f focus_swap by blast
  then have cv: "child s d w = v" using focus_child_read y by fastforce
  have "focus s y (Frame d w BLACK z # Frame (opp d) p c x # k)" using fw by (simp add: focus_mk)
  from focus_color [OF this, of BLACK]
  have f1: "focus s1 (mk d y1 v BLACK y2) (Frame d w BLACK z # Frame (opp d) p c x # k)" by (simp add: y s1_def)
  have "focus s2 (mk d y1 v BLACK y2) (Frame d w RED z # Frame (opp d) p c x # k)"
    unfolding s2_def by (rule focus_color_frame [OF f1])
  then have f2: "focus s2 (mk (opp d) z w RED (mk (opp d) y2 v BLACK y1)) (Frame (opp d) p c x # k)"
    by (simp add: focus_mk [symmetric] mk_opp)
  obtain s' where s': "rotate (opp d) w s2 = Inr s'"
      "focus s' (mk (opp d) (mk (opp d) z w RED y2) v BLACK y1) (Frame (opp d) p c x # k)" "elem s' nil = elem s2 nil"
      "touched (set (inorder (plug (mk (opp d) z w RED (mk (opp d) y2 v BLACK y1)) (Frame (opp d) p c x # k)))) s2 s'"
    using rotate_focus [OF f2] by metis
  let ?k' = "Frame d p c (mk d y1 v BLACK (mk d y2 w RED z)) # k"
  have f3: "focus s' x ?k'" using s'(2) [unfolded focus_swap [of s' _ "opp d"]] by (simp add: mk_opp)
  have "v \<noteq> nil" "w \<noteq> nil" using fw y by (auto simp: focus_def)
  then have "elem s' nil = elem s nil" using s'(3) by (simp add: s2_def s1_def)
  then have ps: "par s' (addr x) = p" using focus_parent_read' [OF f3] x by simp
  have cs: "child s' (opp d) p = v" using focus_frame_read(2) [OF f3] by simp
  have bb: "bal y1 h" "bal (mk d y2 w RED z) h" using b(2,3) yz y by auto
  have A: "set (inorder (plug (mk (opp d) z w RED (mk (opp d) y2 v BLACK y1)) (Frame (opp d) p c x # k))) \<subseteq> insert nil (set (inorder (plug x ?k)))"
    by (auto simp: set_inorder_plug y)
  have "touched (insert nil (set (inorder (plug x ?k)))) s s2"
    unfolding s2_def s1_def by (intro touched_color touched_refl) (auto simp: set_inorder_plug y)
  note tch = touched_trans [OF this touched_mono [OF s'(4) A]]
  have "inorder (mk d x p c (mk d y1 v BLACK (mk d y2 w RED z))) = inorder (mk d x p c (mk d y w BLACK z))"
    unfolding y by (cases d) simp_all
  from inorder_plug_cong [OF this, of k] have ino: "inorder (plug x ?k') = inorder (plug x ?k)" by simp
  have "refilled x ?k' s' (delete_end d (Suc n) root p v s')"
    using delete_end_ok [OF f3 _ b(1) bb b(4,5) r, of n] by simp
  from refilled_step [OF this ino tch] show ?thesis
    using s'(1) cv ps cs unfolding Let_def by (simp add: s1_def [symmetric] s2_def [symmetric])
qed

lemma delete_black_ok:
  assumes f: "focus s x (Frame d p c (mk d y w BLACK z) # k)" and x: "x = Lf \<Longrightarrow> par s nil = p" "tree_color x = BLACK"
    and b: "bal x h" "bal y h" "bal z h" "cbal k (if c = RED then Suc h else Suc (Suc h))" "c = RED \<Longrightarrow> ctx_color k = BLACK"
    and r: "root = p \<or> k \<noteq> [] \<and> root = addr (plug Lf k)"
    and IH: "\<And>s t. c = BLACK \<Longrightarrow> focus s t k \<Longrightarrow> t \<noteq> Lf \<Longrightarrow> bal t (Suc h) \<Longrightarrow> addr t = p \<Longrightarrow>
      refilled t k s (rb_delete_fixup_loop (Suc n) root p (up k) s)"
  shows "refilled x (Frame d p c (mk d y w BLACK z) # k) s (delete_black d (Suc n) root (addr x) p w s)"
proof -
  let ?k = "Frame d p c (mk d y w BLACK z) # k"
  have fw: "focus s (mk d y w BLACK z) (Frame (opp d) p c x # k)" using f focus_swap by blast
  have cc: "child s d w = addr y" "child s (opp d) w = addr z" using focus_child_read [OF fw] by simp_all
  have fy: "focus s y (Frame d w BLACK z # Frame (opp d) p c x # k)" using fw by (simp add: focus_mk)
  have co: "col s (addr y) = tree_color y" "col s (addr z) = tree_color z"
    using focus_color_read [OF fy] focus_frame_read(5) [OF fy] by simp_all
  have both: "col s (lft s w) = BLACK \<and> col s (rgt s w) = BLACK \<longleftrightarrow> tree_color y = BLACK \<and> tree_color z = BLACK"
    using cc co by (cases d) auto
  show ?thesis
  proof (cases "tree_color y = BLACK \<and> tree_color z = BLACK")
    case True
    define s1 where "s1 = set_color w RED s"
    let ?t = "mk d x p c (mk d y w RED z)"
    have f1: "focus s1 ?t k" using focus_color_other [OF f, of RED] by (simp add: s1_def focus_mk)
    have up: "par s1 p = up k" using focus_parent_read [OF f1] by simp
    have code: "delete_black d (Suc n) root (addr x) p w s = rb_delete_fixup_loop (Suc n) root p (up k) s1"
      using both True up unfolding delete_black_def Let_def by (simp add: s1_def)
    have "refilled ?t k s1 (rb_delete_fixup_loop (Suc n) root p (up k) s1)"
    proof (cases c)
      case BLACK
      then show ?thesis using IH [OF BLACK f1] b x(2) True by simp
    next
      case RED
      then have "bal (paint BLACK ?t) (Suc h)" using b True by simp
      from refilled_red [OF f1 _ this, of n root "up k"] show ?thesis using RED b(4) by simp
    qed
    moreover have "inorder ?t = inorder (mk d x p c (mk d y w BLACK z))" by (cases d) simp_all
    then have "inorder (plug ?t k) = inorder (plug x ?k)" using inorder_plug_cong [of ?t "mk d x p c (mk d y w BLACK z)" k] by simp
    moreover have "touched (insert nil (set (inorder (plug x ?k)))) s s1"
      unfolding s1_def by (intro touched_color touched_refl) (auto simp: set_inorder_plug)
    ultimately show ?thesis using refilled_step code by simp
  next
    case False
    have nb: "\<not> (col s (lft s w) = BLACK \<and> col s (rgt s w) = BLACK)" using both False by blast
    show ?thesis
    proof (cases "tree_color z")
      case RED
      then show ?thesis using delete_end_ok [OF f RED b r, of n] cc co unfolding delete_black_def if_not_P [OF nb] by simp
    next
      case BLACK
      then have "tree_color y = RED" using False by simp
      from delete_inner_ok [OF f x(1) this BLACK b r, of n] show ?thesis
        using cc co BLACK unfolding delete_black_def if_not_P [OF nb] by simp
    qed
  qed
qed

text \<open>A red sibling is rotated above the parent first.\<close>

lemma delete_red_ok:
  assumes f: "focus s x (Frame d p BLACK (mk d y w RED z) # k)" and x: "x = Lf \<Longrightarrow> par s nil = p" "tree_color x = BLACK"
    and b: "bal x h" "bal y (Suc h)" "bal z (Suc h)" "tree_color y = BLACK" "tree_color z = BLACK" "cbal k (Suc (Suc h))"
    and r: "root = addr (plug x (Frame d p BLACK (mk d y w RED z) # k))"
  shows "refilled x (Frame d p BLACK (mk d y w RED z) # k) s (delete_case d (Suc n) root (addr x) p s)"
proof -
  let ?k = "Frame d p BLACK (mk d y w RED z) # k"
  define s1 where "s1 = set_color w BLACK s"
  define s2 where "s2 = set_color p RED s1"
  have f1: "focus s1 x (Frame d p BLACK (mk d y w BLACK z) # k)" using focus_color_other [OF f, of BLACK] by (simp add: s1_def)
  have f2: "focus s2 (mk d x p RED (mk d y w BLACK z)) k"
    using focus_color_frame [OF f1, of RED] by (simp add: s2_def focus_mk)
  obtain s' where s': "rotate d p s2 = Inr s'" "focus s' (mk d (mk d x p RED y) w BLACK z) k" "elem s' nil = elem s2 nil"
      "touched (set (inorder (plug (mk d x p RED (mk d y w BLACK z)) k))) s2 s'"
    using rotate_focus [OF f2] by metis
  obtain y1 v y2 where y: "y = mk d y1 v BLACK y2" using b(2,4) by (cases y; cases d) auto
  let ?k1 = "Frame d w BLACK z # k"
  let ?k' = "Frame d p RED (mk d y1 v BLACK y2) # ?k1"
  have f3: "focus s' x ?k'" using s'(2) y by (simp add: focus_mk)
  have ne: "w \<noteq> nil" "p \<noteq> nil" using f by (auto simp: focus_def)
  then have ps: "par s' (addr x) = p" using focus_parent_read' [OF f3] x(1) s'(3) by (simp add: s2_def s1_def)
  have cs: "child s' (opp d) p = v" using focus_frame_read(2) [OF f3] by simp
  have sw: "child s (opp d) p = w" "col s w = RED" using focus_frame_read(2,5) [OF f] by simp_all
  have code: "delete_case d (Suc n) root (addr x) p s = delete_black d (Suc n) root (addr x) p v s'"
    using sw s'(1) ps cs unfolding delete_case_def Let_def by (simp add: s1_def [symmetric] s2_def [symmetric])
  have rr: "root = p \<or> ?k1 \<noteq> [] \<and> root = addr (plug Lf ?k1)"
    using r addr_plug_frame [of k "mk d x p BLACK (mk d y w RED z)" "mk d Lf w BLACK z"] by (cases "k = []") auto
  have px: "x = Lf \<Longrightarrow> par s' nil = p" using ps by simp
  have "refilled x ?k' s' (delete_black d (Suc n) root (addr x) p v s')"
    by (rule delete_black_ok [OF f3 px x(2) b(1) _ _ _ _ rr]) (use b y in auto)
  moreover have "inorder (mk d (mk d x p RED y) w BLACK z) = inorder (mk d x p BLACK (mk d y w RED z))" by (cases d) simp_all
  from inorder_plug_cong [OF this, of k] have "inorder (plug x ?k') = inorder (plug x ?k)" using y by simp
  moreover have "touched (insert nil (set (inorder (plug x ?k)))) s s'"
  proof (rule touched_trans [of _ _ s2])
    show "touched (insert nil (set (inorder (plug x ?k)))) s s2"
      unfolding s2_def s1_def by (intro touched_color touched_refl) (auto simp: set_inorder_plug)
    show "touched (insert nil (set (inorder (plug x ?k)))) s2 s'"
      by (rule touched_mono [OF s'(4)]) (auto simp: set_inorder_plug)
  qed
  ultimately show ?thesis using refilled_step code by simp
qed

lemma rb_delete_fixup_loop_ok:
  "focus s x k \<Longrightarrow> (x = Lf \<Longrightarrow> par s nil = up k) \<Longrightarrow> bal x h \<Longrightarrow> cbal k (Suc h) \<Longrightarrow> root = addr (plug x k) \<Longrightarrow> length k < n \<Longrightarrow>
   refilled x k s (rb_delete_fixup_loop n root (addr x) (up k) s)"
proof (induction n arbitrary: s x k h)
  case (Suc n)
  show ?case
  proof (cases "tree_color x")
    case RED
    then show ?thesis using refilled_red [OF Suc.prems(1) RED bal_paint_RED_BLACK [OF Suc.prems(3) RED] Suc.prems(4)] by simp
  next
    case BLACK
    show ?thesis
    proof (cases k rule: up.cases)
      case 1
      then show ?thesis using refilled_root [of s x h n "up k"] Suc.prems(1,3,5) by simp
    next
      case (2 d p c u k1)
      note f = Suc.prems(1) [unfolded 2]
      obtain n' where n: "n = Suc n'" using Suc.prems(6) 2 by (cases n) auto
      have bu: "bal u (Suc h)" "c = RED \<Longrightarrow> tree_color u = BLACK \<and> ctx_color k1 = BLACK \<and> cbal k1 (Suc h)" "c = BLACK \<Longrightarrow> cbal k1 (Suc (Suc h))"
        using Suc.prems(4) 2 by (cases c; simp)+
      have ul: "u \<noteq> Lf" using bu(1) by auto
      obtain y w cw z where u: "u = mk d y w cw z" using ul by (cases u; cases d) auto
      have "addr x \<noteq> root"
        using focus_not_root [OF Suc.prems(1)] addr_plug [of k x] Suc.prems(1,5) 2 by (cases "x = Lf") (auto simp: focus_def)
      moreover have "addr x = lft s p \<longleftrightarrow> d = LEFT" using focus_frame_read(1,2,9) [OF f] ul by (cases d) auto
      ultimately have code: "rb_delete_fixup_loop (Suc n) root (addr x) (up k) s = delete_case d n root (addr x) p s"
        using focus_color_read [OF Suc.prems(1)] BLACK 2 by (cases d) (simp_all add: rb_delete_fixup_loop_case)
      show ?thesis
      proof (cases cw)
        case RED
        then have c: "c = BLACK" using bu(2) u by (cases c) auto
        have "refilled x (Frame d p BLACK (mk d y w RED z) # k1) s (delete_case d (Suc n') root (addr x) p s)"
          by (rule delete_red_ok [OF _ _ BLACK Suc.prems(3)]) (use f u c RED bu Suc.prems(2,5) 2 in auto)
        then show ?thesis using code n 2 u c RED by simp
      next
        case BLACK
        have sw: "child s (opp d) p = w" "col s w = BLACK" using focus_frame_read(2,5) [OF f] u BLACK by simp_all
        have code': "delete_case d n root (addr x) p s = delete_black d n root (addr x) p w s"
          using sw unfolding delete_case_def Let_def by simp
        have r: "root = p \<or> k1 \<noteq> [] \<and> root = addr (plug Lf k1)"
          using Suc.prems(5) 2 addr_plug_frame [of k1 "mk d x p c u" Lf] by (cases "k1 = []") auto
        have cb: "cbal k1 (if c = RED then Suc h else Suc (Suc h))" using bu(2,3) by (cases c) auto
        have IH: "refilled t k1 s' (rb_delete_fixup_loop (Suc n') root p (up k1) s')"
          if "c = BLACK" "focus s' t k1" "t \<noteq> Lf" "bal t (Suc h)" "addr t = p" for s' t
          using Suc.IH [OF that(2) _ that(4)] that Suc.prems(5,6) 2 bu(3) n addr_plug_cong [of t "mk d x p c u" k1] by simp
        have "refilled x (Frame d p c (mk d y w BLACK z) # k1) s (delete_black d (Suc n') root (addr x) p w s)"
          by (rule delete_black_ok [OF _ _ \<open>tree_color x = BLACK\<close> Suc.prems(3) _ _ cb _ r IH])
            (use f u BLACK bu Suc.prems(2) 2 in auto)
        then show ?thesis using code code' n 2 u BLACK by simp
      qed
    qed
  qed
qed simp

subsection \<open>Taking a node out\<close>

lemma inorder_plug_parts: "\<exists>pre post. \<forall>t. inorder (plug t k) = pre @ inorder t @ post"
proof (induction k)
  case (Cons f k)
  obtain d a c u where f: "f = Frame d a c u" by (cases f)
  obtain pre post where p: "\<And>t. inorder (plug t k) = pre @ inorder t @ post" using Cons.IH by blast
  show ?case
  proof (cases d)
    case LEFT
    then show ?thesis using f p by (intro exI [of _ pre] exI [of _ "a # inorder u @ post"]) simp
  next
    case RIGHT
    then show ?thesis using f p by (intro exI [of _ "pre @ inorder u @ [a]"] exI [of _ post]) simp
  qed
qed (auto intro: exI [of _ "[]"])

lemma focus_root: "focus s t k \<Longrightarrow> tree_root s = addr (plug t k)"
  using focus_plug [of s t k] by (simp add: focus_def)

lemma focus_distinct: "focus s t k \<Longrightarrow> distinct (inorder (plug t k)) \<and> nil \<notin> set (inorder (plug t k))"
  using focus_plug [of s t k] by (simp add: focus_def)

text \<open>The node \<open>y\<close> has at most one child \<open>x\<close>, which takes its place.\<close>

lemma unlink_focus:
  assumes f: "focus s (mk d x y c Lf) k"
  defines "s1 \<equiv> set_parent (addr x) (up k) s"
  shows "ctx_at s1 y k" "focus (redirect (addr x) k s1) x k" "par (redirect (addr x) k s1) (addr x) = up k"
    "touched (insert nil (set (inorder (plug (mk d x y c Lf) k)))) s (redirect (addr x) k s1)"
proof -
  have F: "shape s y x" "ctx_at s y k" "distinct (y # inorder x @ ctx_nodes k)" "nil \<notin> set (y # inorder x @ ctx_nodes k)" "sentinel s"
    using f by (simp_all add: focus_def)
  have ax: "addr x \<notin> set (ctx_nodes k)" "addr x \<notin> {y}" using F(3,4) by (intro addr_notin; auto)+
  have "ctx_at s1 y k = ctx_at s y k" unfolding s1_def using ax by (intro ctx_cong) auto
  then show c1: "ctx_at s1 y k" using F(2) by simp
  have c2: "ctx_at (redirect (addr x) k s1) (addr x) k" using F(3) by (intro ctx_redirect [OF c1]) auto
  show px: "par (redirect (addr x) k s1) (addr x) = up k" using ax(1) by (simp add: s1_def)
  have same: "elem (redirect (addr x) k s1) v = elem s1 v" if "v \<notin> set (ctx_nodes k)" for v using that by simp
  have "shape (redirect (addr x) k s1) (up k) x"
  proof (cases "x = Lf")
    case False
    then have "shape s1 (up k) x"
      using shape_adopt [OF F(1), of "up k"] F(3,4) addr_nil [of x] by (simp add: s1_def adopt_def)
    moreover have "shape (redirect (addr x) k s1) (up k) x = shape s1 (up k) x" using F(3) by (intro shape_cong same) auto
    ultimately show ?thesis by simp
  qed simp
  moreover have "sentinel (redirect (addr x) k s1)" using F(4,5) by (simp add: sentinel_def s1_def)
  ultimately show "focus (redirect (addr x) k s1) x k" using F c2 by (simp add: focus_def)
  show "touched (insert nil (set (inorder (plug (mk d x y c Lf) k)))) s (redirect (addr x) k s1)"
    using addr_in [of x] by (cases "x = Lf") (auto simp: touched_def set_inorder_plug s1_def)
qed

text \<open>The middle part of \<open>node_delete\<close>: unlink \<open>delnode\<close> and rebalance.\<close>

definition unlink_node :: "nat \<Rightarrow> nat \<Rightarrow> rbtree \<Rightarrow> rbtree res" where
  "unlink_node n delnode s =
     (let child_delnode = (if lft s delnode \<noteq> nil then lft s delnode else rgt s delnode);
          parent = par s delnode;
          s = set_parent child_delnode parent s;
          s = (if parent = nil then s\<lparr>tree_root := child_delnode\<rparr>
               else if delnode = lft s parent then set_left parent child_delnode s
               else set_right parent child_delnode s) in
      if col s delnode = BLACK then rb_delete_fixup n child_delnode s else Inr s)"

lemma unlink_node_ok:
  assumes f: "focus s (Nd l y c r) k" and lr: "l = Lf \<or> r = Lf" and rb: "rb_tree (plug (Nd l y c r) k)" and n: "length k < n"
  shows "\<exists>s' t'. unlink_node n y s = Inr s' \<and> focus s' t' [] \<and> rb_tree t'
    \<and> inorder t' = inorder (plug (if l \<noteq> Lf then l else r) k) \<and> touched (insert nil (set (inorder (plug (Nd l y c r) k)))) s s'"
proof -
  define x where "x = (if l \<noteq> Lf then l else r)"
  define d where "d = (if l \<noteq> Lf then LEFT else RIGHT)"
  have m: "Nd l y c r = mk d x y c Lf" using lr by (auto simp: d_def x_def)
  note fx = f [unfolded m]
  define s1 where "s1 = set_parent (addr x) (up k) s"
  define s2 where "s2 = redirect (addr x) k s1"
  note U = unlink_focus [OF fx, folded s1_def, folded s2_def]
  have rd: "lft s y = addr l" "rgt s y = addr r" "par s y = up k" "col s y = c" and y: "y \<notin> set (ctx_nodes k)" "y \<noteq> nil" "nil \<notin> set (ctx_nodes k)"
    and nl: "addr l = nil \<longleftrightarrow> l = Lf"
    using f addr_nil [of l] by (auto simp: focus_def)
  have ch: "(if lft s y \<noteq> nil then lft s y else rgt s y) = addr x" using rd nl by (simp add: x_def)
  have "addr x \<notin> {y}" using f m by (intro addr_notin) (auto simp: focus_def x_def)
  then have cy: "col s2 y = c" using rd(4) y(1) by (simp add: s2_def s1_def)
  have code: "unlink_node n y s = (if c = BLACK then rb_delete_fixup n (addr x) s2 else Inr s2)"
    using redirect_code [OF U(1) y(2,1,3), of "addr x"] cy
    unfolding unlink_node_def Let_def ch rd(3) s1_def [symmetric] s2_def [symmetric] by simp
  obtain h where h: "bal (mk d x y c Lf) h" "cbal k h" "c = RED \<longrightarrow> ctx_color k = BLACK" using unplug_bal [OF rb] m by auto
  have root: "tree_root s2 = addr (plug x k)" using U(2) by (rule focus_root)
  show ?thesis
  proof (cases c)
    case RED
    then have "rb_tree (plug x k)" using h by (intro plug_bal) auto
    then show ?thesis using code RED U(2,4) focus_plug [of s2 x k] m by (auto simp: x_def)
  next
    case BLACK
    then obtain h' where h': "h = Suc h'" "bal x h'" using h(1) by auto
    have "refilled x k s2 (rb_delete_fixup_loop n (tree_root s2) (addr x) (par s2 (addr x)) s2)"
      unfolding U(3) by (rule rb_delete_fixup_loop_ok [OF U(2) _ h'(2)]) (use U(3) h(2) h'(1) root n in auto)
    then obtain s' t' where s': "rb_delete_fixup n (addr x) s2 = Inr s'" "focus s' t' []" "rb_tree t'" "inorder t' = inorder (plug x k)"
        "touched (insert nil (set (inorder (plug x k)))) s2 s'"
      by (auto simp: refilled_def rb_delete_fixup_def)
    have "touched (insert nil (set (inorder (plug (mk d x y c Lf) k)))) s2 s'"
      by (rule touched_mono [OF s'(5)]) (auto simp: set_inorder_plug)
    then show ?thesis using s' code BLACK touched_trans [OF U(4)] m by (auto simp: x_def)
  qed
qed

subsection \<open>One element in place of another\<close>

definition copied :: "nat \<Rightarrow> nat \<Rightarrow> rbtree \<Rightarrow> rbtree" where
  "copied b a s =
     (let s = set_left b (lft s a) s; s = set_right b (rgt s a) s; s = set_parent b (par s a) s
      in set_color b (col s a) s)"

lemma replace_staged:
  "rbtree_elem_replace b a s =
     (let s = copied b a s;
          s = (if par s a \<noteq> nil
               then let s = (if lft s (par s a) = a then set_left (par s b) b s else s)
                 in if rgt s (par s a) = a then set_right (par s b) b s else s
               else s) in
      rbind (if lft s a \<noteq> nil then assert_then (par s (lft s a) = a) (Inr (set_parent (lft s b) b s)) else Inr s) (\<lambda>s.
      rbind (if rgt s a \<noteq> nil then assert_then (par s (rgt s a) = a) (Inr (set_parent (rgt s b) b s)) else Inr s) (\<lambda>s.
        Inr (if tree_root s = a then s\<lparr>tree_root := b\<rparr> else s))))"
  by (simp only: rbtree_elem_replace_def copied_def Let_def)

lemma elem_copied: "elem (copied b a s) v = (if v = b then elem s a else elem s v)"
  by (simp add: copied_def Let_def)

lemma tree_root_copied [simp]: "tree_root (copied b a s) = tree_root s"
  by (simp add: copied_def Let_def)

text \<open>The links to \<open>a\<close> from above and below are changed to \<open>b\<close>.\<close>

definition replaced :: "nat \<Rightarrow> nat \<Rightarrow> tree \<Rightarrow> tree \<Rightarrow> frame list \<Rightarrow> rbtree \<Rightarrow> rbtree" where
  "replaced b a l r k s = adopt (addr r) b (adopt (addr l) b (redirect b k (copied b a s)))"

lemma replace_facts:
  assumes f: "focus s (Nd l a c r) k" and b: "b \<notin> set (inorder (plug (Nd l a c r) k))" "b \<noteq> nil"
  shows "elem s a = cell LEFT (addr l) (addr r) (up k) c" "shape s a l" "shape s a r" "ctx_at s a k" "sentinel s"
    "distinct (b # a # inorder l @ inorder r @ ctx_nodes k)" "nil \<notin> set (b # a # inorder l @ inorder r @ ctx_nodes k)"
    "addr l \<notin> {a, b} \<union> set (inorder r) \<union> set (ctx_nodes k)" "addr r \<notin> {a, b} \<union> set (inorder l) \<union> set (ctx_nodes k)"
    "addr r = addr l \<longleftrightarrow> l = Lf \<and> r = Lf"
proof -
  show F: "elem s a = cell LEFT (addr l) (addr r) (up k) c" "shape s a l" "shape s a r" "ctx_at s a k" "sentinel s"
    "distinct (b # a # inorder l @ inorder r @ ctx_nodes k)" "nil \<notin> set (b # a # inorder l @ inorder r @ ctx_nodes k)"
    using f b by (auto simp: focus_def set_inorder_plug)
  show "addr l \<notin> {a, b} \<union> set (inorder r) \<union> set (ctx_nodes k)" "addr r \<notin> {a, b} \<union> set (inorder l) \<union> set (ctx_nodes k)"
    using F(6,7) by (intro addr_notin; auto)+
  show "addr r = addr l \<longleftrightarrow> l = Lf \<and> r = Lf" using F(6,7) by (cases l; cases r) auto
qed

lemma replaced_focus:
  assumes f: "focus s (Nd l a c r) k" and b: "b \<notin> set (inorder (plug (Nd l a c r) k))" "b \<noteq> nil"
  shows "focus (replaced b a l r k s) (Nd l b c r) k" "elem (replaced b a l r k s) nil = elem s nil"
    "touched (insert b (set (inorder (plug (Nd l a c r) k)))) s (replaced b a l r k s)"
proof -
  note F = replace_facts [OF assms]
  let ?s = "replaced b a l r k s"
  define s1 where "s1 = copied b a s"
  define s2 where "s2 = redirect b k s1"
  define s3 where "s3 = adopt (addr l) b s2"
  have s': "?s = adopt (addr r) b s3" by (simp add: replaced_def s1_def s2_def s3_def)
  have e1: "elem s1 v = elem s v" if "v \<noteq> b" for v using that by (simp add: s1_def elem_copied)
  have e2: "elem s2 v = elem s v" if "v \<noteq> b" "v \<notin> set (ctx_nodes k)" for v using that e1 by (simp add: s2_def)
  have e3: "elem ?s v = elem s2 v" if "v \<noteq> addr l" "v \<noteq> addr r" for v using that by (simp add: s' s3_def)
  have "ctx_at s1 a k = ctx_at s a k" by (intro ctx_cong e1) (use F(6) in \<open>auto simp: s1_def\<close>)
  then have "ctx_at s2 b k" unfolding s2_def using F(4,6) by (intro ctx_redirect) auto
  moreover have "ctx_at ?s b k = ctx_at s2 b k" by (intro ctx_cong e3) (use F(8,9) in \<open>auto simp: s' s3_def\<close>)
  ultimately have c: "ctx_at ?s b k" by simp
  have "shape s2 a l = shape s a l" "shape s2 a r = shape s a r" using F(6) by (intro shape_cong e2; auto)+
  then have sh: "shape s2 a l" "shape s2 a r" using F(2,3) by simp_all
  have "shape s3 b l" unfolding s3_def using sh(1) F(6,7) by (intro shape_adopt) auto
  moreover have "shape ?s b l = shape s3 b l" unfolding s' using F(9) by (intro shape_cong elem_adopt) auto
  ultimately have l: "shape ?s b l" by simp
  have "shape s3 a r = shape s2 a r" unfolding s3_def using F(8) by (intro shape_cong elem_adopt) auto
  then have r: "shape ?s b r" unfolding s' using sh(2) F(6,7) by (intro shape_adopt) auto
  have "elem ?s b = elem s2 b" using F(8,9) by (intro e3) auto
  also have "\<dots> = elem s a" using F(6) by (simp add: s2_def s1_def elem_copied)
  finally have eb: "elem ?s b = cell LEFT (addr l) (addr r) (up k) c" using F(1) by simp
  show n: "elem ?s nil = elem s nil" using F(7) by (simp add: replaced_def elem_copied)
  show "focus ?s (Nd l b c r) k" using c l r eb n F(5-7) by (auto simp: focus_def sentinel_def)
  show "touched (insert b (set (inorder (plug (Nd l a c r) k)))) s ?s"
    unfolding touched_def
  proof (intro allI impI)
    fix v assume v: "v \<notin> insert b (set (inorder (plug (Nd l a c r) k)))"
    then have "v = nil \<or> v \<noteq> addr l \<and> v \<noteq> addr r" using addr_in [of l] addr_in [of r] by (cases l; cases r) (auto simp: set_inorder_plug)
    then show "elem ?s v = elem s v" using n e3 e2 v by (auto simp: set_inorder_plug)
  qed
qed

lemma replace_code:
  assumes f: "focus s (Nd l a c r) k" and b: "b \<notin> set (inorder (plug (Nd l a c r) k))" "b \<noteq> nil"
  shows "rbtree_elem_replace b a s = Inr (replaced b a l r k s)"
proof -
  note F = replace_facts [OF assms]
  define s1 where "s1 = copied b a s"
  define s2 where "s2 = (if k = [] then s1 else redirect b k s1)"
  have ab: "a \<noteq> b" "up k \<noteq> nil \<longleftrightarrow> k \<noteq> []" "a \<notin> set (ctx_nodes k)" "b \<notin> set (ctx_nodes k)"
    using F(6,7) up_in [of k] by (cases k rule: up.cases; auto)+
  have e1: "elem s1 a = elem s a" "elem s1 b = elem s a" "par s a = up k" "lft s a = addr l" "rgt s a = addr r"
    using ab F(1) by (simp_all add: s1_def elem_copied)
  have st1: "(if par s1 a \<noteq> nil
      then let s = (if lft s1 (par s1 a) = a then set_left (par s1 b) b s1 else s1)
        in if rgt s (par s a) = a then set_right (par s b) b s else s
      else s1) = s2"
  proof (cases k rule: up.cases)
    case (2 d g e u k')
    have g: "elem s1 g = cell d a (addr u) (up k') e" "g \<noteq> a" "g \<noteq> b" "a \<noteq> addr u" "b \<noteq> addr u"
      using F(4,6,7) 2 by (cases u; auto simp: s1_def elem_copied)+
    then show ?thesis using 2 e1 ab by (cases d) (auto simp: s2_def Let_def)
  qed (use e1 in \<open>simp add: s2_def\<close>)
  have e2: "elem s2 v = elem s1 v" if "v \<notin> set (ctx_nodes k)" for v using that by (simp add: s2_def)
  have a2: "elem s2 a = elem s a" "elem s2 b = elem s a" using e1 e2 ab by simp_all
  have pl: "par s2 (addr l) = a" if "l \<noteq> Lf" using that F(2,6,8) e2 by (cases l) (auto simp: s1_def elem_copied)
  have pr: "par s2 (addr r) = a" if "r \<noteq> Lf" using that F(3,6,9) e2 by (cases r) (auto simp: s1_def elem_copied)
  have nl: "addr l = nil \<longleftrightarrow> l = Lf" "addr r = nil \<longleftrightarrow> r = Lf" using F(7) addr_nil by auto
  define s3 where "s3 = adopt (addr l) b s2"
  have st2: "(if lft s2 a \<noteq> nil then assert_then (par s2 (lft s2 a) = a) (Inr (set_parent (lft s2 b) b s2)) else Inr s2) = Inr s3"
    using a2 e1 pl nl by (simp add: s3_def adopt_def)
  have a3: "elem s3 a = elem s a" "elem s3 b = elem s a" using a2 F(8) by (simp_all add: s3_def)
  have "par s3 (addr r) = a" if "r \<noteq> Lf" using pr that F(10) by (simp add: s3_def)
  then have st3: "(if rgt s3 a \<noteq> nil then assert_then (par s3 (rgt s3 a) = a) (Inr (set_parent (rgt s3 b) b s3)) else Inr s3)
      = Inr (adopt (addr r) b s3)"
    using a3 e1 nl by (simp add: adopt_def)
  have root: "tree_root s3 = a \<longleftrightarrow> k = []"
  proof (cases "k = []")
    case False
    have "tree_root s = addr (plug (Nd l a c r) k)" using f by (rule focus_root)
    moreover have "tree_root s3 = tree_root s" using False by (cases k rule: up.cases) (auto simp: s3_def s2_def s1_def)
    ultimately show ?thesis using focus_not_root [OF f False] False by auto
  qed (use F(4) in \<open>simp add: s3_def s2_def s1_def\<close>)
  have "(if tree_root (adopt (addr r) b s3) = a then (adopt (addr r) b s3)\<lparr>tree_root := b\<rparr> else adopt (addr r) b s3) = replaced b a l r k s"
    using root by (cases "k = []") (auto simp: replaced_def s3_def s2_def s1_def adopt_def set_parent_def)
  then show ?thesis
    unfolding replace_staged Let_def s1_def [symmetric] st1 [unfolded Let_def] st2 rbind.simps st3 by (simp only:)
qed

subsection \<open>Deletion\<close>

lemma node_delete_staged:
  "node_delete n node s =
     rbind (if lft s node = nil \<or> rgt s node = nil then Inr node else successor n node s) (\<lambda>delnode.
     rbind (unlink_node n delnode s) (\<lambda>s.
       if delnode \<noteq> node
       then rbind (rbtree_elem_replace delnode node s) (\<lambda>s.
         Inr (set_parent node nil (set_left node nil (set_right node nil s))))
       else Inr s))"
  by (simp only: node_delete_def unlink_node_def Let_def)

lemma locate: "a \<in> set (inorder t) \<Longrightarrow> \<exists>l c r k'. plug (Nd l a c r) k' = plug t k"
proof (induction t arbitrary: k)
  case (Nd l b c r)
  consider "a = b" | "a \<in> set (inorder l)" | "a \<in> set (inorder r)" using Nd.prems by auto
  then show ?case
  proof cases
    case 2
    from Nd.IH(1) [OF this, of "Frame LEFT b c r # k"] show ?thesis by simp
  next
    case 3
    from Nd.IH(2) [OF this, of "Frame RIGHT b c l # k"] show ?thesis by simp
  qed blast
qed simp

lemma plug_length: "length k + length (inorder t) \<le> length (inorder (plug t k))"
proof (induction t k rule: plug.induct)
  case (2 t d a c u k)
  have "length (inorder (mk d t a c u)) = Suc (length (inorder t) + length (inorder u))" by (cases d) simp_all
  then show ?case using 2 by simp
qed simp

lemma minimum_at:
  "focus s t k \<Longrightarrow> t \<noteq> Lf \<Longrightarrow> length (inorder t) \<le> n \<Longrightarrow>
   \<exists>m c r k'. minimum n (addr t) s = Inr m \<and> plug (Nd Lf m c r) k' = plug t k \<and> m = hd (inorder t)"
proof (induction n arbitrary: t k)
  case (Suc n)
  obtain l a c r where t: "t = Nd l a c r" using Suc.prems(2) by (cases t) auto
  have f: "focus s l (Frame LEFT a c r # k)" using Suc.prems(1) t by (simp add: focus_mk [symmetric])
  have rd: "lft s a = addr l" "addr l = nil \<longleftrightarrow> l = Lf" using focus_frame_read(1) [OF f] focus_not_nil(2) [OF f] by simp_all
  show ?case
  proof (cases "l = Lf")
    case True
    then show ?thesis using rd t by (intro exI [of _ a] exI [of _ c] exI [of _ r] exI [of _ k]) simp
  next
    case False
    then have "hd (inorder t) = hd (inorder l)" using t by (cases l) (auto simp: hd_append)
    then show ?thesis using Suc.IH [OF f False] Suc.prems(3) rd t False by simp
  qed
next
  case 0
  then show ?case by (cases t) auto
qed

lemma split_unique: "xs @ a # ys = xs' @ a # ys' \<Longrightarrow> distinct (xs @ a # ys) \<Longrightarrow> xs = xs' \<and> ys = ys'"
  by (metis append_Cons_eq_iff distinct.simps(2) distinct_append disjoint_iff list.set_intros(1))

lemma rename_rb_tree: "rb_tree (plug (Nd l a c r) k) \<Longrightarrow> rb_tree (plug (Nd l b c r) k)"
proof -
  assume "rb_tree (plug (Nd l a c r) k)"
  then obtain h where h: "bal (Nd l a c r) h" "cbal k h" "c = RED \<Longrightarrow> ctx_color k = BLACK" using unplug_bal by fastforce
  have "bal (Nd l b c r) h" using h(1) by (cases c) auto
  from plug_bal [OF this h(2)] show ?thesis using h(3) by simp
qed

lemma focus_off:
  assumes f: "focus s t []" and v: "\<And>v. v \<in> insert nil (set (inorder t)) \<Longrightarrow> elem s' v = elem s v" "tree_root s' = tree_root s"
  shows "focus s' t []"
proof -
  have "shape s' nil t = shape s nil t" using v(1) by (intro shape_cong) auto
  then show ?thesis using f v by (simp add: focus_def sentinel_def)
qed

text \<open>The successor \<open>y\<close> of \<open>a\<close> is taken out of its place and put in that of \<open>a\<close>.\<close>

lemma delete_inner:
  assumes f: "focus s t []" and rb: "rb_tree t" and n: "length (inorder t) < n"
    and a: "inorder t = pre @ a # y # post" and y: "plug (Nd Lf y cy ry) k' = t"
  shows "\<exists>s1 s2 t'. unlink_node n y s = Inr s1 \<and> rbtree_elem_replace y a s1 = Inr s2 \<and> focus s2 t' [] \<and> rb_tree t'
    \<and> inorder t' = pre @ y # post \<and> touched (insert nil (set (inorder t))) s s2"
proof -
  have fy: "focus s (Nd Lf y cy ry) k'" using f y focus_plug by blast
  have "length k' < n" using plug_length [of k' "Nd Lf y cy ry"] n y by simp
  then obtain s1 t1 where s1: "unlink_node n y s = Inr s1" "focus s1 t1 []" "rb_tree t1" "inorder t1 = inorder (plug ry k')"
      "touched (insert nil (set (inorder t))) s s1"
    using unlink_node_ok [OF fy _ _ \<open>length k' < n\<close>] rb y by auto
  obtain p q where pq: "\<And>t. inorder (plug t k') = p @ inorder t @ q" using inorder_plug_parts by blast
  have dis: "distinct (inorder t)" "nil \<notin> set (inorder t)" using focus_distinct [OF f] by simp_all
  have "inorder t = p @ y # inorder ry @ q" using pq [of "Nd Lf y cy ry"] y by simp
  moreover have "inorder t = (pre @ [a]) @ y # post" using a by simp
  ultimately have "p = pre @ [a]" "inorder ry @ q = post"
    using dis(1) split_unique [of p y "inorder ry @ q" "pre @ [a]" post] by simp_all
  then have t1: "inorder t1 = pre @ a # post" using s1(4) pq [of ry] by simp
  obtain l c r k where k: "plug (Nd l a c r) k = t1" using locate [of a t1 "[]"] t1 by auto
  have yn: "y \<notin> set (inorder (plug (Nd l a c r) k))" "y \<noteq> nil" using t1 k dis a by auto
  have f1: "focus s1 (Nd l a c r) k" using s1(2) k focus_plug by blast
  note R = replaced_focus [OF f1 yn] and C = replace_code [OF f1 yn]
  let ?s2 = "replaced y a l r k s1" and ?t = "plug (Nd l y c r) k"
  obtain p' q' where pq': "\<And>t. inorder (plug t k) = p' @ inorder t @ q'" using inorder_plug_parts by blast
  have "(p' @ inorder l) @ a # (inorder r @ q') = pre @ a # post" using pq' [of "Nd l a c r"] k t1 by simp
  then have "p' @ inorder l = pre" "inorder r @ q' = post"
    using dis(1) a split_unique [of pre a post "p' @ inorder l" "inorder r @ q'"] by auto
  then have "inorder ?t = pre @ y # post" using pq' [of "Nd l y c r"] by simp
  moreover have "rb_tree ?t" using s1(3) k rename_rb_tree by blast
  moreover have "focus ?s2 ?t []" using R(1) focus_plug by blast
  moreover have "touched (insert nil (set (inorder t))) s1 ?s2" by (rule touched_mono [OF R(3)]) (use a t1 k in auto)
  ultimately show ?thesis using s1(1,5) C touched_trans by blast
qed

lemma rbtree_delete_ok:
  assumes f: "focus s t []" and rb: "rb_tree t" and a: "a \<in> set (inorder t)" and n: "length (inorder t) < n"
  shows "\<exists>s' t'. rbtree_delete n a s = Inr s' \<and> focus s' t' [] \<and> rb_tree t' \<and> inorder t' = remove1 a (inorder t)
    \<and> touched (insert nil (set (inorder t))) s s'"
proof -
  obtain l c r k where k: "plug (Nd l a c r) k = t" using locate [OF a, of "[]"] by auto
  have fa: "focus s (Nd l a c r) k" using f k focus_plug by blast
  have fr: "focus s r (Frame RIGHT a c l # k)" using fa by (simp add: focus_mk [symmetric])
  have rd: "lft s a = addr l" "rgt s a = addr r" "addr l = nil \<longleftrightarrow> l = Lf" "addr r = nil \<longleftrightarrow> r = Lf"
    using fa addr_nil [of l] addr_nil [of r] by (auto simp: focus_def)
  obtain p q where pq: "\<And>t. inorder (plug t k) = p @ inorder t @ q" using inorder_plug_parts by blast
  have t: "inorder t = p @ inorder l @ a # inorder r @ q" using pq [of "Nd l a c r"] k by simp
  have dis: "distinct (inorder t)" "nil \<notin> set (inorder t)" using focus_distinct [OF f] by simp_all
  have rem: "remove1 a (inorder t) = p @ inorder l @ inorder r @ q" using dis(1) t by (simp add: remove1_append)
  have lk: "length k < n" using plug_length [of k "Nd l a c r"] n k by simp
  show ?thesis
  proof (cases "l = Lf \<or> r = Lf")
    case True
    then have "inorder (plug (if l \<noteq> Lf then l else r) k) = remove1 a (inorder t)" using pq rem by auto
    then show ?thesis using unlink_node_ok [OF fa True _ lk] rb k rd True by (auto simp: rbtree_delete_def node_delete_staged)
  next
    case False
    have "length (inorder r) \<le> n" using n t by simp
    then obtain y cy ry k' where y: "minimum n (addr r) s = Inr y" "plug (Nd Lf y cy ry) k' = t" "y = hd (inorder r)"
      using minimum_at [OF fr, of n] False k by auto
    obtain ys where r: "inorder r = y # ys" using y(3) False by (cases "inorder r") (auto elim: inorder.elims)
    have t': "inorder t = (p @ inorder l) @ a # y # (ys @ q)" using t r by simp
    obtain s1 s2 t1 where s2: "unlink_node n y s = Inr s1" "rbtree_elem_replace y a s1 = Inr s2" "focus s2 t1 []" "rb_tree t1"
        "inorder t1 = (p @ inorder l) @ y # (ys @ q)" "touched (insert nil (set (inorder t))) s s2"
      using delete_inner [OF f rb n t' y(2)] by blast
    let ?s' = "set_parent a nil (set_left a nil (set_right a nil s2))"
    have "focus ?s' t1 []" by (rule focus_off [OF s2(3)]) (use dis t' s2(5) in auto)
    moreover have "touched (insert nil (set (inorder t))) s ?s'" using s2(6) a by (auto simp: touched_def)
    moreover have "y \<noteq> a" using dis(1) t' by auto
    then have "rbtree_delete n a s = Inr ?s'"
      using s2(1,2) y(1) rd False by (simp add: rbtree_delete_def node_delete_staged successor_def Let_def)
    ultimately show ?thesis using s2(4,5) rem r by auto
  qed
qed

end
