(* ===== verification/Rbtree_Search.thy ===== *)
theory Rbtree_Search
  imports Rbtree_Delete
begin

text \<open>
  Traversal, search and inspection of the trees of \<^verbatim>\<open>lib/rbtree.c\<close>, and the summary of the
  component: sequences of operations on a tree refine operations on a sorted sequence.
\<close>

subsection \<open>Neighbours\<close>

lemma maximum_at:
  "focus s t k \<Longrightarrow> t \<noteq> Lf \<Longrightarrow> length (inorder t) \<le> n \<Longrightarrow> maximum n (addr t) s = Inr (last (inorder t))"
proof (induction n arbitrary: t k)
  case (Suc n)
  obtain l a c r where t: "t = Nd l a c r" using Suc.prems(2) by (cases t) auto
  have f: "focus s r (Frame RIGHT a c l # k)" using Suc.prems(1) t by (simp add: focus_mk [symmetric])
  have rd: "rgt s a = addr r" "addr r = nil \<longleftrightarrow> r = Lf" using focus_frame_read(1) [OF f] focus_not_nil(2) [OF f] by simp_all
  have "inorder r \<noteq> []" if "r \<noteq> Lf" using that by (cases r) auto
  then show ?case using Suc.IH [OF f] Suc.prems(3) rd t by (cases "r = Lf") auto
next
  case 0
  then show ?case by (cases t) auto
qed

text \<open>The nearest node above that has the focus on side \<open>d\<close>.\<close>

fun above :: "dir \<Rightarrow> frame list \<Rightarrow> nat" where
  "above d [] = nil"
| "above d (Frame d' a c u # k) = (if d' = d then a else above d k)"

lemma inorder_above:
  "\<exists>pre post. (\<forall>t. inorder (plug t k) = pre @ inorder t @ post) \<and> last (nil # pre) = above RIGHT k \<and> hd (post @ [nil]) = above LEFT k"
proof (induction k)
  case (Cons f k)
  obtain d a c u where f: "f = Frame d a c u" by (cases f)
  obtain pre post where p: "\<And>t. inorder (plug t k) = pre @ inorder t @ post"
      "last (nil # pre) = above RIGHT k" "hd (post @ [nil]) = above LEFT k"
    using Cons.IH by blast
  show ?case
  proof (cases d)
    case LEFT
    then show ?thesis using f p by (intro exI [of _ pre] exI [of _ "a # inorder u @ post"]) simp
  next
    case RIGHT
    then show ?thesis using f p by (intro exI [of _ "pre @ inorder u @ [a]"] exI [of _ post]) simp
  qed
qed (auto intro: exI [of _ "[]"])

lemma climb:
  "focus s x k \<Longrightarrow> x \<noteq> Lf \<Longrightarrow> length k < n \<Longrightarrow> successor_loop n (addr x) (up k) s = Inr (above LEFT k)
    \<and> predecessor_loop n (addr x) (up k) s = Inr (above RIGHT k)"
proof (induction n arbitrary: x k)
  case (Suc n)
  show ?case
  proof (cases k rule: up.cases)
    case (2 d a c u k')
    note f = Suc.prems(1) [unfolded 2]
    have "focus s (mk d x a c u) k'" using f by (simp add: focus_mk)
    from Suc.IH [OF this] have "successor_loop n a (up k') s = Inr (above LEFT k')" "predecessor_loop n a (up k') s = Inr (above RIGHT k')"
      using Suc.prems(3) 2 by simp_all
    then show ?thesis using focus_frame_read(1-3,6,9) [OF f] Suc.prems(2) 2 by (cases d) auto
  qed simp
qed simp

lemma neighbours:
  assumes f: "focus s t []" and a: "inorder t = pre @ a # post" and n: "length (inorder t) < n"
  shows "successor n a s = Inr (hd (post @ [nil]))" "predecessor n a s = Inr (last (nil # pre))"
proof -
  obtain l c r k where k: "plug (Nd l a c r) k = t" using locate [of a t "[]"] a by auto
  have fa: "focus s (Nd l a c r) k" using f k focus_plug by blast
  have fl: "focus s l (Frame LEFT a c r # k)" and fr: "focus s r (Frame RIGHT a c l # k)"
    using fa by (simp_all add: focus_mk [symmetric])
  have rd: "lft s a = addr l" "rgt s a = addr r" "par s a = up k" "addr l = nil \<longleftrightarrow> l = Lf" "addr r = nil \<longleftrightarrow> r = Lf"
    using fa addr_nil [of l] addr_nil [of r] by (auto simp: focus_def)
  obtain p q where pq: "\<And>t. inorder (plug t k) = p @ inorder t @ q" "last (nil # p) = above RIGHT k" "hd (q @ [nil]) = above LEFT k"
    using inorder_above by blast
  have dis: "distinct (pre @ a # post)" using focus_distinct [OF f] a by simp
  have "pre @ a # post = (p @ inorder l) @ a # (inorder r @ q)" using a pq(1) [of "Nd l a c r"] k by simp
  from split_unique [OF this dis] have eq: "pre = p @ inorder l" "post = inorder r @ q" by simp_all
  have lk: "length k < n" and lr: "length (inorder l) \<le> n" "length (inorder r) \<le> n"
    using plug_length [of k "Nd l a c r"] n a eq k by simp_all
  have ne: "inorder u \<noteq> []" if "u \<noteq> Lf" for u using that by (cases u) auto
  note C = climb [OF fa _ lk]
  show "successor n a s = Inr (hd (post @ [nil]))"
    using minimum_at [OF fr _ lr(2)] C rd pq(3) eq(2) ne [of r] by (cases "r = Lf") (auto simp: successor_def)
  show "predecessor n a s = Inr (last (nil # pre))"
    using maximum_at [OF fl _ lr(1)] C rd pq(2) eq(1) ne [of l] by (cases "l = Lf") (auto simp: predecessor_def)
qed

text \<open>From the first element to the last by \<open>rbtree_next\<close>, and back by \<open>rbtree_prev\<close>.\<close>

fun visit :: "nat \<Rightarrow> (nat \<Rightarrow> nat res) \<Rightarrow> nat \<Rightarrow> nat list res" where
  "visit 0 f e = Inl OUT_OF_FUEL"
| "visit (Suc n) f e = (if e = 0 then Inr [] else rbind (f e) (\<lambda>e'. rbind (visit n f e') (\<lambda>es. Inr (e # es))))"

definition ptr :: "nat \<Rightarrow> nat" where
  "ptr a = (if a = nil then 0 else a)"

lemma visit_forward:
  assumes f: "focus s t []" and n: "length (inorder t) < n" and z: "0 \<notin> set (inorder t)"
  shows "inorder t = pre @ xs \<Longrightarrow> length xs < m \<Longrightarrow> visit m (\<lambda>e. rbtree_next n e s) (ptr (hd (xs @ [nil]))) = Inr xs"
proof (induction xs arbitrary: pre m)
  case Nil
  then show ?case by (cases m) (simp_all add: ptr_def)
next
  case (Cons x xs)
  have x: "x \<noteq> nil" "x \<noteq> 0" using focus_distinct [OF f] z Cons.prems(1) by auto
  obtain m' where m: "m = Suc m'" "length xs < m'" using Cons.prems(2) by (cases m) auto
  have "rbtree_next n x s = Inr (ptr (hd (xs @ [nil])))"
    using neighbours(1) [OF f Cons.prems(1) n] by (simp add: rbtree_next_def ptr_def)
  then show ?case using Cons.IH [of "pre @ [x]" m'] Cons.prems(1) m x by (simp add: ptr_def)
qed

lemma visit_backward:
  assumes f: "focus s t []" and n: "length (inorder t) < n" and z: "0 \<notin> set (inorder t)"
  shows "inorder t = xs @ post \<Longrightarrow> length xs < m \<Longrightarrow> visit m (\<lambda>e. rbtree_prev n e s) (ptr (last (nil # xs))) = Inr (rev xs)"
proof (induction xs arbitrary: post m rule: rev_induct)
  case Nil
  then show ?case by (cases m) (simp_all add: ptr_def)
next
  case (snoc x xs)
  have x: "x \<noteq> nil" "x \<noteq> 0" using focus_distinct [OF f] z snoc.prems(1) by auto
  obtain m' where m: "m = Suc m'" "length xs < m'" using snoc.prems(2) by (cases m) auto
  have "rbtree_prev n x s = Inr (ptr (last (nil # xs)))"
    using neighbours(2) [OF f, of xs x post] snoc.prems(1) n x by (simp add: rbtree_prev_def ptr_def)
  then show ?case using snoc.IH [of "x # post" m'] snoc.prems(1) m x by (simp add: ptr_def)
qed

lemma ends:
  assumes f: "focus s t []" and n: "length (inorder t) < n"
  shows "rbtree_begin n s = Inr (ptr (hd (inorder t @ [nil])))" "rbtree_rbegin n s = Inr (ptr (last (nil # inorder t)))"
proof -
  have r: "tree_root s = addr t" and sen: "sentinel s" using f by (simp_all add: focus_def)
  have n': "length (inorder t) \<le> n" "n = Suc (n - 1)" using n by simp_all
  have "minimum n (addr t) s = Inr (hd (inorder t @ [nil])) \<and> maximum n (addr t) s = Inr (last (nil # inorder t))"
  proof (cases "t = Lf")
    case True
    then show ?thesis using sen by (subst n'(2), subst n'(2)) (simp add: sentinel_def)
  next
    case False
    then have "inorder t \<noteq> []" by (cases t) auto
    then show ?thesis using minimum_at [OF f False n'(1)] maximum_at [OF f False n'(1)] by auto
  qed
  then show "rbtree_begin n s = Inr (ptr (hd (inorder t @ [nil])))" "rbtree_rbegin n s = Inr (ptr (last (nil # inorder t)))"
    using r by (simp_all add: rbtree_begin_def rbtree_rbegin_def ptr_def)
qed

subsection \<open>Search\<close>

abbreviation sorted_by_lt :: "(nat \<Rightarrow> nat \<Rightarrow> bool) \<Rightarrow> nat list \<Rightarrow> bool" where
  "sorted_by_lt lt xs \<equiv> sorted_wrt (\<lambda>a b. \<not> lt b a) xs"

definition first_ge :: "(nat \<Rightarrow> nat \<Rightarrow> bool) \<Rightarrow> nat \<Rightarrow> nat list \<Rightarrow> nat" where
  "first_ge lt e xs = hd (dropWhile (\<lambda>x. lt x e) xs @ [0])"

definition first_eq :: "(nat \<Rightarrow> nat \<Rightarrow> bool) \<Rightarrow> nat \<Rightarrow> nat list \<Rightarrow> nat" where
  "first_eq lt e xs = (let x = first_ge lt e xs in if lt e x then 0 else x)"

lemma sorted_lt_before:
  "weak_order_on A lt \<Longrightarrow> sorted_by_lt lt (pre @ a # post) \<Longrightarrow> lt a e \<Longrightarrow> x \<in> set pre \<Longrightarrow> set (pre @ a # post) \<subseteq> A \<Longrightarrow> e \<in> A \<Longrightarrow> lt x e"
  using weak_order_onD(2) [of A lt a x e] by (auto simp: sorted_wrt_append)

lemma sorted_ge_after:
  "weak_order_on A lt \<Longrightarrow> sorted_by_lt lt (pre @ a # post) \<Longrightarrow> \<not> lt a e \<Longrightarrow> x \<in> set post \<Longrightarrow> set (pre @ a # post) \<subseteq> A \<Longrightarrow> e \<in> A \<Longrightarrow> \<not> lt x e"
  using weak_order_onD(2) [of A lt x a e] by (auto simp: sorted_wrt_append)

lemma find_first_equal_loop_at:
  assumes f: "focus s t []" and n: "length (inorder t) < n" and w: "weak_order_on (insert e (set (inorder t))) lt"
    and so: "sorted_by_lt lt (inorder t)"
  shows "inorder t = pre @ a # post \<Longrightarrow> \<not> lt a e \<Longrightarrow> \<not> lt e a \<Longrightarrow> length pre < m \<Longrightarrow>
    find_first_equal_loop m n lt e a s = Inr (first_ge lt e (inorder t)) \<and> \<not> lt e (first_ge lt e (inorder t))
      \<and> first_ge lt e (inorder t) \<in> set (inorder t) \<and> \<not> lt (first_ge lt e (inorder t)) e"
proof (induction m arbitrary: pre a post)
  case (Suc m)
  note nb = neighbours(2) [OF f Suc.prems(1) n]
  have stop: "first_ge lt e (inorder t) = a" if "\<And>x. x \<in> set pre \<Longrightarrow> lt x e"
    using that Suc.prems(1,2) by (simp add: first_ge_def dropWhile_append)
  show ?case
  proof (cases pre rule: rev_cases)
    case Nil
    then show ?thesis using nb stop Suc.prems by simp
  next
    case (snoc pre' p)
    have pn: "p \<noteq> nil" using focus_distinct [OF f] Suc.prems(1) snoc by auto
    have t: "inorder t = pre' @ p # a # post" using Suc.prems(1) snoc by simp
    show ?thesis
    proof (cases "lt p e")
      case True
      then have "lt x e" if "x \<in> set pre" for x using sorted_lt_before [OF w so [unfolded t] True] that snoc t by auto
      then show ?thesis using nb stop Suc.prems True snoc by simp
    next
      case False
      have "\<not> lt a p" using so t by (auto simp: sorted_wrt_append)
      then have ep: "\<not> lt e p" using weak_order_onD(2) [OF w Suc.prems(3), of p] t by auto
      show ?thesis using Suc.IH [OF t False ep] Suc.prems(4) nb snoc False ep pn by simp
    qed
  qed
qed simp

lemma find_first_equal_at:
  assumes f: "focus s t []" and n: "length (inorder t) < n" and w: "weak_order_on (insert e (set (inorder t))) lt"
    and so: "sorted_by_lt lt (inorder t)"
    and a: "a \<in> set (inorder t)" "\<not> lt a e" "\<not> lt e a"
  shows "find_first_equal_entry n lt e a s = Inr (first_ge lt e (inorder t))" "\<not> lt e (first_ge lt e (inorder t))"
proof -
  obtain pre post where t: "inorder t = pre @ a # post" using a(1) by (meson split_list)
  have "length pre < n" using t n by simp
  note F = find_first_equal_loop_at [OF f n w so t a(2,3) this]
  then show "\<not> lt e (first_ge lt e (inorder t))" by blast
  have "first_ge lt e (inorder t) \<noteq> nil" using F focus_distinct [OF f] by auto
  then show "find_first_equal_entry n lt e a s = Inr (first_ge lt e (inorder t))" using F by (simp add: find_first_equal_entry_def)
qed

text \<open>The descent of a search: \<open>t\<close> is the subtree still to be searched.\<close>

lemma search_loops:
  assumes f: "focus s T []" and n: "length (inorder T) < n" and w: "weak_order_on (insert e (set (inorder T))) lt"
    and so: "sorted_by_lt lt (inorder T)"
  shows "plug t k = T \<Longrightarrow> length (inorder t) < m \<Longrightarrow> ret = 0 \<or> lt e ret \<Longrightarrow>
    rbtree_find_loop m n lt e (addr t) s = Inr (if \<exists>x \<in> set (inorder t). \<not> lt x e \<and> \<not> lt e x then first_ge lt e (inorder T) else 0)
    \<and> find_first_loop m n lt e (addr t) ret s = Inr (if \<exists>x \<in> set (inorder t). \<not> lt x e \<and> \<not> lt e x
        then first_ge lt e (inorder T) else hd (dropWhile (\<lambda>x. lt x e) (inorder t) @ [ret]))"
proof (induction m arbitrary: t k ret)
  case (Suc m)
  show ?case
  proof (cases t)
    case Lf
    then show ?thesis using Suc.prems(3) by (simp add: rbtree_end_def)
  next
    case (Nd l a c r)
    have ft: "focus s (Nd l a c r) k" using f Suc.prems(1) Nd focus_plug by blast
    have rd: "lft s a = addr l" "rgt s a = addr r" "a \<noteq> nil" using ft by (auto simp: focus_def)
    obtain p q where pq: "\<And>t. inorder (plug t k) = p @ inorder t @ q" using inorder_plug_parts by blast
    have T: "inorder T = p @ (inorder l @ a # inorder r) @ q" using pq [of t] Nd Suc.prems(1) by simp
    have sub: "set (inorder l @ a # inorder r) \<subseteq> insert e (set (inorder T))" unfolding T by auto
    have so': "sorted_by_lt lt (inorder l @ a # inorder r)" using so unfolding T by (simp add: sorted_wrt_append)
    have pl: "plug l (Frame LEFT a c r # k) = T" "plug r (Frame RIGHT a c l # k) = T" using Suc.prems(1) Nd by simp_all
    have len: "length (inorder l) < m" "length (inorder r) < m" using Suc.prems(2) Nd by simp_all
    consider (lt) "lt a e" | (gt) "\<not> lt a e" "lt e a" | (eq) "\<not> lt a e" "\<not> lt e a" by blast
    then show ?thesis
    proof cases
      case lt
      have "lt x e" if "x \<in> set (inorder l)" for x by (rule sorted_lt_before [OF w so' lt that sub insertI1])
      then show ?thesis using Suc.IH [OF pl(2) len(2) Suc.prems(3)] rd lt Nd by (auto simp: dropWhile_append)
    next
      case gt
      have ge: "\<not> lt x e" if "x \<in> set (inorder r)" for x by (rule sorted_ge_after [OF w so' gt(1) that sub insertI1])
      have "lt e x" if "x \<in> set (inorder r)" for x
        using so' that gt(2) weak_order_onD(2) [OF w, of e x a] sub by (auto simp: sorted_wrt_append)
      then show ?thesis using Suc.IH [OF pl(1) len(1), of a] rd gt Nd
        by (auto simp: dropWhile_append Let_def hd_append dropWhile_eq_Nil_conv [THEN iffD2])
    next
      case eq
      have "a \<in> set (inorder T)" using T by simp
      from find_first_equal_at(1) [OF f n w so this eq] show ?thesis using rd eq Nd by auto
    qed
  qed
qed simp

lemma rbtree_find_at:
  assumes f: "focus s t []" and n: "length (inorder t) < n" and w: "weak_order_on (insert e (set (inorder t))) lt"
    and so: "sorted_by_lt lt (inorder t)"
  shows "rbtree_find n lt e s = Inr (first_eq lt e (inorder t))" "rbtree_find_first n lt e s = Inr (first_ge lt e (inorder t))"
proof -
  let ?xs = "inorder t"
  have r: "tree_root s = addr t" using f by (simp add: focus_def)
  note S = search_loops [OF f n w so, of t "[]" n 0]
  show "rbtree_find_first n lt e s = Inr (first_ge lt e ?xs)"
    using S n r by (simp add: rbtree_find_first_def rbtree_end_def first_ge_def)
  have "(if \<exists>x \<in> set ?xs. \<not> lt x e \<and> \<not> lt e x then first_ge lt e ?xs else 0) = first_eq lt e ?xs"
  proof (cases "\<exists>x \<in> set ?xs. \<not> lt x e \<and> \<not> lt e x")
    case True
    then have "\<not> lt e (first_ge lt e ?xs)" using find_first_equal_at(2) [OF f n w so] by blast
    then show ?thesis using True by (simp add: first_eq_def Let_def)
  next
    case False
    show ?thesis
    proof (cases "dropWhile (\<lambda>x. lt x e) ?xs")
      case (Cons x zs)
      then have "x \<in> set ?xs" "\<not> lt x e" by (metis list.set_intros(1) set_dropWhileD) (metis Cons hd_dropWhile list.distinct(1) list.sel(1))
      then show ?thesis using False Cons by (auto simp: first_eq_def first_ge_def)
    next
      case Nil
      then have "first_ge lt e ?xs = 0" by (simp only: first_ge_def append_Nil list.sel(1))
      then show ?thesis using False by (simp add: first_eq_def)
    qed
  qed
  then show "rbtree_find n lt e s = Inr (first_eq lt e ?xs)" using S n r by (simp add: rbtree_find_def)
qed

subsection \<open>Height and consistency check\<close>

fun depth :: "tree \<Rightarrow> nat" where
  "depth Lf = 0"
| "depth (Nd l a c r) = Suc (max (depth l) (depth r))"

lemma depth_le: "depth t \<le> length (inorder t)"
  by (induction t) auto

lemma height_of_at:
  "focus s t k \<Longrightarrow> depth t < n \<Longrightarrow> depth t < 2 ^ 32 \<Longrightarrow> height_of n (addr t) s = Inr (of_nat (depth t))"
proof (induction n arbitrary: t k)
  case (Suc n)
  show ?case
  proof (cases t)
    case (Nd l a c r)
    have fl: "focus s l (Frame LEFT a c r # k)" and fr: "focus s r (Frame RIGHT a c l # k)"
      using Suc.prems(1) Nd by (simp_all add: focus_mk [symmetric])
    have rd: "lft s a = addr l" "rgt s a = addr r" "a \<noteq> nil" using Suc.prems(1) Nd by (auto simp: focus_def)
    have d: "depth l < 2 ^ 32" "depth r < 2 ^ 32" "depth l < n" "depth r < n" using Suc.prems Nd by auto
    have "max (of_nat (depth l) :: u32) (of_nat (depth r)) = of_nat (max (depth l) (depth r))"
      using d(1,2) by (auto simp: max_def word_le_nat_alt unsigned_of_nat take_bit_nat_eq_self)
    then show ?thesis using Suc.IH [OF fl d(3,1)] Suc.IH [OF fr d(4,2)] rd Nd by (simp add: add.commute)
  qed simp
qed simp

lemma bal_depth: "bal t h \<Longrightarrow> depth t \<le> 2 * h + (if tree_color t = RED then 1 else 0) \<and> 2 ^ h \<le> length (inorder t) + 1"
proof (induction t h rule: bal.induct)
  case (2 l a r h)
  then show ?case by auto
next
  case (3 l a r h)
  then obtain h' where h: "h = Suc h'" "bal l h'" "bal r h'" by (auto split: nat.splits)
  then show ?case using 3 by (auto split: if_splits)
qed simp

text \<open>The depth is at most twice the binary logarithm of the number of elements plus one.\<close>

lemma rb_tree_depth: "rb_tree t \<Longrightarrow> 2 ^ ((depth t + 1) div 2) \<le> length (inorder t) + 1"
proof -
  assume "rb_tree t"
  then obtain h where "bal t h" "tree_color t = BLACK" by (auto simp: rb_tree_def)
  then have "depth t \<le> 2 * h" "2 ^ h \<le> length (inorder t) + 1" using bal_depth [of t h] by auto
  moreover have "(2 :: nat) ^ ((depth t + 1) div 2) \<le> 2 ^ h" using \<open>depth t \<le> 2 * h\<close> by (intro power_increasing) auto
  ultimately show ?thesis by linarith
qed

lemma parent_order:
  assumes f: "focus s t k" and so: "sorted_by_lt lt (inorder (plug t k))" and "t \<noteq> Lf"
  shows "up k \<noteq> nil \<longrightarrow> (lft s (up k) = addr t \<longrightarrow> \<not> lt (up k) (addr t)) \<and> (rgt s (up k) = addr t \<longrightarrow> \<not> lt (addr t) (up k))"
proof (cases k rule: up.cases)
  case (2 d b c u k')
  obtain p q where pq: "\<And>t. inorder (plug t k') = p @ inorder t @ q" using inorder_plug_parts by blast
  have so': "sorted_by_lt lt (inorder (mk d t b c u))" using so unfolding 2 plug.simps pq by (simp add: sorted_wrt_append)
  show ?thesis
    using so' addr_in [OF assms(3)] focus_frame_read(1,2,9) [OF f [unfolded 2]] assms(3) 2
    by (cases d) (auto simp: sorted_wrt_append)
qed simp

lemma inorder_check_at:
  "focus s t k \<Longrightarrow> bal t h \<Longrightarrow> sorted_by_lt lt (inorder (plug t k)) \<Longrightarrow> depth t < n \<Longrightarrow> inorder_check n lt (addr t) s = Inr (int h)"
proof (induction n arbitrary: t k h)
  case (Suc n)
  show ?case
  proof (cases t)
    case Lf
    then show ?thesis using Suc.prems(2) by simp
  next
    case (Nd l a c r)
    have fl: "focus s l (Frame LEFT a c r # k)" and fr: "focus s r (Frame RIGHT a c l # k)"
      using Suc.prems(1) Nd by (simp_all add: focus_mk [symmetric])
    have rd: "lft s a = addr l" "rgt s a = addr r" "par s a = up k" "a \<noteq> nil" using Suc.prems(1) Nd by (auto simp: focus_def)
    have cl: "col s a = c" using focus_color_read [OF Suc.prems(1)] Nd by simp
    obtain p q where pq: "\<And>t. inorder (plug t k) = p @ inorder t @ q" using inorder_plug_parts by blast
    have so: "sorted_by_lt lt (inorder l @ a # inorder r)" using Suc.prems(3) unfolding pq Nd by (simp add: sorted_wrt_append)
    have lr: "\<not> lt a (addr l)" if "l \<noteq> Lf" using so addr_in [OF that] by (auto simp: sorted_wrt_append)
    have rr: "\<not> lt (addr r) a" if "r \<noteq> Lf" using so addr_in [OF that] by (auto simp: sorted_wrt_append)
    have nil: "addr l = nil \<longleftrightarrow> l = Lf" "addr r = nil \<longleftrightarrow> r = Lf" using focus_not_nil(2) [OF fl] focus_not_nil(2) [OF fr] by simp_all
    have up: "up k \<noteq> nil \<longrightarrow> (lft s (up k) = a \<longrightarrow> \<not> lt (up k) a) \<and> (rgt s (up k) = a \<longrightarrow> \<not> lt a (up k))"
      using parent_order [OF Suc.prems(1,3)] Nd by simp
    define g where "g = (if c = BLACK then h - 1 else h)"
    have b: "bal l g" "bal r g" "h = (if c = BLACK then g + 1 else g)" using Suc.prems(2) Nd by (cases c; auto simp: g_def split: nat.splits)+
    have pl: "sorted_by_lt lt (inorder (plug l (Frame LEFT a c r # k)))" "sorted_by_lt lt (inorder (plug r (Frame RIGHT a c l # k)))"
      using Suc.prems(3) Nd by simp_all
    have "inorder_check n lt (addr l) s = Inr (int g)" "inorder_check n lt (addr r) s = Inr (int g)"
      using Suc.IH [OF fl b(1) pl(1)] Suc.IH [OF fr b(2) pl(2)] Suc.prems(4) Nd by simp_all
    then show ?thesis using rd cl lr rr nil up b(3) Nd by (auto simp: assert_then_def)
  qed
qed simp

lemma inorder_of_at: "focus s t k \<Longrightarrow> depth t < n \<Longrightarrow> inorder_of n (addr t) s = Inr (inorder t)"
proof (induction n arbitrary: t k)
  case (Suc n)
  show ?case
  proof (cases t)
    case (Nd l a c r)
    have fl: "focus s l (Frame LEFT a c r # k)" and fr: "focus s r (Frame RIGHT a c l # k)"
      using Suc.prems(1) Nd by (simp_all add: focus_mk [symmetric])
    have rd: "lft s a = addr l" "rgt s a = addr r" "a \<noteq> nil" using Suc.prems(1) Nd by (auto simp: focus_def)
    show ?thesis using Suc.IH [OF fl] Suc.IH [OF fr] Suc.prems(2) rd Nd by simp
  qed simp
qed simp

subsection \<open>Sequences of operations\<close>

datatype rb_op = Insert nat | Delete nat | Find nat | Find_First nat

fun sorted_op :: "(nat \<Rightarrow> nat \<Rightarrow> bool) \<Rightarrow> rb_op \<Rightarrow> nat list \<Rightarrow> nat \<times> nat list" where
  "sorted_op lt (Insert x) xs = (0, insort_before lt x xs)"
| "sorted_op lt (Delete x) xs = (0, remove1 x xs)"
| "sorted_op lt (Find e) xs = (first_eq lt e xs, xs)"
| "sorted_op lt (Find_First e) xs = (first_ge lt e xs, xs)"

fun tree_op :: "nat \<Rightarrow> (nat \<Rightarrow> nat \<Rightarrow> bool) \<Rightarrow> rb_op \<Rightarrow> rbtree \<Rightarrow> (nat \<times> rbtree) res" where
  "tree_op n lt (Insert x) s = rbind (rbtree_insert n lt x s) (\<lambda>s. Inr (0, s))"
| "tree_op n lt (Delete x) s = rbind (rbtree_delete n x s) (\<lambda>s. Inr (0, s))"
| "tree_op n lt (Find e) s = rbind (rbtree_find n lt e s) (\<lambda>r. Inr (r, s))"
| "tree_op n lt (Find_First e) s = rbind (rbtree_find_first n lt e s) (\<lambda>r. Inr (r, s))"

fun op_elem :: "rb_op \<Rightarrow> nat" where
  "op_elem (Insert x) = x"
| "op_elem (Delete x) = x"
| "op_elem (Find e) = e"
| "op_elem (Find_First e) = e"

text \<open>An element is inserted when it is not in the tree, and deleted when it is.\<close>

fun allowed :: "rb_op \<Rightarrow> nat list \<Rightarrow> bool" where
  "allowed (Insert x) xs \<longleftrightarrow> x \<notin> set xs \<and> x \<noteq> nil \<and> x \<noteq> 0"
| "allowed (Delete x) xs \<longleftrightarrow> x \<in> set xs"
| "allowed (Find e) xs \<longleftrightarrow> True"
| "allowed (Find_First e) xs \<longleftrightarrow> True"

fun sorted_ops :: "(nat \<Rightarrow> nat \<Rightarrow> bool) \<Rightarrow> rb_op list \<Rightarrow> nat list \<Rightarrow> nat list \<times> nat list" where
  "sorted_ops lt [] xs = ([], xs)"
| "sorted_ops lt (p # ps) xs = (let (r, xs) = sorted_op lt p xs; (rs, xs) = sorted_ops lt ps xs in (r # rs, xs))"

fun tree_ops :: "nat \<Rightarrow> (nat \<Rightarrow> nat \<Rightarrow> bool) \<Rightarrow> rb_op list \<Rightarrow> rbtree \<Rightarrow> (nat list \<times> rbtree) res" where
  "tree_ops n lt [] s = Inr ([], s)"
| "tree_ops n lt (p # ps) s =
     rbind (tree_op n lt p s) (\<lambda>(r, s). rbind (tree_ops n lt ps s) (\<lambda>(rs, s). Inr (r # rs, s)))"

fun all_allowed :: "(nat \<Rightarrow> nat \<Rightarrow> bool) \<Rightarrow> rb_op list \<Rightarrow> nat list \<Rightarrow> bool" where
  "all_allowed lt [] xs \<longleftrightarrow> True"
| "all_allowed lt (p # ps) xs \<longleftrightarrow> allowed p xs \<and> all_allowed lt ps (snd (sorted_op lt p xs))"

definition tree_holds :: "(nat \<Rightarrow> nat \<Rightarrow> bool) \<Rightarrow> rbtree \<Rightarrow> nat list \<Rightarrow> bool" where
  "tree_holds lt s xs \<longleftrightarrow> (\<exists>t. focus s t [] \<and> rb_tree t \<and> inorder t = xs) \<and> sorted_by_lt lt xs \<and> 0 \<notin> set xs"

lemma sorted_insort_before:
  assumes w: "weak_order_on (insert x (set xs)) lt" and so: "sorted_by_lt lt xs"
  shows "sorted_by_lt lt (insort_before lt x xs)" "set (insort_before lt x xs) = insert x (set xs)"
    "length (insort_before lt x xs) = Suc (length xs)"
proof -
  define l where "l = takeWhile (\<lambda>a. lt a x) xs"
  define r where "r = dropWhile (\<lambda>a. lt a x) xs"
  have xs: "xs = l @ r" and ins: "insort_before lt x xs = l @ x # r" by (simp_all add: l_def r_def insort_before_def)
  have so': "sorted_by_lt lt l" "sorted_by_lt lt r" "\<forall>a \<in> set l. \<forall>b \<in> set r. \<not> lt b a" using so xs by (simp_all add: sorted_wrt_append)
  have lx: "\<not> lt x y" if "y \<in> set l" for y using that set_takeWhileD [of y _ xs] weak_order_onD(1) [OF w] unfolding l_def by blast
  have rx: "\<not> lt y x" if y: "y \<in> set r" for y
  proof (cases r)
    case (Cons z zs)
    have z: "\<not> lt z x" using hd_dropWhile [of "\<lambda>a. lt a x" xs] Cons unfolding r_def by (metis list.distinct(1) list.sel(1))
    show ?thesis using sorted_ge_after [OF w _ z, of l zs y] so xs z y Cons by auto
  qed (use y in simp)
  show "sorted_by_lt lt (insort_before lt x xs)" using so' lx rx unfolding ins by (simp add: sorted_wrt_append)
  show "set (insort_before lt x xs) = insert x (set xs)" "length (insort_before lt x xs) = Suc (length xs)"
    unfolding ins by (simp_all add: xs)
qed

lemma tree_op_refines:
  assumes w: "weak_order_on (insert (op_elem p) (set xs)) lt" and h: "tree_holds lt s xs" and p: "allowed p xs" and n: "length xs < n"
  shows "\<exists>s'. tree_op n lt p s = Inr (fst (sorted_op lt p xs), s') \<and> tree_holds lt s' (snd (sorted_op lt p xs))"
proof -
  obtain t where t: "focus s t []" "rb_tree t" "inorder t = xs" and so: "sorted_by_lt lt xs" and z: "0 \<notin> set xs"
    using h by (auto simp: tree_holds_def)
  show ?thesis
  proof (cases p)
    case (Insert x)
    then show ?thesis
      using rbtree_insert_sorted [OF t(1,2), of x n lt] w t(3) so z n p sorted_insort_before [of x xs lt]
      by (auto simp: tree_holds_def)
  next
    case (Delete x)
    have "sorted_by_lt lt (remove1 x xs)" using so p Delete by (induction xs) (auto dest: notin_set_remove1)
    then show ?thesis using rbtree_delete_ok [OF t(1,2), of x n] t(3) z n p Delete
      by (auto simp: tree_holds_def dest: notin_set_remove1)
  next
    case (Find e)
    then show ?thesis using rbtree_find_at(1) [OF t(1), of n e lt] w t(3) so n h by auto
  next
    case (Find_First e)
    then show ?thesis using rbtree_find_at(2) [OF t(1), of n e lt] w t(3) so n h by auto
  qed
qed

lemma sorted_op_length: "weak_order lt \<Longrightarrow> sorted_by_lt lt xs \<Longrightarrow> length (snd (sorted_op lt p xs)) \<le> Suc (length xs)"
  using sorted_insort_before(3) [OF weak_order_on_any, of lt xs] by (cases p) (auto simp: length_remove1)

lemma tree_ops_refine:
  assumes w: "weak_order lt"
  shows "tree_holds lt s xs \<Longrightarrow> all_allowed lt ps xs \<Longrightarrow> length xs + length ps < n \<Longrightarrow>
    \<exists>s'. tree_ops n lt ps s = Inr (fst (sorted_ops lt ps xs), s') \<and> tree_holds lt s' (snd (sorted_ops lt ps xs))
      \<and> length (snd (sorted_ops lt ps xs)) < n"
proof (induction ps arbitrary: s xs)
  case (Cons p ps)
  obtain r ys where p: "sorted_op lt p xs = (r, ys)" by fastforce
  obtain s1 where s1: "tree_op n lt p s = Inr (r, s1)" "tree_holds lt s1 ys"
    using tree_op_refines [OF weak_order_on_any [OF w] Cons.prems(1), of p n] Cons.prems(2,3) p by auto
  have "length ys \<le> Suc (length xs)"
    using sorted_op_length [OF w, of xs p] Cons.prems(1) p by (auto simp: tree_holds_def)
  then show ?case using Cons.IH [OF s1(2)] Cons.prems(2,3) p s1(1) by (auto simp: Let_def split: prod.splits)
qed simp

lemma init_holds: "tree_holds lt (rbtree_init s) []"
  unfolding tree_holds_def
  by (rule conjI, rule exI [of _ Lf])
    (simp_all add: rbtree_init_def Let_def focus_def sentinel_def rb_tree_def)

text \<open>
  C15. A red-black tree refines a sorted sequence.  From \<open>rbtree_init\<close>, every sequence of insertions of
  new elements, deletions of present ones and searches ends without a failed assertion
  and returns what the same sequence on a sorted list returns: \<open>rbtree_find\<close> the first
  equal element, \<open>rbtree_find_first\<close> the first that is not less, or NULL.  A new element
  is put before the equal ones.  The links then represent a red-black tree of those elements: no red node has
  a red child, all paths have the same number of black nodes, the depth is at most twice the logarithm
  of the size, and the consistency check of the source passes.
\<close>

theorem rbtree_refines_sorted:
  assumes "weak_order lt" "all_allowed lt ps []" "length ps < n"
  shows "\<exists>s' t. tree_ops n lt ps (rbtree_init s) = Inr (fst (sorted_ops lt ps []), s')
    \<and> focus s' t [] \<and> inorder t = snd (sorted_ops lt ps []) \<and> sorted_wrt (\<lambda>a b. \<not> lt b a) (inorder t)
    \<and> rb_tree t \<and> 2 ^ ((depth t + 1) div 2) \<le> length (inorder t) + 1 \<and> rbtree_inorder_check n lt s' = Inr s'"
proof -
  obtain s' where s': "tree_ops n lt ps (rbtree_init s) = Inr (fst (sorted_ops lt ps []), s')"
      "tree_holds lt s' (snd (sorted_ops lt ps []))" "length (snd (sorted_ops lt ps [])) < n"
    using tree_ops_refine [OF assms(1) init_holds assms(2)] assms(3) by auto
  obtain t where t: "focus s' t []" "rb_tree t" "inorder t = snd (sorted_ops lt ps [])" "sorted_by_lt lt (inorder t)"
    using s'(2) by (auto simp: tree_holds_def)
  obtain h where "bal t h" using t(2) by (auto simp: rb_tree_def)
  then have "inorder_check n lt (addr t) s' = Inr (int h)"
    using inorder_check_at [OF t(1), of h lt n] t(3,4) s'(3) depth_le [of t] by simp
  then have "rbtree_inorder_check n lt s' = Inr s'" using t(1) by (simp add: rbtree_inorder_check_def focus_def)
  then show ?thesis using s'(1) t rb_tree_depth [OF t(2)] by blast
qed

theorem rbtree_refines_sorted_witness:
  "\<exists>s'. tree_ops 10 (<) [Insert 30, Insert 10, Insert 20, Find 20, Delete 10, Find_First 11, Find 10]
      (rbtree_init \<lparr>elem = \<lambda>x. \<lparr>e_left = 0, e_right = 0, e_parent = 0, e_color = RED\<rparr>, tree_root = 0\<rparr>)
    = Inr ([0, 0, 0, 20, 0, 20, 0], s')"
  using rbtree_refines_sorted [of "(<)" "[Insert 30, Insert 10, Insert 20, Find 20, Delete 10, Find_First 11, Find 10]" 10
      "\<lparr>elem = \<lambda>x. \<lparr>e_left = 0, e_right = 0, e_parent = 0, e_color = RED\<rparr>, tree_root = 0\<rparr>"]
  by (auto simp: weak_order_def nil_def insort_before_def first_eq_def first_ge_def)

text \<open>
  Iteration over a tree visits every element once: from \<open>rbtree_begin\<close> by \<open>rbtree_next\<close> until
  NULL in ascending order, and from \<open>rbtree_rbegin\<close> by \<open>rbtree_prev\<close> in descending order.
\<close>

lemma rbtree_iteration:
  assumes "focus s t []" "0 \<notin> set (inorder t)" "length (inorder t) < n"
  shows "rbind (rbtree_begin n s) (visit n (\<lambda>e. rbtree_next n e s)) = Inr (inorder t)
    \<and> rbind (rbtree_rbegin n s) (visit n (\<lambda>e. rbtree_prev n e s)) = Inr (rev (inorder t))"
  using ends [OF assms(1,3)] visit_forward [OF assms(1,3,2), of "[]" "inorder t" n]
    visit_backward [OF assms(1,3,2), of "inorder t" "[]" n] assms(3) by simp

definition two_nodes :: rbtree where
  "two_nodes = \<lparr>elem = (\<lambda>x. \<lparr>e_left = nil, e_right = nil, e_parent = nil, e_color = BLACK\<rparr>)
     (10 := \<lparr>e_left = nil, e_right = 20, e_parent = nil, e_color = BLACK\<rparr>,
      20 := \<lparr>e_left = nil, e_right = nil, e_parent = 10, e_color = RED\<rparr>), tree_root = 10\<rparr>"

end
