(* ===== verification/Tb.thy ===== *)
theory Tb
  imports Jumptable Rbtree_Search
begin

text \<open>
  The translation cache (\<^verbatim>\<open>peep/tb.c\<close>) with the direct jump table
  (\<^verbatim>\<open>peep/jumptable1.c\<close>) and the patches of forced callouts
  (\<^verbatim>\<open>peep/forced_callouts.c\<close>): the definitions.  A translation block is its address.
  The members of a block that are elements of a table, a tree or a list are at distinct
  offsets, and the links of each kind of member are a memory of their own.

  Addresses of blocks are natural numbers below \<open>2 ^ 32\<close>, addresses of translated code are
  machine words, because the distances that are written into jump instructions wrap.  The
  allocator of the pool, the random number generator and the addresses the linker and
  the compiler choose are parameters, collected in the record \<open>env\<close>.
\<close>

subsection \<open>Translation blocks\<close>

record rollbacks_t =
  nb_rollbacks :: nat
  rb_buf :: nat
  buf_size :: nat
  code_offset :: nat
  rb_offset :: nat

text \<open>The arrays a block points to are functions from the index; the pointers are kept for \<open>free\<close>.\<close>

record tb = tb_t +
  eip_phys :: u32
  eip_phys_end_page :: u32
  tb_len :: u32
  num_insns :: nat
  tc_ptr :: u32
  eip_boundaries :: "nat \<Rightarrow> u8"
  tc_boundaries :: "nat \<Rightarrow> u16"
  rollbacks :: "nat \<Rightarrow> rollbacks_t"
  peep_string :: "nat \<Rightarrow> nat"
  eip_boundaries_ptr :: nat
  tc_boundaries_ptr :: nat
  rollbacks_ptr :: nat
  peep_string_ptr :: nat
  accessed_bit :: bool
  jmp_first :: nat
  jmp_next :: "nat \<Rightarrow> nat"
  jmp_offset :: "nat \<Rightarrow> u16"
  edge_offset :: "nat \<Rightarrow> u16"
  alignment :: nat

record fcallout_patch_t =
  ptr1 :: u32
  ptr2 :: u32
  b0 :: u8
  b1 :: u8
  b2 :: u8
  b3 :: u8

record 'h tcache =
  tbs :: "nat \<Rightarrow> tb"
  code :: "u32 \<Rightarrow> u8"
  fcallout_patches :: "fcallout_patch_t list"
  jumptable1 :: "(u32 \<times> u32) list"
  jumptable2 :: hash
  jt2_links :: links
  pc_table :: hash
  pc_links :: links
  tc_tree :: rbtree
  clock_links :: links
  clock_hand :: nat
  nb_tbs :: u32
  pool_locked_tb :: nat
  num_pool_locked :: nat
  size_min :: u32
  size_max :: u32
  size_sum :: u64
  num_replacements :: u64
  heap :: 'h

text \<open>
  The parameters: the fuel of the loops, the offsets of the members, the addresses of
  \<open>clock_list\<close> and of a block on the stack, the size of a block, \<open>malloc\<close> as the hash tables
  call it, \<open>malloc_from_pool\<close> and \<open>free\<close>, and \<open>random_ulong\<close>.
\<close>

record 'h env =
  fuel :: nat
  pc_off :: nat
  tc_off :: nat
  clock_off :: nat
  jt2_off :: nat
  clock_list :: nat
  needle :: nat
  tb_size :: nat
  bucket_malloc :: "hash \<Rightarrow> nat \<Rightarrow> nat"
  malloc_from_pool :: "nat \<Rightarrow> 'h \<Rightarrow> nat \<times> 'h"
  free :: "nat \<Rightarrow> 'h \<Rightarrow> 'h"
  random_ulong :: "'h \<Rightarrow> u32 \<times> 'h"

definition upd_tb :: "nat \<Rightarrow> (tb \<Rightarrow> tb) \<Rightarrow> 'h tcache \<Rightarrow> 'h tcache" where
  "upd_tb t f s = s\<lparr>tbs := (tbs s)(t := f (tbs s t))\<rparr>"

text \<open>The length of the translated code, \<open>tc_boundaries[num_insns]\<close>.\<close>

definition tc_len :: "tb \<Rightarrow> u16" where
  "tc_len b = tc_boundaries b (num_insns b)"

definition NO_OFFSET :: u16 where
  "NO_OFFSET = 0xffff"

subsection \<open>Patches of forced callouts\<close>

definition MAX_CALLOUT_PATCHES :: nat where
  "MAX_CALLOUT_PATCHES = 1"

definition clear_fcallout_patch :: "fcallout_patch_t \<Rightarrow> (u32 \<Rightarrow> u8) \<Rightarrow> (u32 \<Rightarrow> u8) res" where
  "clear_fcallout_patch p c =
     assert_then (ptr1 p \<noteq> 0)
       (let c = c(ptr1 p := b0 p); c = c(ptr1 p + 1 := b1 p)
        in Inr (if ptr2 p \<noteq> 0 then c(ptr2 p := b2 p, ptr2 p + 1 := b3 p) else c))"

fun tc_write_loop :: "u32 \<Rightarrow> u8 \<Rightarrow> fcallout_patch_t list \<Rightarrow> fcallout_patch_t list" where
  "tc_write_loop a v [] = []"
| "tc_write_loop a v (p # ps) =
     (if ptr1 p = a then p\<lparr>b0 := v\<rparr> # ps
      else if ptr1 p + 1 = a then p\<lparr>b1 := v\<rparr> # ps
      else if ptr2 p = a then p\<lparr>b2 := v\<rparr> # ps
      else if ptr2 p + 1 = a then p\<lparr>b3 := v\<rparr> # ps
      else p # tc_write_loop a v ps)"

definition fcallouts_tc_write :: "u32 \<Rightarrow> u8 \<Rightarrow> 'h tcache \<Rightarrow> 'h tcache res" where
  "fcallouts_tc_write a v s =
     assert_then (a \<noteq> 0) (Inr (s\<lparr>fcallout_patches := tc_write_loop a v (fcallout_patches s)\<rparr>))"

definition fcallout_already_patched :: "u32 \<Rightarrow> 'h tcache \<Rightarrow> bool" where
  "fcallout_already_patched a s = (\<exists>p \<in> set (fcallout_patches s). a = ptr1 p \<or> a = ptr2 p)"

subsection \<open>Direct jumps\<close>

text \<open>A word is stored with its low byte first.\<close>

definition st32 :: "u32 \<Rightarrow> u32 \<Rightarrow> (u32 \<Rightarrow> u8) \<Rightarrow> (u32 \<Rightarrow> u8)" where
  "st32 a v c = c(a := ucast v, a + 1 := ucast (drop_bit 8 v), a + 2 := ucast (drop_bit 16 v), a + 3 := ucast (drop_bit 24 v))"

definition tb_set_jmp_target :: "nat \<Rightarrow> nat \<Rightarrow> u32 \<Rightarrow> 'h tcache \<Rightarrow> 'h tcache res" where
  "tb_set_jmp_target t n target s =
     (let b = tbs s t in
      assert_then (jmp_offset b n < tc_len b)
        (let jmp_addr = tc_ptr b + ucast (jmp_offset b n);
             v = target - (jmp_addr + 4)
         in rfold (\<lambda>i. fcallouts_tc_write (jmp_addr + of_nat i) (ucast (drop_bit (8 * i) v AND 0xff)))
              [0..<4] (s\<lparr>code := st32 jmp_addr v (code s)\<rparr>)))"

definition tb_reset_jump :: "nat \<Rightarrow> nat \<Rightarrow> 'h tcache \<Rightarrow> 'h tcache res" where
  "tb_reset_jump t n s =
     (let b = tbs s t in
      assert_then (edge_offset b n \<noteq> NO_OFFSET)
        (tb_set_jmp_target t n (tc_ptr b + ucast (edge_offset b n)) s))"

text \<open>
  The jumps that lead to a block are linked in a circular list, from \<open>jmp_first\<close> of the block
  through \<open>jmp_next[n]\<close> of the blocks they are in.  The two low bits of a link say which
  jump of the block it is, and the value 2 marks the link back to the block itself.
\<close>

definition tag :: "nat \<Rightarrow> nat" where
  "tag p = p AND 3"

definition untag :: "nat \<Rightarrow> nat" where
  "untag p = p AND 0xFFFFFFFC"

text \<open>What a pointer to a link points to.\<close>

datatype slot = First nat | Next nat nat

fun get_slot :: "'h tcache \<Rightarrow> slot \<Rightarrow> nat" where
  "get_slot s (First t) = jmp_first (tbs s t)"
| "get_slot s (Next t n) = jmp_next (tbs s t) n"

fun set_slot :: "slot \<Rightarrow> nat \<Rightarrow> 'h tcache \<Rightarrow> 'h tcache" where
  "set_slot (First t) v s = upd_tb t (\<lambda>b. b\<lparr>jmp_first := v\<rparr>) s"
| "set_slot (Next t n) v s = upd_tb t (\<lambda>b. b\<lparr>jmp_next := (jmp_next b)(n := v)\<rparr>) s"

fun jmp_search_loop :: "nat \<Rightarrow> nat \<Rightarrow> nat \<Rightarrow> slot \<Rightarrow> 'h tcache \<Rightarrow> slot res" where
  "jmp_search_loop 0 t n ptb s = Inl OUT_OF_FUEL"
| "jmp_search_loop (Suc k) t n ptb s =
     (let tb1 = get_slot s ptb; n1 = tag tb1; tb1 = untag tb1 in
      if n1 = n \<and> tb1 = t then Inr ptb
      else if tb1 = 0 \<or> n1 = 3 then Inl OUT_OF_BOUNDS
      else if n1 = 2 then jmp_search_loop k t n (First tb1) s
      else jmp_search_loop k t n (Next tb1 n1) s)"

definition tb_jmp_remove :: "'h env \<Rightarrow> nat \<Rightarrow> nat \<Rightarrow> 'h tcache \<Rightarrow> 'h tcache res" where
  "tb_jmp_remove E t n s =
     (if get_slot s (Next t n) \<noteq> 0
      then rbind (jmp_search_loop (fuel E) t n (Next t n) s) (\<lambda>ptb.
        let s = set_slot ptb (get_slot s (Next t n)) s; s = set_slot (Next t n) 0 s in
        tb_reset_jump t n s)
      else Inr s)"

fun unchain_loop :: "nat \<Rightarrow> nat \<Rightarrow> nat \<Rightarrow> 'h tcache \<Rightarrow> 'h tcache res" where
  "unchain_loop 0 t tb1 s = Inl OUT_OF_FUEL"
| "unchain_loop (Suc k) t tb1 s =
     (let n1 = tag tb1 in
      if n1 = 2 then Inr (set_slot (First t) tb1 s)
      else let tb1 = untag tb1 in
        if tb1 = 0 \<or> n1 = 3 then Inl OUT_OF_BOUNDS
        else let tb2 = get_slot s (Next tb1 n1) in
          rbind (tb_reset_jump tb1 n1 s) (\<lambda>s. unchain_loop k t tb2 (set_slot (Next tb1 n1) 0 s)))"

definition tb_unchain :: "'h env \<Rightarrow> nat \<Rightarrow> 'h tcache \<Rightarrow> 'h tcache res" where
  "tb_unchain E t s =
     rbind (tb_jmp_remove E t 0 s) (\<lambda>s.
     rbind (tb_jmp_remove E t 1 s) (\<lambda>s. unchain_loop (fuel E) t (get_slot s (First t)) s))"

definition tb_add_jump :: "nat \<Rightarrow> nat \<Rightarrow> nat \<Rightarrow> 'h tcache \<Rightarrow> 'h tcache res" where
  "tb_add_jump t n tb_next s =
     assert_then (n = 0 \<or> n = 1) (assert_then (jmp_offset (tbs s t) n \<noteq> NO_OFFSET)
       (rbind (tb_set_jmp_target t n (tc_ptr (tbs s tb_next)) s) (\<lambda>s.
          let s = set_slot (Next t n) (get_slot s (First tb_next)) s
          in Inr (set_slot (First tb_next) (t OR n) s))))"

subsection \<open>The direct jump table\<close>

definition JUMPTABLE1_SIZE :: nat where
  "JUMPTABLE1_SIZE = 4096"

definition JUMPTABLE1_MASK :: u32 where
  "JUMPTABLE1_MASK = (of_nat JUMPTABLE1_SIZE * 8 - 1) AND NOT 7"

text \<open>An entry is eight bytes long; the masked program counter is its offset in bytes.\<close>

definition jumptable1_entry :: "u32 \<Rightarrow> nat" where
  "jumptable1_entry ip = unat (ip AND JUMPTABLE1_MASK) div 8"

definition jumptable1_clear :: "'h tcache \<Rightarrow> 'h tcache" where
  "jumptable1_clear s = s\<lparr>jumptable1 := replicate JUMPTABLE1_SIZE (0, 0)\<rparr>"

definition jumptable1_init :: "'h tcache \<Rightarrow> 'h tcache" where
  "jumptable1_init s = jumptable1_clear s"

definition jumptable1_add :: "u32 \<Rightarrow> u32 \<Rightarrow> 'h tcache \<Rightarrow> 'h tcache res" where
  "jumptable1_add ip p s =
     assert_then (p \<noteq> 0) (Inr (s\<lparr>jumptable1 := (jumptable1 s)[jumptable1_entry ip := (ip, p)]\<rparr>))"

definition jumptable1_remove :: "u32 \<Rightarrow> 'h tcache \<Rightarrow> 'h tcache" where
  "jumptable1_remove ip s = s\<lparr>jumptable1 := (jumptable1 s)[jumptable1_entry ip := (0, 0)]\<rparr>"

subsection \<open>The tables of the cache\<close>

text \<open>The two functions of \<open>pc_table\<close> and the comparison of \<open>tc_tree\<close>.\<close>

definition page_of :: "u32 \<Rightarrow> u32" where
  "page_of a = a AND NOT 0xfff"

definition pc_equal :: "nat \<Rightarrow> (nat \<Rightarrow> tb) \<Rightarrow> nat \<Rightarrow> nat \<Rightarrow> bool" where
  "pc_equal off T x y =
     (let a = T (x - off); b = T (y - off) in
      if eip_phys a = eip_phys b \<and> tb_eip_virt a = tb_eip_virt b \<and> tb_eip a = tb_eip b
      then if page_of (eip_phys a) \<noteq> eip_phys_end_page a \<and> page_of (eip_phys b) \<noteq> eip_phys_end_page b
        then eip_phys_end_page a = eip_phys_end_page b
        else True
      else False)"

definition pc_hash :: "nat \<Rightarrow> (nat \<Rightarrow> tb) \<Rightarrow> nat \<Rightarrow> u32" where
  "pc_hash off T x = hash_int (eip_phys (T (x - off)))"

definition tc_less :: "nat \<Rightarrow> (nat \<Rightarrow> tb) \<Rightarrow> nat \<Rightarrow> nat \<Rightarrow> bool" where
  "tc_less off T x y =
     (let a = T (x - off); b = T (y - off) in tc_ptr a + ucast (tc_len a) \<le> tc_ptr b)"

definition tb_init :: "'h env \<Rightarrow> 'h tcache \<Rightarrow> 'h tcache res" where
  "tb_init E s =
     rbind (hash_init (fuel E) (bucket_malloc E (pc_table s)) (pc_links s)) (\<lambda>(ok, t, l).
     let s = s\<lparr>pc_table := t, pc_links := l, tc_tree := rbtree_init (tc_tree s), nb_tbs := 0\<rparr> in
     rbind (list_init (clock_list E) (clock_links s)) (\<lambda>l.
     rbind (list_end (clock_list E)) (\<lambda>e. Inr (s\<lparr>clock_links := l, clock_hand := e\<rparr>))))"

text \<open>\<open>tb_find\<close> searches with a block of one byte of code on the stack.\<close>

definition needle_tb :: tb where
  "needle_tb = \<lparr>tb_eip = 0, tb_eip_virt = 0, eip_phys = 0, eip_phys_end_page = 0, tb_len = 0, num_insns = 0, tc_ptr = 0,
     eip_boundaries = \<lambda>i. 0, tc_boundaries = \<lambda>i. 1,
     rollbacks = \<lambda>i. \<lparr>nb_rollbacks = 0, rb_buf = 0, buf_size = 0, code_offset = 0, rb_offset = 0\<rparr>, peep_string = \<lambda>i. 0,
     eip_boundaries_ptr = 0, tc_boundaries_ptr = 0, rollbacks_ptr = 0, peep_string_ptr = 0, accessed_bit = False,
     jmp_first = 0, jmp_next = \<lambda>n. 0, jmp_offset = \<lambda>n. 0, edge_offset = \<lambda>n. 0, alignment = 0\<rparr>"

definition tb_find :: "'h env \<Rightarrow> u32 \<Rightarrow> 'h tcache \<Rightarrow> nat res" where
  "tb_find E p s =
     (let T = (tbs s)(needle E := needle_tb\<lparr>tc_ptr := p\<rparr>) in
      rbind (rbtree_find (fuel E) (tc_less (tc_off E) T) (needle E + tc_off E) (tc_tree s)) (\<lambda>found.
        if found = 0 then Inr 0
        else rbind (rbtree_next (fuel E) found (tc_tree s)) (\<lambda>nx.
          assert_then (nx = rbtree_end (tc_tree s) \<or> tc_less (tc_off E) T found nx) (Inr (found - tc_off E)))))"

definition tb_find_pc :: "'h env \<Rightarrow> u32 \<Rightarrow> u32 \<Rightarrow> u32 \<Rightarrow> u32 \<Rightarrow> 'h tcache \<Rightarrow> nat res" where
  "tb_find_pc E phys end_page virt ip s =
     (let T = (tbs s)(needle E := (tbs s (needle E))\<lparr>eip_phys := phys, eip_phys_end_page := end_page, tb_eip_virt := virt, tb_eip := ip\<rparr>) in
      rbind (hash_find (fuel E) (pc_hash (pc_off E) T) (pc_equal (pc_off E) T) (needle E + pc_off E) (pc_table s) (pc_links s)) (\<lambda>e.
        if e \<noteq> 0
        then let t = e - pc_off E in
          rbind (tb_find E (tc_ptr (tbs s t)) s) (\<lambda>r. assert_then (r \<noteq> 0) (Inr t))
        else Inr 0))"

text \<open>A block that is equal to one of the table fails the assertion on the result of \<open>hash_insert\<close>.\<close>

definition tb_add :: "'h env \<Rightarrow> nat \<Rightarrow> 'h tcache \<Rightarrow> 'h tcache res" where
  "tb_add E t s =
     rbind (hash_insert (fuel E) (pc_hash (pc_off E) (tbs s)) (pc_equal (pc_off E) (tbs s)) (bucket_malloc E (pc_table s))
         (t + pc_off E) (pc_table s) (pc_links s)) (\<lambda>(retp, h, l).
     assert_then (retp = 0)
       (let s = s\<lparr>pc_table := h, pc_links := l\<rparr>; lt = tc_less (tc_off E) (tbs s) in
        rbind (rbtree_find (fuel E) lt (t + tc_off E) (tc_tree s)) (\<lambda>r.
        assert_then (r = 0)
          (rbind (rbtree_insert (fuel E) lt (t + tc_off E) (tc_tree s)) (\<lambda>tree.
           let s = upd_tb t (\<lambda>b. b\<lparr>accessed_bit := True\<rparr>) (s\<lparr>tc_tree := tree\<rparr>) in
           rbind (list_push_back (clock_list E) (t + clock_off E) (clock_links s)) (\<lambda>l.
             Inr (s\<lparr>clock_links := l, nb_tbs := nb_tbs s + 1\<rparr>)))))))"

text \<open>The pointers \<open>tb_free\<close> gives back, in its order.\<close>

definition tb_pointers :: "nat \<Rightarrow> tb \<Rightarrow> nat list" where
  "tb_pointers t b =
     [unat (tc_ptr b), tc_boundaries_ptr b, eip_boundaries_ptr b]
     @ concat (map (\<lambda>i. let r = rollbacks b i in
         (if rb_buf r \<noteq> 0 then [rb_buf r] else []) @ (if code_offset r \<noteq> 0 then [code_offset r] else [])
         @ (if rb_offset r \<noteq> 0 then [rb_offset r] else [])) [0..<num_insns b])
     @ [rollbacks_ptr b]
     @ concat (map (\<lambda>i. if peep_string b i \<noteq> 0 then [peep_string b i] else []) [0..<num_insns b])
     @ [peep_string_ptr b, t - alignment b]"

definition tb_free :: "'h env \<Rightarrow> nat \<Rightarrow> 'h tcache \<Rightarrow> 'h tcache res" where
  "tb_free E t s =
     rbind (tb_find E (tc_ptr (tbs s t)) s) (\<lambda>r.
     assert_then (t = r)
       (rbind (tb_unchain E t s) (\<lambda>s.
        rbind (jumptable2_remove (fuel E) (jt2_off E) (\<lambda>x. tb_t.truncate (tbs s x)) (bucket_malloc E (jumptable2 s)) t
            (jumptable2 s) (jt2_links s)) (\<lambda>(h, l).
        let s = jumptable1_remove (tb_eip (tbs s t)) (s\<lparr>jumptable2 := h, jt2_links := l\<rparr>) in
        rbind (hash_delete (fuel E) (pc_hash (pc_off E) (tbs s)) (pc_equal (pc_off E) (tbs s)) (bucket_malloc E (pc_table s))
            (t + pc_off E) (pc_table s) (pc_links s)) (\<lambda>(retp, h, l).
        assert_then (retp \<noteq> 0)
          (let s = s\<lparr>pc_table := h, pc_links := l\<rparr> in
           rbind (rbtree_delete (fuel E) (t + tc_off E) (tc_tree s)) (\<lambda>tree.
           rbind (list_remove (t + clock_off E) (clock_links s)) (\<lambda>(nx, l).
           let s = s\<lparr>tc_tree := tree, clock_links := l, nb_tbs := nb_tbs s - 1,
                     heap := fold (free E) (tb_pointers t (tbs s t)) (heap s)\<rparr>
           in Inr (s\<lparr>size_min := min (size_min s) (nb_tbs s + 1), size_max := max (size_max s) (nb_tbs s + 1),
                     size_sum := size_sum s + ucast (nb_tbs s), num_replacements := num_replacements s + 1\<rparr>)))))))))"

subsection \<open>Replacement\<close>

fun replacement_loop :: "nat \<Rightarrow> 'h env \<Rightarrow> u32 \<Rightarrow> hash_iterator \<Rightarrow> nat \<Rightarrow> 'h tcache \<Rightarrow> nat res" where
  "replacement_loop 0 E r i t s = Inl OUT_OF_FUEL"
| "replacement_loop (Suc k) E r i t s =
     (if r > 0
      then rbind (hash_next (fuel E) (pc_table s) i (pc_links s)) (\<lambda>(e, i).
        rbind (if e = 0
               then rbind (hash_first (pc_table s)) (\<lambda>i.
                 rbind (hash_next (fuel E) (pc_table s) i (pc_links s)) (\<lambda>(e, i). Inr i))
               else Inr i) (\<lambda>i.
        let t = hash_cur i - pc_off E; r = (if t \<noteq> pool_locked_tb s then r - 1 else r)
        in replacement_loop k E r i t s))
      else Inr t)"

definition tb_find_replacement :: "'h env \<Rightarrow> 'h tcache \<Rightarrow> (nat \<times> 'h tcache) res" where
  "tb_find_replacement E s =
     assert_then (nb_tbs s > 0)
       (if pool_locked_tb s \<noteq> 0 \<and> nb_tbs s = 1 then Inr (0, s)
        else let (x, h) = random_ulong E (heap s); s = s\<lparr>heap := h\<rparr>;
                 r = x mod (nb_tbs s - (if pool_locked_tb s \<noteq> 0 then 1 else 0)) + 1 in
          rbind (hash_first (pc_table s)) (\<lambda>i.
          rbind (replacement_loop (fuel E) E r i 0 s) (\<lambda>t. assert_then (t \<noteq> 0) (Inr (t, s)))))"

definition free_a_tb :: "'h env \<Rightarrow> 'h tcache \<Rightarrow> (bool \<times> 'h tcache) res" where
  "free_a_tb E s =
     rbind (tb_find_replacement E s) (\<lambda>(replacement, s).
       if replacement \<noteq> 0 then rbind (tb_free E replacement s) (\<lambda>s. Inr (True, s)) else Inr (False, s))"

fun pool_malloc_loop :: "nat \<Rightarrow> 'h env \<Rightarrow> nat \<Rightarrow> 'h tcache \<Rightarrow> (nat \<times> 'h tcache) res" where
  "pool_malloc_loop 0 E sz s = Inl OUT_OF_FUEL"
| "pool_malloc_loop (Suc k) E sz s =
     (let (ret, h) = malloc_from_pool E sz (heap s); s = s\<lparr>heap := h\<rparr> in
      if ret = 0
      then rbind (free_a_tb E s) (\<lambda>(freed, s). if \<not> freed then Inl PANIC else pool_malloc_loop k E sz s)
      else Inr (ret, s))"

definition tb_pool_malloc :: "'h env \<Rightarrow> nat \<Rightarrow> 'h tcache \<Rightarrow> (nat \<times> 'h tcache) res" where
  "tb_pool_malloc E sz s = pool_malloc_loop (fuel E) E sz s"

definition tb_pool_lock :: "nat \<Rightarrow> 'h tcache \<Rightarrow> 'h tcache res" where
  "tb_pool_lock t s =
     assert_then (num_pool_locked s = 0) (assert_then (pool_locked_tb s = 0)
       (Inr (s\<lparr>pool_locked_tb := t, num_pool_locked := 1\<rparr>)))"

definition tb_pool_unlock :: "nat \<Rightarrow> 'h tcache \<Rightarrow> 'h tcache res" where
  "tb_pool_unlock t s =
     assert_then (num_pool_locked s = 1) (assert_then (pool_locked_tb s = t)
       (Inr (s\<lparr>pool_locked_tb := 0, num_pool_locked := 0\<rparr>)))"

fun flush_loop :: "nat \<Rightarrow> 'h env \<Rightarrow> 'h tcache \<Rightarrow> 'h tcache res" where
  "flush_loop 0 E s = Inl OUT_OF_FUEL"
| "flush_loop (Suc k) E s =
     (if nb_tbs s \<noteq> 0
      then rbind (free_a_tb E s) (\<lambda>(freed, s). assert_then freed (flush_loop k E s))
      else Inr s)"

definition tb_flush :: "'h env \<Rightarrow> 'h tcache \<Rightarrow> 'h tcache res" where
  "tb_flush E s = flush_loop (fuel E) E s"

fun unchain_all_loop :: "nat \<Rightarrow> 'h env \<Rightarrow> hash_iterator \<Rightarrow> 'h tcache \<Rightarrow> 'h tcache res" where
  "unchain_all_loop 0 E i s = Inl OUT_OF_FUEL"
| "unchain_all_loop (Suc k) E i s =
     rbind (hash_next (fuel E) (pc_table s) i (pc_links s)) (\<lambda>(e, i).
       if e \<noteq> 0 then rbind (tb_unchain E (hash_cur i - pc_off E) s) (unchain_all_loop k E i) else Inr s)"

definition tb_unchain_all :: "'h env \<Rightarrow> 'h tcache \<Rightarrow> 'h tcache res" where
  "tb_unchain_all E s = rbind (hash_first (pc_table s)) (\<lambda>i. unchain_all_loop (fuel E) E i s)"

subsection \<open>Allocation\<close>

definition set_rollback :: "nat \<Rightarrow> nat \<Rightarrow> rollbacks_t \<Rightarrow> 'h tcache \<Rightarrow> 'h tcache" where
  "set_rollback t i r s = upd_tb t (\<lambda>b. b\<lparr>rollbacks := (rollbacks b)(i := r)\<rparr>) s"

definition copy_rollback :: "'h env \<Rightarrow> nat \<Rightarrow> (nat \<Rightarrow> rollbacks_t) \<Rightarrow> nat \<Rightarrow> 'h tcache \<Rightarrow> 'h tcache res" where
  "copy_rollback E t from i s =
     (let r = from i; dst = rollbacks (tbs s t) i; dst = dst\<lparr>buf_size := buf_size r\<rparr>; s = set_rollback t i dst s in
      if buf_size r \<noteq> 0
      then rbind (tb_pool_malloc E (buf_size r) s) (\<lambda>(p, s).
        let dst = dst\<lparr>rb_buf := p\<rparr>; s = set_rollback t i dst s in
        assert_then (nb_rollbacks r \<noteq> 0)
          (rbind (tb_pool_malloc E (nb_rollbacks r * 2) s) (\<lambda>(p, s).
           let dst = dst\<lparr>code_offset := p\<rparr>; s = set_rollback t i dst s in
           rbind (tb_pool_malloc E (nb_rollbacks r * 2) s) (\<lambda>(p, s).
             Inr (set_rollback t i (dst\<lparr>rb_offset := p, nb_rollbacks := nb_rollbacks r\<rparr>) s)))))
      else Inr (set_rollback t i (dst\<lparr>rb_buf := 0, code_offset := 0, rb_offset := 0, nb_rollbacks := 0\<rparr>) s))"

text \<open>The tests of \<open>rollbacks\<close> for NULL follow an assertion that excludes it.\<close>

definition tb_malloc ::
  "'h env \<Rightarrow> u32 \<Rightarrow> u32 \<Rightarrow> u32 \<Rightarrow> u32 \<Rightarrow> nat \<Rightarrow> nat \<Rightarrow> (nat \<Rightarrow> rollbacks_t) \<Rightarrow> 'h tcache \<Rightarrow> (nat \<times> 'h tcache) res" where
  "tb_malloc E ip virt phys end_page insns sz from s =
     rbind (tb_pool_malloc E (tb_size E + 3) s) (\<lambda>(alloc, s).
     let t = (alloc + 3) AND 0xFFFFFFFC in
     assert_then (t AND 3 = 0)
       (let al = int t - int alloc in
        assert_then (0 \<le> al \<and> al < 4)
          (let s = upd_tb t (\<lambda>b. b\<lparr>alignment := nat al, tb_eip := ip, tb_eip_virt := virt, eip_phys := phys,
                 eip_phys_end_page := end_page, jmp_first := t OR 2, jmp_next := \<lambda>n. 0,
                 jmp_offset := \<lambda>n. NO_OFFSET, edge_offset := \<lambda>n. NO_OFFSET\<rparr>) s in
           rbind (tb_pool_lock t s) (\<lambda>s.
           rbind (tb_pool_malloc E (insns * 20) s) (\<lambda>(p, s).
           let s = upd_tb t (\<lambda>b. b\<lparr>rollbacks_ptr := p\<rparr>) s in
           assert_then (p \<noteq> 0)
             (rbind (tb_pool_malloc E sz s) (\<lambda>(p, s).
              let s = upd_tb t (\<lambda>b. b\<lparr>tc_ptr := of_nat p\<rparr>) s in
              rbind (tb_pool_malloc E ((insns + 1) * 2) s) (\<lambda>(p, s).
              let s = upd_tb t (\<lambda>b. b\<lparr>tc_boundaries_ptr := p\<rparr>) s in
              rbind (tb_pool_malloc E insns s) (\<lambda>(p, s).
              let s = upd_tb t (\<lambda>b. b\<lparr>eip_boundaries_ptr := p\<rparr>) s in
              rbind (tb_pool_malloc E (insns * 4) s) (\<lambda>(p, s).
              let s = upd_tb t (\<lambda>b. b\<lparr>peep_string_ptr := p, peep_string := \<lambda>i. 0, num_insns := insns\<rparr>) s in
              rbind (rfold (copy_rollback E t from) [0..<insns] s) (\<lambda>s.
              rbind (tb_pool_unlock t s) (\<lambda>s. Inr (t, s)))))))))))))"

subsection \<open>Positions in translated code\<close>

text \<open>The first instruction whose code contains a pointer.\<close>

definition insn_at :: "tb \<Rightarrow> u32 \<Rightarrow> nat option" where
  "insn_at b p = List.find (\<lambda>i. tc_ptr b + ucast (tc_boundaries b i) \<le> p \<and> p < tc_ptr b + ucast (tc_boundaries b (i + 1)))
     [0..<num_insns b]"

definition in_code :: "tb \<Rightarrow> u32 \<Rightarrow> bool" where
  "in_code b p = (tc_ptr b \<le> p \<and> p < tc_ptr b + ucast (tc_len b))"

definition tb_tc_ptr_to_eip_virt :: "'h env \<Rightarrow> u32 \<Rightarrow> 'h tcache \<Rightarrow> u32 res" where
  "tb_tc_ptr_to_eip_virt E p s =
     rbind (tb_find E p s) (\<lambda>t. assert_then (t \<noteq> 0)
       (let b = tbs s t in
        assert_then (in_code b p)
          (if p < tc_ptr b + ucast (tc_boundaries b 0) then Inr (tb_eip_virt b)
           else case insn_at b p of
             Some i \<Rightarrow> Inr (tb_eip_virt b + (if i = 0 then 0 else ucast (eip_boundaries b (i - 1))))
           | None \<Rightarrow> Inl NOT_REACHED)))"

definition tb_get_tc_next :: "nat \<Rightarrow> u32 \<Rightarrow> 'h tcache \<Rightarrow> u32 res" where
  "tb_get_tc_next t p s =
     (let b = tbs s t in
      if tc_ptr b \<le> p \<and> p < tc_ptr b + ucast (tc_boundaries b 0) then Inr (tc_ptr b + ucast (tc_boundaries b 0))
      else case insn_at b p of
        Some i \<Rightarrow> Inr (if p = tc_ptr b + ucast (tc_boundaries b i) then p else tc_ptr b + ucast (tc_boundaries b (i + 1)))
      | None \<Rightarrow> Inl NOT_REACHED)"

definition tb_is_tc_boundary :: "'h env \<Rightarrow> u32 \<Rightarrow> 'h tcache \<Rightarrow> bool res" where
  "tb_is_tc_boundary E p s =
     rbind (tb_find E p s) (\<lambda>t. assert_then (t \<noteq> 0)
       (let b = tbs s t in
        assert_then (in_code b p)
          (Inr (p = tc_ptr b \<or> (\<exists>i \<in> set [0..<num_insns b]. p = tc_ptr b + ucast (tc_boundaries b i))))))"

subsection \<open>Applying and clearing patches\<close>

text \<open>A patch is an interrupt instruction of two bytes.  The callbacks of \<^verbatim>\<open>peep/tb_trace.c\<close> are empty.\<close>

definition apply_fcallout_patch :: "'h env \<Rightarrow> u32 \<Rightarrow> u32 \<Rightarrow> 'h tcache \<Rightarrow> 'h tcache res" where
  "apply_fcallout_patch E p q s =
     assert_then (p = 0 \<or> \<not> fcallout_already_patched p s) (assert_then (q = 0 \<or> \<not> fcallout_already_patched q s)
       (if p = 0 then assert_then (q = 0) (Inr s)
        else if length (fcallout_patches s) \<ge> MAX_CALLOUT_PATCHES then Inl OUT_OF_BOUNDS
        else rbind (tb_find E p s) (\<lambda>t. assert_then (t \<noteq> 0)
          (let pa = \<lparr>ptr1 = p, ptr2 = q, b0 = code s p, b1 = code s (p + 1), b2 = 0, b3 = 0\<rparr>;
               s = s\<lparr>code := (code s)(p := 0xcd, p + 1 := 0xff)\<rparr> in
           rbind (if q \<noteq> 0
                  then rbind (tb_find E q s) (\<lambda>t. assert_then (t \<noteq> 0)
                    (Inr (pa\<lparr>b2 := code s q, b3 := code s (q + 1)\<rparr>, s\<lparr>code := (code s)(q := 0xcd, q + 1 := 0xff)\<rparr>)))
                  else Inr (pa, s)) (\<lambda>(pa, s).
           let s = s\<lparr>fcallout_patches := fcallout_patches s @ [pa]\<rparr> in
           assert_then (length (fcallout_patches s) \<le> MAX_CALLOUT_PATCHES) (Inr s))))))"

definition clear_fcallout_patches :: "'h env \<Rightarrow> 'h tcache \<Rightarrow> 'h tcache res" where
  "clear_fcallout_patches E s =
     assert_then (length (fcallout_patches s) \<le> 1)
       (rbind (rfold (\<lambda>p s.
           rbind (clear_fcallout_patch p (code s)) (\<lambda>c.
           let s = s\<lparr>code := c\<rparr> in
           rbind (tb_find E (ptr1 p) s) (\<lambda>t. assert_then (t \<noteq> 0)
             (if ptr2 p \<noteq> 0 then rbind (tb_find E (ptr2 p) s) (\<lambda>t. assert_then (t \<noteq> 0) (Inr s)) else Inr s))))
         (fcallout_patches s) s) (\<lambda>s. Inr (s\<lparr>fcallout_patches := []\<rparr>)))"

definition fcallout_patch_exists :: "'h tcache \<Rightarrow> bool" where
  "fcallout_patch_exists s = (length (fcallout_patches s) > 0)"

subsection \<open>The contract of the program counter table\<close>

text \<open>
  The equality of blocks is symmetric and respects the hash function.  It is not transitive: a
  block of one page equals two blocks that start where it starts and end on
  different second pages.
\<close>

interpretation pt: hash_eq "pc_hash off T" "pc_equal off T" for off T
  by unfold_locales (auto simp: pc_hash_def pc_equal_def Let_def split: if_splits)

end
