(* ===== verification/Tb_Chain.thy ===== *)
theory Tb_Chain
  imports Tb
begin

text \<open>
  Direct jumps between translation blocks.  A block is reached by the jumps that are linked
  in its circular list; the displacement in the translated code of each jump leads to
  the block it is linked to, and to the exit stub of its own block when it is linked to
  none.  \<open>tb_add_jump\<close>, \<open>tb_jmp_remove\<close> and \<open>tb_unchain\<close> keep links and code in step.
\<close>

subsection \<open>Tagged pointers\<close>

definition aligned :: "nat \<Rightarrow> bool" where
  "aligned t \<longleftrightarrow> t mod 4 = 0 \<and> t < 2 ^ 32 \<and> t \<noteq> 0"

lemma tag_mod: "tag p = p mod 4"
proof -
  have "tag p = p AND mask 2" by (simp add: tag_def mask_eq_exp_minus_1)
  then show ?thesis by (simp add: take_bit_eq_mask [symmetric] take_bit_eq_mod)
qed

lemma untag_div: "p < 2 ^ 32 \<Longrightarrow> untag p = 4 * (p div 4)"
proof -
  assume p: "p < 2 ^ 32"
  have "untag p = push_bit 2 (mask 30) AND p" by (simp add: untag_def mask_eq_exp_minus_1 push_bit_eq_mult and.commute)
  also have "\<dots> = push_bit 2 (take_bit 30 (drop_bit 2 p))"
  proof (rule bit_eqI)
    fix i
    have "bit p (Suc (Suc (i - 2))) = bit p i" if "2 \<le> i" using that by (metis Suc_diff_le add_2_eq_Suc le_add_diff_inverse)
    then show "bit (push_bit 2 (mask 30) AND p) i = bit (push_bit 2 (take_bit 30 (drop_bit 2 p))) i"
      by (auto simp: bit_simps)
  qed
  also have "\<dots> = 4 * (p div 4 mod 2 ^ 30)" by (simp add: push_bit_eq_mult take_bit_eq_mod drop_bit_eq_div)
  finally show ?thesis using p by simp
qed

lemma or_tag:
  assumes "aligned t" "n < 4"
  shows "t OR n = t + n"
proof -
  have "\<not> bit t i \<or> \<not> bit n i" for i
  proof (cases "i < 2")
    case True
    have "take_bit 2 t = 0" using assms(1) by (simp add: aligned_def take_bit_eq_mod)
    then show ?thesis using True by (metis bit_0_eq bit_take_bit_iff bot_apply bot_bool_def)
  next
    case False
    have "take_bit 2 n = n" using assms(2) by (simp add: take_bit_eq_mod)
    then show ?thesis using False by (metis bit_take_bit_iff)
  qed
  then show ?thesis by (simp add: disjunctive_add)
qed

lemma tag_or:
  assumes "aligned t" "n < 4"
  shows "tag (t OR n) = n" "untag (t OR n) = t" "t OR n \<noteq> 0"
proof -
  have m: "t mod 4 = 0" "t < 2 ^ 32" "t \<noteq> 0" using assms(1) by (simp_all add: aligned_def)
  then obtain k where k: "t = 4 * k" by (metis mod_0_imp_dvd dvdE)
  have b: "t + n < 2 ^ 32" using k m assms(2) by simp
  show "tag (t OR n) = n" using assms k by (simp add: or_tag tag_mod)
  show "untag (t OR n) = t" using assms k b by (simp add: or_tag untag_div)
  show "t OR n \<noteq> 0" using assms m by (simp add: or_tag)
qed

subsection \<open>Circular lists\<close>

type_synonym jump = "nat \<times> nat"

fun enc :: "jump \<Rightarrow> nat" where "enc (t, n) = t OR n"
fun nx :: "jump \<Rightarrow> slot" where "nx (t, n) = Next t n"

primrec linked :: "(slot \<Rightarrow> nat) \<Rightarrow> nat \<Rightarrow> jump list \<Rightarrow> nat \<Rightarrow> bool" where
  "linked lk p [] e \<longleftrightarrow> p = e"
| "linked lk p (x # xs) e \<longleftrightarrow> p = enc x \<and> linked lk (lk (nx x)) xs e"

definition slot_end :: "slot \<Rightarrow> jump list \<Rightarrow> slot" where
  "slot_end sl xs = (if xs = [] then sl else nx (last xs))"

lemma nx_inject [simp]: "nx x = nx y \<longleftrightarrow> x = y" "nx x \<noteq> First t" "First t \<noteq> nx x"
  "nx x = Next t n \<longleftrightarrow> x = (t, n)" "Next t n = nx x \<longleftrightarrow> (t, n) = x"
  by (cases x; cases y; auto)+

lemma linked_append: "linked lk p (as @ bs) e \<longleftrightarrow> (\<exists>q. linked lk p as q \<and> linked lk q bs e)"
  by (induction as arbitrary: p) auto

lemma linked_cong: "(\<And>x. x \<in> set xs \<Longrightarrow> lk' (nx x) = lk (nx x)) \<Longrightarrow> linked lk' p xs e = linked lk p xs e"
  by (induction xs arbitrary: p) auto

lemma linked_end: "linked lk (lk sl) xs e \<Longrightarrow> lk (slot_end sl xs) = e"
  by (induction xs arbitrary: sl) (auto simp: slot_end_def)

lemma slot_end_Cons: "slot_end (nx x) xs = slot_end sl (x # xs)"
  by (simp add: slot_end_def)

lemma slot_end_iff:
  "nx y = slot_end (First U) as \<longleftrightarrow> as \<noteq> [] \<and> y = last as" "First V = slot_end (First U) as \<longleftrightarrow> as = [] \<and> U = V"
  by (auto simp: slot_end_def)

lemma slot_end_off: "y \<notin> set as \<Longrightarrow> nx y \<noteq> slot_end (First U) as"
  by (auto simp: slot_end_iff)

definition is_jump :: "jump \<Rightarrow> bool" where
  "is_jump x \<longleftrightarrow> aligned (fst x) \<and> snd x < 2"

lemma enc_simps:
  assumes "is_jump x"
  shows "tag (enc x) = snd x" "untag (enc x) = fst x" "enc x \<noteq> 0" "fst x \<noteq> 0"
  using tag_or [of "fst x" "snd x"] assms by (cases x; simp add: is_jump_def aligned_def)+

lemma search_walk:
  "linked (get_slot s) (get_slot s sl) xs e \<Longrightarrow> (t, n) \<notin> set xs \<Longrightarrow> \<forall>x \<in> set xs. is_jump x \<Longrightarrow>
   jmp_search_loop (k + length xs) t n sl s = jmp_search_loop k t n (slot_end sl xs) s"
proof (induction xs arbitrary: sl)
  case (Cons x xs)
  have x: "get_slot s sl = enc x" "is_jump x" "snd x < 2" using Cons.prems by (auto simp: is_jump_def)
  have "\<not> (snd x = n \<and> fst x = t)" using Cons.prems(2) by (cases x) auto
  then have "jmp_search_loop (Suc (k + length xs)) t n sl s = jmp_search_loop (k + length xs) t n (nx x) s"
    using x enc_simps [OF x(2)] by (cases x) (auto simp: Let_def)
  also have "\<dots> = jmp_search_loop k t n (slot_end (nx x) xs) s" using Cons by (intro Cons.IH) auto
  finally show ?case by (simp add: slot_end_Cons [of x xs sl])
qed (simp add: slot_end_def)

text \<open>The search finds the link that points to the jump, whatever list it is in.\<close>

lemma search_found:
  assumes l: "linked (get_slot s) (get_slot s (First U)) (as @ (t, n) # bs) (U OR 2)"
    and j: "\<forall>x \<in> set (as @ (t, n) # bs). is_jump x" and U: "aligned U" and d: "distinct (as @ (t, n) # bs)"
    and k: "length as + length bs + 2 \<le> k"
  shows "jmp_search_loop k t n (Next t n) s = Inr (slot_end (First U) as)"
proof -
  have la: "linked (get_slot s) (get_slot s (First U)) as (t OR n)"
    and lb: "linked (get_slot s) (get_slot s (Next t n)) bs (U OR 2)" using l by (auto simp: linked_append)
  have "k = Suc (Suc (k - (length as + length bs + 2)) + length as) + length bs" using k by simp
  then obtain m where m: "k = Suc (Suc m + length as) + length bs" by blast
  have n: "n < 2" using j by (auto simp: is_jump_def)
  have "jmp_search_loop k t n (Next t n) s = jmp_search_loop (Suc (Suc m + length as) + length bs) t n (Next t n) s"
    by (simp only: m)
  also have "\<dots> = jmp_search_loop (Suc (Suc m + length as)) t n (slot_end (Next t n) bs) s"
    using d j by (intro search_walk [OF lb]) auto
  also have "\<dots> = jmp_search_loop (Suc m + length as) t n (First U) s"
    using linked_end [OF lb] tag_or [OF U, of 2] n U by (simp add: Let_def aligned_def)
  also have "\<dots> = jmp_search_loop (Suc m) t n (slot_end (First U) as) s"
    using d j by (intro search_walk [OF la]) auto
  also have "\<dots> = Inr (slot_end (First U) as)"
    using linked_end [OF la] enc_simps [of "(t, n)"] j by (simp add: Let_def)
  finally show ?thesis .
qed

subsection \<open>Linked jumps\<close>

text \<open>
  The blocks \<open>L\<close> are linked as \<open>ch\<close> says: \<open>ch (t, n) = Some U\<close> when jump \<open>n\<close> of block \<open>t\<close> leads
  to block \<open>U\<close>.
\<close>

definition chained :: "(slot \<Rightarrow> nat) \<Rightarrow> nat set \<Rightarrow> (jump \<rightharpoonup> nat) \<Rightarrow> bool" where
  "chained lk L ch \<longleftrightarrow>
     (\<forall>U \<in> L. \<exists>xs. linked lk (lk (First U)) xs (U OR 2) \<and> distinct xs \<and> set xs = {x. ch x = Some U})
     \<and> (\<forall>x U. ch x = Some U \<longrightarrow> fst x \<in> L \<and> snd x < 2 \<and> U \<in> L)
     \<and> (\<forall>x. fst x \<in> L \<longrightarrow> snd x < 2 \<longrightarrow> ch x = None \<longrightarrow> lk (nx x) = 0)
     \<and> (\<forall>t \<in> L. aligned t)"

lemma chainedD:
  assumes "chained lk L ch"
  shows "U \<in> L \<Longrightarrow> \<exists>xs. linked lk (lk (First U)) xs (U OR 2) \<and> distinct xs \<and> set xs = {x. ch x = Some U}"
    "ch x = Some U \<Longrightarrow> fst x \<in> L \<and> snd x < 2 \<and> U \<in> L"
    "fst x \<in> L \<Longrightarrow> snd x < 2 \<Longrightarrow> ch x = None \<Longrightarrow> lk (nx x) = 0" "t \<in> L \<Longrightarrow> aligned t"
  using assms unfolding chained_def by blast+

lemma chained_jump: "chained lk L ch \<Longrightarrow> ch x = Some U \<Longrightarrow> is_jump x"
  using chainedD(2) [of lk L ch x U] chainedD(4) [of lk L ch "fst x"] by (auto simp: is_jump_def)

text \<open>The list of a block is no longer than the number of jumps.\<close>

lemma incoming_length:
  assumes "chained lk L ch" "finite L" "distinct xs" "set xs = {x. ch x = Some U}"
  shows "length xs \<le> 2 * card L"
proof -
  have "set xs \<subseteq> L \<times> {0, 1}" using chainedD(2) [OF assms(1)] assms(4) by fastforce
  then have "card (set xs) \<le> card (L \<times> {0 :: nat, 1})" using assms(2) by (intro card_mono) auto
  then show ?thesis using assms(3) by (simp add: distinct_card card_cartesian_product)
qed

lemma linked_nonzero:
  assumes "linked lk p xs e" "\<forall>x \<in> set xs. is_jump x" "e \<noteq> 0"
  shows "p \<noteq> 0"
  using assms enc_simps(3) by (cases xs) auto

text \<open>A link is 0 exactly when the jump leads to no block.\<close>

lemma chained_link:
  assumes c: "chained lk L ch" and x: "fst x \<in> L" "snd x < 2"
  shows "lk (nx x) = 0 \<longleftrightarrow> ch x = None"
proof (cases "ch x")
  case None
  then show ?thesis using chainedD(3) [OF c x] by simp
next
  case (Some U)
  then have U: "U \<in> L" using chainedD(2) [OF c] by blast
  obtain xs where xs: "linked lk (lk (First U)) xs (U OR 2)" "set xs = {x. ch x = Some U}" using chainedD(1) [OF c U] by blast
  obtain as bs where ab: "xs = as @ x # bs" using Some xs(2) by (metis (mono_tags, lifting) mem_Collect_eq split_list)
  have "linked lk (lk (nx x)) bs (U OR 2)" using xs(1) ab by (auto simp: linked_append)
  moreover have "\<forall>x \<in> set bs. is_jump x"
  proof
    fix y
    assume "y \<in> set bs"
    then have "y \<in> set xs" using ab by simp
    then show "is_jump y" using xs(2) chained_jump [OF c] by blast
  qed
  moreover have "U OR 2 \<noteq> 0" using tag_or(3) [OF chainedD(4) [OF c U], of 2] by simp
  ultimately have "lk (nx x) \<noteq> 0" by (rule linked_nonzero)
  then show ?thesis using Some by simp
qed

text \<open>One jump is taken out of its list.\<close>

lemma linked_skip:
  assumes l: "linked lk (lk (First U)) (as @ x # bs) e" and d: "distinct (as @ x # bs)"
  shows "linked (lk(slot_end (First U) as := lk (nx x), nx x := 0)) ((lk(slot_end (First U) as := lk (nx x), nx x := 0)) (First U)) (as @ bs) e"
proof -
  let ?lk = "lk(slot_end (First U) as := lk (nx x), nx x := 0)"
  have lb: "linked lk (lk (nx x)) bs e" using l by (auto simp: linked_append)
  have bs: "linked ?lk (lk (nx x)) bs e"
    using lb d slot_end_off [of _ as U] by (subst linked_cong [of bs ?lk lk]) auto
  show ?thesis
  proof (cases as rule: rev_cases)
    case Nil
    then show ?thesis using bs by (simp add: slot_end_def)
  next
    case (snoc as' a)
    have "linked lk (lk (First U)) as' (enc a)" using l snoc by (auto simp: linked_append)
    then have "linked ?lk (lk (First U)) as' (enc a)"
      using d snoc by (subst linked_cong [of as' ?lk lk]) (auto simp: slot_end_iff)
    then show ?thesis using bs snoc d by (auto simp: linked_append slot_end_def)
  qed
qed

lemma chained_remove:
  assumes c: "chained lk L ch" and x: "ch x = Some U"
    and l: "linked lk (lk (First U)) (as @ x # bs) (U OR 2)" "distinct (as @ x # bs)" "set (as @ x # bs) = {x. ch x = Some U}"
  shows "chained (lk(slot_end (First U) as := lk (nx x), nx x := 0)) L (ch(x := None))"
proof -
  let ?lk = "lk(slot_end (First U) as := lk (nx x), nx x := 0)"
  have "\<exists>xs. linked ?lk (?lk (First V)) xs (V OR 2) \<and> distinct xs \<and> set xs = {y. (ch(x := None)) y = Some V}" if V: "V \<in> L" for V
  proof (cases "V = U")
    case True
    have "set (as @ bs) = {y. ch y = Some U} - {x}" using l(2,3) by auto
    then have "set (as @ bs) = {y. (ch(x := None)) y = Some U}" by auto
    then show ?thesis using linked_skip [OF l(1,2)] l(2) True by (intro exI [of _ "as @ bs"]) auto
  next
    case False
    obtain xs where xs: "linked lk (lk (First V)) xs (V OR 2)" "distinct xs" "set xs = {y. ch y = Some V}"
      using chainedD(1) [OF c V] by blast
    have off: "nx y \<noteq> nx x" "nx y \<noteq> slot_end (First U) as" if "y \<in> set xs" for y
    proof -
      have y: "ch y = Some V" using that xs(3) by blast
      have "y \<notin> set (as @ x # bs)" using y False l(3) by auto
      then show "nx y \<noteq> nx x" "nx y \<noteq> slot_end (First U) as" by (auto simp: slot_end_off)
    qed
    have "linked ?lk (lk (First V)) xs (V OR 2)" using xs(1) off by (subst linked_cong [of xs ?lk lk]) auto
    moreover have "?lk (First V) = lk (First V)" using False by (auto simp: slot_end_def)
    ultimately show ?thesis using xs False x by (intro exI [of _ xs]) auto
  qed
  moreover have "?lk (nx y) = 0" if y: "fst y \<in> L" "snd y < 2" "(ch(x := None)) y = None" for y
  proof (cases "y = x")
    case False
    have "y \<noteq> last as" if "as \<noteq> []"
    proof
      assume "y = last as"
      then have "y \<in> set (as @ x # bs)" using that by simp
      then have "ch y = Some U" using l(3) by blast
      then show False using y(3) False by simp
    qed
    then show ?thesis using chainedD(3) [OF c y(1,2)] y(3) False by (auto simp: slot_end_def)
  qed simp
  ultimately show ?thesis using chainedD(2,4) [OF c] unfolding chained_def by (auto split: if_splits)
qed

text \<open>One jump is put in front of a list.\<close>

lemma chained_insert:
  assumes c: "chained lk L ch" and x: "ch x = None" "fst x \<in> L" "snd x < 2" and U: "U \<in> L"
  shows "chained (lk(nx x := lk (First U), First U := enc x)) L (ch(x \<mapsto> U))"
proof -
  let ?lk = "lk(nx x := lk (First U), First U := enc x)"
  have "\<exists>xs. linked ?lk (?lk (First V)) xs (V OR 2) \<and> distinct xs \<and> set xs = {y. (ch(x \<mapsto> U)) y = Some V}" if V: "V \<in> L" for V
  proof -
    obtain xs where xs: "linked lk (lk (First V)) xs (V OR 2)" "distinct xs" "set xs = {y. ch y = Some V}"
      using chainedD(1) [OF c V] by blast
    have nx: "x \<notin> set xs" using xs(3) x(1) by simp
    then have "linked ?lk (lk (First V)) xs (V OR 2)" using xs(1) by (subst linked_cong [of xs ?lk lk]) auto
    then have "linked ?lk (?lk (First V)) (if V = U then x # xs else xs) (V OR 2)" by auto
    moreover have "set (if V = U then x # xs else xs) = {y. (ch(x \<mapsto> U)) y = Some V}" using xs(3) x(1) by auto
    ultimately show ?thesis using xs(2) nx by (intro exI [of _ "if V = U then x # xs else xs"]) auto
  qed
  moreover have "?lk (nx y) = 0" if "fst y \<in> L" "snd y < 2" "(ch(x \<mapsto> U)) y = None" for y
    using chainedD(3) [OF c that(1,2)] that(3) by (auto split: if_splits)
  ultimately show ?thesis using chainedD(2,4) [OF c] x U unfolding chained_def by (auto split: if_splits)
qed

text \<open>All jumps to a block are taken out of its list.\<close>

lemma chained_clear:
  assumes c: "chained lk L ch" and xs: "set xs = {x. ch x = Some U}"
    and lk: "\<And>sl. lk' sl = (if sl = First U then U OR 2 else if \<exists>x \<in> set xs. sl = nx x then 0 else lk sl)"
  shows "chained lk' L (\<lambda>x. if ch x = Some U then None else ch x)"
proof -
  have "\<exists>ys. linked lk' (lk' (First V)) ys (V OR 2) \<and> distinct ys \<and> set ys = {y. (if ch y = Some U then None else ch y) = Some V}" if V: "V \<in> L" for V
  proof (cases "V = U")
    case True
    then show ?thesis using lk [of "First U"] by (intro exI [of _ "[]"]) auto
  next
    case False
    obtain ys where ys: "linked lk (lk (First V)) ys (V OR 2)" "distinct ys" "set ys = {y. ch y = Some V}"
      using chainedD(1) [OF c V] by blast
    have "lk' (nx y) = lk (nx y)" if "y \<in> set ys" for y using lk [of "nx y"] that ys(3) xs False by auto
    then have "linked lk' (lk (First V)) ys (V OR 2)" using ys(1) by (subst linked_cong [of ys lk' lk]) auto
    then show ?thesis using ys False lk [of "First V"] by (intro exI [of _ ys]) auto
  qed
  moreover have "lk' (nx y) = 0" if "fst y \<in> L" "snd y < 2" "(if ch y = Some U then None else ch y) = None" for y
    using chainedD(3) [OF c that(1,2)] that(3) lk [of "nx y"] xs by (auto split: if_splits)
  ultimately show ?thesis using chainedD(2,4) [OF c] unfolding chained_def by (auto split: if_splits)
qed

subsection \<open>Translated code\<close>

text \<open>The code as it is without the patches of forced callouts.\<close>

definition plain :: "'h tcache \<Rightarrow> u32 \<Rightarrow> u8" where
  "plain s a = (case fcallout_patches s of [] \<Rightarrow> code s a
     | p # ps \<Rightarrow> if a = ptr1 p then b0 p else if a = ptr1 p + 1 then b1 p
         else if ptr2 p \<noteq> 0 \<and> a = ptr2 p then b2 p else if ptr2 p \<noteq> 0 \<and> a = ptr2 p + 1 then b3 p else code s a)"

definition ld32 :: "(u32 \<Rightarrow> u8) \<Rightarrow> u32 \<Rightarrow> u32" where
  "ld32 c a = ucast (c a) OR push_bit 8 (ucast (c (a + 1))) OR push_bit 16 (ucast (c (a + 2))) OR push_bit 24 (ucast (c (a + 3)))"

definition put_byte :: "u32 \<Rightarrow> u8 \<Rightarrow> 'h tcache \<Rightarrow> 'h tcache" where
  "put_byte a v s = s\<lparr>code := (code s)(a := v), fcallout_patches := tc_write_loop a v (fcallout_patches s)\<rparr>"

definition put_word :: "u32 \<Rightarrow> u32 \<Rightarrow> 'h tcache \<Rightarrow> 'h tcache" where
  "put_word a v s = put_byte (a + 3) (ucast (drop_bit 24 v)) (put_byte (a + 2) (ucast (drop_bit 16 v))
     (put_byte (a + 1) (ucast (drop_bit 8 v)) (put_byte a (ucast v) s)))"

lemma length_tc_write [simp]: "length (tc_write_loop a v ps) = length ps"
  by (induction ps) auto

lemma length_put [simp]: "length (fcallout_patches (put_byte a v s)) = length (fcallout_patches s)"
    "length (fcallout_patches (put_word a w s)) = length (fcallout_patches s)"
  by (simp_all add: put_byte_def put_word_def)

lemma plain_put_byte:
  assumes "length (fcallout_patches s) \<le> 1"
  shows "plain (put_byte a v s) = (plain s)(a := v)"
proof (cases "fcallout_patches s")
  case (Cons p ps)
  then have "ps = []" using assms by simp
  then show ?thesis using Cons by (auto simp: plain_def put_byte_def fun_eq_iff)
qed (simp add: plain_def put_byte_def fun_eq_iff)

lemma plain_put_word:
  "length (fcallout_patches s) \<le> 1 \<Longrightarrow> plain (put_word a v s) = st32 a v (plain s)"
  by (simp add: put_word_def plain_put_byte st32_def)

lemma ld32_st32: "ld32 (st32 a v c) a = v"
proof (rule bit_word_eqI)
  fix i
  assume "i < LENGTH(32)"
  then consider "i < 8" | "8 \<le> i" "i < 16" | "16 \<le> i" "i < 24" | "24 \<le> i" "i < 32" by fastforce
  then show "bit (ld32 (st32 a v c) a) i = bit v i"
    by cases (auto simp: ld32_def st32_def bit_simps)
qed

definition apart :: "u32 \<Rightarrow> u32 \<Rightarrow> bool" where
  "apart a b \<longleftrightarrow> (\<forall>i < 4. \<forall>j < 4. a + of_nat i \<noteq> b + of_nat j)"

lemma st32_other: "(\<And>i. i < 4 \<Longrightarrow> x \<noteq> a + of_nat i) \<Longrightarrow> st32 a v c x = c x"
  unfolding st32_def
proof -
  assume n: "\<And>i. i < (4 :: nat) \<Longrightarrow> x \<noteq> a + of_nat i"
  have "x \<noteq> a" "x \<noteq> a + 1" "x \<noteq> a + 2" "x \<noteq> a + 3" using n [of 0] n [of 1] n [of 2] n [of 3] by simp_all
  then show "(c(a := ucast v, a + 1 := ucast (drop_bit 8 v), a + 2 := ucast (drop_bit 16 v), a + 3 := ucast (drop_bit 24 v))) x = c x"
    by (simp only: fun_upd_apply if_False)
qed

lemma ld32_apart:
  assumes "apart a b"
  shows "ld32 (st32 a v c) b = ld32 c b"
proof -
  have "st32 a v c (b + of_nat j) = c (b + of_nat j)" if "j < 4" for j
    using assms that by (intro st32_other) (metis apart_def)
  from this [of 0] this [of 1] this [of 2] this [of 3] show ?thesis by (simp add: ld32_def)
qed

subsection \<open>The layout of blocks\<close>

definition site :: "tb \<Rightarrow> nat \<Rightarrow> u32" where
  "site b n = tc_ptr b + ucast (jmp_offset b n)"

definition has_jump :: "tb \<Rightarrow> nat \<Rightarrow> bool" where
  "has_jump b n \<longleftrightarrow> n < 2 \<and> jmp_offset b n \<noteq> NO_OFFSET"

definition code_span :: "tb \<Rightarrow> nat set" where
  "code_span b = {unat (tc_ptr b)..<unat (tc_ptr b) + unat (tc_len b)}"

text \<open>What the translator gives: the operands of the jumps are inside the code and do not overlap.\<close>

definition good_block :: "tb \<Rightarrow> bool" where
  "good_block b \<longleftrightarrow> tc_ptr b \<noteq> 0 \<and> tc_len b \<noteq> 0 \<and> unat (tc_ptr b) + unat (tc_len b) < 2 ^ 32
     \<and> (\<forall>n. has_jump b n \<longrightarrow> edge_offset b n \<noteq> NO_OFFSET \<and> unat (jmp_offset b n) + 4 \<le> unat (tc_len b))
     \<and> (has_jump b 0 \<longrightarrow> has_jump b 1 \<longrightarrow>
        unat (jmp_offset b 0) + 4 \<le> unat (jmp_offset b 1) \<or> unat (jmp_offset b 1) + 4 \<le> unat (jmp_offset b 0))"

definition code_ok :: "(nat \<Rightarrow> tb) \<Rightarrow> nat set \<Rightarrow> bool" where
  "code_ok T L \<longleftrightarrow> (\<forall>t \<in> L. good_block (T t)) \<and> (\<forall>t \<in> L. \<forall>u \<in> L. t \<noteq> u \<longrightarrow> code_span (T t) \<inter> code_span (T u) = {})"

lemma unat_u16_u32: "unat (ucast (x :: u16) :: u32) = unat x"
proof -
  have "unat x < 2 ^ LENGTH(16)" by (rule unsigned_less)
  then show ?thesis by (simp add: unsigned_ucast_eq take_bit_nat_eq_self)
qed

lemma unat_site:
  assumes "good_block b" "has_jump b n" "i < 4"
  shows "unat (site b n + of_nat i) = unat (tc_ptr b) + unat (jmp_offset b n) + i"
proof -
  have "unat (tc_ptr b) + unat (jmp_offset b n) + i < 2 ^ 32" using assms by (auto simp: good_block_def)
  then show ?thesis using assms(3) by (simp add: site_def unat_word_ariths unat_of_nat unat_u16_u32)
qed

lemma apartI:
  assumes "\<And>i j. i < 4 \<Longrightarrow> j < 4 \<Longrightarrow> unat (a + of_nat i) \<noteq> unat (b + of_nat j)"
  shows "apart a b"
  using assms unfolding apart_def by metis

lemma sites_apart:
  assumes ok: "code_ok T L" and t: "t \<in> L" "u \<in> L" and j: "has_jump (T t) n" "has_jump (T u) m" and ne: "(t, n) \<noteq> (u, m)"
  shows "apart (site (T t) n) (site (T u) m)"
proof (rule apartI)
  fix i j :: nat
  assume ij: "i < 4" "j < 4"
  have g: "good_block (T t)" "good_block (T u)" using ok t by (auto simp: code_ok_def)
  note us = unat_site [OF g(1) j(1) ij(1)] unat_site [OF g(2) j(2) ij(2)]
  show "unat (site (T t) n + of_nat i) \<noteq> unat (site (T u) m + of_nat j)"
  proof (cases "t = u")
    case True
    then have "n \<noteq> m" using ne by simp
    then have "{n, m} = {0, 1}" using j by (auto simp: has_jump_def)
    then show ?thesis using us g(1) j ij True \<open>n \<noteq> m\<close> by (auto simp: good_block_def doubleton_eq_iff)
  next
    case False
    have "unat (site (T t) n + of_nat i) \<in> code_span (T t)" "unat (site (T u) m + of_nat j) \<in> code_span (T u)"
      using us g j ij by (fastforce simp: code_span_def good_block_def)+
    moreover have "code_span (T t) \<inter> code_span (T u) = {}" using ok t False unfolding code_ok_def by blast
    ultimately show ?thesis by auto
  qed
qed

subsection \<open>Keeping links and code in step\<close>

definition dest :: "'h tcache \<Rightarrow> nat \<Rightarrow> nat \<Rightarrow> u32" where
  "dest s t n = (let a = site (tbs s t) n in a + 4 + ld32 (plain s) a)"

text \<open>Where the jumps lead: to the block they are linked to or to the exit stub.\<close>

definition wired :: "'h tcache \<Rightarrow> nat set \<Rightarrow> (jump \<rightharpoonup> nat) \<Rightarrow> bool" where
  "wired s L ch \<longleftrightarrow> (\<forall>t \<in> L. \<forall>n. has_jump (tbs s t) n \<longrightarrow>
     dest s t n = (case ch (t, n) of Some U \<Rightarrow> tc_ptr (tbs s U) | None \<Rightarrow> tc_ptr (tbs s t) + ucast (edge_offset (tbs s t) n)))"

definition chain_ok :: "'h tcache \<Rightarrow> nat set \<Rightarrow> (jump \<rightharpoonup> nat) \<Rightarrow> bool" where
  "chain_ok s L ch \<longleftrightarrow> chained (get_slot s) L ch \<and> wired s L ch \<and> code_ok (tbs s) L \<and> finite L
     \<and> (\<forall>x U. ch x = Some U \<longrightarrow> has_jump (tbs s (fst x)) (snd x)) \<and> length (fcallout_patches s) \<le> 1"

lemma chain_okD:
  assumes "chain_ok s L ch"
  shows "chained (get_slot s) L ch" "wired s L ch" "code_ok (tbs s) L" "finite L" "length (fcallout_patches s) \<le> 1"
    "ch x = Some U \<Longrightarrow> has_jump (tbs s (fst x)) (snd x)" "t \<in> L \<Longrightarrow> good_block (tbs s t)"
  using assms by (auto simp: chain_ok_def code_ok_def)

text \<open>A block without its links.\<close>

definition strip :: "tb \<Rightarrow> tb" where
  "strip b = b\<lparr>jmp_first := 0, jmp_next := \<lambda>n. 0\<rparr>"

text \<open>Only links, code and patches change.\<close>

definition rest :: "'h tcache \<Rightarrow> 'h tcache" where
  "rest s = s\<lparr>tbs := \<lambda>t. needle_tb, code := \<lambda>a. 0, fcallout_patches := []\<rparr>"

definition rewired :: "'h tcache \<Rightarrow> 'h tcache \<Rightarrow> bool" where
  "rewired s s' \<longleftrightarrow> rest s' = rest s \<and> (\<forall>t. strip (tbs s' t) = strip (tbs s t))
     \<and> length (fcallout_patches s') = length (fcallout_patches s)"

lemma strip_sel:
  assumes "strip b = strip c"
  shows "tc_ptr b = tc_ptr c" "tc_len b = tc_len c" "jmp_offset b = jmp_offset c" "edge_offset b = edge_offset c"
    "tb_eip b = tb_eip c" "tb_eip_virt b = tb_eip_virt c" "eip_phys b = eip_phys c" "eip_phys_end_page b = eip_phys_end_page c"
    "num_insns b = num_insns c" "tc_boundaries b = tc_boundaries c" "eip_boundaries b = eip_boundaries c"
    "has_jump b n = has_jump c n" "site b n = site c n" "good_block b = good_block c" "code_span b = code_span c"
proof -
  show s: "tc_ptr b = tc_ptr c" "jmp_offset b = jmp_offset c" "edge_offset b = edge_offset c" "num_insns b = num_insns c"
    "tc_boundaries b = tc_boundaries c" "tb_eip b = tb_eip c" "tb_eip_virt b = tb_eip_virt c" "eip_phys b = eip_phys c"
    "eip_phys_end_page b = eip_phys_end_page c" "eip_boundaries b = eip_boundaries c"
    using assms [THEN arg_cong, of tc_ptr] assms [THEN arg_cong, of jmp_offset] assms [THEN arg_cong, of edge_offset]
      assms [THEN arg_cong, of num_insns] assms [THEN arg_cong, of tc_boundaries] assms [THEN arg_cong, of tb_eip]
      assms [THEN arg_cong, of tb_eip_virt] assms [THEN arg_cong, of eip_phys] assms [THEN arg_cong, of eip_phys_end_page]
      assms [THEN arg_cong, of eip_boundaries]
    by (simp_all add: strip_def)
  then show "tc_len b = tc_len c" by (simp add: tc_len_def)
  with s show "has_jump b n = has_jump c n" "site b n = site c n" "good_block b = good_block c" "code_span b = code_span c"
    by (simp_all add: has_jump_def site_def good_block_def code_span_def)
qed

lemma rewired_refl: "rewired s s"
  by (simp add: rewired_def)

lemma rewired_trans: "rewired s s1 \<Longrightarrow> rewired s1 s2 \<Longrightarrow> rewired s s2"
  by (simp add: rewired_def)

lemma rest_sel:
  assumes "rest s' = rest s"
  shows "pc_table s' = pc_table s" "pc_links s' = pc_links s" "tc_tree s' = tc_tree s" "clock_links s' = clock_links s"
    "clock_hand s' = clock_hand s" "nb_tbs s' = nb_tbs s" "jumptable1 s' = jumptable1 s" "jumptable2 s' = jumptable2 s"
    "jt2_links s' = jt2_links s" "pool_locked_tb s' = pool_locked_tb s" "num_pool_locked s' = num_pool_locked s" "heap s' = heap s"
  using assms [THEN arg_cong, of pc_table] assms [THEN arg_cong, of pc_links] assms [THEN arg_cong, of tc_tree]
    assms [THEN arg_cong, of clock_links] assms [THEN arg_cong, of clock_hand] assms [THEN arg_cong, of nb_tbs]
    assms [THEN arg_cong, of jumptable1] assms [THEN arg_cong, of jumptable2] assms [THEN arg_cong, of jt2_links]
    assms [THEN arg_cong, of pool_locked_tb] assms [THEN arg_cong, of num_pool_locked] assms [THEN arg_cong, of heap]
  by (simp_all add: rest_def)

lemma get_set_slot: "get_slot (set_slot sl v s) = (get_slot s)(sl := v)"
proof
  fix x
  show "get_slot (set_slot sl v s) x = ((get_slot s)(sl := v)) x"
    by (cases sl; cases x) (auto simp: upd_tb_def)
qed

lemma rewired_set_slot: "rewired s (set_slot sl v s)"
  by (cases sl) (simp_all add: rewired_def rest_def strip_def upd_tb_def)

lemma rewired_put_word: "rewired s (put_word a v s)"
  by (simp add: rewired_def) (simp add: put_word_def put_byte_def rest_def)

lemma code_set_slot [simp]: "code (set_slot sl v s) = code s" "fcallout_patches (set_slot sl v s) = fcallout_patches s"
  by (cases sl; simp add: upd_tb_def)+

lemma plain_set_slot [simp]: "plain (set_slot sl v s) = plain s"
  by (rule ext, cases "fcallout_patches s") (simp_all add: plain_def)

lemma put_word_tbs [simp]: "tbs (put_word a v s) = tbs s"
  by (simp add: put_word_def put_byte_def)

lemma get_slot_put_word [simp]: "get_slot (put_word a v s) = get_slot s"
proof
  show "get_slot (put_word a v s) sl = get_slot s sl" for sl by (cases sl) simp_all
qed

lemma dest_set_slot [simp]: "dest (set_slot sl v s) t n = dest s t n"
proof -
  have "strip (tbs (set_slot sl v s) t) = strip (tbs s t)" using rewired_set_slot [of s sl v] by (simp add: rewired_def)
  then show ?thesis by (simp add: dest_def strip_sel(13) [of "tbs (set_slot sl v s) t" "tbs s t"])
qed

declare get_slot.simps [simp del] set_slot.simps [simp del]

text \<open>Setting the target of a jump changes where this jump leads, and no other.\<close>

lemma tb_set_jmp_target_put:
  assumes g: "good_block (tbs s t)" and j: "has_jump (tbs s t) n"
  shows "tb_set_jmp_target t n d s = Inr (put_word (site (tbs s t) n) (d - (site (tbs s t) n + 4)) s)"
proof -
  let ?a = "site (tbs s t) n" and ?v = "d - (site (tbs s t) n + 4)"
  have lt: "jmp_offset (tbs s t) n < tc_len (tbs s t)" using g j by (auto simp: good_block_def word_less_nat_alt)
  have nz: "?a + of_nat i \<noteq> 0" if "i < 4" for i
    using unat_site [OF g j that] g by (auto simp: good_block_def unat_eq_0 dest!: arg_cong [of _ _ unat])
  have low: "ucast (x AND 0xff) = (ucast x :: u8)" for x :: u32
  proof -
    have m: "x AND 0xff = take_bit 8 x" for x :: u32 by (simp add: take_bit_eq_mask mask_eq_exp_minus_1)
    show ?thesis unfolding m by (intro bit_word_eqI) (auto simp: bit_simps)
  qed
  have up: "[0..<4] = [0, 1, 2, 3 :: nat]" by (simp add: upt_rec)
  show ?thesis
    using lt nz [of 0] nz [of 1] nz [of 2] nz [of 3]
    by (simp add: tb_set_jmp_target_def Let_def site_def [symmetric] up fcallouts_tc_write_def low put_word_def put_byte_def st32_def)
qed

lemma rewiredD:
  assumes "rewired s s'"
  shows "rest s' = rest s" "strip (tbs s' t) = strip (tbs s t)" "length (fcallout_patches s') = length (fcallout_patches s)"
  using assms by (auto simp: rewired_def)

lemmas rewired_sel = strip_sel [OF rewiredD(2)] rest_sel [OF rewiredD(1)]

lemma dest_put_word:
  assumes "length (fcallout_patches s) \<le> 1" "code_ok (tbs s) L" "t \<in> L" "u \<in> L" "has_jump (tbs s t) n" "has_jump (tbs s u) m"
  shows "dest (put_word (site (tbs s t) n) (d - (site (tbs s t) n + 4)) s) u m = (if (u, m) = (t, n) then d else dest s u m)"
proof (cases "(u, m) = (t, n)")
  case True
  then show ?thesis using assms(1) by (simp add: dest_def Let_def plain_put_word ld32_st32)
next
  case False
  then have "apart (site (tbs s t) n) (site (tbs s u) m)" using sites_apart [OF assms(2-6)] by metis
  then show ?thesis using False assms(1) by (auto simp: dest_def Let_def plain_put_word ld32_apart)
qed

text \<open>A state that is rewired as \<open>ch'\<close> says.\<close>

lemma chain_okI:
  assumes ok: "chain_ok s L ch" and r: "rewired s s'" and c: "chained (get_slot s') L ch'"
    and d: "\<And>t n. t \<in> L \<Longrightarrow> has_jump (tbs s t) n \<Longrightarrow> ch' (t, n) = ch (t, n) \<Longrightarrow> dest s' t n = dest s t n"
    and n: "\<And>t n. t \<in> L \<Longrightarrow> has_jump (tbs s t) n \<Longrightarrow> ch' (t, n) \<noteq> ch (t, n) \<Longrightarrow>
      dest s' t n = (case ch' (t, n) of Some U \<Rightarrow> tc_ptr (tbs s U) | None \<Rightarrow> tc_ptr (tbs s t) + ucast (edge_offset (tbs s t) n))"
    and h: "\<And>x U. ch' x = Some U \<Longrightarrow> ch x \<noteq> Some U \<Longrightarrow> has_jump (tbs s (fst x)) (snd x)"
  shows "chain_ok s' L ch'"
proof -
  note st = rewired_sel(1-15) [OF r]
  have "wired s' L ch'" unfolding wired_def
  proof (intro ballI allI impI)
    fix t m
    assume t: "t \<in> L" "has_jump (tbs s' t) m"
    then have j: "has_jump (tbs s t) m" using st(12) by simp
    have "dest s' t m = (case ch' (t, m) of Some U \<Rightarrow> tc_ptr (tbs s U) | None \<Rightarrow> tc_ptr (tbs s t) + ucast (edge_offset (tbs s t) m))"
    proof (cases "ch' (t, m) = ch (t, m)")
      case True
      then show ?thesis using d [OF t(1) j True] chain_okD(2) [OF ok] t(1) j unfolding wired_def by simp
    qed (use n [OF t(1) j] in simp)
    then show "dest s' t m = (case ch' (t, m) of Some U \<Rightarrow> tc_ptr (tbs s' U) | None \<Rightarrow> tc_ptr (tbs s' t) + ucast (edge_offset (tbs s' t) m))"
      by (simp only: st(1,4))
  qed
  moreover have "code_ok (tbs s') L" using chain_okD(3) [OF ok] unfolding code_ok_def st(14,15) .
  moreover have "has_jump (tbs s' (fst x)) (snd x)" if "ch' x = Some U" for x U
    using h [OF that] chain_okD(6) [OF ok, of x U] unfolding st(12) by blast
  ultimately show ?thesis using c chain_okD(4,5) [OF ok] rewiredD(3) [OF r] by (simp add: chain_ok_def)
qed

lemma tb_reset_jump_put:
  assumes "good_block (tbs s t)" "has_jump (tbs s t) n"
  shows "tb_reset_jump t n s
    = Inr (put_word (site (tbs s t) n) (tc_ptr (tbs s t) + ucast (edge_offset (tbs s t) n) - (site (tbs s t) n + 4)) s)"
proof -
  have "edge_offset (tbs s t) n \<noteq> NO_OFFSET" using assms by (simp add: good_block_def)
  then show ?thesis using tb_set_jmp_target_put [OF assms] by (simp add: tb_reset_jump_def Let_def)
qed

text \<open>\<open>tb_add_jump\<close> makes an unlinked jump lead to a block.\<close>

lemma tb_add_jump_ok:
  assumes ok: "chain_ok s L ch" and t: "t \<in> L" "U \<in> L" and j: "has_jump (tbs s t) n" and c: "ch (t, n) = None"
  shows "\<exists>s'. tb_add_jump t n U s = Inr s' \<and> chain_ok s' L (ch((t, n) \<mapsto> U)) \<and> rewired s s'"
proof -
  let ?a = "site (tbs s t) n"
  define s1 where "s1 = put_word ?a (tc_ptr (tbs s U) - (?a + 4)) s"
  define s2 where "s2 = set_slot (Next t n) (get_slot s1 (First U)) s1"
  define s' where "s' = set_slot (First U) (t OR n) s2"
  have g: "good_block (tbs s t)" by (rule chain_okD(7) [OF ok t(1)])
  have n: "n < 2" "jmp_offset (tbs s t) n \<noteq> NO_OFFSET" using j by (simp_all add: has_jump_def)
  then have "n = 0 \<or> n = 1" by auto
  then have "tb_add_jump t n U s = Inr s'" using tb_set_jmp_target_put [OF g j, of "tc_ptr (tbs s U)"] n(2)
    by (simp add: tb_add_jump_def s1_def s2_def s'_def Let_def)
  moreover have r: "rewired s s'" unfolding s'_def s2_def s1_def
    by (meson rewired_trans rewired_put_word rewired_set_slot)
  moreover have "chain_ok s' L (ch((t, n) \<mapsto> U))"
  proof (rule chain_okI [OF ok r])
    have "get_slot s' = (get_slot s)(nx (t, n) := get_slot s (First U), First U := enc (t, n))"
      by (simp add: s'_def s2_def s1_def get_set_slot)
    then show "chained (get_slot s') L (ch((t, n) \<mapsto> U))"
      using chained_insert [OF chain_okD(1) [OF ok] c _ _ t(2)] t(1) n(1) by simp
  next
    have d: "dest s' u m = (if (u, m) = (t, n) then tc_ptr (tbs s U) else dest s u m)" if "u \<in> L" "has_jump (tbs s u) m" for u m
      using dest_put_word [OF chain_okD(5,3) [OF ok] t(1) that(1) j that(2)] by (simp add: s'_def s2_def s1_def)
    show "dest s' u m = dest s u m" if "u \<in> L" "has_jump (tbs s u) m" "(ch((t, n) \<mapsto> U)) (u, m) = ch (u, m)" for u m
      using d that c by auto
    show "dest s' u m = (case (ch((t, n) \<mapsto> U)) (u, m) of Some U \<Rightarrow> tc_ptr (tbs s U) | None \<Rightarrow> tc_ptr (tbs s u) + ucast (edge_offset (tbs s u) m))"
      if "u \<in> L" "has_jump (tbs s u) m" "(ch((t, n) \<mapsto> U)) (u, m) \<noteq> ch (u, m)" for u m
      using d that by (auto split: if_splits)
  qed (use j in \<open>auto split: if_splits\<close>)
  ultimately show ?thesis by blast
qed

text \<open>\<open>tb_jmp_remove\<close> unlinks one jump.\<close>

lemma tb_jmp_remove_ok:
  assumes ok: "chain_ok s L ch" and t: "t \<in> L" and n: "n < 2" and f: "2 * card L + 2 \<le> fuel E"
  shows "\<exists>s'. tb_jmp_remove E t n s = Inr s' \<and> chain_ok s' L (ch((t, n) := None)) \<and> rewired s s'"
proof (cases "ch (t, n)")
  case None
  then have "ch((t, n) := None) = ch" by auto
  moreover have "get_slot s (Next t n) = 0" using chained_link [OF chain_okD(1) [OF ok], of "(t, n)"] t n None by simp
  ultimately show ?thesis using ok by (auto simp: tb_jmp_remove_def rewired_refl)
next
  case (Some U)
  note c = chain_okD(1) [OF ok]
  have U: "U \<in> L" using chainedD(2) [OF c Some] by blast
  have j: "has_jump (tbs s t) n" using chain_okD(6) [OF ok Some] by simp
  obtain xs where xs: "linked (get_slot s) (get_slot s (First U)) xs (U OR 2)" "distinct xs" "set xs = {x. ch x = Some U}"
    using chainedD(1) [OF c U] by blast
  obtain as bs where ab: "xs = as @ (t, n) # bs" using Some xs(3) by (metis (mono_tags, lifting) mem_Collect_eq split_list)
  have len: "length as + length bs + 2 \<le> fuel E" using incoming_length [OF c chain_okD(4) [OF ok] xs(2,3)] f ab by simp
  have js: "\<forall>x \<in> set (as @ (t, n) # bs). is_jump x" using chained_jump [OF c] xs(3) ab by blast
  have search: "jmp_search_loop (fuel E) t n (Next t n) s = Inr (slot_end (First U) as)"
    using search_found [OF xs(1) [unfolded ab] js chainedD(4) [OF c U] xs(2) [unfolded ab] len] .
  define s1 where "s1 = set_slot (Next t n) 0 (set_slot (slot_end (First U) as) (get_slot s (Next t n)) s)"
  have r1: "rewired s s1" unfolding s1_def by (meson rewired_trans rewired_set_slot)
  note st = rewired_sel [OF r1]
  have g: "good_block (tbs s1 t)" "has_jump (tbs s1 t) n" using chain_okD(7) [OF ok t] j by (simp_all add: st)
  define s' where "s' = put_word (site (tbs s1 t) n) (tc_ptr (tbs s1 t) + ucast (edge_offset (tbs s1 t) n) - (site (tbs s1 t) n + 4)) s1"
  have "get_slot s (Next t n) \<noteq> 0" using chained_link [OF c, of "(t, n)"] t n Some by simp
  then have "tb_jmp_remove E t n s = Inr s'" using search tb_reset_jump_put [OF g]
    by (simp add: tb_jmp_remove_def Let_def s1_def s'_def)
  moreover have r: "rewired s s'" unfolding s'_def using r1 rewired_put_word rewired_trans by blast
  moreover have "chain_ok s' L (ch((t, n) := None))"
  proof (rule chain_okI [OF ok r])
    have "get_slot s' = (get_slot s)(slot_end (First U) as := get_slot s (nx (t, n)), nx (t, n) := 0)"
      by (simp add: s'_def s1_def get_set_slot)
    then show "chained (get_slot s') L (ch((t, n) := None))"
      using chained_remove [OF c Some xs(1) [unfolded ab] xs(2) [unfolded ab] xs(3) [unfolded ab]] by simp
  next
    have co: "code_ok (tbs s1) L" using chain_okD(3) [OF ok] by (simp add: code_ok_def st)
    have d: "dest s' u m = (if (u, m) = (t, n) then tc_ptr (tbs s t) + ucast (edge_offset (tbs s t) n) else dest s u m)"
      if u: "u \<in> L" "has_jump (tbs s u) m" for u m
    proof -
      have "length (fcallout_patches s1) \<le> 1" "has_jump (tbs s1 u) m"
        using chain_okD(5) [OF ok] rewiredD(3) [OF r1] u(2) by (simp_all add: st)
      from dest_put_word [OF this(1) co t u(1) g(2) this(2)] show ?thesis
        by (simp add: s'_def st(1,4)) (simp add: s1_def)
    qed
    show "dest s' u m = dest s u m" if "u \<in> L" "has_jump (tbs s u) m" "(ch((t, n) := None)) (u, m) = ch (u, m)" for u m
      using d that Some by auto
    show "dest s' u m = (case (ch((t, n) := None)) (u, m) of Some U \<Rightarrow> tc_ptr (tbs s U) | None \<Rightarrow> tc_ptr (tbs s u) + ucast (edge_offset (tbs s u) m))"
      if "u \<in> L" "has_jump (tbs s u) m" "(ch((t, n) := None)) (u, m) \<noteq> ch (u, m)" for u m
      using d that by (auto split: if_splits)
  qed (auto split: if_splits)
  ultimately show ?thesis by blast
qed

text \<open>The loop of \<open>tb_unchain\<close> follows the list of the block and unlinks every jump on it.\<close>

lemma code_ok_rewired: "code_ok (tbs s) L \<Longrightarrow> rewired s s' \<Longrightarrow> code_ok (tbs s') L"
  unfolding code_ok_def by (simp add: rewired_sel(14,15))

lemma unchain_loop_ok:
  assumes "linked (get_slot s) p xs (U OR 2)" "distinct xs" "aligned U" "length xs < k"
    and "\<And>x. x \<in> set xs \<Longrightarrow> is_jump x \<and> fst x \<in> L \<and> has_jump (tbs s (fst x)) (snd x)"
    and "code_ok (tbs s) L" "length (fcallout_patches s) \<le> 1"
  shows "\<exists>s'. unchain_loop k U p s = Inr s' \<and> rewired s s'
    \<and> (\<forall>sl. get_slot s' sl = (if sl = First U then U OR 2 else if \<exists>x \<in> set xs. sl = nx x then 0 else get_slot s sl))
    \<and> (\<forall>u \<in> L. \<forall>m. has_jump (tbs s u) m \<longrightarrow> dest s' u m =
        (if (u, m) \<in> set xs then tc_ptr (tbs s u) + ucast (edge_offset (tbs s u) m) else dest s u m))"
  using assms
proof (induction xs arbitrary: s p k)
  case Nil
  obtain k' where k: "k = Suc k'" using Nil(4) by (cases k) auto
  have "unchain_loop k U p s = Inr (set_slot (First U) (U OR 2) s)"
    using Nil(1,3) tag_or [of U 2] k by simp
  then show ?case by (simp add: rewired_set_slot get_set_slot)
next
  case (Cons x xs)
  obtain t n where x: "x = (t, n)" by fastforce
  obtain k' where k: "k = Suc k'" using Cons.prems(4) by (cases k) auto
  have p: "p = enc x" and l: "linked (get_slot s) (get_slot s (Next t n)) xs (U OR 2)" using Cons.prems(1) x by simp_all
  have j: "is_jump x" "t \<in> L" "has_jump (tbs s t) n" using Cons.prems(5) [of x] x by auto
  have e: "tag p = n" "untag p = t" "t \<noteq> 0" "n < 2" using enc_simps [OF j(1)] p x j(1) by (simp_all add: is_jump_def)
  have g: "good_block (tbs s t)" using Cons.prems(6) j(2) by (simp add: code_ok_def)
  define s0 where "s0 = put_word (site (tbs s t) n) (tc_ptr (tbs s t) + ucast (edge_offset (tbs s t) n) - (site (tbs s t) n + 4)) s"
  define s1 where "s1 = set_slot (Next t n) 0 s0"
  have step: "unchain_loop k U p s = unchain_loop k' U (get_slot s (Next t n)) s1"
    using k e tb_reset_jump_put [OF g j(3)] by (simp add: Let_def s0_def s1_def)
  have r1: "rewired s s1" unfolding s1_def s0_def using rewired_put_word rewired_set_slot rewired_trans by blast
  note st = rewired_sel [OF r1]
  have sl1: "get_slot s1 = (get_slot s)(nx x := 0)" by (simp add: s1_def s0_def get_set_slot x)
  have d1: "dest s1 u m = (if (u, m) = x then tc_ptr (tbs s u) + ucast (edge_offset (tbs s u) m) else dest s u m)"
    if "u \<in> L" "has_jump (tbs s u) m" for u m
    using dest_put_word [OF Cons.prems(7,6) j(2) that(1) j(3) that(2)] x by (auto simp: s1_def s0_def)
  have "linked (get_slot s1) (get_slot s (Next t n)) xs (U OR 2)"
    using l Cons.prems(2) by (subst linked_cong [of xs "get_slot s1" "get_slot s"]) (auto simp: sl1)
  moreover have "is_jump y \<and> fst y \<in> L \<and> has_jump (tbs s1 (fst y)) (snd y)" if "y \<in> set xs" for y
    using Cons.prems(5) [of y] that by (simp add: st)
  moreover have "length (fcallout_patches s1) \<le> 1" using Cons.prems(7) rewiredD(3) [OF r1] by simp
  ultimately obtain s' where s': "unchain_loop k' U (get_slot s (Next t n)) s1 = Inr s'" "rewired s1 s'"
      "\<forall>sl. get_slot s' sl = (if sl = First U then U OR 2 else if \<exists>x \<in> set xs. sl = nx x then 0 else get_slot s1 sl)"
      "\<forall>u \<in> L. \<forall>m. has_jump (tbs s1 u) m \<longrightarrow> dest s' u m =
        (if (u, m) \<in> set xs then tc_ptr (tbs s1 u) + ucast (edge_offset (tbs s1 u) m) else dest s1 u m)"
    using Cons.IH [of s1 "get_slot s (Next t n)" k'] Cons.prems(2-4) code_ok_rewired [OF Cons.prems(6) r1] k by auto
  have "get_slot s' sl = (if sl = First U then U OR 2 else if \<exists>y \<in> set (x # xs). sl = nx y then 0 else get_slot s sl)" for sl
    using s'(3) by (auto simp: sl1)
  moreover have "dest s' u m = (if (u, m) \<in> set (x # xs) then tc_ptr (tbs s u) + ucast (edge_offset (tbs s u) m) else dest s u m)"
    if "u \<in> L" "has_jump (tbs s u) m" for u m
    using s'(4) that d1 [OF that] by (auto simp: st)
  moreover have "unchain_loop k U p s = Inr s'" using step s'(1) by simp
  ultimately show ?case using rewired_trans [OF r1 s'(2)] by (intro exI [of _ s'] conjI allI ballI impI) blast+
qed

text \<open>\<open>tb_unchain\<close> unlinks the jumps of a block and all jumps to it.\<close>

definition unchained :: "nat \<Rightarrow> (jump \<rightharpoonup> nat) \<Rightarrow> (jump \<rightharpoonup> nat)" where
  "unchained t ch x = (if fst x = t \<or> ch x = Some t then None else ch x)"

lemma tb_unchain_ok:
  assumes ok: "chain_ok s L ch" and t: "t \<in> L" and f: "2 * card L + 2 \<le> fuel E"
  shows "\<exists>s'. tb_unchain E t s = Inr s' \<and> chain_ok s' L (unchained t ch) \<and> rewired s s'"
proof -
  obtain s1 where s1: "tb_jmp_remove E t 0 s = Inr s1" "chain_ok s1 L (ch((t, 0) := None))" "rewired s s1"
    using tb_jmp_remove_ok [OF ok t _ f, of 0] by auto
  obtain s2 where s2: "tb_jmp_remove E t 1 s1 = Inr s2" "chain_ok s2 L (ch((t, 0) := None, (t, 1) := None))" "rewired s1 s2"
    using tb_jmp_remove_ok [OF s1(2) t _ f, of 1] by auto
  let ?ch = "ch((t, 0) := None, (t, 1) := None)"
  note c = chain_okD(1) [OF s2(2)]
  obtain xs where xs: "linked (get_slot s2) (get_slot s2 (First t)) xs (t OR 2)" "distinct xs" "set xs = {x. ?ch x = Some t}"
    using chainedD(1) [OF c t] by blast
  have len: "length xs < fuel E" using incoming_length [OF c chain_okD(4) [OF s2(2)] xs(2,3)] f by simp
  have js: "is_jump x \<and> fst x \<in> L \<and> has_jump (tbs s2 (fst x)) (snd x)" if "x \<in> set xs" for x
    using that xs(3) chained_jump [OF c] chainedD(2) [OF c] chain_okD(6) [OF s2(2)] by blast
  obtain s' where s': "unchain_loop (fuel E) t (get_slot s2 (First t)) s2 = Inr s'" "rewired s2 s'"
      "\<forall>sl. get_slot s' sl = (if sl = First t then t OR 2 else if \<exists>x \<in> set xs. sl = nx x then 0 else get_slot s2 sl)"
      "\<forall>u \<in> L. \<forall>m. has_jump (tbs s2 u) m \<longrightarrow> dest s' u m =
        (if (u, m) \<in> set xs then tc_ptr (tbs s2 u) + ucast (edge_offset (tbs s2 u) m) else dest s2 u m)"
    using unchain_loop_ok [OF xs(1,2) chainedD(4) [OF c t] len js chain_okD(3,5) [OF s2(2)]] by blast
  have ch: "unchained t ch = (\<lambda>x. if ?ch x = Some t then None else ?ch x)"
  proof
    fix x
    have "ch x \<noteq> None \<Longrightarrow> fst x = t \<Longrightarrow> x = (t, 0) \<or> x = (t, 1)"
      using chainedD(2) [OF chain_okD(1) [OF ok], of x] by (cases x) auto
    then show "unchained t ch x = (if ?ch x = Some t then None else ?ch x)" by (cases "ch x") (auto simp: unchained_def)
  qed
  have mem: "(u, m) \<in> set xs \<longleftrightarrow> unchained t ch (u, m) \<noteq> ?ch (u, m)" for u m unfolding ch xs(3) by auto
  have "chain_ok s' L (unchained t ch)"
  proof (rule chain_okI [OF s2(2) s'(2)])
    show "chained (get_slot s') L (unchained t ch)"
      using chained_clear [OF c xs(3)] s'(3) unfolding ch by blast
    show "dest s' u m = dest s2 u m" if "u \<in> L" "has_jump (tbs s2 u) m" "unchained t ch (u, m) = ?ch (u, m)" for u m
      using s'(4) that mem by simp
    show "dest s' u m = (case unchained t ch (u, m) of Some U \<Rightarrow> tc_ptr (tbs s2 U) | None \<Rightarrow> tc_ptr (tbs s2 u) + ucast (edge_offset (tbs s2 u) m))"
      if "u \<in> L" "has_jump (tbs s2 u) m" "unchained t ch (u, m) \<noteq> ?ch (u, m)" for u m
    proof -
      have "unchained t ch (u, m) = None" using that(3) unfolding ch by (auto split: if_splits)
      then show ?thesis using s'(4) that mem by simp
    qed
    show "has_jump (tbs s2 (fst x)) (snd x)" if "unchained t ch x = Some U" "?ch x \<noteq> Some U" for x U
      using that unfolding ch by (auto split: if_splits)
  qed
  moreover have "rewired s s'" using s1(3) s2(3) s'(2) rewired_trans by blast
  ultimately show ?thesis using s1(1) s2(1) s'(1) by (auto simp: tb_unchain_def)
qed

subsection \<open>Sequences of links\<close>

text \<open>A block as \<open>tb_malloc\<close> and the translator leave it: no links, and its jumps lead to their exit stubs.\<close>

definition fresh_tb :: "'h tcache \<Rightarrow> nat \<Rightarrow> bool" where
  "fresh_tb s t \<longleftrightarrow> aligned t \<and> jmp_first (tbs s t) = t OR 2 \<and> jmp_next (tbs s t) 0 = 0 \<and> jmp_next (tbs s t) 1 = 0
     \<and> (\<forall>n. has_jump (tbs s t) n \<longrightarrow> dest s t n = tc_ptr (tbs s t) + ucast (edge_offset (tbs s t) n))"

lemma fresh_chain_ok:
  assumes "\<forall>t \<in> L. fresh_tb s t" "code_ok (tbs s) L" "finite L" "length (fcallout_patches s) \<le> 1"
  shows "chain_ok s L Map.empty"
proof -
  have "linked (get_slot s) (get_slot s (First U)) [] (U OR 2)" if "U \<in> L" for U
    using assms(1) that by (simp add: fresh_tb_def get_slot.simps)
  moreover have "get_slot s (nx x) = 0" if "fst x \<in> L" "snd x < 2" for x
    using assms(1) that less_2_cases [of "snd x"] by (cases x) (auto simp: fresh_tb_def get_slot.simps)
  ultimately have "chained (get_slot s) L Map.empty"
    using assms(1) unfolding chained_def by (auto simp: fresh_tb_def intro!: exI [of _ "[]"])
  then show ?thesis using assms by (simp add: chain_ok_def wired_def fresh_tb_def)
qed

datatype chain_op = Link nat nat nat | Unchain nat

fun chain_step :: "'h env \<Rightarrow> chain_op \<Rightarrow> 'h tcache \<Rightarrow> 'h tcache res" where
  "chain_step E (Link t n U) s = tb_add_jump t n U s"
| "chain_step E (Unchain t) s = tb_unchain E t s"

fun link_step :: "chain_op \<Rightarrow> (jump \<rightharpoonup> nat) \<Rightarrow> (jump \<rightharpoonup> nat)" where
  "link_step (Link t n U) ch = ch((t, n) \<mapsto> U)"
| "link_step (Unchain t) ch = unchained t ch"

text \<open>A jump is linked when it exists and leads to no block yet.\<close>

fun chain_allowed :: "(nat \<Rightarrow> tb) \<Rightarrow> nat set \<Rightarrow> chain_op list \<Rightarrow> (jump \<rightharpoonup> nat) \<Rightarrow> bool" where
  "chain_allowed T L [] ch \<longleftrightarrow> True"
| "chain_allowed T L (Link t n U # ps) ch \<longleftrightarrow>
     t \<in> L \<and> U \<in> L \<and> has_jump (T t) n \<and> ch (t, n) = None \<and> chain_allowed T L ps (link_step (Link t n U) ch)"
| "chain_allowed T L (Unchain t # ps) ch \<longleftrightarrow> t \<in> L \<and> chain_allowed T L ps (link_step (Unchain t) ch)"

lemma chain_steps_ok:
  "chain_ok s L ch \<Longrightarrow> chain_allowed T L ps ch \<Longrightarrow> (\<And>t n. has_jump (T t) n = has_jump (tbs s t) n) \<Longrightarrow> 2 * card L + 2 \<le> fuel E \<Longrightarrow>
   \<exists>s'. rfold (chain_step E) ps s = Inr s' \<and> chain_ok s' L (fold link_step ps ch) \<and> rewired s s'"
proof (induction ps arbitrary: s ch)
  case (Cons p ps)
  have "\<exists>s1. chain_step E p s = Inr s1 \<and> chain_ok s1 L (link_step p ch) \<and> rewired s s1"
    using tb_add_jump_ok [OF Cons.prems(1)] tb_unchain_ok [OF Cons.prems(1) _ Cons.prems(4)] Cons.prems(2,3) by (cases p) auto
  then obtain s1 where s1: "chain_step E p s = Inr s1" "chain_ok s1 L (link_step p ch)" "rewired s s1" by blast
  have "chain_allowed T L ps (link_step p ch)" using Cons.prems(2) by (cases p) simp_all
  from Cons.IH [OF s1(2) this _ Cons.prems(4)] obtain s' where
    s': "rfold (chain_step E) ps s1 = Inr s'" "chain_ok s' L (fold link_step ps (link_step p ch))" "rewired s1 s'"
    using Cons.prems(3) rewired_sel(12) [OF s1(3)] by metis
  then show ?case using s1(1) rewired_trans [OF s1(3)] by auto
qed (auto simp: rewired_refl)

text \<open>
  C16. Direct jumps between translation blocks follow their links.  From blocks as the translator leaves
  them, every sequence of \<open>tb_add_jump\<close> on unlinked jumps and \<open>tb_unchain\<close> ends, without a failed assertion
  and without leaving the circular lists, and afterwards every jump in the translated code leads
  to the first byte of the block it was last linked to, or to the exit stub of its own block if it was never linked or
  an end of the link was unchained since.  In particular no jump leads to a block after \<open>tb_unchain\<close> of it.
\<close>

theorem jumps_follow_links:
  assumes "\<forall>t \<in> L. fresh_tb s t" "code_ok (tbs s) L" "finite L" "length (fcallout_patches s) \<le> 1"
    and "chain_allowed (tbs s) L ps Map.empty" "2 * card L + 2 \<le> fuel E"
  shows "\<exists>s'. rfold (chain_step E) ps s = Inr s' \<and> rewired s s'
    \<and> (\<forall>t \<in> L. \<forall>n. has_jump (tbs s t) n \<longrightarrow> dest s' t n = (case fold link_step ps Map.empty (t, n) of
          Some U \<Rightarrow> tc_ptr (tbs s U) | None \<Rightarrow> tc_ptr (tbs s t) + ucast (edge_offset (tbs s t) n)))"
proof -
  obtain s' where s': "rfold (chain_step E) ps s = Inr s'" "chain_ok s' L (fold link_step ps Map.empty)" "rewired s s'"
    using chain_steps_ok [OF fresh_chain_ok [OF assms(1-4)] assms(5) _ assms(6)] by blast
  have "dest s' t n = (case fold link_step ps Map.empty (t, n) of
      Some U \<Rightarrow> tc_ptr (tbs s U) | None \<Rightarrow> tc_ptr (tbs s t) + ucast (edge_offset (tbs s t) n))"
    if "t \<in> L" "has_jump (tbs s t) n" for t n
    using chain_okD(2) [OF s'(2)] that unfolding wired_def by (simp add: rewired_sel [OF s'(3)] cong: option.case_cong)
  then show ?thesis using s'(1,3) by blast
qed

definition sample_tb :: "nat \<Rightarrow> u32 \<Rightarrow> tb" where
  "sample_tb t p = needle_tb\<lparr>tc_ptr := p, num_insns := 1, tc_boundaries := \<lambda>i. if i = 0 then 0 else 32, jmp_first := t OR 2,
     jmp_offset := \<lambda>n. if n = 0 then 8 else NO_OFFSET, edge_offset := \<lambda>n. if n = 0 then 20 else NO_OFFSET\<rparr>"

text \<open>Two blocks of 32 bytes of code each, with one jump of displacement 8.\<close>

definition sample_hash :: hash where
  "sample_hash = \<lparr>elem_cnt = 0, bucket_cnt = 0, buckets = 0, min_bucket_count = 0\<rparr>"

definition sample :: "unit tcache" where
  "sample = \<lparr>tbs = \<lambda>t. sample_tb t (if t = 100 then 0x1000 else 0x2000), code = \<lambda>a. if a = 0x1008 \<or> a = 0x2008 then 8 else 0,
     fcallout_patches = [], jumptable1 = [], jumptable2 = sample_hash, jt2_links = \<lparr>l_prev = \<lambda>x. 0, l_next = \<lambda>x. 0\<rparr>,
     pc_table = sample_hash, pc_links = \<lparr>l_prev = \<lambda>x. 0, l_next = \<lambda>x. 0\<rparr>,
     tc_tree = \<lparr>elem = \<lambda>x. \<lparr>e_left = 0, e_right = 0, e_parent = 0, e_color = RED\<rparr>, tree_root = 0\<rparr>,
     clock_links = \<lparr>l_prev = \<lambda>x. 0, l_next = \<lambda>x. 0\<rparr>, clock_hand = 0, nb_tbs = 0, pool_locked_tb = 0, num_pool_locked = 0,
     size_min = 0, size_max = 0, size_sum = 0, num_replacements = 0, heap = ()\<rparr>"

definition sample_env :: "nat \<Rightarrow> unit env" where
  "sample_env n = \<lparr>fuel = n, pc_off = 8, tc_off = 16, clock_off = 40, jt2_off = 48, clock_list = 80, needle = 900, tb_size = 56,
     bucket_malloc = bump, malloc_from_pool = \<lambda>k h. (0, h), free = \<lambda>p h. h, random_ulong = \<lambda>h. (0, h)\<rparr>"

lemma sample_block: "has_jump (sample_tb t p) n \<longleftrightarrow> n = 0" "tc_len (sample_tb t p) = 32"
  by (auto simp: sample_tb_def needle_tb_def has_jump_def NO_OFFSET_def tc_len_def)

lemma sample_fresh: "t \<in> {100, 200} \<Longrightarrow> fresh_tb sample t"
  by (auto simp: fresh_tb_def sample_block sample_def aligned_def dest_def site_def plain_def ld32_def)
    (simp_all add: sample_tb_def needle_tb_def)

lemma sample_code: "code_ok (tbs sample) {100, 200}"
  by (auto simp: code_ok_def good_block_def sample_def sample_block code_span_def)
    (simp_all add: sample_tb_def needle_tb_def NO_OFFSET_def)

theorem jumps_follow_links_witness:
  "\<exists>s'. rfold (chain_step (sample_env 10)) [Link 100 0 200, Unchain 200, Link 200 0 100] sample = Inr s'
    \<and> dest s' 100 0 = 0x1014 \<and> dest s' 200 0 = 0x1000"
proof -
  have "chain_allowed (tbs sample) {100, 200} [Link 100 0 200, Unchain 200, Link 200 0 100] Map.empty"
    by (simp add: sample_def sample_block unchained_def)
  then obtain s' where s': "rfold (chain_step (sample_env 10)) [Link 100 0 200, Unchain 200, Link 200 0 100] sample = Inr s'"
      "\<forall>t \<in> {100, 200}. \<forall>n. has_jump (tbs sample t) n \<longrightarrow> dest s' t n
        = (case fold link_step [Link 100 0 200, Unchain 200, Link 200 0 100] Map.empty (t, n) of
          Some U \<Rightarrow> tc_ptr (tbs sample U) | None \<Rightarrow> tc_ptr (tbs sample t) + ucast (edge_offset (tbs sample t) n))"
    using jumps_follow_links [of "{100, 200}" sample "[Link 100 0 200, Unchain 200, Link 200 0 100]" "sample_env 10"]
      sample_fresh sample_code by (auto simp: sample_env_def sample_def)
  have "has_jump (tbs sample t) 0" for t by (simp add: sample_def sample_block)
  moreover have "tc_ptr (tbs sample t) = (if t = 100 then 0x1000 else 0x2000)" "edge_offset (tbs sample t) 0 = 20" for t
    by (simp_all add: sample_def sample_tb_def)
  ultimately have "dest s' 100 0 = 0x1014" "dest s' 200 0 = 0x1000"
    using s'(2) [rule_format, of 100 0] s'(2) [rule_format, of 200 0] by (simp_all add: unchained_def)
  with s'(1) show ?thesis by blast
qed

end
