(* ===== verification/Tb_Cache.thy ===== *)
theory Tb_Cache
  imports Tb_Chain
begin

text \<open>
  The translation cache as a whole.  The table of program counters, the tree of code
  addresses, the list of blocks, the two jump tables and the links of direct jumps all
  speak of the same set of blocks, and every operation of \<^verbatim>\<open>peep/tb.c\<close> keeps it so.
\<close>

subsection \<open>Searching disjoint intervals\<close>

lemma first_eq_unique:
  assumes w: "weak_order_on (insert e (set xs)) lt" and so: "sorted_by_lt lt xs"
    and x: "x \<in> set xs" "\<not> lt x e" "\<not> lt e x" and u: "\<And>y. y \<in> set xs \<Longrightarrow> \<not> lt y e \<Longrightarrow> \<not> lt e y \<Longrightarrow> y = x"
  shows "first_eq lt e xs = x"
proof -
  define l r where "l = takeWhile (\<lambda>y. lt y e) xs" and "r = dropWhile (\<lambda>y. lt y e) xs"
  have xs: "xs = l @ r" by (simp add: l_def r_def)
  have "x \<notin> set l" using x(2) set_takeWhileD [of x "\<lambda>y. lt y e" xs] by (auto simp: l_def)
  then have xr: "x \<in> set r" using x(1) xs by auto
  then obtain y r' where r: "r = y # r'" by (cases r) auto
  then have y: "\<not> lt y e" using hd_dropWhile [of "\<lambda>y. lt y e" xs] unfolding r_def by (metis list.distinct(1) list.sel(1))
  have "y = x \<or> \<not> lt x y" using so xr unfolding xs r by (auto simp: sorted_wrt_append)
  then have "\<not> lt e y" using x(3) weak_order_onD(2) [OF w x(3), of y] x(1) xs r by auto
  then have "y = x" using u [OF _ y] xs r by auto
  then show ?thesis using r x(3) by (simp add: first_eq_def first_ge_def r_def [symmetric])
qed

lemma first_eq_none:
  assumes "\<And>y. y \<in> set xs \<Longrightarrow> \<not> lt y e \<Longrightarrow> lt e y"
  shows "first_eq lt e xs = 0"
proof (cases "dropWhile (\<lambda>y. lt y e) xs")
  case Nil
  then show ?thesis unfolding first_eq_def first_ge_def Nil by simp
next
  case (Cons y r)
  have "y \<in> set xs" using Cons by (metis list.set_intros(1) set_dropWhileD)
  moreover have "\<not> lt y e" using hd_dropWhile [of "\<lambda>y. lt y e" xs] Cons by (metis list.distinct(1) list.sel(1))
  ultimately show ?thesis using assms Cons by (simp add: first_eq_def first_ge_def)
qed

text \<open>Intervals from \<open>lo\<close> to \<open>hi\<close>, disjoint but for the point \<open>e\<close> that is searched for.\<close>

lemma intervals_point_order:
  fixes lo hi :: "'a \<Rightarrow> nat"
  assumes lt: "\<And>x y. x \<in> insert e A \<Longrightarrow> y \<in> insert e A \<Longrightarrow> lt x y \<longleftrightarrow> hi x \<le> lo y"
    and ne: "\<And>x. x \<in> insert e A \<Longrightarrow> lo x < hi x" and pt: "e \<notin> A \<Longrightarrow> hi e = Suc (lo e)"
    and dis: "\<And>x y. x \<in> A \<Longrightarrow> y \<in> A \<Longrightarrow> x \<noteq> y \<Longrightarrow> hi x \<le> lo y \<or> hi y \<le> lo x"
  shows "weak_order_on (insert e A) lt"
  unfolding weak_order_on_def
proof (intro conjI ballI impI)
  fix a b
  assume ab: "a \<in> insert e A" "b \<in> insert e A" "lt a b"
  then show "\<not> lt b a" using lt ne [of a] ne [of b] by fastforce
next
  fix a b c
  assume abc: "a \<in> insert e A" "b \<in> insert e A" "c \<in> insert e A" and "\<not> lt a b" "\<not> lt b c"
  then have h: "lo b < hi a" "lo c < hi b" using lt by (auto simp: not_le)
  have "lo c < hi a"
  proof (cases "b \<in> A")
    case b: True
    show ?thesis
    proof (cases "a \<in> A")
      case True
      then show ?thesis using dis [OF True b] h ne [of a] by (cases "a = b") auto
    next
      case False
      then have a: "a = e" "hi a = Suc (lo a)" using abc(1) pt by auto
      show ?thesis
      proof (cases "c \<in> A")
        case True
        then show ?thesis using dis [OF True b] h a ne [of c] by (cases "c = b") auto
      qed (use abc(3) a in auto)
    qed
  next
    case False
    then have "b = e" "hi b = Suc (lo b)" using abc(2) pt by auto
    then show ?thesis using h by simp
  qed
  then show "\<not> lt a c" using lt abc by auto
qed

lemma intervals_weak_order:
  fixes lo hi :: "'a \<Rightarrow> nat"
  assumes lt: "\<And>x y. x \<in> insert e A \<Longrightarrow> y \<in> insert e A \<Longrightarrow> lt x y \<longleftrightarrow> hi x \<le> lo y"
    and ne: "\<And>x. x \<in> insert e A \<Longrightarrow> lo x < hi x"
    and e: "hi e = Suc (lo e) \<or> (\<forall>x \<in> A. x \<noteq> e \<longrightarrow> hi x \<le> lo e \<or> hi e \<le> lo x)"
    and dis: "\<And>x y. x \<in> A \<Longrightarrow> y \<in> A \<Longrightarrow> x \<noteq> y \<Longrightarrow> hi x \<le> lo y \<or> hi y \<le> lo x"
  shows "weak_order_on (insert e A) lt"
proof (cases "hi e = Suc (lo e)")
  case True
  then show ?thesis using intervals_point_order [of e A lt hi lo] assms by blast
next
  case False
  then have "hi x \<le> lo y \<or> hi y \<le> lo x" if "x \<in> insert e A" "y \<in> insert e A" "x \<noteq> y" for x y
    using that e dis by auto
  then show ?thesis using intervals_point_order [of e "insert e A" lt hi lo] lt ne by simp
qed

subsection \<open>The invariant\<close>

text \<open>
  \<open>U\<close> is the set of addresses where blocks may live.  The memory the hash tables get is outside the
  blocks, and the fuel covers the longest walks: over the buckets of a table, whose number is below
  \<open>2 ^ 28\<close>, and over the blocks and their jumps.
\<close>

definition env_ok :: "'h env \<Rightarrow> nat set \<Rightarrow> bool" where
  "env_ok E U \<longleftrightarrow> finite U \<and> 2 ^ 28 + 2 * card U + 40 \<le> fuel E \<and> Suc (card U) < 2 ^ 29 \<and> needle E \<notin> U \<and> clock_list E \<noteq> 0
     \<and> (\<forall>t \<in> U. t \<noteq> 0 \<and> t + tc_off E \<noteq> nil \<and> t + clock_off E \<notin> {head_of (clock_list E), tail_of (clock_list E)})
     \<and> (\<forall>h. malloc_fresh (bucket_malloc E h) (in_use h ((\<lambda>t. t + pc_off E) ` U))
          \<and> malloc_fresh (bucket_malloc E h) (in_use h ((\<lambda>t. t + jt2_off E) ` U)))"

definition pc_ok :: "'h env \<Rightarrow> nat set \<Rightarrow> (nat \<Rightarrow> tb) \<Rightarrow> nat set \<Rightarrow> hash \<Rightarrow> links \<Rightarrow> bool" where
  "pc_ok E U T L h l \<longleftrightarrow> holds_set (pc_hash (pc_off E) T) (pc_equal (pc_off E) T) l h ((\<lambda>t. t + pc_off E) ` L)
     \<and> region (buckets h) (unat (bucket_cnt h)) \<inter> (\<lambda>t. t + pc_off E) ` U = {}"

definition tree_ok :: "'h env \<Rightarrow> (nat \<Rightarrow> tb) \<Rightarrow> nat set \<Rightarrow> rbtree \<Rightarrow> bool" where
  "tree_ok E T L tree \<longleftrightarrow> (\<exists>xs. tree_holds (tc_less (tc_off E) T) tree xs \<and> set xs = (\<lambda>t. t + tc_off E) ` L)"

definition clock_ok :: "'h env \<Rightarrow> nat set \<Rightarrow> links \<Rightarrow> bool" where
  "clock_ok E L l \<longleftrightarrow> (\<exists>cs. list_at l (clock_list E) cs \<and> set cs = (\<lambda>t. t + clock_off E) ` L)"

definition jt2_ok :: "'h env \<Rightarrow> nat set \<Rightarrow> (nat \<Rightarrow> tb) \<Rightarrow> nat set \<Rightarrow> hash \<Rightarrow> links \<Rightarrow> bool" where
  "jt2_ok E U T L h l \<longleftrightarrow>
     (\<exists>M. holds_map ((\<lambda>t. t + jt2_off E) ` U) (jt2_off E) (\<lambda>x. tb_t.truncate (T x)) M h l \<and> ran M \<subseteq> L)"

definition jt1_ok :: "(nat \<Rightarrow> tb) \<Rightarrow> nat set \<Rightarrow> (u32 \<times> u32) list \<Rightarrow> bool" where
  "jt1_ok T L js \<longleftrightarrow> length js = JUMPTABLE1_SIZE \<and> (\<forall>i < JUMPTABLE1_SIZE. js ! i = (0, 0)
     \<or> (\<exists>t \<in> L. js ! i = (tb_eip (T t), tc_ptr (T t)) \<and> i = jumptable1_entry (tb_eip (T t))))"

definition cache_ok :: "'h env \<Rightarrow> nat set \<Rightarrow> 'h tcache \<Rightarrow> nat set \<Rightarrow> (jump \<rightharpoonup> nat) \<Rightarrow> bool" where
  "cache_ok E U s L ch \<longleftrightarrow> L \<subseteq> U \<and> chain_ok s L ch \<and> pc_ok E U (tbs s) L (pc_table s) (pc_links s)
     \<and> tree_ok E (tbs s) L (tc_tree s) \<and> clock_ok E L (clock_links s)
     \<and> jt2_ok E U (tbs s) L (jumptable2 s) (jt2_links s) \<and> jt1_ok (tbs s) L (jumptable1 s) \<and> nb_tbs s = of_nat (card L)"

lemma env_okD:
  assumes "env_ok E U"
  shows "finite U" "2 ^ 28 + 2 * card U + 40 \<le> fuel E" "Suc (card U) < 2 ^ 29" "needle E \<notin> U" "clock_list E \<noteq> 0"
    "t \<in> U \<Longrightarrow> t \<noteq> 0" "t \<in> U \<Longrightarrow> t + tc_off E \<noteq> nil"
    "t \<in> U \<Longrightarrow> t + clock_off E \<notin> {head_of (clock_list E), tail_of (clock_list E)}"
    "malloc_fresh (bucket_malloc E h) (in_use h ((\<lambda>t. t + pc_off E) ` U))"
    "malloc_fresh (bucket_malloc E h) (in_use h ((\<lambda>t. t + jt2_off E) ` U))"
  using assms unfolding env_ok_def by blast+

text \<open>The invariant reads six fields of the blocks.\<close>

definition same_key :: "tb \<Rightarrow> tb \<Rightarrow> bool" where
  "same_key b c \<longleftrightarrow> tb_eip b = tb_eip c \<and> tb_eip_virt b = tb_eip_virt c \<and> eip_phys b = eip_phys c
     \<and> eip_phys_end_page b = eip_phys_end_page c \<and> tc_ptr b = tc_ptr c \<and> tc_len b = tc_len c"

lemma same_key_refl [simp]: "same_key b b"
  by (simp add: same_key_def)

lemma same_key_strip: "strip b = strip c \<Longrightarrow> same_key b c"
  by (simp add: same_key_def strip_sel [of b c])

lemma same_key_span: "same_key b c \<Longrightarrow> code_span b = code_span c"
  by (simp add: same_key_def code_span_def)

lemma pc_ok_cong:
  assumes "pc_ok E U T L h l" "\<And>t. t \<in> L \<Longrightarrow> same_key (T' t) (T t)"
  shows "pc_ok E U T' L h l"
proof -
  have "holds_set (pc_hash (pc_off E) T') (pc_equal (pc_off E) T') l h ((\<lambda>t. t + pc_off E) ` L)"
    by (rule holds_set_cong [of "pc_hash (pc_off E) T" "pc_equal (pc_off E) T"])
      (use assms in \<open>auto simp: pc_ok_def pc_hash_def pc_equal_def same_key_def Let_def\<close>)
  then show ?thesis using assms(1) by (simp add: pc_ok_def)
qed

lemma tc_less_cong:
  "same_key (T' (x - off)) (T (x - off)) \<Longrightarrow> same_key (T' (y - off)) (T (y - off)) \<Longrightarrow> tc_less off T' x y = tc_less off T x y"
  by (simp add: tc_less_def same_key_def Let_def)

lemma sorted_by_lt_cong:
  "(\<And>x y. x \<in> set xs \<Longrightarrow> y \<in> set xs \<Longrightarrow> lt' x y = lt x y) \<Longrightarrow> sorted_by_lt lt' xs = sorted_by_lt lt xs"
  by (induction xs) auto

lemma tree_holds_cong:
  "tree_holds lt tree xs \<Longrightarrow> (\<And>x y. x \<in> set xs \<Longrightarrow> y \<in> set xs \<Longrightarrow> lt' x y = lt x y) \<Longrightarrow> tree_holds lt' tree xs"
  using sorted_by_lt_cong [of xs lt' lt] by (simp add: tree_holds_def)

lemma tree_ok_cong:
  assumes "tree_ok E T L tree" "\<And>t. t \<in> L \<Longrightarrow> same_key (T' t) (T t)"
  shows "tree_ok E T' L tree"
proof -
  obtain xs where xs: "tree_holds (tc_less (tc_off E) T) tree xs" "set xs = (\<lambda>t. t + tc_off E) ` L"
    using assms(1) by (auto simp: tree_ok_def)
  have "tree_holds (tc_less (tc_off E) T') tree xs"
    by (rule tree_holds_cong [OF xs(1)], rule tc_less_cong) (use xs(2) assms(2) in auto)
  then show ?thesis using xs(2) by (auto simp: tree_ok_def)
qed

lemma truncate_key: "same_key b c \<Longrightarrow> tb_t.truncate b = tb_t.truncate c"
  by (simp add: same_key_def tb_t.truncate_def)

lemma jt2_ok_cong:
  assumes "jt2_ok E U T L h l" "\<And>t. t \<in> L \<Longrightarrow> same_key (T' t) (T t)"
  shows "jt2_ok E U T' L h l"
proof -
  let ?tr = "\<lambda>T x. tb_t.truncate (T x)" and ?off = "jt2_off E"
  obtain M where M: "holds_map ((\<lambda>t. t + ?off) ` U) ?off (?tr T) M h l" "ran M \<subseteq> L" using assms(1) by (auto simp: jt2_ok_def)
  have eq: "?tr T' t = ?tr T t" if "M k = Some t" for k t using truncate_key [OF assms(2)] ranI [of M k t] M(2) that by blast
  have "holds_set (jumptable2_hash ?off (?tr T')) (jumptable2_equal ?off (?tr T')) l h (elems ?off M)"
    by (rule holds_set_cong [of "jumptable2_hash ?off (?tr T)" "jumptable2_equal ?off (?tr T)"])
      (use M(1) eq in \<open>auto simp: holds_map_def jumptable2_hash_def tb_entry_def key_def dest!: in_elems\<close>)
  moreover have "key (?tr T') t = k" if "M k = Some t" for k t
  proof -
    have "key (?tr T) t = k" using M(1) that unfolding holds_map_def by blast
    then show ?thesis by (simp add: key_def eq [OF that])
  qed
  ultimately show ?thesis using M by (auto simp: jt2_ok_def holds_map_def)
qed

lemma jt1_ok_cong:
  assumes "jt1_ok T L js" "\<And>t. t \<in> L \<Longrightarrow> same_key (T' t) (T t)"
  shows "jt1_ok T' L js"
proof -
  have "\<exists>t \<in> L. js ! i = (tb_eip (T' t), tc_ptr (T' t)) \<and> i = jumptable1_entry (tb_eip (T' t))"
    if "t \<in> L" "js ! i = (tb_eip (T t), tc_ptr (T t)) \<and> i = jumptable1_entry (tb_eip (T t))" for i t
    using that assms(2) [OF that(1)] by (intro bexI [of _ t]) (auto simp: same_key_def)
  then show ?thesis using assms(1) unfolding jt1_ok_def by metis
qed

subsection \<open>Lookup by code address\<close>

lemma unat_code_end:
  assumes "unat (tc_ptr b) + unat (tc_len b) < 2 ^ 32"
  shows "unat (tc_ptr b + ucast (tc_len b)) = unat (tc_ptr b) + unat (tc_len b)"
  using assms by (simp add: unat_word_ariths unat_u16_u32)

lemma span_cases:
  assumes "code_span b \<inter> code_span c = {}" "tc_len b \<noteq> 0" "tc_len c \<noteq> 0"
  shows "unat (tc_ptr b) + unat (tc_len b) \<le> unat (tc_ptr c) \<or> unat (tc_ptr c) + unat (tc_len c) \<le> unat (tc_ptr b)"
proof (rule ccontr)
  assume "\<not> ?thesis"
  then have "max (unat (tc_ptr b)) (unat (tc_ptr c)) \<in> code_span b \<inter> code_span c"
    using assms(2,3) by (auto simp: code_span_def max_def unat_gt_0 [symmetric])
  then show False using assms(1) by blast
qed

text \<open>The tree searched with a block that covers \<open>p\<close> only, or with a new block.\<close>

lemma tc_order:
  assumes co: "code_ok T L" and e: "e \<notin> L" and b: "unat (tc_ptr (T e)) + unat (tc_len (T e)) < 2 ^ 32" "tc_len (T e) \<noteq> 0"
    and p: "tc_len (T e) = 1 \<or> (\<forall>t \<in> L. code_span (T t) \<inter> code_span (T e) = {})"
  shows "weak_order_on (insert (e + off) ((\<lambda>t. t + off) ` L)) (tc_less off T)"
    "x \<in> insert e L \<Longrightarrow> y \<in> insert e L \<Longrightarrow> tc_less off T (x + off) (y + off) \<longleftrightarrow>
      unat (tc_ptr (T x)) + unat (tc_len (T x)) \<le> unat (tc_ptr (T y))"
proof -
  let ?lo = "\<lambda>x. unat (tc_ptr (T (x - off)))" and ?hi = "\<lambda>x. unat (tc_ptr (T (x - off))) + unat (tc_len (T (x - off)))"
  have g: "unat (tc_ptr (T t)) + unat (tc_len (T t)) < 2 ^ 32" "tc_len (T t) \<noteq> 0" if "t \<in> insert e L" for t
    using co that b by (auto simp: code_ok_def good_block_def)
  show lt: "tc_less off T (x + off) (y + off) \<longleftrightarrow> unat (tc_ptr (T x)) + unat (tc_len (T x)) \<le> unat (tc_ptr (T y))"
    if "x \<in> insert e L" "y \<in> insert e L" for x y
    using unat_code_end [OF g(1) [OF that(1)]] by (simp add: tc_less_def word_le_nat_alt Let_def)
  have dis: "?hi x \<le> ?lo y \<or> ?hi y \<le> ?lo x"
    if "x = t + off" "y = u + off" "code_span (T t) \<inter> code_span (T u) = {}" "t \<in> insert e L" "u \<in> insert e L" for x y t u
    using span_cases [OF that(3) g(2) [OF that(4)] g(2) [OF that(5)]] that(1,2) by simp
  show "weak_order_on (insert (e + off) ((\<lambda>t. t + off) ` L)) (tc_less off T)"
  proof (rule intervals_weak_order [where lo = ?lo and hi = ?hi])
    show "tc_less off T x y \<longleftrightarrow> ?hi x \<le> ?lo y" if "x \<in> insert (e + off) ((\<lambda>t. t + off) ` L)" "y \<in> insert (e + off) ((\<lambda>t. t + off) ` L)" for x y
      using that lt by auto
    show "?lo x < ?hi x" if "x \<in> insert (e + off) ((\<lambda>t. t + off) ` L)" for x using that g(2) by (auto simp: unat_gt_0)
    have "?hi x \<le> ?lo (e + off) \<or> ?hi (e + off) \<le> ?lo x" if d: "\<forall>t \<in> L. code_span (T t) \<inter> code_span (T e) = {}" "x \<in> (\<lambda>t. t + off) ` L" for x
    proof -
      obtain t where "x = t + off" "t \<in> L" using d(2) by auto
      then show ?thesis using dis [of x t "e + off" e] d(1) by blast
    qed
    moreover have "?hi (e + off) = Suc (?lo (e + off))" if "tc_len (T e) = 1" using that by simp
    ultimately show "?hi (e + off) = Suc (?lo (e + off)) \<or> (\<forall>x \<in> (\<lambda>t. t + off) ` L. x \<noteq> e + off \<longrightarrow> ?hi x \<le> ?lo (e + off) \<or> ?hi (e + off) \<le> ?lo x)"
      using p by blast
    show "?hi x \<le> ?lo y \<or> ?hi y \<le> ?lo x" if xy: "x \<in> (\<lambda>t. t + off) ` L" "y \<in> (\<lambda>t. t + off) ` L" "x \<noteq> y" for x y
    proof -
      obtain t u where tu: "x = t + off" "y = u + off" "t \<in> L" "u \<in> L" using xy by auto
      moreover have "code_span (T t) \<inter> code_span (T u) = {}" using co tu xy(3) unfolding code_ok_def by auto
      ultimately show ?thesis using dis by blast
    qed
  qed
qed

lemma card_blocks:
  assumes "env_ok E U" "L \<subseteq> U"
  shows "finite L" "card ((\<lambda>t. t + off) ` L) = card L" "card L \<le> card U"
  using assms env_okD(1) [OF assms(1)] by (auto simp: card_image inj_on_def card_mono intro: finite_subset)

text \<open>The memory of blocks with the block on the stack that \<open>tb_find\<close> searches with.\<close>

definition with_needle :: "'h env \<Rightarrow> u32 \<Rightarrow> (nat \<Rightarrow> tb) \<Rightarrow> nat \<Rightarrow> tb" where
  "with_needle E p T = T(needle E := needle_tb\<lparr>tc_ptr := p\<rparr>)"

lemma with_needle_sel:
  "tc_ptr (with_needle E p T (needle E)) = p" "tc_len (with_needle E p T (needle E)) = 1"
  "t \<noteq> needle E \<Longrightarrow> with_needle E p T t = T t"
  by (simp_all add: with_needle_def tc_len_def needle_tb_def)

lemma needle_order:
  assumes E: "env_ok E U" and L: "L \<subseteq> U" and co: "code_ok T L" and p: "unat p + 1 < 2 ^ 32"
  defines "lt \<equiv> tc_less (tc_off E) (with_needle E p T)"
  shows "weak_order_on (insert (needle E + tc_off E) ((\<lambda>t. t + tc_off E) ` L)) lt"
    and "t \<in> L \<Longrightarrow> \<not> lt (t + tc_off E) (needle E + tc_off E) \<and> \<not> lt (needle E + tc_off E) (t + tc_off E) \<longleftrightarrow> unat p \<in> code_span (T t)"
    and "t \<in> L \<Longrightarrow> u \<in> L \<Longrightarrow> t \<noteq> u \<Longrightarrow> \<not> lt (u + tc_off E) (t + tc_off E) \<Longrightarrow> lt (t + tc_off E) (u + tc_off E)"
proof -
  let ?off = "tc_off E" and ?e = "needle E" and ?T = "with_needle E p T"
  have nL: "?e \<notin> L" using env_okD(4) [OF E] L by blast
  have TL: "?T t = T t" if "t \<in> L" for t using that nL by (auto simp: with_needle_def)
  have co': "code_ok ?T L" using co by (simp add: code_ok_def TL)
  have eb: "unat (tc_ptr (?T ?e)) + unat (tc_len (?T ?e)) < 2 ^ 32" "tc_len (?T ?e) \<noteq> 0" using p by (simp_all add: with_needle_sel)
  note ord = tc_order [OF co' nL eb disjI1 [OF with_needle_sel(2)], where off = ?off, folded lt_def]
  show "weak_order_on (insert (?e + ?off) ((\<lambda>t. t + ?off) ` L)) lt" using ord(1) by simp
  show "\<not> lt (t + ?off) (?e + ?off) \<and> \<not> lt (?e + ?off) (t + ?off) \<longleftrightarrow> unat p \<in> code_span (T t)" if "t \<in> L"
    using ord(2) [of t ?e] ord(2) [of ?e t] that by (auto simp: with_needle_sel TL code_span_def)
  show "lt (t + ?off) (u + ?off)" if tu: "t \<in> L" "u \<in> L" "t \<noteq> u" "\<not> lt (u + ?off) (t + ?off)"
  proof -
    have "code_span (?T t) \<inter> code_span (?T u) = {}" using co' tu(1-3) unfolding code_ok_def by metis
    moreover have "tc_len (?T t) \<noteq> 0" "tc_len (?T u) \<noteq> 0" using co' tu(1,2) by (simp_all add: code_ok_def good_block_def)
    ultimately show ?thesis using span_cases [of "?T t" "?T u"] ord(2) [of t u] ord(2) [of u t] tu by simp
  qed
qed

lemma needle_search:
  assumes E: "env_ok E U" and L: "L \<subseteq> U" and co: "code_ok T L" and tr: "tree_ok E T L tree" and p: "unat p + 1 < 2 ^ 32"
  defines "lt \<equiv> tc_less (tc_off E) (with_needle E p T)" and "e \<equiv> needle E + tc_off E"
  shows "\<exists>xs. rbtree_find (fuel E) lt e tree = Inr (first_eq lt e xs) \<and> set xs = (\<lambda>t. t + tc_off E) ` L \<and> distinct xs \<and> sorted_by_lt lt xs
    \<and> (\<forall>pre x post. xs = pre @ x # post \<longrightarrow> rbtree_next (fuel E) x tree = Inr (hd (post @ [0])))"
proof -
  have nL: "needle E \<notin> L" using env_okD(4) [OF E] L by blast
  have "tree_ok E (with_needle E p T) L tree" by (rule tree_ok_cong [OF tr]) (use nL in \<open>auto simp: with_needle_def\<close>)
  then obtain xs where xs: "tree_holds lt tree xs" "set xs = (\<lambda>t. t + tc_off E) ` L" by (auto simp: tree_ok_def lt_def)
  then obtain tr where tr: "focus tree tr []" "inorder tr = xs" "sorted_by_lt lt xs" by (auto simp: tree_holds_def)
  have dxs: "distinct xs" "nil \<notin> set xs" using focus_distinct [OF tr(1)] tr(2) by simp_all
  have len: "length xs < fuel E"
    using distinct_card [OF dxs(1)] xs(2) card_blocks(2) [OF E L, of "tc_off E"] card_blocks(3) [OF E L] env_okD(2) [OF E] by simp
  have w: "weak_order_on (insert e (set xs)) lt" using needle_order(1) [OF E L co p] unfolding lt_def e_def xs(2) .
  have "rbtree_find (fuel E) lt e tree = Inr (first_eq lt e xs)"
    using rbtree_find_at(1) [OF tr(1), of "fuel E" e lt] len w tr(2,3) by simp
  moreover have "rbtree_next (fuel E) x tree = Inr (hd (post @ [0]))" if "xs = pre @ x # post" for pre x post
    using neighbours(1) [OF tr(1), of pre x post "fuel E"] tr(2) that len dxs(2) by (cases post) (auto simp: rbtree_next_def)
  ultimately show ?thesis using xs(2) dxs(1) tr(3) by blast
qed

text \<open>\<open>tb_find\<close> returns the block whose code contains the address, or NULL.\<close>

lemma tb_find_at:
  assumes E: "env_ok E U" and L: "L \<subseteq> U" and co: "code_ok (tbs s) L" and tr: "tree_ok E (tbs s) L (tc_tree s)"
    and p: "unat p + 1 < 2 ^ 32"
  shows "t \<in> L \<Longrightarrow> unat p \<in> code_span (tbs s t) \<Longrightarrow> tb_find E p s = Inr t"
    "(\<And>t. t \<in> L \<Longrightarrow> unat p \<notin> code_span (tbs s t)) \<Longrightarrow> tb_find E p s = Inr 0"
proof -
  let ?off = "tc_off E" and ?e = "needle E + tc_off E" and ?lt = "tc_less (tc_off E) (with_needle E p (tbs s))"
  note ord = needle_order [OF E L co p]
  obtain xs where find: "rbtree_find (fuel E) ?lt ?e (tc_tree s) = Inr (first_eq ?lt ?e xs)" and xs: "set xs = (\<lambda>t. t + ?off) ` L"
      and dxs: "distinct xs" and srt: "sorted_by_lt ?lt xs"
      and nxt: "\<And>pre x post. xs = pre @ x # post \<Longrightarrow> rbtree_next (fuel E) x (tc_tree s) = Inr (hd (post @ [0]))"
    using needle_search [OF E L co tr p] by blast
  have w: "weak_order_on (insert ?e (set xs)) ?lt" using ord(1) xs by simp
  show "tb_find E p s = Inr 0" if none: "\<And>t. t \<in> L \<Longrightarrow> unat p \<notin> code_span (tbs s t)"
  proof -
    have "first_eq ?lt ?e xs = 0" using none ord(2) xs by (intro first_eq_none) auto
    then show ?thesis using find by (simp add: tb_find_def with_needle_def)
  qed
  show "tb_find E p s = Inr t" if t: "t \<in> L" "unat p \<in> code_span (tbs s t)"
  proof -
    have fe: "first_eq ?lt ?e xs = t + ?off"
    proof (rule first_eq_unique [OF w srt])
      show "t + ?off \<in> set xs" using xs t(1) by simp
      show "\<not> ?lt (t + ?off) ?e" "\<not> ?lt ?e (t + ?off)" using ord(2) [OF t(1)] t(2) by simp_all
      show "y = t + ?off" if y: "y \<in> set xs" "\<not> ?lt y ?e" "\<not> ?lt ?e y" for y
      proof -
        obtain u where u: "y = u + ?off" "u \<in> L" using y(1) xs by auto
        then have "unat p \<in> code_span (tbs s u)" using ord(2) [OF u(2)] y(2,3) by simp
        then show ?thesis using co t u by (auto simp: code_ok_def)
      qed
    qed
    obtain pre post where pp: "xs = pre @ (t + ?off) # post" using t(1) xs by (metis imageI split_list)
    have "hd (post @ [0]) = 0 \<or> ?lt (t + ?off) (hd (post @ [0]))"
    proof (cases post)
      case (Cons y ys)
      then obtain u where u: "y = u + ?off" "u \<in> L" "t \<noteq> u" using pp xs dxs by fastforce
      then show ?thesis using ord(3) [OF t(1) u(2,3)] srt pp Cons by (auto simp: sorted_wrt_append)
    qed simp
    moreover have "t + ?off \<noteq> 0" using t(1) env_okD(6) [OF E] L by auto
    ultimately show ?thesis using find fe nxt [OF pp] by (simp add: tb_find_def with_needle_def rbtree_end_def)
  qed
qed

lemma cache_okD:
  assumes "cache_ok E U s L ch"
  shows "L \<subseteq> U" "chain_ok s L ch" "pc_ok E U (tbs s) L (pc_table s) (pc_links s)" "tree_ok E (tbs s) L (tc_tree s)"
    "clock_ok E L (clock_links s)" "jt2_ok E U (tbs s) L (jumptable2 s) (jt2_links s)" "jt1_ok (tbs s) L (jumptable1 s)"
    "nb_tbs s = of_nat (card L)" "code_ok (tbs s) L"
  using assms chain_okD(3) by (auto simp: cache_ok_def)

lemma tb_find_entry:
  assumes E: "env_ok E U" and L: "L \<subseteq> U" and co: "code_ok (tbs s) L" and tr: "tree_ok E (tbs s) L (tc_tree s)" and t: "t \<in> L"
  shows "tb_find E (tc_ptr (tbs s t)) s = Inr t"
proof -
  have g: "good_block (tbs s t)" using co t by (simp add: code_ok_def)
  then have "unat (tc_ptr (tbs s t)) \<in> code_span (tbs s t)" "unat (tc_ptr (tbs s t)) + 1 < 2 ^ 32"
    by (auto simp: good_block_def code_span_def unat_gt_0 [symmetric])
  then show ?thesis using tb_find_at(1) [OF E L co tr _ t] by blast
qed

subsection \<open>Lookup by program counter\<close>

text \<open>The block starts at the given addresses, and if both it and the request span two pages, they agree on the second.\<close>

definition starts_at :: "tb \<Rightarrow> u32 \<Rightarrow> u32 \<Rightarrow> u32 \<Rightarrow> u32 \<Rightarrow> bool" where
  "starts_at b phys end_page virt ip \<longleftrightarrow> eip_phys b = phys \<and> tb_eip_virt b = virt \<and> tb_eip b = ip
     \<and> (eip_phys_end_page b = page_of phys \<or> end_page = page_of phys \<or> eip_phys_end_page b = end_page)"

lemma tb_find_pc_at:
  assumes E: "env_ok E U" and c: "cache_ok E U s L ch"
  shows "\<exists>r. tb_find_pc E phys end_page virt ip s = Inr r
    \<and> (if \<exists>t \<in> L. starts_at (tbs s t) phys end_page virt ip then r \<in> L \<and> starts_at (tbs s r) phys end_page virt ip else r = 0)"
proof -
  define T where "T = (tbs s)(needle E := (tbs s (needle E))\<lparr>eip_phys := phys, eip_phys_end_page := end_page, tb_eip_virt := virt, tb_eip := ip\<rparr>)"
  let ?off = "pc_off E" and ?e = "needle E" and ?hf = "pc_hash (pc_off E) T" and ?eq = "pc_equal (pc_off E) T"
  let ?S = "(\<lambda>t. t + pc_off E) ` L"
  note L = cache_okD(1) [OF c]
  have nL: "?e \<notin> L" using env_okD(4) [OF E] L by blast
  then have TL: "T t = tbs s t" if "t \<in> L" for t using that by (auto simp: T_def)
  have "pc_ok E U T L (pc_table s) (pc_links s)" by (rule pc_ok_cong [OF cache_okD(3) [OF c]]) (simp add: TL)
  then have h: "holds_set ?hf ?eq (pc_links s) (pc_table s) ?S" by (simp add: pc_ok_def)
  have "card ?S < fuel E" using card_blocks [OF E L] env_okD(2) [OF E] by simp
  then obtain r where r: "hash_find (fuel E) ?hf ?eq (?e + ?off) (pc_table s) (pc_links s) = Inr r"
      "if \<exists>x \<in> ?S. ?eq x (?e + ?off) then r \<in> ?S \<and> ?eq r (?e + ?off) else r = 0"
    using pt.hash_find_set [OF h] by blast
  have eq: "?eq (t + ?off) (?e + ?off) \<longleftrightarrow> starts_at (tbs s t) phys end_page virt ip" if "t \<in> L" for t
    using TL [OF that] by (auto simp: pc_equal_def starts_at_def T_def Let_def)
  show ?thesis
  proof (cases "\<exists>t \<in> L. starts_at (tbs s t) phys end_page virt ip")
    case True
    then have "\<exists>x \<in> ?S. ?eq x (?e + ?off)" using eq by blast
    then have "r \<in> ?S" "?eq r (?e + ?off)" using r(2) by (simp_all split: if_splits)
    then obtain t where t: "r = t + ?off" "t \<in> L" "starts_at (tbs s t) phys end_page virt ip" using eq by auto
    have "t \<noteq> 0" using env_okD(6) [OF E] L t(2) by auto
    then show ?thesis using True t r(1) tb_find_entry [OF E L cache_okD(9,4) [OF c] t(2)]
      by (simp add: tb_find_pc_def T_def [symmetric])
  next
    case False
    then have "r = 0" using r(2) eq by (auto split: if_splits)
    then show ?thesis using False r(1) by (simp add: tb_find_pc_def T_def [symmetric])
  qed
qed

subsection \<open>Adding a block\<close>

text \<open>A block as \<open>tb_malloc\<close> and the translator leave it, whose code and program counter are not in the cache.\<close>

definition new_block :: "'h tcache \<Rightarrow> nat set \<Rightarrow> nat \<Rightarrow> bool" where
  "new_block s L t \<longleftrightarrow> fresh_tb s t \<and> good_block (tbs s t) \<and> (\<forall>u \<in> L. code_span (tbs s u) \<inter> code_span (tbs s t) = {})
     \<and> (let b = tbs s t in \<forall>u \<in> L. \<not> starts_at (tbs s u) (eip_phys b) (eip_phys_end_page b) (tb_eip_virt b) (tb_eip b))"

lemma pc_equal_starts:
  "pc_equal off T (u + off) (t + off)
    \<longleftrightarrow> starts_at (T u) (eip_phys (T t)) (eip_phys_end_page (T t)) (tb_eip_virt (T t)) (tb_eip (T t))"
  by (auto simp: pc_equal_def starts_at_def Let_def)

lemma pc_add:
  assumes E: "env_ok E U" and L: "L \<subseteq> U" and p: "pc_ok E U T L h l" and t: "t \<in> U" "t \<notin> L"
    and n: "\<forall>u \<in> L. \<not> starts_at (T u) (eip_phys (T t)) (eip_phys_end_page (T t)) (tb_eip_virt (T t)) (tb_eip (T t))"
  shows "\<exists>h' l'. hash_insert (fuel E) (pc_hash (pc_off E) T) (pc_equal (pc_off E) T) (bucket_malloc E h) (t + pc_off E) h l = Inr (0, h', l')
    \<and> pc_ok E U T (insert t L) h' l'"
proof -
  let ?off = "pc_off E" and ?hf = "pc_hash (pc_off E) T" and ?eq = "pc_equal (pc_off E) T" and ?m = "bucket_malloc E h"
  let ?S = "(\<lambda>t. t + pc_off E) ` L" and ?V = "(\<lambda>t. t + pc_off E) ` U" and ?e = "t + pc_off E"
  have hs: "holds_set ?hf ?eq l h ?S" "region (buckets h) (unat (bucket_cnt h)) \<inter> ?V = {}" using p by (simp_all add: pc_ok_def)
  have ne: "\<not> (\<exists>x \<in> ?S. ?eq x ?e)" using n pc_equal_starts by fastforce
  have e: "(\<exists>x \<in> ?S. ?eq x ?e) \<or> ?e \<notin> in_use h ?S" "?e \<noteq> 0" using hs(2) t env_okD(6) [OF E t(1)] by (auto simp: in_use_def)
  have c: "Suc (card ?S) < fuel E" "32 < fuel E" "Suc (card ?S) < 2 ^ 29"
    using card_blocks [OF E L] env_okD(2,3) [OF E] by auto
  have f: "malloc_fresh ?m (in_use h (insert ?e ?S))"
    by (rule malloc_fresh_mono [OF env_okD(9) [OF E]]) (use L t in \<open>auto simp: in_use_def\<close>)
  obtain r h' l' where r: "hash_insert (fuel E) ?hf ?eq ?m ?e h l = Inr (r, h', l')" "r = 0" "holds_set ?hf ?eq l' h' (insert ?e ?S)"
    using pt.hash_insert_set [OF hs(1) e c f] ne by metis
  have "malloc_fresh ?m ?V" by (rule malloc_fresh_mono [OF env_okD(9) [OF E, of h]]) (simp add: in_use_def)
  then have "region (buckets h') (unat (bucket_cnt h')) \<inter> ?V = {}"
    by (rule moved_region [OF hash_insert_moved [OF r(1)] _ hs(2) r(3)])
  then show ?thesis using r by (auto simp: pc_ok_def)
qed

lemma tree_add:
  assumes E: "env_ok E U" and L: "L \<subseteq> U" and co: "code_ok T L" and tr: "tree_ok E T L tree" and t: "t \<in> U" "t \<notin> L"
    and g: "good_block (T t)" and d: "\<forall>u \<in> L. code_span (T u) \<inter> code_span (T t) = {}"
  shows "\<exists>tree'. rbtree_find (fuel E) (tc_less (tc_off E) T) (t + tc_off E) tree = Inr 0
    \<and> rbtree_insert (fuel E) (tc_less (tc_off E) T) (t + tc_off E) tree = Inr tree' \<and> tree_ok E T (insert t L) tree'"
proof -
  let ?off = "tc_off E" and ?lt = "tc_less (tc_off E) T" and ?e = "t + tc_off E"
  obtain xs where xs: "tree_holds ?lt tree xs" "set xs = (\<lambda>t. t + ?off) ` L" using tr by (auto simp: tree_ok_def)
  have dxs: "distinct xs" using xs(1) focus_distinct [of tree _ "[]"] by (fastforce simp: tree_holds_def)
  have len: "length xs < fuel E"
    using distinct_card [OF dxs] xs(2) card_blocks(2) [OF E L, of ?off] card_blocks(3) [OF E L] env_okD(2) [OF E] by simp
  have eb: "unat (tc_ptr (T t)) + unat (tc_len (T t)) < 2 ^ 32" "tc_len (T t) \<noteq> 0" using g by (simp_all add: good_block_def)
  note ord = tc_order [OF co t(2) eb disjI2 [OF d], where off = ?off]
  have w: "weak_order_on (insert ?e (set xs)) ?lt" using ord(1) xs(2) by simp
  have "?lt ?e y" if y: "y \<in> set xs" "\<not> ?lt y ?e" for y
  proof -
    obtain u where u: "y = u + ?off" "u \<in> L" using y(1) xs(2) by auto
    have "tc_len (T u) \<noteq> 0" using co u(2) by (simp add: code_ok_def good_block_def)
    then show ?thesis using span_cases [of "T u" "T t"] ord(2) [of u t] ord(2) [of t u] d u y(2) eb by auto
  qed
  then have z: "first_eq ?lt ?e xs = 0" by (rule first_eq_none)
  have wF: "weak_order_on (insert (op_elem (Find ?e)) (set xs)) ?lt" "weak_order_on (insert (op_elem (Insert ?e)) (set xs)) ?lt"
    using w by simp_all
  have "rbtree_find (fuel E) ?lt ?e tree = Inr 0"
    using tree_op_refines [OF wF(1) xs(1) _ len] z by (auto simp: rbind_Inr)
  moreover have "allowed (Insert ?e) xs" using xs(2) t env_okD(6,7) [OF E t(1)] by auto
  from tree_op_refines [OF wF(2) xs(1) this len] obtain tree' where
    "rbtree_insert (fuel E) ?lt ?e tree = Inr tree'" "tree_holds ?lt tree' (insort_before ?lt ?e xs)" by (auto simp: rbind_Inr)
  moreover have "set (insort_before ?lt ?e xs) = (\<lambda>t. t + ?off) ` insert t L"
    using sorted_insort_before(2) [OF w] xs by (auto simp: tree_holds_def)
  ultimately show ?thesis by (auto simp: tree_ok_def)
qed

lemma clock_add:
  assumes E: "env_ok E U" and c: "clock_ok E L l" and t: "t \<in> U" "t \<notin> L"
  shows "\<exists>l'. list_push_back (clock_list E) (t + clock_off E) l = Inr l' \<and> clock_ok E (insert t L) l'"
proof -
  obtain cs where cs: "list_at l (clock_list E) cs" "set cs = (\<lambda>t. t + clock_off E) ` L" using c by (auto simp: clock_ok_def)
  have "t + clock_off E \<notin> set (nodes (clock_list E) cs)" "t + clock_off E \<noteq> 0"
    using env_okD(6,8) [OF E t(1)] t(2) cs(2) by (auto simp: set_nodes)
  then obtain l' where "list_push_back (clock_list E) (t + clock_off E) l = Inr l'" "list_at l' (clock_list E) (cs @ [t + clock_off E])"
    using list_push_back_at [OF cs(1)] by blast
  then show ?thesis using cs(2) by (auto simp: clock_ok_def intro!: exI [of _ "cs @ [t + clock_off E]"])
qed

text \<open>The accessed bit and the other components of the cache do not matter to the links.\<close>

lemma chain_ok_cong:
  assumes ok: "chain_ok s L ch" and T: "\<And>t. tbs s' t = (tbs s t)\<lparr>accessed_bit := accessed_bit (tbs s' t)\<rparr>"
    and c: "code s' = code s" "fcallout_patches s' = fcallout_patches s"
  shows "chain_ok s' L ch"
proof -
  have sel: "tc_ptr (tbs s' t) = tc_ptr (tbs s t)" "tc_len (tbs s' t) = tc_len (tbs s t)" "jmp_first (tbs s' t) = jmp_first (tbs s t)"
    "jmp_next (tbs s' t) = jmp_next (tbs s t)" "jmp_offset (tbs s' t) = jmp_offset (tbs s t)" "edge_offset (tbs s' t) = edge_offset (tbs s t)" for t
    by (subst T, simp add: tc_len_def)+
  have g: "get_slot s' = get_slot s"
  proof
    show "get_slot s' x = get_slot s x" for x by (cases x) (simp_all add: get_slot.simps sel)
  qed
  have p: "plain s' = plain s" unfolding plain_def c ..
  have st: "has_jump (tbs s' t) n = has_jump (tbs s t) n" "site (tbs s' t) n = site (tbs s t) n" "good_block (tbs s' t) = good_block (tbs s t)"
    "code_span (tbs s' t) = code_span (tbs s t)" for t n
    by (simp_all add: has_jump_def site_def good_block_def code_span_def sel)
  show ?thesis using ok unfolding chain_ok_def wired_def code_ok_def dest_def g p c st sel .
qed

lemma chain_ok_insert:
  assumes ok: "chain_ok s L ch" and t: "t \<notin> L" and n: "new_block s L t"
  shows "chain_ok s (insert t L) ch"
proof -
  note c = chain_okD(1) [OF ok]
  have f: "fresh_tb s t" "good_block (tbs s t)" "\<forall>u \<in> L. code_span (tbs s u) \<inter> code_span (tbs s t) = {}"
    using n by (auto simp: new_block_def)
  have to: "ch x \<noteq> Some t" "ch (t, m) = None" for x m
    using chainedD(2) [OF c, of x t] chainedD(2) [OF c, of "(t, m)"] t by (auto intro: ccontr)
  have "linked (get_slot s) (get_slot s (First t)) [] (t OR 2)" using f(1) by (simp add: fresh_tb_def get_slot.simps)
  moreover have "get_slot s (nx x) = 0" if "fst x = t" "snd x < 2" for x
    using f(1) that less_2_cases [of "snd x"] by (cases x) (auto simp: fresh_tb_def get_slot.simps)
  moreover have "aligned t" using f(1) by (simp add: fresh_tb_def)
  ultimately have "chained (get_slot s) (insert t L) ch"
    using c to unfolding chained_def by (auto intro!: exI [of _ "[]"])
  moreover have "wired s (insert t L) ch" using chain_okD(2) [OF ok] f(1) to(2) by (auto simp: wired_def fresh_tb_def)
  moreover have "code_ok (tbs s) (insert t L)" using chain_okD(3) [OF ok] f(2,3) by (auto simp: code_ok_def Int_commute)
  ultimately show ?thesis using ok by (auto simp: chain_ok_def)
qed

lemma chain_ok_delete:
  assumes ok: "chain_ok s L ch" and t: "\<And>x V. ch x = Some V \<Longrightarrow> fst x \<noteq> t \<and> V \<noteq> t"
  shows "chain_ok s (L - {t}) ch"
proof -
  have "chained (get_slot s) (L - {t}) ch" using chain_okD(1) [OF ok] t unfolding chained_def by blast
  then show ?thesis using ok by (auto simp: chain_ok_def wired_def code_ok_def)
qed

text \<open>\<open>tb_add\<close> puts a new block into the cache.\<close>

lemma tb_add_ok:
  assumes E: "env_ok E U" and c: "cache_ok E U s L ch" and t: "t \<in> U" "t \<notin> L" and n: "new_block s L t"
  shows "\<exists>s'. tb_add E t s = Inr s' \<and> cache_ok E U s' (insert t L) ch \<and> tbs s' = (tbs s)(t := (tbs s t)\<lparr>accessed_bit := True\<rparr>)
    \<and> code s' = code s \<and> fcallout_patches s' = fcallout_patches s \<and> pool_locked_tb s' = pool_locked_tb s"
proof -
  note L = cache_okD(1) [OF c]
  have nb: "good_block (tbs s t)" "\<forall>u \<in> L. code_span (tbs s u) \<inter> code_span (tbs s t) = {}"
      "\<forall>u \<in> L. \<not> starts_at (tbs s u) (eip_phys (tbs s t)) (eip_phys_end_page (tbs s t)) (tb_eip_virt (tbs s t)) (tb_eip (tbs s t))"
    using n by (simp_all add: new_block_def Let_def)
  obtain h l where pc: "hash_insert (fuel E) (pc_hash (pc_off E) (tbs s)) (pc_equal (pc_off E) (tbs s)) (bucket_malloc E (pc_table s))
        (t + pc_off E) (pc_table s) (pc_links s) = Inr (0, h, l)" "pc_ok E U (tbs s) (insert t L) h l"
    using pc_add [OF E L cache_okD(3) [OF c] t nb(3)] by blast
  obtain tree where tr: "rbtree_find (fuel E) (tc_less (tc_off E) (tbs s)) (t + tc_off E) (tc_tree s) = Inr 0"
      "rbtree_insert (fuel E) (tc_less (tc_off E) (tbs s)) (t + tc_off E) (tc_tree s) = Inr tree" "tree_ok E (tbs s) (insert t L) tree"
    using tree_add [OF E L cache_okD(9,4) [OF c] t nb(1,2)] by blast
  obtain cl where cl: "list_push_back (clock_list E) (t + clock_off E) (clock_links s) = Inr cl" "clock_ok E (insert t L) cl"
    using clock_add [OF E cache_okD(5) [OF c] t] by blast
  define T where "T = (tbs s)(t := (tbs s t)\<lparr>accessed_bit := True\<rparr>)"
  define s' where "s' = s\<lparr>pc_table := h, pc_links := l, tc_tree := tree, tbs := T, clock_links := cl, nb_tbs := nb_tbs s + 1\<rparr>"
  have run: "tb_add E t s = Inr s'" using pc(1) tr(1,2) cl(1) by (simp add: tb_add_def upd_tb_def Let_def s'_def T_def)
  have k: "same_key (T u) (tbs s u)" for u by (simp add: T_def same_key_def tc_len_def)
  have "jt2_ok E U (tbs s) (insert t L) (jumptable2 s) (jt2_links s)" "jt1_ok (tbs s) (insert t L) (jumptable1 s)"
    using cache_okD(6,7) [OF c] unfolding jt2_ok_def jt1_ok_def by blast+
  then have j: "jt2_ok E U T (insert t L) (jumptable2 s) (jt2_links s)" "jt1_ok T (insert t L) (jumptable1 s)"
    using jt2_ok_cong jt1_ok_cong k by blast+
  have "chain_ok s' (insert t L) ch"
    by (rule chain_ok_cong [OF chain_ok_insert [OF cache_okD(2) [OF c] t(2) n]]) (simp_all add: s'_def T_def)
  moreover have "nb_tbs s' = of_nat (card (insert t L))" using cache_okD(8) [OF c] card_blocks(1) [OF E L] t(2) by (simp add: s'_def)
  ultimately have "cache_ok E U s' (insert t L) ch"
    using L t(1) pc_ok_cong [OF pc(2) k] tree_ok_cong [OF tr(3) k] cl(2) j by (simp add: cache_ok_def s'_def)
  then show ?thesis using run by (simp add: s'_def T_def)
qed

subsection \<open>Freeing a block\<close>

lemma pc_remove:
  assumes E: "env_ok E U" and L: "L \<subseteq> U" and p: "pc_ok E U T L h l" and t: "t \<in> L"
  shows "\<exists>h' l'. hash_delete (fuel E) (pc_hash (pc_off E) T) (pc_equal (pc_off E) T) (bucket_malloc E h) (t + pc_off E) h l
      = Inr (t + pc_off E, h', l') \<and> pc_ok E U T (L - {t}) h' l'"
proof -
  let ?off = "pc_off E" and ?hf = "pc_hash (pc_off E) T" and ?eq = "pc_equal (pc_off E) T" and ?m = "bucket_malloc E h"
  let ?S = "(\<lambda>t. t + pc_off E) ` L" and ?V = "(\<lambda>t. t + pc_off E) ` U" and ?e = "t + pc_off E"
  have hs: "holds_set ?hf ?eq l h ?S" "region (buckets h) (unat (bucket_cnt h)) \<inter> ?V = {}" using p by (simp_all add: pc_ok_def)
  have e: "?e \<in> ?S" "?eq ?e ?e" using t by (simp_all add: pc_equal_def Let_def)
  have c: "card ?S < fuel E" "32 < fuel E" using card_blocks [OF E L] env_okD(2) [OF E] by auto
  have f: "malloc_fresh ?m (in_use h ?S)" by (rule malloc_fresh_mono [OF env_okD(9) [OF E]]) (use L in \<open>auto simp: in_use_def\<close>)
  obtain r h' l' where r: "hash_delete (fuel E) ?hf ?eq ?m ?e h l = Inr (r, h', l')"
      "if \<exists>x \<in> ?S. ?eq x ?e then r \<in> ?S \<and> ?eq r ?e \<and> holds_set ?hf ?eq l' h' (?S - {r}) else r = 0 \<and> holds_set ?hf ?eq l' h' ?S"
    using pt.hash_delete_one [OF hs(1) c f] by blast
  have "\<exists>x \<in> ?S. ?eq x ?e" using e by blast
  with r(2) have r2: "r \<in> ?S" "?eq r ?e" "holds_set ?hf ?eq l' h' (?S - {r})" by simp_all
  have re: "r = ?e" by (rule holds_set_equal [OF hs(1) r2(1) e(1) r2(2)])
  have "malloc_fresh ?m ?V" by (rule malloc_fresh_mono [OF env_okD(9) [OF E, of h]]) (simp add: in_use_def)
  then have "region (buckets h') (unat (bucket_cnt h')) \<inter> ?V = {}"
    by (rule moved_region [OF hash_delete_moved [OF r(1)] _ hs(2) r2(3)])
  moreover have "?S - {?e} = (\<lambda>t. t + ?off) ` (L - {t})" by auto
  ultimately show ?thesis using r(1) r2(3) re by (simp add: pc_ok_def)
qed

lemma tree_remove:
  assumes E: "env_ok E U" and L: "L \<subseteq> U" and co: "code_ok T L" and tr: "tree_ok E T L tree" and t: "t \<in> L"
  shows "\<exists>tree'. rbtree_delete (fuel E) (t + tc_off E) tree = Inr tree' \<and> tree_ok E T (L - {t}) tree'"
proof -
  let ?off = "tc_off E" and ?lt = "tc_less (tc_off E) T" and ?e = "t + tc_off E"
  obtain xs where xs: "tree_holds ?lt tree xs" "set xs = (\<lambda>t. t + ?off) ` L" using tr by (auto simp: tree_ok_def)
  have dxs: "distinct xs" using xs(1) focus_distinct [of tree _ "[]"] by (fastforce simp: tree_holds_def)
  have len: "length xs < fuel E"
    using distinct_card [OF dxs] xs(2) card_blocks(2) [OF E L, of ?off] card_blocks(3) [OF E L] env_okD(2) [OF E] by simp
  have co': "code_ok T (L - {t})" and g: "good_block (T t)" and d: "\<forall>u \<in> L - {t}. code_span (T u) \<inter> code_span (T t) = {}"
    using co t by (auto simp: code_ok_def)
  have "weak_order_on (insert ?e ((\<lambda>t. t + ?off) ` (L - {t}))) ?lt"
    using tc_order(1) [OF co' _ _ _ disjI2 [OF d]] g by (simp add: good_block_def)
  moreover have "insert ?e ((\<lambda>t. t + ?off) ` (L - {t})) = insert (op_elem (Delete ?e)) (set xs)" using xs(2) t by auto
  ultimately have w: "weak_order_on (insert (op_elem (Delete ?e)) (set xs)) ?lt" by simp
  have "allowed (Delete ?e) xs" using xs(2) t by simp
  from tree_op_refines [OF w xs(1) this len] obtain tree' where
    "rbtree_delete (fuel E) ?e tree = Inr tree'" "tree_holds ?lt tree' (remove1 ?e xs)" by (auto simp: rbind_Inr)
  moreover have "set (remove1 ?e xs) = (\<lambda>t. t + ?off) ` (L - {t})" using dxs xs(2) by auto
  ultimately show ?thesis by (auto simp: tree_ok_def)
qed

lemma clock_remove:
  assumes c: "clock_ok E L l" and t: "t \<in> L"
  shows "\<exists>n l'. list_remove (t + clock_off E) l = Inr (n, l') \<and> clock_ok E (L - {t}) l'"
proof -
  obtain cs where cs: "list_at l (clock_list E) cs" "set cs = (\<lambda>t. t + clock_off E) ` L" using c by (auto simp: clock_ok_def)
  obtain as bs where ab: "cs = as @ (t + clock_off E) # bs" using t cs(2) by (metis imageI split_list)
  obtain l' where l': "list_remove (t + clock_off E) l = Inr (hd (bs @ [tail_of (clock_list E)]), l')" "list_at l' (clock_list E) (as @ bs)"
    using list_remove_spec [of l "clock_list E" as "t + clock_off E" bs] cs(1) ab by blast
  have "distinct cs" using list_at_ends(3) [OF cs(1)] .
  then have "set (as @ bs) = set cs - {t + clock_off E}" using ab by auto
  also have "\<dots> = (\<lambda>t. t + clock_off E) ` (L - {t})" unfolding cs(2) by auto
  finally have "clock_ok E (L - {t}) l'" using l'(2) unfolding clock_ok_def by blast
  then show ?thesis using l'(1) by blast
qed

lemma jt2_remove:
  assumes E: "env_ok E U" and j: "jt2_ok E U T L h l"
  shows "\<exists>h' l'. jumptable2_remove (fuel E) (jt2_off E) (\<lambda>x. tb_t.truncate (T x)) (bucket_malloc E h) t h l = Inr (h', l')
    \<and> jt2_ok E U T (L - {t}) h' l'"
proof -
  let ?V = "(\<lambda>t. t + jt2_off E) ` U" and ?tr = "\<lambda>x. tb_t.truncate (T x)"
  obtain M where M: "holds_map ?V (jt2_off E) ?tr M h l" "ran M \<subseteq> L" using j by (auto simp: jt2_ok_def)
  have fin: "finite ?V" using env_okD(1) [OF E] by simp
  have n: "card ?V < fuel E" "32 < fuel E" using card_blocks(2) [OF E subset_refl] env_okD(2) [OF E] by auto
  from remove_map [OF M(1) env_okD(10) [OF E] fin n] obtain h' l' where
    r: "jumptable2_remove (fuel E) (jt2_off E) ?tr (bucket_malloc E h) t h l = Inr (h', l')"
      "holds_map ?V (jt2_off E) ?tr (M(key ?tr t := None)) h' l'" by blast
  have K: "key ?tr u = k" if "M k = Some u" for k u using M(1) that unfolding holds_map_def by blast
  have "u \<in> L - {t}" if "(M(key ?tr t := None)) k = Some u" for k u
  proof -
    have "M k = Some u" "k \<noteq> key ?tr t" using that by (auto split: if_splits)
    then show ?thesis using K ranI [of M k u] M(2) by blast
  qed
  then have "ran (M(key ?tr t := None)) \<subseteq> L - {t}" unfolding ran_def by blast
  then show ?thesis using r by (auto simp: jt2_ok_def)
qed

lemma jt1_remove:
  assumes "jt1_ok T L js"
  shows "jt1_ok T (L - {t}) (js[jumptable1_entry (tb_eip (T t)) := (0, 0)])"
proof -
  let ?k = "jumptable1_entry (tb_eip (T t))"
  have "js[?k := (0, 0)] ! i = (0, 0) \<or> (\<exists>u \<in> L - {t}. js[?k := (0, 0)] ! i = (tb_eip (T u), tc_ptr (T u)) \<and> i = jumptable1_entry (tb_eip (T u)))"
    if i: "i < JUMPTABLE1_SIZE" for i
  proof (cases "i = ?k")
    case True
    then show ?thesis using assms i by (simp add: jt1_ok_def)
  next
    case False
    then have "js[?k := (0, 0)] ! i = js ! i" by simp
    then show ?thesis using assms i False unfolding jt1_ok_def by (metis DiffI singletonD)
  qed
  then show ?thesis using assms by (simp add: jt1_ok_def)
qed

text \<open>\<open>tb_free\<close> takes a block out of the cache; no table, list or jump refers to it any more.\<close>

lemma rewired_key: "rewired s s' \<Longrightarrow> same_key (tbs s' t) (tbs s t)"
  by (rule same_key_strip) (rule rewiredD(2))

lemma tb_free_ok:
  assumes E: "env_ok E U" and c: "cache_ok E U s L ch" and t: "t \<in> L"
  shows "\<exists>s'. tb_free E t s = Inr s' \<and> cache_ok E U s' (L - {t}) (unchained t ch)
    \<and> pool_locked_tb s' = pool_locked_tb s \<and> num_pool_locked s' = num_pool_locked s
    \<and> (\<forall>u. same_key (tbs s' u) (tbs s u))"
proof -
  note L = cache_okD(1) [OF c]
  have f: "2 * card L + 2 \<le> fuel E" using card_blocks(3) [OF E L] env_okD(2) [OF E] by simp
  obtain s1 where s1: "tb_unchain E t s = Inr s1" "chain_ok s1 L (unchained t ch)" "rewired s s1"
    using tb_unchain_ok [OF cache_okD(2) [OF c] t f] by blast
  note r = rewired_sel(16-27) [OF s1(3)] and k = rewired_key [OF s1(3)]
  have co: "code_ok (tbs s1) L" by (rule chain_okD(3) [OF s1(2)])
  obtain h2 l2 where j2: "jumptable2_remove (fuel E) (jt2_off E) (\<lambda>x. tb_t.truncate (tbs s1 x)) (bucket_malloc E (jumptable2 s)) t
        (jumptable2 s) (jt2_links s) = Inr (h2, l2)" "jt2_ok E U (tbs s1) (L - {t}) h2 l2"
    using jt2_remove [OF E jt2_ok_cong [OF cache_okD(6) [OF c] k]] by blast
  obtain h l where pc: "hash_delete (fuel E) (pc_hash (pc_off E) (tbs s1)) (pc_equal (pc_off E) (tbs s1)) (bucket_malloc E (pc_table s))
        (t + pc_off E) (pc_table s) (pc_links s) = Inr (t + pc_off E, h, l)" "pc_ok E U (tbs s1) (L - {t}) h l"
    using pc_remove [OF E L pc_ok_cong [OF cache_okD(3) [OF c] k] t] by blast
  obtain tree where tr: "rbtree_delete (fuel E) (t + tc_off E) (tc_tree s) = Inr tree" "tree_ok E (tbs s1) (L - {t}) tree"
    using tree_remove [OF E L co tree_ok_cong [OF cache_okD(4) [OF c] k] t] by blast
  obtain n cl where cl: "list_remove (t + clock_off E) (clock_links s) = Inr (n, cl)" "clock_ok E (L - {t}) cl"
    using clock_remove [OF cache_okD(5) [OF c] t] by blast
  have t0: "t + pc_off E \<noteq> 0" using env_okD(6) [OF E] L t by auto
  have find: "tb_find E (tc_ptr (tbs s t)) s = Inr t" by (rule tb_find_entry [OF E L cache_okD(9,4) [OF c] t])
  obtain s' where s': "tb_free E t s = Inr s'" "tbs s' = tbs s1" "code s' = code s1" "fcallout_patches s' = fcallout_patches s1"
      "jumptable2 s' = h2" "jt2_links s' = l2" "jumptable1 s' = (jumptable1 s)[jumptable1_entry (tb_eip (tbs s1 t)) := (0, 0)]"
      "pc_table s' = h" "pc_links s' = l" "tc_tree s' = tree" "clock_links s' = cl" "nb_tbs s' = nb_tbs s - 1"
      "pool_locked_tb s' = pool_locked_tb s" "num_pool_locked s' = num_pool_locked s"
    using find s1(1) j2(1) pc(1) tr(1) cl(1) t0 by (simp add: tb_free_def jumptable1_remove_def Let_def r)
  have "chain_ok s1 (L - {t}) (unchained t ch)"
    by (rule chain_ok_delete [OF s1(2)]) (auto simp: unchained_def split: if_splits)
  then have "chain_ok s' (L - {t}) (unchained t ch)" by (rule chain_ok_cong) (simp_all add: s')
  moreover have "nb_tbs s' = of_nat (card (L - {t}))"
  proof -
    have "card L = Suc (card (L - {t}))" using card_blocks(1) [OF E L] t by (rule card.remove)
    then show ?thesis using s'(12) cache_okD(8) [OF c] by simp
  qed
  moreover have "jt1_ok (tbs s1) (L - {t}) (jumptable1 s')"
    unfolding s' by (rule jt1_remove [OF jt1_ok_cong [OF cache_okD(7) [OF c] k]])
  ultimately have "cache_ok E U s' (L - {t}) (unchained t ch)"
    using L j2(2) pc(2) tr(2) cl(2) by (auto simp: cache_ok_def s')
  then show ?thesis using s'(1,2,13,14) k by auto
qed

subsection \<open>Replacement\<close>

lemma replacement_loop_at:
  assumes t: "table_at hf (pc_links s) (pc_table s) bs" and n: "length bs < fuel E" and z: "0 \<notin> set (concat bs)"
  shows "iter_at (pc_table s) bs i xs \<Longrightarrow> set xs \<subseteq> set (concat bs) \<Longrightarrow> length xs < k
    \<Longrightarrow> unat r \<le> length (filter (\<lambda>e. e - pc_off E \<noteq> pool_locked_tb s) xs)
    \<Longrightarrow> \<exists>u. replacement_loop k E r i u0 s = Inr u
      \<and> (if r = 0 then u = u0 else u \<noteq> pool_locked_tb s \<and> (\<exists>e \<in> set xs. u = e - pc_off E))"
proof (induction xs arbitrary: k r i u0)
  case Nil
  then show ?case by (cases k) (simp_all add: unat_eq_0)
next
  case (Cons x xs)
  obtain k' where k: "k = Suc k'" using Cons.prems(3) by (cases k) auto
  show ?case
  proof (cases "r = 0")
    case True
    then show ?thesis using k by simp
  next
    case False
    let ?u = "x - pc_off E"
    let ?r = "if ?u \<noteq> pool_locked_tb s then r - 1 else r"
    obtain i' where i': "hash_next (fuel E) (pc_table s) i (pc_links s) = Inr (x, i')" "hash_cur i' = x" "iter_at (pc_table s) bs i' xs"
      using hash_next_at [OF t Cons.prems(1) n] by auto
    have x0: "x \<noteq> 0" using Cons.prems(2) z by (metis list.set_intros(1) subsetD)
    have step: "replacement_loop k E r i u0 s = replacement_loop k' E ?r i' ?u s"
      using k False i'(1,2) x0 by (simp add: word_gt_0 Let_def)
    have r1: "unat (r - 1) = unat r - 1" using False by (simp add: unat_minus_one)
    have "unat ?r \<le> length (filter (\<lambda>e. e - pc_off E \<noteq> pool_locked_tb s) xs)" using Cons.prems(4) r1 by (auto split: if_splits)
    then obtain u where u: "replacement_loop k' E ?r i' ?u s = Inr u"
        "if ?r = 0 then u = ?u else u \<noteq> pool_locked_tb s \<and> (\<exists>e \<in> set xs. u = e - pc_off E)"
      using Cons.IH [OF i'(3), of k' ?r ?u] Cons.prems(2,3) k by auto
    have "u \<noteq> pool_locked_tb s \<and> (\<exists>e \<in> set (x # xs). u = e - pc_off E)" using u(2) False by (auto split: if_splits)
    then show ?thesis using step u(1) False by auto
  qed
qed

text \<open>The elements of the table in the order of an iterator.\<close>

lemma pc_elements:
  assumes E: "env_ok E U" and L: "L \<subseteq> U" and p: "pc_ok E U T L h l"
  shows "\<exists>bs. table_at (pc_hash (pc_off E) T) l h bs \<and> set (concat bs) = (\<lambda>t. t + pc_off E) ` L \<and> distinct (concat bs)
    \<and> length (concat bs) = card L \<and> 0 \<notin> set (concat bs) \<and> length bs < fuel E"
proof -
  obtain bs where bs: "table_at (pc_hash (pc_off E) T) l h bs" "(\<lambda>t. t + pc_off E) ` L = set (concat bs)" "distinct (concat bs)"
    using p unfolding pc_ok_def holds_set_def by blast
  have "length bs < fuel E" using bs(1) env_okD(2) [OF E] by (simp add: table_at_def sorted_by_def word_less_nat_alt)
  moreover have "length (concat bs) = card L"
    using distinct_card [OF bs(3)] card_blocks(2) [OF E L, of "pc_off E"] bs(2) by simp
  moreover have "0 \<notin> (\<lambda>t. t + pc_off E) ` L" using env_okD(6) [OF E] L by fastforce
  ultimately show ?thesis using bs by (intro exI [of _ bs]) simp
qed

lemma random_choice:
  assumes "d < n" "n < 2 ^ 32" and m: "m = (of_nat n - of_nat d :: u32)"
  shows "unat (x mod m + 1) \<le> n - d" "x mod m + 1 \<noteq> 0"
proof -
  have "m = of_nat (n - d)" using assms by (simp add: of_nat_diff)
  then have um: "unat m = n - d" using assms(2) by (simp add: unat_of_nat)
  then have "0 < m" using assms(1) by (simp add: word_less_nat_alt)
  then have "x mod m < m" by (rule word_mod_less_divisor)
  then show "unat (x mod m + 1) \<le> n - d" "x mod m + 1 \<noteq> 0"
    using unat_Suc_less [of "x mod m" m] um by (auto simp: word_less_nat_alt)
qed

lemma filter_one:
  assumes "distinct xs" "\<And>x. x \<in> set xs \<Longrightarrow> \<not> P x \<Longrightarrow> x = a \<and> b"
  shows "length xs - (if b then 1 else 0) \<le> length (filter P xs)"
proof -
  have "set (filter (\<lambda>x. \<not> P x) xs) \<subseteq> (if b then {a} else {})" using assms(2) by auto
  then have "card (set (filter (\<lambda>x. \<not> P x) xs)) \<le> card (if b then {a} else {})" by (rule card_mono [rotated]) simp
  then have "length (filter (\<lambda>x. \<not> P x) xs) \<le> (if b then 1 else 0)" using distinct_card [OF distinct_filter [OF assms(1)]] by (simp split: if_splits)
  then show ?thesis using sum_length_filter_compl [of P xs] by (simp split: if_splits)
qed

text \<open>A block other than the locked one is found if there is one.\<close>

lemma tb_find_replacement_ok:
  assumes E: "env_ok E U" and c: "cache_ok E U s L ch" and L: "L \<noteq> {}" and lk: "pool_locked_tb s = 0 \<or> 1 < card L"
  shows "\<exists>u h. tb_find_replacement E s = Inr (u, s\<lparr>heap := h\<rparr>) \<and> u \<in> L \<and> u \<noteq> pool_locked_tb s"
proof -
  note LU = cache_okD(1) [OF c]
  let ?d = "if pool_locked_tb s \<noteq> 0 then 1 else 0 :: nat" and ?w = "\<lambda>e. e - pc_off E \<noteq> pool_locked_tb s"
  have c0: "0 < card L" "?d < card L" using L lk card_blocks(1) [OF E LU] by (auto simp: card_gt_0_iff)
  have cU: "card L < 2 ^ 32" using card_blocks(3) [OF E LU] env_okD(3) [OF E] by simp
  have n0: "0 \<notin> L" using env_okD(6) [OF E] LU by blast
  obtain bs where bs: "table_at (pc_hash (pc_off E) (tbs s)) (pc_links s) (pc_table s) bs" "set (concat bs) = (\<lambda>t. t + pc_off E) ` L"
      "distinct (concat bs)" "length (concat bs) = card L" "0 \<notin> set (concat bs)" "length bs < fuel E"
    using pc_elements [OF E LU cache_okD(3) [OF c]] by blast
  obtain i where i: "hash_first (pc_table s) = Inr i" "iter_at (pc_table s) bs i (concat bs)" using hash_first_at [OF bs(1)] by blast
  obtain x h where x: "random_ulong E (heap s) = (x, h)" by fastforce
  define m where "m = nb_tbs s - (if pool_locked_tb s \<noteq> 0 then 1 else 0)"
  have m: "m = of_nat (card L) - of_nat ?d" using cache_okD(8) [OF c] by (simp add: m_def)
  note r = random_choice [OF c0(2) cU m, of x]
  have fl: "card L - ?d \<le> length (filter ?w (concat bs))"
  proof (rule filter_one [OF bs(3), of ?w "pool_locked_tb s + pc_off E" "pool_locked_tb s \<noteq> 0", unfolded bs(4)])
    show "x = pool_locked_tb s + pc_off E \<and> pool_locked_tb s \<noteq> 0" if x: "x \<in> set (concat bs)" "\<not> ?w x" for x
    proof -
      obtain y where y: "y \<in> L" "x = y + pc_off E" using x(1) unfolding bs(2) by blast
      then have "y = pool_locked_tb s" using x(2) by simp
      then show ?thesis using y n0 by metis
    qed
  qed
  let ?s = "s\<lparr>heap := h\<rparr>"
  have p: "table_at (pc_hash (pc_off E) (tbs s)) (pc_links ?s) (pc_table ?s) bs" "iter_at (pc_table ?s) bs i (concat bs)"
    "unat (x mod m + 1) \<le> length (filter (\<lambda>e. e - pc_off E \<noteq> pool_locked_tb ?s) (concat bs))" "length (concat bs) < fuel E"
    using bs(1) i(2) order_trans [OF r(1) fl] bs(4) card_blocks(3) [OF E LU] env_okD(2) [OF E]
    by (simp_all del: set_concat length_concat filter_concat)
  obtain u where u: "replacement_loop (fuel E) E (x mod m + 1) i 0 ?s = Inr u"
      "if x mod m + 1 = 0 then u = 0 else u \<noteq> pool_locked_tb ?s \<and> (\<exists>e \<in> set (concat bs). u = e - pc_off E)"
    using replacement_loop_at [OF p(1) bs(6,5) p(2) subset_refl p(4,3), of 0] by blast
  have uL: "u \<in> L" "u \<noteq> pool_locked_tb s" using u(2) r(2) unfolding bs(2) by auto
  then have "u \<noteq> 0" using n0 by metis
  have "nb_tbs s > 0" and nl: "(pool_locked_tb s \<noteq> 0 \<and> nb_tbs s = 1) = False"
    using c0 lk cU cache_okD(8) [OF c] by (auto simp: word_less_nat_alt unat_of_nat word_unat_eq_iff)
  then have "tb_find_replacement E s = rbind (replacement_loop (fuel E) E (x mod m + 1) i 0 ?s) (\<lambda>t. assert_then (t \<noteq> 0) (Inr (t, ?s)))"
    unfolding tb_find_replacement_def m_def nl if_False by (simp add: x i(1) Let_def split del: if_split)
  then show ?thesis using u(1) \<open>u \<noteq> 0\<close> uL by auto
qed

end
