(* ===== verification/Tb_Reach.thy ===== *)
theory Tb_Reach
  imports Tb_Cache
begin

text \<open>
  The states of the translation cache.  The cache starts as \<^verbatim>\<open>sys/init.c\<close> initialises it, and changes by the
  operations of \<^verbatim>\<open>peep/tb.c\<close> and of the jump tables and by the writes of the translator to memory that is not
  part of the cache.  Every state that is reached satisfies the invariant of the
  previous theory, every operation succeeds there, and lookups have the results one expects.
\<close>

subsection \<open>Start\<close>

definition cache_init :: "'h env \<Rightarrow> 'h tcache \<Rightarrow> 'h tcache res" where
  "cache_init E s =
     rbind (tb_init E s) (\<lambda>s.
     let s = jumptable1_init s in
     rbind (jumptable2_init (fuel E) (bucket_malloc E (jumptable2 s)) (jt2_links s)) (\<lambda>(h, l).
       Inr (s\<lparr>jumptable2 := h, jt2_links := l\<rparr>)))"

lemma fresh_region: "malloc_fresh malloc (in_use h A) \<Longrightarrow> malloc 64 \<noteq> 0 \<Longrightarrow> region (malloc 64) 4 \<inter> A = {}"
  unfolding malloc_fresh_def in_use_def region_def by (drule spec [of _ 64]) auto

lemma cache_init_ok:
  assumes E: "env_ok E U" and m: "bucket_malloc E (pc_table s) 64 \<noteq> 0" "bucket_malloc E (jumptable2 s) 64 \<noteq> 0" and f: "fcallout_patches s = []"
  shows "\<exists>s'. cache_init E s = Inr s' \<and> cache_ok E U s' {} Map.empty \<and> tbs s' = tbs s \<and> code s' = code s
    \<and> fcallout_patches s' = [] \<and> pool_locked_tb s' = pool_locked_tb s"
proof -
  obtain h l where pc: "hash_init (fuel E) (bucket_malloc E (pc_table s)) (pc_links s) = Inr (True, h, l)"
      "holds_set (pc_hash (pc_off E) (tbs s)) (pc_equal (pc_off E) (tbs s)) l h {}" "buckets h = bucket_malloc E (pc_table s) 64" "bucket_cnt h = 4"
    using hash_init_size_set [of 4 "bucket_malloc E (pc_table s)" "fuel E" "pc_links s"] m(1) unfolding hash_init_def by (simp, blast)
  have p: "pc_ok E U (tbs s) {} h l" using pc(2) fresh_region [OF env_okD(9) [OF E] m(1)] by (simp add: pc_ok_def pc(3,4))
  obtain cl where cl: "list_init (clock_list E) (clock_links s) = Inr cl" "list_at cl (clock_list E) []"
    using list_init_at [OF env_okD(5) [OF E]] by blast
  obtain h2 l2 where j2: "jumptable2_init (fuel E) (bucket_malloc E (jumptable2 s)) (jt2_links s) = Inr (h2, l2)"
      "holds_map ((\<lambda>t. t + jt2_off E) ` U) (jt2_off E) (\<lambda>x. tb_t.truncate (tbs s x)) Map.empty h2 l2"
    using init_map [where malloc = "bucket_malloc E (jumptable2 s)", OF m(2) fresh_region [OF env_okD(10) [OF E] m(2)]] by blast
  have le: "list_end (clock_list E) = Inr (tail_of (clock_list E))" using env_okD(5) [OF E] by (simp add: list_end_def tail_of_def)
  define s' where "s' = s\<lparr>pc_table := h, pc_links := l, tc_tree := rbtree_init (tc_tree s), nb_tbs := 0, clock_links := cl,
      clock_hand := tail_of (clock_list E), jumptable1 := replicate JUMPTABLE1_SIZE (0, 0), jumptable2 := h2, jt2_links := l2\<rparr>"
  have run: "cache_init E s = Inr s'"
    using pc(1) cl(1) j2(1) le by (simp add: cache_init_def tb_init_def jumptable1_init_def jumptable1_clear_def Let_def s'_def)
  have "chain_ok s' {} Map.empty" by (rule fresh_chain_ok) (simp_all add: code_ok_def s'_def f)
  moreover have "tree_ok E (tbs s) {} (rbtree_init (tc_tree s))" using init_holds by (auto simp: tree_ok_def)
  moreover have "clock_ok E {} cl" using cl(2) by (auto simp: clock_ok_def)
  moreover have "jt2_ok E U (tbs s) {} h2 l2" using j2(2) unfolding jt2_ok_def by fastforce
  moreover have "jt1_ok (tbs s) {} (replicate JUMPTABLE1_SIZE (0, 0))" by (simp add: jt1_ok_def)
  ultimately have "cache_ok E U s' {} Map.empty" using p by (simp add: cache_ok_def s'_def)
  then show ?thesis using run f by (auto simp: s'_def)
qed

subsection \<open>Jumps and the jump tables\<close>

lemma cache_ok_rewired:
  assumes c: "cache_ok E U s L ch" and n: "chain_ok s' L ch'" and r: "rewired s s'"
  shows "cache_ok E U s' L ch'"
proof -
  note k = rewired_key [OF r]
  show ?thesis using cache_okD(1,5,8) [OF c] n pc_ok_cong [OF cache_okD(3) [OF c] k] tree_ok_cong [OF cache_okD(4) [OF c] k]
      jt2_ok_cong [OF cache_okD(6) [OF c] k] jt1_ok_cong [OF cache_okD(7) [OF c] k]
    by (simp add: cache_ok_def rewired_sel(16-27) [OF r])
qed

lemma link_ok:
  assumes c: "cache_ok E U s L ch" and t: "t \<in> L" "V \<in> L" "has_jump (tbs s t) n" "ch (t, n) = None"
  shows "\<exists>s'. tb_add_jump t n V s = Inr s' \<and> cache_ok E U s' L (ch((t, n) \<mapsto> V)) \<and> rewired s s'"
  using tb_add_jump_ok [OF cache_okD(2) [OF c] t] cache_ok_rewired [OF c] by blast

lemma unchain_ok:
  assumes E: "env_ok E U" and c: "cache_ok E U s L ch" and t: "t \<in> L"
  shows "\<exists>s'. tb_unchain E t s = Inr s' \<and> cache_ok E U s' L (unchained t ch) \<and> rewired s s'"
proof -
  have f: "2 * card L + 2 \<le> fuel E" using card_blocks(3) [OF E cache_okD(1) [OF c]] env_okD(2) [OF E] by simp
  show ?thesis using tb_unchain_ok [OF cache_okD(2) [OF c] t f] cache_ok_rewired [OF c] by blast
qed

lemma jt1_add_ok:
  assumes c: "cache_ok E U s L ch" and t: "t \<in> L"
  shows "\<exists>s'. jumptable1_add (tb_eip (tbs s t)) (tc_ptr (tbs s t)) s = Inr s' \<and> cache_ok E U s' L ch"
proof -
  let ?k = "jumptable1_entry (tb_eip (tbs s t))" and ?v = "(tb_eip (tbs s t), tc_ptr (tbs s t))"
  have j: "jt1_ok (tbs s) L (jumptable1 s)" by (rule cache_okD(7) [OF c])
  have "tc_ptr (tbs s t) \<noteq> 0" using chain_okD(7) [OF cache_okD(2) [OF c] t] by (simp add: good_block_def)
  then have run: "jumptable1_add (tb_eip (tbs s t)) (tc_ptr (tbs s t)) s = Inr (s\<lparr>jumptable1 := (jumptable1 s)[?k := ?v]\<rparr>)"
    by (simp add: jumptable1_add_def)
  have "(jumptable1 s)[?k := ?v] ! i = (0, 0)
      \<or> (\<exists>u \<in> L. (jumptable1 s)[?k := ?v] ! i = (tb_eip (tbs s u), tc_ptr (tbs s u)) \<and> i = jumptable1_entry (tb_eip (tbs s u)))"
    if "i < JUMPTABLE1_SIZE" for i using j that t by (cases "i = ?k") (auto simp: jt1_ok_def)
  then have "jt1_ok (tbs s) L ((jumptable1 s)[?k := ?v])" using j by (simp add: jt1_ok_def)
  moreover have "chain_ok (s\<lparr>jumptable1 := (jumptable1 s)[?k := ?v]\<rparr>) L ch"
    by (rule chain_ok_cong [OF cache_okD(2) [OF c]]) simp_all
  ultimately show ?thesis using run c by (simp add: cache_ok_def)
qed

lemma jt2_add_ok:
  assumes E: "env_ok E U" and c: "cache_ok E U s L ch" and t: "t \<in> L"
    and run: "jumptable2_add (fuel E) (jt2_off E) (\<lambda>x. tb_t.truncate (tbs s x)) (bucket_malloc E (jumptable2 s)) t (jumptable2 s) (jt2_links s) = Inr (h, l)"
  shows "cache_ok E U (s\<lparr>jumptable2 := h, jt2_links := l\<rparr>) L ch"
proof -
  let ?V = "(\<lambda>t. t + jt2_off E) ` U" and ?T = "\<lambda>x. tb_t.truncate (tbs s x)"
  obtain M where M: "holds_map ?V (jt2_off E) ?T M (jumptable2 s) (jt2_links s)" "ran M \<subseteq> L"
    using cache_okD(6) [OF c] by (auto simp: jt2_ok_def)
  have V: "finite ?V" "0 \<notin> ?V" "t + jt2_off E \<in> ?V" using env_okD(1,6) [OF E] cache_okD(1) [OF c] t by fastforce+
  have "card ?V = card U" by (rule card_blocks(2) [OF E subset_refl])
  then have n: "Suc (card ?V) < fuel E" "32 < fuel E" "Suc (card ?V) < 2 ^ 29" using env_okD(2,3) [OF E] by simp_all
  have "holds_map ?V (jt2_off E) ?T (M(key ?T t \<mapsto> t)) h l"
    using add_map [OF M(1) env_okD(10) [OF E] V n] run by (auto split: if_splits)
  moreover have "ran (M(key ?T t \<mapsto> t)) \<subseteq> L" using M(2) t by (auto simp: ran_def)
  ultimately have "jt2_ok E U (tbs s) L h l" unfolding jt2_ok_def by blast
  moreover have "chain_ok (s\<lparr>jumptable2 := h, jt2_links := l\<rparr>) L ch" by (rule chain_ok_cong [OF cache_okD(2) [OF c]]) simp_all
  ultimately show ?thesis using c by (simp add: cache_ok_def)
qed

subsection \<open>Writes outside the cache\<close>

text \<open>
  Between two operations the monitor locks and unlocks the pool, fills in the members of a block that is not in the
  cache, and writes its translated code.
\<close>

definition outside :: "nat set \<Rightarrow> 'h tcache \<Rightarrow> 'h tcache \<Rightarrow> bool" where
  "outside L s s' \<longleftrightarrow> (\<forall>t \<in> L. tbs s' t = tbs s t) \<and> (\<forall>t \<in> L. \<forall>a. unat a \<in> code_span (tbs s t) \<longrightarrow> code s' a = code s a)
     \<and> fcallout_patches s' = fcallout_patches s \<and> pc_table s' = pc_table s \<and> pc_links s' = pc_links s \<and> tc_tree s' = tc_tree s
     \<and> clock_links s' = clock_links s \<and> jumptable1 s' = jumptable1 s \<and> jumptable2 s' = jumptable2 s \<and> jt2_links s' = jt2_links s
     \<and> nb_tbs s' = nb_tbs s"

lemma outsideD:
  assumes "outside L s s'"
  shows "t \<in> L \<Longrightarrow> tbs s' t = tbs s t" "t \<in> L \<Longrightarrow> unat a \<in> code_span (tbs s t) \<Longrightarrow> code s' a = code s a"
    "fcallout_patches s' = fcallout_patches s" "pc_table s' = pc_table s" "pc_links s' = pc_links s" "tc_tree s' = tc_tree s"
    "clock_links s' = clock_links s" "jumptable1 s' = jumptable1 s" "jumptable2 s' = jumptable2 s" "jt2_links s' = jt2_links s"
    "nb_tbs s' = nb_tbs s"
  using assms unfolding outside_def by blast+

text \<open>The destination of a jump is read from the code of its block.\<close>

lemma dest_outside:
  assumes o: "outside L s s'" and t: "t \<in> L" and g: "good_block (tbs s t)" and j: "has_jump (tbs s t) n"
  shows "dest s' t n = dest s t n"
proof -
  have e: "unat (jmp_offset (tbs s t) n) + 4 \<le> unat (tc_len (tbs s t))" using g j by (simp add: good_block_def)
  have "plain s' (site (tbs s t) n + of_nat i) = plain s (site (tbs s t) n + of_nat i)" if i: "i < 4" for i
  proof -
    have "unat (site (tbs s t) n + of_nat i) \<in> code_span (tbs s t)" using unat_site [OF g j i] e i by (simp add: code_span_def)
    then have "code s' (site (tbs s t) n + of_nat i) = code s (site (tbs s t) n + of_nat i)" by (rule outsideD(2) [OF o t])
    then show ?thesis by (simp add: plain_def outsideD(3) [OF o] split: list.split)
  qed
  from this [of 0] this [of 1] this [of 2] this [of 3] show ?thesis
    by (simp add: dest_def ld32_def outsideD(1) [OF o t])
qed

lemma outside_ok:
  assumes c: "cache_ok E U s L ch" and o: "outside L s s'"
  shows "cache_ok E U s' L ch"
proof -
  note ok = cache_okD(2) [OF c]
  have T: "tbs s' t = tbs s t" if "t \<in> L" for t using outsideD(1) [OF o that] .
  then have k: "same_key (tbs s' t) (tbs s t)" if "t \<in> L" for t using that by simp
  have ch: "fst x \<in> L" "U' \<in> L" if "ch x = Some U'" for x U' using chainedD(2) [OF chain_okD(1) [OF ok] that] by simp_all
  have g: "get_slot s' (First t) = get_slot s (First t)" "get_slot s' (nx (t, n)) = get_slot s (nx (t, n))" if "t \<in> L" for t n
    using T [OF that] by (simp_all add: get_slot.simps)
  have lk: "linked (get_slot s') p xs e = linked (get_slot s) p xs e" if "\<forall>x \<in> set xs. fst x \<in> L" for p xs e
    by (rule linked_cong) (use that g(2) in \<open>metis prod.collapse\<close>)
  have "\<exists>xs. linked (get_slot s') (get_slot s' (First V)) xs (V OR 2) \<and> distinct xs \<and> set xs = {x. ch x = Some V}" if V: "V \<in> L" for V
  proof -
    obtain xs where xs: "linked (get_slot s) (get_slot s (First V)) xs (V OR 2)" "distinct xs" "set xs = {x. ch x = Some V}"
      using chainedD(1) [OF chain_okD(1) [OF ok] V] by blast
    then show ?thesis using lk [of xs] ch(1) g(1) [OF V] by (intro exI [of _ xs]) simp
  qed
  moreover have "get_slot s' (nx x) = 0" if x: "fst x \<in> L" "snd x < 2" "ch x = None" for x
    using chainedD(3) [OF chain_okD(1) [OF ok] x] g(2) [OF x(1), of "snd x"] by simp
  ultimately have "chained (get_slot s') L ch" using chain_okD(1) [OF ok] unfolding chained_def by blast
  moreover have "wired s' L ch" using chain_okD(2,7) [OF ok] dest_outside [OF o] ch T unfolding wired_def
    by (auto split: option.splits)
  moreover have "code_ok (tbs s') L" using cache_okD(9) [OF c] T by (simp add: code_ok_def)
  ultimately have "chain_ok s' L ch" using ok ch T by (simp add: chain_ok_def outsideD(3) [OF o])
  then show ?thesis using c pc_ok_cong [OF cache_okD(3) [OF c] k] tree_ok_cong [OF cache_okD(4) [OF c] k]
      jt2_ok_cong [OF cache_okD(6) [OF c] k] jt1_ok_cong [OF cache_okD(7) [OF c] k]
    by (simp add: cache_ok_def outsideD(4-11) [OF o])
qed

subsection \<open>Reachable states\<close>

text \<open>\<open>L\<close> is the set of blocks in the cache and \<open>ch\<close> says which jump leads to which block.\<close>

inductive reach :: "'h env \<Rightarrow> nat set \<Rightarrow> 'h tcache \<Rightarrow> nat set \<Rightarrow> (jump \<rightharpoonup> nat) \<Rightarrow> bool" for E U where
  init: "cache_init E s0 = Inr s \<Longrightarrow> bucket_malloc E (pc_table s0) 64 \<noteq> 0 \<Longrightarrow> bucket_malloc E (jumptable2 s0) 64 \<noteq> 0
    \<Longrightarrow> fcallout_patches s0 = [] \<Longrightarrow> reach E U s {} Map.empty"
| other: "reach E U s L ch \<Longrightarrow> outside L s s' \<Longrightarrow> reach E U s' L ch"
| add: "reach E U s L ch \<Longrightarrow> t \<in> U \<Longrightarrow> t \<notin> L \<Longrightarrow> new_block s L t \<Longrightarrow> tb_add E t s = Inr s' \<Longrightarrow> reach E U s' (insert t L) ch"
| free: "reach E U s L ch \<Longrightarrow> t \<in> L \<Longrightarrow> tb_free E t s = Inr s' \<Longrightarrow> reach E U s' (L - {t}) (unchained t ch)"
| link: "reach E U s L ch \<Longrightarrow> t \<in> L \<Longrightarrow> V \<in> L \<Longrightarrow> has_jump (tbs s t) n \<Longrightarrow> ch (t, n) = None \<Longrightarrow> tb_add_jump t n V s = Inr s'
    \<Longrightarrow> reach E U s' L (ch((t, n) \<mapsto> V))"
| unchain: "reach E U s L ch \<Longrightarrow> t \<in> L \<Longrightarrow> tb_unchain E t s = Inr s' \<Longrightarrow> reach E U s' L (unchained t ch)"
| jump1: "reach E U s L ch \<Longrightarrow> t \<in> L \<Longrightarrow> jumptable1_add (tb_eip (tbs s t)) (tc_ptr (tbs s t)) s = Inr s' \<Longrightarrow> reach E U s' L ch"
| jump2: "reach E U s L ch \<Longrightarrow> t \<in> L \<Longrightarrow> jumptable2_add (fuel E) (jt2_off E) (\<lambda>x. tb_t.truncate (tbs s x)) (bucket_malloc E (jumptable2 s)) t
      (jumptable2 s) (jt2_links s) = Inr (h, l) \<Longrightarrow> reach E U (s\<lparr>jumptable2 := h, jt2_links := l\<rparr>) L ch"

lemma reach_ok:
  assumes E: "env_ok E U"
  shows "reach E U s L ch \<Longrightarrow> cache_ok E U s L ch"
proof (induction rule: reach.induct)
  case (init s0 s)
  then show ?case using cache_init_ok [OF E init(2-4)] by auto
next
  case (other s L ch s')
  then show ?case using outside_ok by blast
next
  case (add s L ch t s')
  then show ?case using tb_add_ok [OF E add.IH add.hyps(2-4)] by auto
next
  case (free s L ch t s')
  then show ?case using tb_free_ok [OF E free.IH free.hyps(2)] by auto
next
  case (link s L ch t V n s')
  then show ?case using link_ok [OF link.IH link.hyps(2-5)] by (auto simp: fun_upd_def)
next
  case (unchain s L ch t s')
  then show ?case using unchain_ok [OF E unchain.IH unchain.hyps(2)] by auto
next
  case (jump1 s L ch t s')
  then show ?case using jt1_add_ok [OF jump1.IH jump1.hyps(2)] by auto
next
  case (jump2 s L ch t h l)
  then show ?case using jt2_add_ok [OF E jump2.IH jump2.hyps(2,3)] by auto
qed

subsection \<open>Replacement, flushing and allocation\<close>

lemma free_a_tb_reach:
  assumes E: "env_ok E U" and r: "reach E U s L ch" and L: "L \<noteq> {}" and lk: "pool_locked_tb s = 0 \<or> 1 < card L"
  shows "\<exists>u s'. free_a_tb E s = Inr (True, s') \<and> u \<in> L \<and> u \<noteq> pool_locked_tb s \<and> reach E U s' (L - {u}) (unchained u ch)
    \<and> pool_locked_tb s' = pool_locked_tb s"
proof -
  obtain u h where u: "tb_find_replacement E s = Inr (u, s\<lparr>heap := h\<rparr>)" "u \<in> L" "u \<noteq> pool_locked_tb s"
    using tb_find_replacement_ok [OF E reach_ok [OF E r] L lk] by blast
  have r1: "reach E U (s\<lparr>heap := h\<rparr>) L ch" by (rule reach.other [OF r]) (simp add: outside_def)
  obtain s' where s': "tb_free E u (s\<lparr>heap := h\<rparr>) = Inr s'" "pool_locked_tb s' = pool_locked_tb s"
    using tb_free_ok [OF E reach_ok [OF E r1] u(2)] by auto
  have "u \<noteq> 0" using env_okD(6) [OF E] cache_okD(1) [OF reach_ok [OF E r]] u(2) by blast
  then have "free_a_tb E s = Inr (True, s')" using u(1) s'(1) by (simp add: free_a_tb_def)
  then show ?thesis using u(2,3) reach.free [OF r1 u(2) s'(1)] s'(2) by blast
qed

lemma nb_tbs_zero:
  assumes E: "env_ok E U" and c: "cache_ok E U s L ch"
  shows "nb_tbs s = 0 \<longleftrightarrow> L = {}" "nb_tbs s = 1 \<longleftrightarrow> card L = 1"
proof -
  note f = card_blocks [OF E cache_okD(1) [OF c]] and n = cache_okD(8) [OF c]
  have "card L < 2 ^ 32" using f(3) env_okD(3) [OF E] by simp
  then have "unat (nb_tbs s) = card L" unfolding n by (simp add: unat_of_nat)
  then show "nb_tbs s = 0 \<longleftrightarrow> L = {}" "nb_tbs s = 1 \<longleftrightarrow> card L = 1" using f(1) by (auto simp: word_unat_eq_iff)
qed

lemma flush_loop_reach:
  assumes E: "env_ok E U"
  shows "reach E U s L ch \<Longrightarrow> pool_locked_tb s = 0 \<Longrightarrow> card L < k
    \<Longrightarrow> \<exists>s'. flush_loop k E s = Inr s' \<and> reach E U s' {} Map.empty \<and> pool_locked_tb s' = 0"
proof (induction k arbitrary: s L ch)
  case (Suc k)
  note c = reach_ok [OF E Suc.prems(1)]
  have fin: "finite L" by (rule card_blocks(1) [OF E cache_okD(1) [OF c]])
  show ?case
  proof (cases "L = {}")
    case True
    have "ch = Map.empty" using chainedD(2) [OF chain_okD(1) [OF cache_okD(2) [OF c]]] True by fastforce
    then show ?thesis using Suc.prems True nb_tbs_zero(1) [OF E c] by auto
  next
    case False
    obtain u s1 where u: "free_a_tb E s = Inr (True, s1)" "u \<in> L" "reach E U s1 (L - {u}) (unchained u ch)" "pool_locked_tb s1 = 0"
      using free_a_tb_reach [OF E Suc.prems(1) False] Suc.prems(2) by auto
    have "card (L - {u}) < k" using Suc.prems(3) card.remove [OF fin u(2)] by simp
    then show ?thesis using Suc.IH [OF u(3,4)] u(1) False nb_tbs_zero(1) [OF E c] by auto
  qed
qed simp


subsection \<open>Correctness\<close>

text \<open>
  C9. \<open>tb_find\<close> finds the block of a code address.  In every reachable state and for every address but
  the last one of memory it returns the block of the cache whose code contains the address, and NULL if there is none.
\<close>

theorem tb_find_correct:
  assumes "env_ok E U" "reach E U s L ch" "unat p + 1 < 2 ^ 32"
  shows "\<exists>r. tb_find E p s = Inr r
    \<and> (if r = 0 then \<forall>t \<in> L. unat p \<notin> code_span (tbs s t) else r \<in> L \<and> unat p \<in> code_span (tbs s r))"
proof -
  note c = reach_ok [OF assms(1,2)]
  note f = tb_find_at [OF assms(1) cache_okD(1,9,4) [OF c] assms(3)]
  show ?thesis
  proof (cases "\<exists>t \<in> L. unat p \<in> code_span (tbs s t)")
    case True
    then obtain t where t: "t \<in> L" "unat p \<in> code_span (tbs s t)" by blast
    then have "t \<noteq> 0" using env_okD(6) [OF assms(1)] cache_okD(1) [OF c] by blast
    then show ?thesis using f(1) [OF t] t by auto
  next
    case False
    then show ?thesis using f(2) by auto
  qed
qed




text \<open>
  C17. \<open>tb_flush\<close> empties the cache.  In every reachable state in which no block is locked it returns,
  with no block in the cache, all entries of the direct jump table clear and every lookup without a result.
\<close>

theorem tb_flush_empties:
  assumes "env_ok E U" "reach E U s L ch" "pool_locked_tb s = 0"
  shows "\<exists>s'. tb_flush E s = Inr s' \<and> reach E U s' {} Map.empty \<and> nb_tbs s' = 0 \<and> jumptable1 s' = replicate JUMPTABLE1_SIZE (0, 0)
    \<and> (\<forall>p. unat p + 1 < 2 ^ 32 \<longrightarrow> tb_find E p s' = Inr 0) \<and> (\<forall>phys end_page virt ip. tb_find_pc E phys end_page virt ip s' = Inr 0)"
proof -
  note c = reach_ok [OF assms(1,2)]
  have "card L < fuel E" using card_blocks(3) [OF assms(1) cache_okD(1) [OF c]] env_okD(2) [OF assms(1)] by simp
  then obtain s' where s': "tb_flush E s = Inr s'" "reach E U s' {} Map.empty"
    using flush_loop_reach [OF assms(1,2,3)] unfolding tb_flush_def by blast
  note c' = reach_ok [OF assms(1) s'(2)]
  have "tb_find E p s' = Inr 0" if "unat p + 1 < 2 ^ 32" for p
    using tb_find_at(2) [OF assms(1) cache_okD(1,9,4) [OF c'] that] by blast
  moreover have "tb_find_pc E phys end_page virt ip s' = Inr 0" for phys end_page virt ip
    using tb_find_pc_at [OF assms(1) c', of phys end_page virt ip] by simp
  moreover have "jumptable1 s' = replicate JUMPTABLE1_SIZE (0, 0)"
    using cache_okD(7) [OF c'] by (auto simp: jt1_ok_def list_eq_iff_nth_eq)
  ultimately show ?thesis using s' nb_tbs_zero(1) [OF assms(1) c'] by blast
qed

text \<open>
  C18. A miss of the main loop is followed by a successful addition and then by hits.  The main loop passes the page of the
  physical address as end page; if this lookup finds no block, then \<open>tb_add\<close> succeeds on a block that is
  translated for these addresses, whatever its last page is, and from then on the same lookup returns that block.
\<close>

theorem tb_add_after_miss:
  assumes E: "env_ok E U" and r: "reach E U s L ch" and t: "t \<in> U" "t \<notin> L" "fresh_tb s t" "good_block (tbs s t)"
    and d: "\<forall>u \<in> L. code_span (tbs s u) \<inter> code_span (tbs s t) = {}"
    and b: "eip_phys (tbs s t) = phys" "tb_eip_virt (tbs s t) = virt" "tb_eip (tbs s t) = ip"
    and m: "tb_find_pc E phys (page_of phys) virt ip s = Inr 0"
  shows "\<exists>s'. tb_add E t s = Inr s' \<and> reach E U s' (insert t L) ch \<and> tb_find_pc E phys (page_of phys) virt ip s' = Inr t"
proof -
  note c = reach_ok [OF E r]
  have n0: "0 \<notin> L" using env_okD(6) [OF E] cache_okD(1) [OF c] by blast
  have none: "\<not> starts_at (tbs s u) phys (page_of phys) virt ip" if "u \<in> L" for u
    using tb_find_pc_at [OF E c, of phys "page_of phys" virt ip] m n0 that by (auto split: if_splits)
  have st: "starts_at b phys e virt ip \<longrightarrow> starts_at b phys (page_of phys) virt ip" for b e by (auto simp: starts_at_def)
  have n: "new_block s L t" using t(3,4) d none st unfolding new_block_def Let_def b by blast
  obtain s' where s': "tb_add E t s = Inr s'" "tbs s' = (tbs s)(t := (tbs s t)\<lparr>accessed_bit := True\<rparr>)"
    using tb_add_ok [OF E c t(1,2) n] by blast
  have r': "reach E U s' (insert t L) ch" by (rule reach.add [OF r t(1,2) n s'(1)])
  have "starts_at (tbs s' t) phys (page_of phys) virt ip" using b by (simp add: s'(2) starts_at_def)
  moreover have "\<not> starts_at (tbs s' u) phys (page_of phys) virt ip" if "u \<in> L" for u using none [OF that] that t(2) by (auto simp: s'(2))
  ultimately have "tb_find_pc E phys (page_of phys) virt ip s' = Inr t"
    using tb_find_pc_at [OF E reach_ok [OF E r'], of phys "page_of phys" virt ip] by auto
  then show ?thesis using s'(1) r' by blast
qed


text \<open>The tree of code addresses does not depend on the code.\<close>

lemma tb_find_code [simp]: "tb_find E p (s\<lparr>code := c\<rparr>) = tb_find E p s" "tb_find E p (s\<lparr>fcallout_patches := ps\<rparr>) = tb_find E p s"
  by (simp_all add: tb_find_def Let_def cong: if_cong)


subsection \<open>A state with one block\<close>

definition sample_cache :: "unit tcache" where
  "sample_cache = sample\<lparr>tbs := \<lambda>t. (tbs sample t)\<lparr>eip_phys := of_nat t, tb_eip_virt := of_nat t, tb_eip := of_nat t\<rparr>\<rparr>"

definition large_env :: "unit env" where
  "large_env = (sample_env (2 ^ 29))\<lparr>malloc_from_pool := \<lambda>k h. (5000, h)\<rparr>"

lemma large_env_ok: "env_ok large_env {100, 200}"
  by (auto simp: env_ok_def large_env_def sample_env_def malloc_fresh_def in_use_def region_def bump_def head_of_def tail_of_def nil_def)

lemma sample_new:
  assumes "tbs s t = tbs sample_cache t" "code s = code sample" "fcallout_patches s = []" "t \<in> {100, 200}"
  shows "fresh_tb s t" "good_block (tbs s t)" "code_span (tbs s t) = (if t = 100 then {0x1000..<0x1020} else {0x2000..<0x2020})"
proof -
  have sel: "tc_ptr (tbs s t) = (if t = 100 then 0x1000 else 0x2000)" "tc_len (tbs s t) = 32" "jmp_first (tbs s t) = t OR 2"
    "jmp_next (tbs s t) = (\<lambda>n. 0)" "jmp_offset (tbs s t) = (\<lambda>n. if n = 0 then 8 else NO_OFFSET)" "edge_offset (tbs s t) = (\<lambda>n. if n = 0 then 20 else NO_OFFSET)"
    by (simp_all add: assms(1) sample_cache_def sample_def sample_tb_def needle_tb_def tc_len_def)
  have j: "has_jump (tbs s t) n \<longleftrightarrow> n = 0" for n by (simp add: has_jump_def sel NO_OFFSET_def)
  show "code_span (tbs s t) = (if t = 100 then {0x1000..<0x1020} else {0x2000..<0x2020})" by (simp add: code_span_def sel)
  show "good_block (tbs s t)" by (auto simp: good_block_def sel j NO_OFFSET_def)
  show "fresh_tb s t" using assms(2,3,4)
    by (auto simp: fresh_tb_def j aligned_def dest_def site_def plain_def ld32_def sel) (simp_all add: sample_def)
qed

lemma sample_reach:
  "\<exists>s. reach large_env {100, 200} s {100} Map.empty \<and> tbs s = (tbs sample_cache)(100 := (tbs sample_cache 100)\<lparr>accessed_bit := True\<rparr>)
    \<and> code s = code sample \<and> fcallout_patches s = [] \<and> pool_locked_tb s = 0"
proof -
  have m: "bucket_malloc large_env h 64 \<noteq> 0" for h by (simp add: large_env_def sample_env_def bump_def)
  have f: "fcallout_patches sample_cache = []" "pool_locked_tb sample_cache = 0" "code sample_cache = code sample"
    by (simp_all add: sample_cache_def sample_def)
  obtain s0 where s0: "cache_init large_env sample_cache = Inr s0" "tbs s0 = tbs sample_cache" "code s0 = code sample"
      "fcallout_patches s0 = []" "pool_locked_tb s0 = 0"
    using cache_init_ok [OF large_env_ok m m f(1)] f by auto
  have r0: "reach large_env {100, 200} s0 {} Map.empty" by (rule reach.init [OF s0(1) m m f(1)])
  have n: "new_block s0 {} 100" using sample_new [of s0 100] s0 by (simp add: new_block_def)
  obtain s where s: "tb_add large_env 100 s0 = Inr s" "tbs s = (tbs s0)(100 := (tbs s0 100)\<lparr>accessed_bit := True\<rparr>)" "code s = code s0"
      "fcallout_patches s = fcallout_patches s0" "pool_locked_tb s = pool_locked_tb s0"
    using tb_add_ok [OF large_env_ok reach_ok [OF large_env_ok r0] _ _ n] by auto
  have "reach large_env {100, 200} s {100} Map.empty" using reach.add [OF r0 _ _ n s(1)] by simp
  then show ?thesis using s s0 by auto
qed

lemma sample_span: "tbs s = (tbs sample_cache)(100 := (tbs sample_cache 100)\<lparr>accessed_bit := True\<rparr>) \<Longrightarrow> code_span (tbs s 100) = {0x1000..<0x1020}"
  by (simp add: code_span_def tc_len_def sample_cache_def sample_def sample_tb_def)

theorem tb_find_correct_witness:
  "\<exists>s. reach large_env {100, 200} s {100} Map.empty \<and> tb_find large_env 0x1010 s = Inr 100 \<and> tb_find large_env 0x1020 s = Inr 0"
proof -
  obtain s where r: "reach large_env {100, 200} s {100} Map.empty" and sp: "code_span (tbs s 100) = {0x1000..<0x1020}"
    using sample_reach sample_span by blast
  have "tb_find large_env 0x1010 s = Inr 100" "tb_find large_env 0x1020 s = Inr 0"
    using tb_find_correct [OF large_env_ok r, where p = "0x1010"] tb_find_correct [OF large_env_ok r, where p = "0x1020"] sp by (auto split: if_splits)
  then show ?thesis using r by blast
qed


theorem tb_flush_empties_witness:
  "\<exists>s s'. reach large_env {100, 200} s {100} Map.empty \<and> tb_flush large_env s = Inr s' \<and> nb_tbs s' = 0"
proof -
  obtain s where r: "reach large_env {100, 200} s {100} Map.empty" "pool_locked_tb s = 0" using sample_reach by blast
  then show ?thesis using tb_flush_empties [OF large_env_ok r] by blast
qed

theorem tb_add_after_miss_witness:
  "\<exists>s s'. reach large_env {100, 200} s {100} Map.empty \<and> tb_find_pc large_env 200 0 200 200 s = Inr 0
    \<and> tb_add large_env 200 s = Inr s' \<and> tb_find_pc large_env 200 0 200 200 s' = Inr 200"
proof -
  obtain s where r: "reach large_env {100, 200} s {100} Map.empty" and T: "tbs s = (tbs sample_cache)(100 := (tbs sample_cache 100)\<lparr>accessed_bit := True\<rparr>)"
      "code s = code sample" "fcallout_patches s = []" using sample_reach by blast
  have pg: "page_of 200 = 0" by (simp add: page_of_def)
  have b: "eip_phys (tbs s 200) = 200" "tb_eip_virt (tbs s 200) = 200" "tb_eip (tbs s 200) = 200" "eip_phys (tbs s 100) = 100"
    by (simp_all add: T sample_cache_def)
  have n: "fresh_tb s 200" "good_block (tbs s 200)" "code_span (tbs s 200) = {0x2000..<0x2020}"
    using sample_new [of s 200] T by simp_all
  have m: "tb_find_pc large_env 200 (page_of 200) 200 200 s = Inr 0"
    using tb_find_pc_at [OF large_env_ok reach_ok [OF large_env_ok r], of 200 "page_of 200" 200 200] b(4) by (simp add: starts_at_def)
  have "\<exists>s'. tb_add large_env 200 s = Inr s' \<and> tb_find_pc large_env 200 (page_of 200) 200 200 s' = Inr 200"
    using tb_add_after_miss [OF large_env_ok r _ _ n(1,2) _ b(1-3) m] n(3) sample_span [OF T(1)] by auto
  then show ?thesis using r m unfolding pg by blast
qed



end
