(* ===== verification/Spec2Isabelle.thy ===== *)
theory Spec2Isabelle
  imports Prelude Vaddr I8259 Uart Pending Bitmap Palloc Bdrv Arith Cstring Heapsort Scheduling List_Sort Jumptable Rbtree_Search Tb_Reach
begin

text \<open>
  A verification library for the virtual machine monitor under \<^verbatim>\<open>src/monee\<close>.  File names
  below are relative to that directory.

  \<^bold>\<open>The program.\<close>  The monitor boots on bare hardware, runs one guest by dynamic binary
  translation and emulates its devices.  Its kernel has threads with semaphores, locks and
  condition variables over a preemptive round-robin scheduler (\<^verbatim>\<open>threads/\<close>,
  \<^verbatim>\<open>sys/interrupt.c\<close>), a page allocator over bitmaps (\<^verbatim>\<open>mem/palloc.c\<close>, \<^verbatim>\<open>lib/bitmap.c\<close>) and a
  library of lists, hash tables, trees, strings, sorting and 64-bit arithmetic (\<^verbatim>\<open>lib/\<close>).  The guest
  sees an emulated pair of interrupt controllers, a serial port and block devices
  (\<^verbatim>\<open>hw/\<close>); between two blocks of translated code the monitor delivers pending
  interrupts to it (\<^verbatim>\<open>peep/callouts.c\<close>), and it finds the translation of an indirect
  jump in a hash table (\<^verbatim>\<open>peep/jumptable2.c\<close>).

  \<^bold>\<open>How the code is modelled.\<close>  A routine is a function on explicit state with the result
  type \<open>'a res\<close> of theory \<open>Prelude\<close>: \<open>Inl\<close> of an error for a failed \<open>ASSERT\<close>, a \<open>PANIC\<close>, a
  processor trap or an access outside the modelled memory, and \<open>Inr\<close> of the result
  otherwise.  Machine integers are words where they can wrap.  Pointers are natural
  numbers; 0 is \<open>NULL\<close>.  A loop is recursion, structural or with a termination proof; a
  loop over linked memory, which ends only if the links are well formed, takes fuel, and running out of
  fuel is an error value of its own.  Every property of such a routine says that it returns when the fuel is
  larger than the number of elements (and than 32 for the loop of \<open>rehash\<close>, which clears at most 32 bits),
  so a result is never proved under the assumption that the routine returns.

  \<^bold>\<open>Theories.\<close>
  \<^item> \<open>Prelude\<close>: result type, counted loops and their total correctness rules, words, and
    the contract \<open>fifo\<close> of queues.
  \<^item> \<open>Vaddr\<close> (\<^verbatim>\<open>mem/vaddr.h\<close>, \<^verbatim>\<open>mem/pte.h\<close>, \<^verbatim>\<open>sys/loader.h\<close>): address translation between
    the monitor's virtual and physical addresses, page table entries and their round trips.
  \<^item> \<open>I8259\<close> (\<^verbatim>\<open>hw/i8259.c\<close>): the interrupt controllers as a record of registers, one
    definition per handler; which interrupt is asked for, priorities in service, the
    initialisation sequence, well-formedness of every reachable state.
  \<^item> \<open>Pending\<close> (\<^verbatim>\<open>peep/callouts.c\<close>): delivery of the requested interrupt to the guest, and the
    loss of line 7.
  \<^item> \<open>Uart\<close> (\<^verbatim>\<open>hw/uart.c\<close>, \<^verbatim>\<open>hw/chr_driver.c\<close>): the serial port with its interrupt line, over an
    arbitrary sequence of device calls.
  \<^item> \<open>Bitmap\<close>, \<open>Palloc\<close> (\<^verbatim>\<open>lib/bitmap.c\<close>, \<^verbatim>\<open>mem/palloc.c\<close>): bitmaps refine lists of booleans;
    the allocator keeps its maps and counters consistent and gives out disjoint pages.
  \<^item> \<open>Bdrv\<close> (\<^verbatim>\<open>devices/disk.c\<close>, \<^verbatim>\<open>hw/bdrv.c\<close>, \<^verbatim>\<open>hw/displace_bdrv.c\<close>, \<^verbatim>\<open>hw/append_bdrv.c\<close>): the
    block devices; the monitor's sectors are protected and reads return the last write.
  \<^item> \<open>Arith\<close>, \<open>Cstring\<close>, \<open>Stdlib\<close>, \<open>Heapsort\<close> (\<^verbatim>\<open>lib/arithmetic.c\<close>, \<^verbatim>\<open>lib/string.c\<close>,
    \<^verbatim>\<open>lib/stdlib.c\<close>): division, string routines on byte memory, number parsing, heap sort
    and binary search.
  \<^item> \<open>Linked_List\<close>, \<open>List_Sort\<close> (\<^verbatim>\<open>lib/list.c\<close>): lists on explicit links refine sequences; the
    natural merge sort.
  \<^item> \<open>Hash\<close>, \<open>Jumptable\<close> (\<^verbatim>\<open>lib/hash.c\<close>, \<^verbatim>\<open>peep/jumptable2.c\<close>): hash tables over those lists, with
    rehashing, hold sets of elements; the jump table on top is a finite map.
  \<^item> \<open>Rbtree\<close> (\<^verbatim>\<open>lib/rbtree.c\<close>): red-black trees on explicit links with a sentinel.
    \<open>Rbtree_Shape\<close> relates the links to a coloured tree, or to a subtree and its context;
    \<open>Rbtree_Insert\<close> and \<open>Rbtree_Delete\<close> treat the rebalancing loops, each side once for both
    directions; \<open>Rbtree_Search\<close> has traversal, search and the refinement of sorted sequences.
  \<^item> \<open>Tb\<close> (\<^verbatim>\<open>peep/tb.c\<close>, \<^verbatim>\<open>peep/jumptable1.c\<close>, parts of \<^verbatim>\<open>peep/forced_callouts.c\<close>): the translation
    cache over the hash tables, the tree and the lists, with the operands of the jumps as bytes of
    the translated code.  \<open>Tb_Chain\<close> shows that the circular lists of tagged pointers and the displacements in
    the code stay in step when jumps are linked and blocks unlinked.  \<open>Tb_Cache\<close> has the invariant that ties the
    tables, the tree, the lists and the links to one set of blocks, and that adding, freeing and replacing a block
    keep it; \<open>Tb_Reach\<close> has the states that are reached from the start and the properties of lookup, freeing,
    flushing, allocation and patching there.
  \<^item> \<open>Threads\<close>, \<open>Synch\<close> (\<^verbatim>\<open>threads/thread.c\<close>, \<^verbatim>\<open>threads/synch.c\<close>, \<^verbatim>\<open>sys/interrupt.c\<close>): the kernel state
    and, per thread, a stack of frames still to run; a step runs one frame of the current
    thread with interrupts possible in between.  \<open>Concurrency\<close> has the consistency
    invariant of threads and queues, \<open>Mutex\<close> those of locks and semaphores, and \<open>Scheduling\<close> the
    boot sequence, reachability and the properties: mutual exclusion, no lost wake-up,
    well-formedness, round robin, preemption.

  \<^bold>\<open>Interfaces.\<close>  The contracts between components are locales, interpreted on the
  definitions of the model: \<open>irq_lines\<close> (the interrupt controllers, for the devices that raise
  lines), \<open>range_allocator\<close> (bitmaps, for the page allocator), \<open>block_device\<close> (the block
  drivers), \<open>comparator\<close> (comparison routines of sorting and searching), \<open>fifo\<close> (queues:
  lists), \<open>hash_eq\<close> (the two functions of a hash table, interpreted on those of the table of
  program counters) and its extension \<open>hash_fun\<close> by transitivity (interpreted on those of the jump table).

  \<^bold>\<open>Parameters.\<close>  Code that is not read here is a parameter: the comparison and hash
  callbacks, \<open>malloc\<close> for the hash tables (the memory it gives out is not in use), the
  allocator of the pool and the random numbers of the translation cache, the offsets of the members of a
  translation block, and the contents of uninitialised memory.

  \<^bold>\<open>Not modelled.\<close>  The binary translator (\<^verbatim>\<open>peep/\<close> but for the parts above): its rules are a table that the
  build generates, and its product runs on the processor.  The disassembler and the
  vendored QEMU and Pintos trees, which are not parts of the monitor.  Code that is input and output on ports or loads of
  processor tables: descriptor tables, PCI, disk and display hardware, timer, real-time clock.
  Assembly: boot sector, context switch, interrupt stubs; a context switch is the change of the
  current thread.  Record and replay, swapping and shadow paging, which depend on the
  performance counters, page faults and page tables of the processor.  Formatted output.
\<close>

end
